(* ===== verification/Dahdi_Prelude.thy ===== *)
theory Dahdi_Prelude
  imports Main "HOL-Library.Word"
begin

text \<open>
  Shared vocabulary of the development: the C integer types the sources use, the
  kernel error numbers, bit strings of words (most significant bit first, the order
  in which HDLC bits travel), arithmetic of ring indices, and the collections of
  facts that component proofs pass to the simplifier.
\<close>

unbundle bit_operations_syntax

section \<open>C types\<close>

type_synonym u8 = "8 word"
type_synonym u16 = "16 word"
type_synonym u32 = "32 word"

text \<open>The negated error numbers returned by handlers, as the kernel headers define them.\<close>

abbreviation (input) EPERM :: int where "EPERM \<equiv> 1"
abbreviation (input) EIO :: int where "EIO \<equiv> 5"
abbreviation (input) ENXIO :: int where "ENXIO \<equiv> 6"
abbreviation (input) EAGAIN :: int where "EAGAIN \<equiv> 11"
abbreviation (input) ENOMEM :: int where "ENOMEM \<equiv> 12"
abbreviation (input) EFAULT :: int where "EFAULT \<equiv> 14"
abbreviation (input) EBUSY :: int where "EBUSY \<equiv> 16"
abbreviation (input) ENODEV :: int where "ENODEV \<equiv> 19"
abbreviation (input) EINVAL :: int where "EINVAL \<equiv> 22"
abbreviation (input) ENOTTY :: int where "ENOTTY \<equiv> 25"
abbreviation (input) ENOSPC :: int where "ENOSPC \<equiv> 28"
abbreviation (input) ENOSYS :: int where "ENOSYS \<equiv> 38"
abbreviation (input) ENODATA :: int where "ENODATA \<equiv> 61"

named_theorems ring_simps \<open>index arithmetic of circular buffers\<close>
named_theorems bits_simps \<open>bit strings of words\<close>

section \<open>Bit strings of words, most significant bit first\<close>

text \<open>The \<open>n\<close> topmost bits of a 32-bit register, the queue layout of the HDLC engine.\<close>

definition topbits :: "u32 \<Rightarrow> nat \<Rightarrow> bool list" where
  "topbits w n = map (\<lambda>i. bit w (31 - i)) [0..<n]"

text \<open>Shifting a bit string into a word from the right, one bit at a time.\<close>

definition shift_in :: "'a::len word \<Rightarrow> bool list \<Rightarrow> 'a word" where
  "shift_in w bs = foldl (\<lambda>d b. push_bit 1 d OR of_bool b) w bs"

text \<open>The least significant \<open>n\<close> bits, lowest first: the order in which octets are sent.\<close>

definition lsb_bits :: "nat \<Rightarrow> u8 \<Rightarrow> bool list" where
  "lsb_bits n y = map (bit y) [0..<n]"

lemma length_topbits [simp]: "length (topbits w n) = n"
  by (simp add: topbits_def)

lemma nth_topbits [simp]: "i < n \<Longrightarrow> topbits w n ! i = bit w (31 - i)"
  by (simp add: topbits_def)

lemma topbits_0 [simp]: "topbits w 0 = []"
  by (simp add: topbits_def)

lemma length_lsb_bits [simp]: "length (lsb_bits n y) = n"
  by (simp add: lsb_bits_def)

lemma take_topbits: "k \<le> n \<Longrightarrow> take k (topbits w n) = topbits w k"
  by (simp add: topbits_def take_map)

lemma topbits_push_bit:
  "k \<le> n \<Longrightarrow> n \<le> 32 \<Longrightarrow> topbits (push_bit k w) (n - k) = drop k (topbits w n)"
  by (rule nth_equalityI) (auto simp: bit_simps add.commute)

text \<open>
  Appending to the queue: or-ing a top-aligned value, moved down by the number of bits
  already queued, is concatenation.
\<close>

lemma topbits_append:
  assumes "n + k \<le> 32" and "\<And>i. i < 32 - n \<Longrightarrow> \<not> bit w i"
  shows "topbits (w OR drop_bit n v) (n + k) = topbits w n @ topbits v k"
proof (rule nth_equalityI)
  fix i assume i: "i < length (topbits (w OR drop_bit n v) (n + k))"
  show "topbits (w OR drop_bit n v) (n + k) ! i = (topbits w n @ topbits v k) ! i"
  proof (cases "i < n")
    case True
    then show ?thesis using i assms
      by (auto simp: nth_append bit_simps dest: bit_imp_le_length)
  next
    case False
    with i assms have "31 - i < 32 - n" and "n + (31 - i) = 31 - (i - n)" by auto
    with False i show ?thesis using assms(2) by (auto simp: nth_append bit_simps)
  qed
qed simp

lemma shift_in_Nil [simp]: "shift_in w [] = w"
  by (simp add: shift_in_def)

lemma shift_in_Cons [simp]: "shift_in w (b # bs) = shift_in (push_bit 1 w OR of_bool b) bs"
  by (simp add: shift_in_def)

lemma shift_in_append: "shift_in w (xs @ ys) = shift_in (shift_in w xs) ys"
  by (simp add: shift_in_def)

lemma bit_shift_step_0 [bits_simps]: "bit (push_bit 1 d OR of_bool b :: 'a::len word) 0 = b"
  by (simp add: bit_or_iff bit_push_bit_iff bit_of_bool_iff del: push_bit_Suc)

lemma bit_shift_step_Suc [bits_simps]:
  "bit (push_bit 1 d OR of_bool b :: 'a::len word) (Suc j) = (Suc j < LENGTH('a) \<and> bit d j)"
  by (auto simp: bit_or_iff bit_push_bit_iff bit_of_bool_iff simp del: push_bit_Suc)

lemma bit_shift_in:
  "i < LENGTH('a) \<Longrightarrow> bit (shift_in (w :: 'a::len word) bs) i =
     (if i < length bs then bs ! (length bs - Suc i) else bit w (i - length bs))"
proof (induction bs arbitrary: i rule: rev_induct)
  case Nil
  then show ?case by simp
next
  case (snoc b bs)
  have step: "shift_in w (bs @ [b]) = push_bit 1 (shift_in w bs) OR of_bool b"
    by (simp add: shift_in_append del: push_bit_Suc)
  show ?case
  proof (cases i)
    case 0
    then show ?thesis by (simp add: step bits_simps nth_append del: push_bit_Suc One_nat_def)
  next
    case (Suc j)
    with snoc.prems have "j < LENGTH('a)" by simp
    from snoc.IH [OF this] Suc snoc.prems show ?thesis
      by (auto simp: step bits_simps nth_append simp del: push_bit_Suc One_nat_def)
  qed
qed

section \<open>Ring indices\<close>

text \<open>\<open>(i + 1) mod n\<close> as the sources write it: increment, then fold back at \<open>n\<close>.\<close>

lemma ring_succ_lt [ring_simps]: "0 < (n::nat) \<Longrightarrow> (i + 1) mod n < n"
  by simp

lemma ring_sub_bound [ring_simps]:
  "(0::int) \<le> a \<Longrightarrow> a < n \<Longrightarrow> 0 \<le> b \<Longrightarrow> b < n \<Longrightarrow> 0 \<le> (a - b) mod n \<and> (a - b) mod n < n"
  by simp

text \<open>A C \<open>int\<close> is kept as the integer it stands for, reduced to its 32 bits after arithmetic that can leave them.\<close>

definition i32 :: "int \<Rightarrow> int" where
  "i32 i = (i + 2147483648) mod 4294967296 - 2147483648"

lemma i32_id: "-2147483648 \<le> i \<Longrightarrow> i < 2147483648 \<Longrightarrow> i32 i = i"
  by (simp add: i32_def)

lemma i32_range: "- (2 ^ 31) \<le> i32 a \<and> i32 a < 2 ^ 31"
  by (simp add: i32_def)

lemma i32_add: "i32 (i32 a + b) = i32 (a + b)"
  by (simp add: i32_def mod_simps) (smt (verit) mod_add_left_eq mod_diff_left_eq)

end
