(* ===== verification/IndexRings.thy ===== *)
theory IndexRings
  imports Dahdi_Prelude
begin

text \<open>
  Circular buffers. The channel code keeps three kinds of ring with two indices: the
  event buffer, the conference chunk queues and the read and write buffers. Here are the
  arithmetic of a ring whose indices use \<open>-1\<close> for ``nothing to read'' and ``no room''
  (\<open>slots\<close>, \<open>ring_inv\<close>), and the interface \<open>bounded_fifo\<close> that the rings
  provide to their users.
\<close>

section \<open>Rings of slots with sentinel indices\<close>

text \<open>
  \<open>i\<close> is the slot to fill next, or \<open>-1\<close> when every slot is full; \<open>j\<close> is the slot to
  drain next, or \<open>-1\<close> when every slot is empty.
\<close>

definition ring_inv :: "int \<Rightarrow> int \<Rightarrow> int \<Rightarrow> bool" where
  "ring_inv n i j \<longleftrightarrow> 2 \<le> n \<and>
     (if j < 0 then j = -1 \<and> 0 \<le> i \<and> i < n
      else j < n \<and> (if i < 0 then i = -1 else i < n \<and> i \<noteq> j))"

definition ring_used :: "int \<Rightarrow> int \<Rightarrow> int \<Rightarrow> nat" where
  "ring_used n i j =
     (if j < 0 then 0 else if i < 0 then nat n
      else if j \<le> i then nat (i - j) else nat (i - j + n))"

text \<open>The slots in use, the oldest first.\<close>

definition slots :: "int \<Rightarrow> int \<Rightarrow> int \<Rightarrow> nat list" where
  "slots n i j = map (\<lambda>k. nat ((j + int k) mod n)) [0..<ring_used n i j]"

text \<open>What filling and draining a slot do to the indices.\<close>

definition ring_push :: "int \<Rightarrow> int \<Rightarrow> int \<Rightarrow> int \<times> int" where
  "ring_push n i j =
     ((if (i + 1) mod n = j then -1 else (i + 1) mod n), (if j < 0 then i else j))"

definition ring_pull :: "int \<Rightarrow> int \<Rightarrow> int \<Rightarrow> int \<times> int" where
  "ring_pull n i j =
     ((if i < 0 then j else i), (if (j + 1) mod n = i then -1 else (j + 1) mod n))"

lemma length_slots [simp]: "length (slots n i j) = ring_used n i j"
  by (simp add: slots_def)

lemma slots_empty [simp]: "j < 0 \<Longrightarrow> slots n i j = []"
  by (simp add: slots_def ring_used_def)

lemma slots_lt: "ring_inv n i j \<Longrightarrow> s \<in> set (slots n i j) \<Longrightarrow> s < nat n"
  by (auto simp: slots_def ring_inv_def nat_less_iff)

lemma mod_succ: "(0::int) \<le> i \<Longrightarrow> i < n \<Longrightarrow> (i + 1) mod n = (if i + 1 = n then 0 else i + 1)"
  by (auto simp: mod_pos_pos_trivial)

lemma ring_used_le: "ring_inv n i j \<Longrightarrow> ring_used n i j \<le> nat n"
  by (auto simp: ring_inv_def ring_used_def split: if_splits)

lemma ring_room_iff: "ring_inv n i j \<Longrightarrow> (ring_used n i j < nat n) = (0 \<le> i)"
  by (auto simp: ring_inv_def ring_used_def split: if_splits)

lemma ring_used_0_iff: "ring_inv n i j \<Longrightarrow> (ring_used n i j = 0) = (j < 0)"
  by (auto simp: ring_inv_def ring_used_def split: if_splits)

lemma ring_push_inv:
  "ring_inv n i j \<Longrightarrow> 0 \<le> i \<Longrightarrow> ring_push n i j = (i', j') \<Longrightarrow> ring_inv n i' j'"
  by (auto simp: ring_inv_def ring_push_def mod_succ split: if_splits)

lemma ring_push_used:
  "ring_inv n i j \<Longrightarrow> 0 \<le> i \<Longrightarrow> ring_push n i j = (i', j') \<Longrightarrow>
   ring_used n i' j' = Suc (ring_used n i j)"
  by (auto simp: ring_inv_def ring_push_def ring_used_def mod_succ split: if_splits)

lemma ring_pull_inv:
  "ring_inv n i j \<Longrightarrow> 0 \<le> j \<Longrightarrow> ring_pull n i j = (i', j') \<Longrightarrow> ring_inv n i' j'"
  by (auto simp: ring_inv_def ring_pull_def mod_succ split: if_splits)

lemma ring_pull_used:
  "ring_inv n i j \<Longrightarrow> 0 \<le> j \<Longrightarrow> ring_pull n i j = (i', j') \<Longrightarrow>
   ring_used n i j = Suc (ring_used n i' j')"
  by (auto simp: ring_inv_def ring_pull_def ring_used_def mod_succ split: if_splits)

lemma ring_last_slot:
  "ring_inv n i j \<Longrightarrow> 0 \<le> i \<Longrightarrow> 0 \<le> j \<Longrightarrow> (j + int (ring_used n i j)) mod n = i"
  by (auto simp: ring_inv_def ring_used_def)

lemma mod_wrap: "(0::int) \<le> a \<Longrightarrow> a < 2 * n \<Longrightarrow> a mod n = (if a < n then a else a - n)"
  using mod_pos_pos_trivial [of "a - n" n] by (auto simp: mod_pos_pos_trivial)

lemma ring_push_slots:
  assumes "ring_inv n i j" and "0 \<le> i" and "ring_push n i j = (i', j')"
  shows "slots n i' j' = slots n i j @ [nat i]"
proof (cases "j < 0")
  case True
  with assms have "j' = i" "ring_used n i j = 0"
    by (auto simp: ring_push_def ring_used_def)
  with ring_push_used [OF assms] True assms(1,2) show ?thesis
    by (auto simp: slots_def ring_inv_def)
next
  case False
  with assms have "j' = j" by (auto simp: ring_push_def)
  with ring_push_used [OF assms] ring_last_slot [OF assms(1,2)] False show ?thesis
    by (simp add: slots_def)
qed

lemma ring_pull_slots:
  assumes "ring_inv n i j" and "0 \<le> j" and "ring_pull n i j = (i', j')"
  shows "slots n i j = nat j # slots n i' j'"
proof -
  from assms have jn: "j < n" and n: "0 < n" by (auto simp: ring_inv_def)
  from ring_pull_used [OF assms] have u: "ring_used n i j = Suc (ring_used n i' j')" .
  have "slots n i j = nat j # map (\<lambda>k. nat ((j + 1 + int k) mod n)) [0..<ring_used n i' j']"
    using assms(2) jn by (simp add: slots_def u map_upt_Suc algebra_simps del: upt_Suc)
  moreover have "map (\<lambda>k. nat ((j + 1 + int k) mod n)) [0..<ring_used n i' j'] = slots n i' j'"
  proof (cases "j' < 0")
    case True
    then show ?thesis by (simp add: ring_used_def)
  next
    case False
    with assms have "j' = (j + 1) mod n" by (auto simp: ring_pull_def split: if_splits)
    then show ?thesis by (simp add: slots_def mod_simps)
  qed
  ultimately show ?thesis by simp
qed

text \<open>A slot waiting to be filled is not in use, and no slot is used twice.\<close>

lemma slot_index:
  "0 \<le> j \<Longrightarrow> j < n \<Longrightarrow> int k \<le> n \<Longrightarrow>
   (j + int k) mod n = (if j + int k < n then j + int k else j + int k - n)"
  by (intro mod_wrap) auto

lemma ring_fresh_slot: "ring_inv n i j \<Longrightarrow> 0 \<le> i \<Longrightarrow> nat i \<notin> set (slots n i j)"
proof
  assume inv: "ring_inv n i j" and i: "0 \<le> i" and "nat i \<in> set (slots n i j)"
  then obtain k where k: "k < ring_used n i j" and e: "nat i = nat ((j + int k) mod n)"
    by (auto simp: slots_def)
  from k inv i have j: "0 \<le> j" and jn: "j < n" and il: "i < n" and n: "2 \<le> n"
    by (auto simp: ring_inv_def ring_used_def split: if_splits)
  from k i j il jn have kn: "int k < (if j \<le> i then i - j else i - j + n)"
    by (auto simp: ring_used_def nat_less_iff split: if_splits)
  from e i n have "i = (j + int k) mod n" by (simp add: nat_eq_iff2)
  moreover have "(j + int k) mod n = (if j + int k < n then j + int k else j + int k - n)"
    using j jn kn il by (intro slot_index) (auto split: if_splits)
  ultimately show False using kn il i by (auto split: if_splits)
qed

lemma distinct_slots: "ring_inv n i j \<Longrightarrow> distinct (slots n i j)"
proof -
  assume inv: "ring_inv n i j"
  have "inj_on (\<lambda>k. nat ((j + int k) mod n)) {0..<ring_used n i j}"
  proof (rule inj_onI)
    fix a b
    assume a: "a \<in> {0..<ring_used n i j}" and b: "b \<in> {0..<ring_used n i j}"
      and e: "nat ((j + int a) mod n) = nat ((j + int b) mod n)"
    from a inv have j: "0 \<le> j" "j < n" by (auto simp: ring_inv_def ring_used_def split: if_splits)
    from a b ring_used_le [OF inv] have "int a < n" "int b < n" by auto
    with slot_index [OF j, of a] slot_index [OF j, of b] e j show "a = b"
      by (auto split: if_splits)
  qed
  then show ?thesis by (simp add: slots_def distinct_map)
qed

section \<open>The interface of a bounded queue\<close>

text \<open>
  What a user of a ring may rely on: entering into a full queue changes nothing and is
  reported, entering otherwise appends, and taking yields the oldest element.
\<close>

locale bounded_fifo =
  fixes inv :: "'s \<Rightarrow> bool"
    and contents :: "'s \<Rightarrow> 'a list"
    and capacity :: nat
    and enq :: "'a \<Rightarrow> 's \<Rightarrow> 's"
    and deq :: "'s \<Rightarrow> 'a option \<times> 's"
    and item :: "'a \<Rightarrow> bool"
  assumes enq_inv: "inv s \<Longrightarrow> item x \<Longrightarrow> inv (enq x s)"
    and enq_contents: "inv s \<Longrightarrow> item x \<Longrightarrow>
      contents (enq x s) = (if length (contents s) < capacity then contents s @ [x] else contents s)"
    and deq_inv: "inv s \<Longrightarrow> inv (snd (deq s))"
    and deq_value: "inv s \<Longrightarrow>
      fst (deq s) = (case contents s of [] \<Rightarrow> None | x # _ \<Rightarrow> Some x)"
    and deq_contents: "inv s \<Longrightarrow> contents (snd (deq s)) = tl (contents s)"
    and bounded: "inv s \<Longrightarrow> length (contents s) \<le> capacity"
begin

text \<open>Entering a list of elements, and taking until the queue is empty or \<open>n\<close> are taken.\<close>

definition enq_all :: "'a list \<Rightarrow> 's \<Rightarrow> 's" where
  "enq_all xs s = fold enq xs s"

fun deq_n :: "nat \<Rightarrow> 's \<Rightarrow> 'a list \<times> 's" where
  "deq_n 0 s = ([], s)"
| "deq_n (Suc n) s = (case deq s of
      (None, s') \<Rightarrow> ([], s')
    | (Some x, s') \<Rightarrow> (let (xs, s'') = deq_n n s' in (x # xs, s'')))"

lemma enq_all_refines:
  "inv s \<Longrightarrow> \<forall>x \<in> set xs. item x \<Longrightarrow> inv (enq_all xs s) \<and>
     contents (enq_all xs s) = contents s @ take (capacity - length (contents s)) xs"
proof (induction xs arbitrary: s)
  case Nil
  then show ?case by (simp add: enq_all_def)
next
  case (Cons x xs)
  from Cons.prems Cons.IH [of "enq x s"] enq_inv [of s x] enq_contents [of s x]
    bounded [OF Cons.prems(1)]
  show ?case
    by (cases "length (contents s) < capacity") (auto simp: enq_all_def Suc_diff_Suc take_Cons')
qed

lemma deq_n_refines:
  "inv s \<Longrightarrow> inv (snd (deq_n n s)) \<and> fst (deq_n n s) = take n (contents s) \<and>
     contents (snd (deq_n n s)) = drop n (contents s)"
proof (induction n arbitrary: s)
  case 0
  then show ?case by simp
next
  case (Suc n)
  obtain v s' where d: "deq s = (v, s')" by fastforce
  from Suc.prems deq_inv [of s] deq_value [of s] deq_contents [of s] d
  have s': "inv s'" "contents s' = tl (contents s)"
    "v = (case contents s of [] \<Rightarrow> None | x # _ \<Rightarrow> Some x)" by auto
  from Suc.IH [OF s'(1)] s' d show ?case
    by (cases "contents s") (auto simp: split_beta)
qed

text \<open>First in, first out: from an empty queue, what fits comes out in order.\<close>

lemma fifo_order:
  assumes "inv s" and "contents s = []" and "\<forall>x \<in> set xs. item x"
  shows "fst (deq_n (length xs) (enq_all xs s)) = take capacity xs"
  using deq_n_refines [OF conjunct1 [OF enq_all_refines [OF assms(1,3)]]]
    enq_all_refines [OF assms(1,3)] assms(2) by (simp add: min_def)

end

end
