(* ===== verification/Channel.thy ===== *)
theory Channel
  imports IndexRings
begin

text \<open>
  The static part of a channel and of its span, as \<^verbatim>\<open>include/dahdi/kernel.h\<close> and
  \<^verbatim>\<open>user.h\<close> declare them: flags, signalling types, alarms, the operations a board
  driver registers, and the functions of \<^verbatim>\<open>dahdi-base.c\<close> that only read them
  (cross connects, idle bits, names). The record \<open>dahdi_chan\<close> is extended by the
  theories of the components that own the other fields of the C structure.
\<close>

section \<open>Constants\<close>

text \<open>Channel and span flags; \<open>chan->flags\<close> is the set of the bits that are on.\<close>

datatype dahdi_flag =
    FLAG_REGISTERED | FLAG_RUNNING | FLAG_RBS
  | FLAG_DTMFDECODE | FLAG_MFDECODE | FLAG_ECHOCANCEL | FLAG_HDLC
  | FLAG_CLEAR | FLAG_AUDIO | FLAG_OPEN | FLAG_FCS | FLAG_LINEAR | FLAG_PPP | FLAG_T1PPP
  | FLAG_SIGFREEZE | FLAG_NOSTDTXRX | FLAG_LOOPED | FLAG_MTP2 | FLAG_HDLC56
  | FLAG_BUFEVENTS | FLAG_TXUNDERRUN | FLAG_RXOVERRUN | FLAG_DEVFILE

text \<open>Signalling types are bit masks.\<close>

abbreviation (input) SIG_NONE :: u32 where "SIG_NONE \<equiv> 0"
abbreviation (input) SIG_FXSLS :: u32 where "SIG_FXSLS \<equiv> 0x2001"
abbreviation (input) SIG_FXSGS :: u32 where "SIG_FXSGS \<equiv> 0x2002"
abbreviation (input) SIG_FXSKS :: u32 where "SIG_FXSKS \<equiv> 0x2004"
abbreviation (input) SIG_FXOLS :: u32 where "SIG_FXOLS \<equiv> 0x1008"
abbreviation (input) SIG_FXOGS :: u32 where "SIG_FXOGS \<equiv> 0x1010"
abbreviation (input) SIG_FXOKS :: u32 where "SIG_FXOKS \<equiv> 0x1020"
abbreviation (input) SIG_EM :: u32 where "SIG_EM \<equiv> 0x40"
abbreviation (input) SIG_CLEAR :: u32 where "SIG_CLEAR \<equiv> 0x80"
abbreviation (input) SIG_HDLCRAW :: u32 where "SIG_HDLCRAW \<equiv> 0x180"
abbreviation (input) SIG_HDLCFCS :: u32 where "SIG_HDLCFCS \<equiv> 0x380"
abbreviation (input) SIG_HDLCNET :: u32 where "SIG_HDLCNET \<equiv> 0x780"
abbreviation (input) SIG_SLAVE :: u32 where "SIG_SLAVE \<equiv> 0x800"
abbreviation (input) SIG_SF :: u32 where "SIG_SF \<equiv> 0x4000"
abbreviation (input) SIG_CAS :: u32 where "SIG_CAS \<equiv> 0x8000"
abbreviation (input) SIG_DACS :: u32 where "SIG_DACS \<equiv> 0x10080"
abbreviation (input) SIG_EM_E1 :: u32 where "SIG_EM_E1 \<equiv> 0x20000"
abbreviation (input) SIG_DACS_RBS :: u32 where "SIG_DACS_RBS \<equiv> 0x50000"
abbreviation (input) SIG_HARDHDLC :: u32 where "SIG_HARDHDLC \<equiv> 0x80080"
abbreviation (input) SIG_MTP2 :: u32 where "SIG_MTP2 \<equiv> 0x100380"
abbreviation (input) SIG_BROKEN :: u32 where "SIG_BROKEN \<equiv> 0x80000000"
abbreviation (input) SIGMASK_FXO :: u32 where "SIGMASK_FXO \<equiv> 0x1000"
abbreviation (input) SIGMASK_FXS :: u32 where "SIGMASK_FXS \<equiv> 0x2000"
abbreviation (input) SIGMASK_DACS :: u32 where "SIGMASK_DACS \<equiv> 0x10000"

abbreviation (input) ABIT :: int where "ABIT \<equiv> 8"
abbreviation (input) BBIT :: int where "BBIT \<equiv> 4"
abbreviation (input) CBIT :: int where "CBIT \<equiv> 2"
abbreviation (input) DBIT :: int where "DBIT \<equiv> 1"
abbreviation (input) BITS_ABCD :: int where "BITS_ABCD \<equiv> 15"
abbreviation (input) BITS_ABD :: int where "BITS_ABD \<equiv> 13"
abbreviation (input) BITS_ACD :: int where "BITS_ACD \<equiv> 11"
abbreviation (input) BITS_BCD :: int where "BITS_BCD \<equiv> 7"
abbreviation (input) BITS_AC :: int where "BITS_AC \<equiv> 10"
abbreviation (input) BITS_BD :: int where "BITS_BD \<equiv> 5"

abbreviation (input) ALARM_RECOVER :: u32 where "ALARM_RECOVER \<equiv> 1"
abbreviation (input) ALARM_LOOPBACK :: u32 where "ALARM_LOOPBACK \<equiv> 2"
abbreviation (input) ALARM_YELLOW :: u32 where "ALARM_YELLOW \<equiv> 4"
abbreviation (input) ALARM_RED :: u32 where "ALARM_RED \<equiv> 8"
abbreviation (input) ALARM_BLUE :: u32 where "ALARM_BLUE \<equiv> 16"
abbreviation (input) ALARM_NOTOPEN :: u32 where "ALARM_NOTOPEN \<equiv> 32"

abbreviation (input) EVENT_NONE :: int where "EVENT_NONE \<equiv> 0"
abbreviation (input) EVENT_ONHOOK :: int where "EVENT_ONHOOK \<equiv> 1"
abbreviation (input) EVENT_RINGOFFHOOK :: int where "EVENT_RINGOFFHOOK \<equiv> 2"
abbreviation (input) EVENT_WINKFLASH :: int where "EVENT_WINKFLASH \<equiv> 3"
abbreviation (input) EVENT_ALARM :: int where "EVENT_ALARM \<equiv> 4"
abbreviation (input) EVENT_NOALARM :: int where "EVENT_NOALARM \<equiv> 5"
abbreviation (input) EVENT_ABORT :: int where "EVENT_ABORT \<equiv> 6"
abbreviation (input) EVENT_OVERRUN :: int where "EVENT_OVERRUN \<equiv> 7"
abbreviation (input) EVENT_BADFCS :: int where "EVENT_BADFCS \<equiv> 8"
abbreviation (input) EVENT_DIALCOMPLETE :: int where "EVENT_DIALCOMPLETE \<equiv> 9"
abbreviation (input) EVENT_RINGERON :: int where "EVENT_RINGERON \<equiv> 10"
abbreviation (input) EVENT_RINGEROFF :: int where "EVENT_RINGEROFF \<equiv> 11"
abbreviation (input) EVENT_HOOKCOMPLETE :: int where "EVENT_HOOKCOMPLETE \<equiv> 12"
abbreviation (input) EVENT_BITSCHANGED :: int where "EVENT_BITSCHANGED \<equiv> 13"
abbreviation (input) EVENT_PULSE_START :: int where "EVENT_PULSE_START \<equiv> 14"
abbreviation (input) EVENT_TIMER_EXPIRED :: int where "EVENT_TIMER_EXPIRED \<equiv> 15"
abbreviation (input) EVENT_TIMER_PING :: int where "EVENT_TIMER_PING \<equiv> 16"
abbreviation (input) EVENT_RINGBEGIN :: int where "EVENT_RINGBEGIN \<equiv> 18"
abbreviation (input) EVENT_REMOVED :: int where "EVENT_REMOVED \<equiv> 20"
abbreviation (input) EVENT_READ_OVERRUN :: int where "EVENT_READ_OVERRUN \<equiv> 29"
abbreviation (input) EVENT_WRITE_UNDERRUN :: int where "EVENT_WRITE_UNDERRUN \<equiv> 30"
abbreviation (input) EVENT_PULSEDIGIT :: int where "EVENT_PULSEDIGIT \<equiv> 0x10000"

abbreviation (input) DAHDI_CHUNKSIZE :: nat where "DAHDI_CHUNKSIZE \<equiv> 8"
abbreviation (input) LAW_DEFAULT :: int where "LAW_DEFAULT \<equiv> 0"
abbreviation (input) LAW_MULAW :: int where "LAW_MULAW \<equiv> 1"
abbreviation (input) LAW_ALAW :: int where "LAW_ALAW \<equiv> 2"

section \<open>Spans and channels\<close>

text \<open>
  The operations of a board driver are code behind function pointers: \<open>None\<close> is a
  pointer the driver left out, \<open>Some f\<close> a driver function that returns \<open>f\<close> of its
  argument. Each call made is recorded in \<open>drv_calls\<close> of the channel, the latest last.
  \<open>op_dacs\<close> also holds the identity of the function, which \<open>can_dacs_chans\<close> compares.
\<close>

record span_ops =
  op_rbsbits :: "(int \<Rightarrow> int) option"
  op_hooksig :: "(int \<Rightarrow> int) option"
  op_sethook :: "(int \<Rightarrow> int) option"
  op_open :: "int option"
  op_close :: "int option"
  op_chanconfig :: "(u32 \<Rightarrow> int) option"
  op_dacs :: "(nat \<times> (int option \<Rightarrow> int)) option"
  op_enable_hw_preechocan :: "int option"
  op_disable_hw_preechocan :: bool
  op_hdlc_hard_xmit :: bool

record dahdi_span =
  spanno :: int
  span_flags :: "dahdi_flag set"
  span_deflaw :: int
  span_alarms :: u32
  span_operations :: span_ops

datatype drv_call =
    Drv_rbsbits int
  | Drv_hooksig int
  | Drv_sethook int
  | Drv_open
  | Drv_close
  | Drv_chanconfig u32
  | Drv_dacs "int option"
  | Drv_enable_hw_preechocan
  | Drv_disable_hw_preechocan
  | Drv_hdlc_hard_xmit

record dahdi_chan =
  channo :: int
  chanpos :: int
  chan_flags :: "dahdi_flag set"
  sig :: u32
  sigcap :: u32
  chan_alarms :: u32
  chan_span :: "dahdi_span option"
  idlebits :: int
  drv_calls :: "drv_call list"

abbreviation drv_log :: "drv_call \<Rightarrow> 'a dahdi_chan_scheme \<Rightarrow> 'a dahdi_chan_scheme" where
  "drv_log d c \<equiv> drv_calls_update (\<lambda>ds. ds @ [d]) c"

definition set_flag :: "dahdi_flag \<Rightarrow> 'a dahdi_chan_scheme \<Rightarrow> 'a dahdi_chan_scheme" where
  "set_flag f = chan_flags_update (insert f)"

definition clear_flag :: "dahdi_flag \<Rightarrow> 'a dahdi_chan_scheme \<Rightarrow> 'a dahdi_chan_scheme" where
  "clear_flag f = chan_flags_update (\<lambda>fs. fs - {f})"

definition test_flag :: "dahdi_flag \<Rightarrow> 'a dahdi_chan_scheme \<Rightarrow> bool" where
  "test_flag f c \<longleftrightarrow> f \<in> chan_flags c"

named_theorems chan_defs \<open>small operations on the channel record\<close>

declare set_flag_def [chan_defs] clear_flag_def [chan_defs] test_flag_def [chan_defs]

text \<open>The operations of the channel's span, when it has one.\<close>

definition chan_op :: "(span_ops \<Rightarrow> 'b option) \<Rightarrow> 'a dahdi_chan_scheme \<Rightarrow> 'b option" where
  "chan_op sel c = Option.bind (chan_span c) (\<lambda>s. sel (span_operations s))"

section \<open>Cross connects\<close>

definition can_dacs_chans :: "'a dahdi_chan_scheme option \<Rightarrow> 'b dahdi_chan_scheme option \<Rightarrow> bool" where
  "can_dacs_chans dst src = (case (src, dst) of
     (Some s, Some d) \<Rightarrow>
       (case (chan_op op_dacs s, chan_op op_dacs d) of
          (Some (fs, _), Some (fd, _)) \<Rightarrow> fs = fd
        | _ \<Rightarrow> False)
   | _ \<Rightarrow> False)"

definition dahdi_chan_dacs ::
    "'a dahdi_chan_scheme \<Rightarrow> 'b dahdi_chan_scheme option \<Rightarrow> 'a dahdi_chan_scheme \<times> int" where
  "dahdi_chan_dacs dst src =
     (if can_dacs_chans (Some dst) src then
        (case (chan_op op_dacs dst, src) of
           (Some (_, f), Some s) \<Rightarrow>
             (drv_log (Drv_dacs (Some (channo s))) dst, f (Some (channo s)))
         | _ \<Rightarrow> (dst, 0))
      else (case chan_op op_dacs dst of
           Some (_, f) \<Rightarrow> (drv_log (Drv_dacs None) dst, f None)
         | None \<Rightarrow> (dst, 0)))"

definition dahdi_disable_dacs :: "'a dahdi_chan_scheme \<Rightarrow> 'a dahdi_chan_scheme" where
  "dahdi_disable_dacs c = fst (dahdi_chan_dacs c (None :: 'a dahdi_chan_scheme option))"

section \<open>Idle signalling bits\<close>

definition in_sig :: "(u32 \<times> int) list" where
  "in_sig =
     [(SIG_NONE, 0),
      (SIG_EM, ABIT * 256),
      (SIG_FXSLS, BBIT OR BBIT * 256),
      (SIG_FXSGS, ABIT OR BBIT OR (ABIT OR BBIT) * 256),
      (SIG_FXSKS, BBIT OR (ABIT OR BBIT) * 256),
      (SIG_FXOLS, ABIT * 256),
      (SIG_FXOGS, BBIT OR (ABIT OR BBIT) * 256),
      (SIG_FXOKS, ABIT * 256),
      (SIG_SF, 0),
      (SIG_EM_E1, DBIT OR (ABIT OR DBIT) * 256)]"

definition dahdi_q_sig :: "'a dahdi_chan_scheme \<Rightarrow> int" where
  "dahdi_q_sig c = (case chan_span c of
     None \<Rightarrow> -1
   | Some s \<Rightarrow>
      (if FLAG_RBS \<notin> span_flags s \<or> op_rbsbits (span_operations s) = None then -1
       else if sig c = SIG_CAS then idlebits c
       else (case map_of in_sig (sig c) of Some v \<Rightarrow> v | None \<Rightarrow> -1)))"

text \<open>Cross connecting never touches the channel but for the call to its driver.\<close>

lemma dahdi_chan_dacs_frame:
  "drv_calls_update (\<lambda>_. ds) (fst (dahdi_chan_dacs c src)) = drv_calls_update (\<lambda>_. ds) c"
  by (auto simp: dahdi_chan_dacs_def split: option.splits prod.splits)

lemma dahdi_disable_dacs_sel [simp]:
  "channo (dahdi_disable_dacs c) = channo c"
  "chan_flags (dahdi_disable_dacs c) = chan_flags c"
  "sig (dahdi_disable_dacs c) = sig c"
  "chan_span (dahdi_disable_dacs c) = chan_span c"
  "dahdi_chan.more (dahdi_disable_dacs c) = dahdi_chan.more c"
  by (auto simp: dahdi_disable_dacs_def dahdi_chan_dacs_def split: option.splits prod.splits)

text \<open>The idle transmit bits are in range for each signalling type of the table.\<close>

lemma dahdi_q_sig_table:
  assumes "chan_span c = Some s" "FLAG_RBS \<in> span_flags s" "op_rbsbits (span_operations s) \<noteq> None"
    and "sig c \<noteq> SIG_CAS" and "sig c \<in> fst ` set in_sig"
  shows "0 \<le> dahdi_q_sig c \<and> dahdi_q_sig c \<le> 0xC0C"
  using assms by (auto simp: dahdi_q_sig_def in_sig_def)

end
