(* ===== verification/Events.thy ===== *)
theory Events
  imports Channel
begin

text \<open>
  The event queue of a channel (\<open>__qevent\<close>, the \<open>DAHDI_GETEVENT\<close> and
  \<open>DAHDI_FLUSH\<close> requests): a circular array of 64 entries in which one entry stays
  unused, so that equal indices mean empty. The abstraction is the list of pending
  events; the operations implement the interface \<open>bounded_fifo\<close> with capacity 63.
\<close>

section \<open>State and operations\<close>

abbreviation (input) DAHDI_MAX_EVENTSIZE :: int where "DAHDI_MAX_EVENTSIZE \<equiv> 64"

record chan_ev = dahdi_chan +
  eventinidx :: int
  eventoutidx :: int
  eventbuf :: "int list"
  iomask :: u32

definition qevent :: "'a chan_ev_scheme \<Rightarrow> int \<Rightarrow> 'a chan_ev_scheme" where
  "qevent c event =
     (if eventoutidx c = 0 \<and> eventinidx c = DAHDI_MAX_EVENTSIZE - 1 then c
      else if eventinidx c = eventoutidx c - 1 then c
      else
        (let c = c\<lparr>eventbuf := (eventbuf c)[nat (eventinidx c) := event],
                   eventinidx := eventinidx c + 1\<rparr>
         in if eventinidx c \<ge> DAHDI_MAX_EVENTSIZE then c\<lparr>eventinidx := 0\<rparr> else c))"

text \<open>\<open>DAHDI_GETEVENT\<close>: the oldest event, or \<open>EVENT_NONE\<close>.\<close>

definition getevent :: "'a chan_ev_scheme \<Rightarrow> int \<times> 'a chan_ev_scheme" where
  "getevent c =
     (if eventinidx c \<noteq> eventoutidx c then
        (let j = eventbuf c ! nat (eventoutidx c);
             c = c\<lparr>eventoutidx := eventoutidx c + 1\<rparr>
         in (j, if eventoutidx c \<ge> DAHDI_MAX_EVENTSIZE then c\<lparr>eventoutidx := 0\<rparr> else c))
      else (EVENT_NONE, c))"

definition flush_events :: "'a chan_ev_scheme \<Rightarrow> 'a chan_ev_scheme" where
  "flush_events c = c\<lparr>eventoutidx := 0, eventinidx := 0\<rparr>"

section \<open>The queue as a list\<close>

definition ev_count :: "int \<Rightarrow> int \<Rightarrow> nat" where
  "ev_count i j = (if j \<le> i then nat (i - j) else nat (i - j + 64))"

definition pending :: "'a chan_ev_scheme \<Rightarrow> int list" where
  "pending c = map (\<lambda>k. eventbuf c ! nat ((eventoutidx c + int k) mod 64))
     [0..<ev_count (eventinidx c) (eventoutidx c)]"

definition ev_inv :: "'a chan_ev_scheme \<Rightarrow> bool" where
  "ev_inv c \<longleftrightarrow> length (eventbuf c) = 64 \<and>
     0 \<le> eventinidx c \<and> eventinidx c < 64 \<and> 0 \<le> eventoutidx c \<and> eventoutidx c < 64"

lemma length_pending [simp]: "length (pending c) = ev_count (eventinidx c) (eventoutidx c)"
  by (simp add: pending_def)

lemma pending_bound: "ev_inv c \<Longrightarrow> length (pending c) \<le> 63"
  by (auto simp: ev_inv_def ev_count_def)

lemma ev_full_iff: "ev_inv c \<Longrightarrow>
    (eventoutidx c = 0 \<and> eventinidx c = 63 \<or> eventinidx c = eventoutidx c - 1)
    = (\<not> length (pending c) < 63)"
  by (auto simp: ev_inv_def ev_count_def split: if_splits)

lemma ev_slot: "0 \<le> j \<Longrightarrow> j < 64 \<Longrightarrow> k < 64 \<Longrightarrow>
    nat ((j + int k) mod 64) = (if j + int k < 64 then nat j + k else nat j + k - 64)"
  using slot_index [of j 64 k] by (auto simp: nat_add_distrib nat_diff_distrib)

lemma qevent_inv: "ev_inv c \<Longrightarrow> ev_inv (qevent c e)"
  by (auto simp: ev_inv_def qevent_def Let_def)

lemma qevent_room:
  assumes "ev_inv c" and "length (pending c) < 63"
  shows "pending (qevent c e) = pending c @ [e]"
proof -
  let ?i = "eventinidx c" and ?j = "eventoutidx c"
  let ?n = "ev_count ?i ?j"
  from assms ev_full_iff [of c] have room: "\<not> (?j = 0 \<and> ?i = 63)" "?i \<noteq> ?j - 1" by auto
  from assms(1) have b: "0 \<le> ?i" "?i < 64" "0 \<le> ?j" "?j < 64" "length (eventbuf c) = 64"
    by (auto simp: ev_inv_def)
  have last: "nat ((?j + int ?n) mod 64) = nat ?i"
    using b by (auto simp: ev_count_def)
  have other: "nat ?i \<noteq> nat ((?j + int k) mod 64)" if "k < ?n" for k
    using that b assms(2) ev_slot [of ?j k] by (auto simp: ev_count_def split: if_splits)
  have q: "eventbuf (qevent c e) = (eventbuf c)[nat ?i := e]"
    "eventoutidx (qevent c e) = ?j"
    "ev_count (eventinidx (qevent c e)) ?j = Suc ?n"
    using room b by (auto simp: qevent_def Let_def ev_count_def)
  show ?thesis
    unfolding pending_def q using last b by (simp add: nth_list_update_neq [OF other])
qed

lemma qevent_full: "ev_inv c \<Longrightarrow> \<not> length (pending c) < 63 \<Longrightarrow> qevent c e = c"
  using ev_full_iff [of c] by (auto simp: qevent_def)

lemma qevent_pending: "ev_inv c \<Longrightarrow>
    pending (qevent c e) = (if length (pending c) < 63 then pending c @ [e] else pending c)"
  by (metis qevent_room qevent_full)

lemma getevent_inv: "ev_inv c \<Longrightarrow> ev_inv (snd (getevent c))"
  by (auto simp: ev_inv_def getevent_def Let_def)

lemma ev_count_0_iff: "ev_inv c \<Longrightarrow> (ev_count (eventinidx c) (eventoutidx c) = 0) = (eventinidx c = eventoutidx c)"
  by (auto simp: ev_inv_def ev_count_def split: if_splits)

lemma getevent_pending:
  assumes "ev_inv c"
  shows "pending c = (if eventinidx c = eventoutidx c then []
           else fst (getevent c) # pending (snd (getevent c)))"
proof (cases "eventinidx c = eventoutidx c")
  case True
  then show ?thesis by (simp add: pending_def ev_count_def)
next
  case False
  let ?i = "eventinidx c" and ?j = "eventoutidx c" and ?c' = "snd (getevent c)"
  from assms have b: "0 \<le> ?i" "?i < 64" "0 \<le> ?j" "?j < 64" by (auto simp: ev_inv_def)
  have g: "eventbuf ?c' = eventbuf c" "eventinidx ?c' = ?i"
    "eventoutidx ?c' = (?j + 1) mod 64" "fst (getevent c) = eventbuf c ! nat ?j"
    using False b by (auto simp: getevent_def Let_def mod_succ)
  have n: "ev_count ?i ?j = Suc (ev_count ?i ((?j + 1) mod 64))"
    using False b by (auto simp: ev_count_def mod_succ)
  show ?thesis
    using False b unfolding pending_def g n
    by (simp add: map_upt_Suc mod_simps algebra_simps del: upt_Suc)
qed

lemma flush_events_pending: "pending (flush_events c) = []"
  by (simp add: pending_def flush_events_def ev_count_def)

lemma flush_events_inv: "length (eventbuf c) = 64 \<Longrightarrow> ev_inv (flush_events c)"
  by (simp add: ev_inv_def flush_events_def)

text \<open>Queueing an event changes nothing but the queue.\<close>

lemma qevent_sel [simp]:
  "channo (qevent c e) = channo c" "chanpos (qevent c e) = chanpos c"
  "chan_flags (qevent c e) = chan_flags c"
  "sig (qevent c e) = sig c" "sigcap (qevent c e) = sigcap c"
  "chan_alarms (qevent c e) = chan_alarms c"
  "chan_span (qevent c e) = chan_span c" "idlebits (qevent c e) = idlebits c"
  "drv_calls (qevent c e) = drv_calls c"
  "iomask (qevent c e) = iomask c" "chan_ev.more (qevent c e) = chan_ev.more c"
  "length (eventbuf (qevent c e)) = length (eventbuf c)"
  by (auto simp: qevent_def Let_def)

section \<open>The event queue implements the queue interface\<close>

text \<open>
  \<open>EVENT_NONE\<close> means ``no event'' to the reader, so only other events are items.
\<close>

definition ev_fifo_inv :: "'a chan_ev_scheme \<Rightarrow> bool" where
  "ev_fifo_inv c \<longleftrightarrow> ev_inv c \<and> EVENT_NONE \<notin> set (pending c)"

definition next_event :: "'a chan_ev_scheme \<Rightarrow> int option \<times> 'a chan_ev_scheme" where
  "next_event c = (let (e, c') = getevent c in (if e = EVENT_NONE then None else Some e, c'))"

lemma fst_getevent:
  "ev_inv c \<Longrightarrow> fst (getevent c) = (case pending c of [] \<Rightarrow> EVENT_NONE | e # _ \<Rightarrow> e)"
  using getevent_pending [of c] by (auto simp: getevent_def Let_def)

lemma tl_pending: "ev_inv c \<Longrightarrow> pending (snd (getevent c)) = tl (pending c)"
  using getevent_pending [of c] by (auto simp: getevent_def)

lemma set_tl: "x \<in> set (tl xs) \<Longrightarrow> x \<in> set xs"
  by (cases xs) auto

lemma next_event_pending:
  "ev_fifo_inv c \<Longrightarrow> fst (next_event c) = (case pending c of [] \<Rightarrow> None | e # _ \<Rightarrow> Some e)"
  by (cases "pending c") (auto simp: ev_fifo_inv_def next_event_def fst_getevent split_beta)

lemma snd_next_event [simp]: "snd (next_event c) = snd (getevent c)"
  by (simp add: next_event_def split_beta)

interpretation ev: bounded_fifo ev_fifo_inv pending 63
    "\<lambda>e c. qevent c e" next_event "\<lambda>e. e \<noteq> EVENT_NONE"
proof (unfold_locales, goal_cases)
  case (1 s x)
  then show ?case
    by (simp add: ev_fifo_inv_def qevent_inv qevent_pending del: length_pending)
next
  case (2 s x)
  then show ?case by (simp add: ev_fifo_inv_def qevent_pending del: length_pending)
next
  case (3 s)
  then show ?case
    by (auto simp: ev_fifo_inv_def tl_pending getevent_inv dest: set_tl)
next
  case (4 s)
  then show ?case by (rule next_event_pending)
next
  case (5 s)
  then show ?case by (simp add: ev_fifo_inv_def tl_pending)
next
  case (6 s)
  then show ?case using pending_bound [of s] by (simp add: ev_fifo_inv_def)
qed

text \<open>Queueing a list of events, and a process that reads until it is told there is none.\<close>

definition qevents :: "'a chan_ev_scheme \<Rightarrow> int list \<Rightarrow> 'a chan_ev_scheme" where
  "qevents c es = foldl qevent c es"

fun read_events :: "nat \<Rightarrow> 'a chan_ev_scheme \<Rightarrow> int list" where
  "read_events 0 c = []"
| "read_events (Suc n) c =
     (let (e, c) = getevent c in if e = EVENT_NONE then [] else e # read_events n c)"

lemma read_events_deq_n: "read_events n c = fst (ev.deq_n n c)"
  by (induction n arbitrary: c) (auto simp: next_event_def split_beta)

lemma qevents_enq_all: "qevents c es = ev.enq_all es c"
  by (simp add: qevents_def ev.enq_all_def foldl_conv_fold)

text \<open>C6. Events are delivered in order and none is invented: with an empty queue, queueing any
  events (other than the reserved value 0) and then reading as many times yields exactly the
  first 63 of them; the ones past the capacity are dropped, never the older ones.\<close>

theorem events_delivered_in_order:
  assumes "ev_inv c" and "pending c = []" and "EVENT_NONE \<notin> set es"
  shows "read_events (length es) (qevents c es) = take 63 es"
  unfolding read_events_deq_n qevents_enq_all
  using assms by (intro ev.fifo_order) (auto simp: ev_fifo_inv_def)

definition demo_ev :: chan_ev where
  "demo_ev = \<lparr>channo = 1, chanpos = 1, chan_flags = {}, sig = 0, sigcap = 0, chan_alarms = 0,
     chan_span = None, idlebits = 0, drv_calls = [],
     eventinidx = 62, eventoutidx = 62, eventbuf = replicate 64 0, iomask = 0\<rparr>"

theorem events_delivered_in_order_witness:
  "read_events 3 (qevents demo_ev [EVENT_RINGOFFHOOK, EVENT_ALARM, EVENT_ONHOOK])
   = [EVENT_RINGOFFHOOK, EVENT_ALARM, EVENT_ONHOOK]"
  using events_delivered_in_order [of demo_ev "[EVENT_RINGOFFHOOK, EVENT_ALARM, EVENT_ONHOOK]"]
  by (simp add: demo_ev_def ev_inv_def pending_def ev_count_def eval_nat_numeral
      del: read_events.simps)

end
