(* ===== verification/ConfQueue.thy ===== *)
theory ConfQueue
  imports Events
begin

text \<open>
  The chunk queues through which channels on different boards exchange conference audio
  (\<open>struct confq\<close>, \<open>__buf_pull\<close>, \<open>__buf_push\<close> and the peeks of
  \<^verbatim>\<open>dahdi-base.c\<close>), and the conference fields of a channel. A queue holds eight chunks
  of eight octets; \<open>-1\<close> in an index means full (\<open>inbuf\<close>) or empty (\<open>outbuf\<close>).
\<close>

section \<open>State and operations\<close>

abbreviation (input) DAHDI_CB_SIZE :: int where "DAHDI_CB_SIZE \<equiv> 8"

record confq =
  cq_buf :: "u8 list list"
  cq_inbuf :: int
  cq_outbuf :: int

text \<open>
  \<open>buf_pull\<close> returns the chunk read, silence when there is none, and the C result; the
  caller that passes no data pointer ignores the chunk. A pointer into the queue, as the
  peeks return it, is the number of the slot.
\<close>

definition buf_pull :: "u8 \<Rightarrow> confq \<Rightarrow> u8 list \<times> int \<times> confq" where
  "buf_pull silence q =
     (let oldoutbuf = cq_outbuf q in
      if cq_outbuf q < 0 then (replicate DAHDI_CHUNKSIZE silence, -1, q)
      else
        (let data = cq_buf q ! nat (cq_outbuf q);
             q = q\<lparr>cq_outbuf := (cq_outbuf q + 1) mod DAHDI_CB_SIZE\<rparr>;
             q = (if cq_outbuf q = cq_inbuf q then q\<lparr>cq_outbuf := -1\<rparr> else q);
             q = (if cq_inbuf q < 0 then q\<lparr>cq_inbuf := oldoutbuf\<rparr> else q)
         in (data, 0, q)))"

definition buf_pushpeek :: "confq \<Rightarrow> nat option" where
  "buf_pushpeek q = (if cq_inbuf q < 0 then None else Some (nat (cq_inbuf q)))"

definition buf_peek :: "confq \<Rightarrow> nat option" where
  "buf_peek q = (if cq_outbuf q < 0 then None else Some (nat (cq_outbuf q)))"

definition buf_push :: "confq \<Rightarrow> u8 list option \<Rightarrow> int \<times> confq" where
  "buf_push q data =
     (let oldinbuf = cq_inbuf q in
      if cq_inbuf q < 0 then (-1, q)
      else
        (let q = (case data of
                    Some d \<Rightarrow> q\<lparr>cq_buf := (cq_buf q)[nat (cq_inbuf q) := take DAHDI_CHUNKSIZE d]\<rparr>
                  | None \<Rightarrow> q);
             q = q\<lparr>cq_inbuf := (cq_inbuf q + 1) mod DAHDI_CB_SIZE\<rparr>;
             q = (if cq_inbuf q = cq_outbuf q then q\<lparr>cq_inbuf := -1\<rparr> else q);
             q = (if cq_outbuf q < 0 then q\<lparr>cq_outbuf := oldinbuf\<rparr> else q)
         in (0, q)))"

definition reset_confq :: "confq \<Rightarrow> confq" where
  "reset_confq q = q\<lparr>cq_inbuf := 0, cq_outbuf := -1\<rparr>"

text \<open>
  The conference fields of a channel. The three sample buffers hold the last conference
  sample, a gain table is \<open>None\<close> when it is the shared default one, and
  \<open>readchunkpreec\<close> tells whether the buffer for samples before echo cancellation exists.
  \<open>conf_chan\<close> and \<open>dacs_chan\<close> name the channel pointed to by its number.
\<close>

record chan_conf = chan_ev +
  confna :: int
  confn :: int
  confmode :: int
  confmute :: int
  conf_chan :: "int option"
  dacs_chan :: "int option"
  confin :: confq
  confout :: confq
  conflast :: "int list"
  conflast1 :: "int list"
  conflast2 :: "int list"
  rxgain :: "u8 list option"
  txgain :: "u8 list option"
  readchunkpreec :: bool
  hwec :: bool

definition reset_conf :: "'a chan_conf_scheme \<Rightarrow> 'a chan_conf_scheme" where
  "reset_conf c = c\<lparr>confin := reset_confq (confin c), confout := reset_confq (confout c)\<rparr>"

section \<open>The queue as a list of chunks\<close>

definition cq_inv :: "confq \<Rightarrow> bool" where
  "cq_inv q \<longleftrightarrow> length (cq_buf q) = 8 \<and> (\<forall>c \<in> set (cq_buf q). length c = DAHDI_CHUNKSIZE) \<and>
     ring_inv DAHDI_CB_SIZE (cq_inbuf q) (cq_outbuf q)"

definition chunks :: "confq \<Rightarrow> u8 list list" where
  "chunks q = map (\<lambda>i. cq_buf q ! i) (slots DAHDI_CB_SIZE (cq_inbuf q) (cq_outbuf q))"

lemma reset_confq_empty: "length (cq_buf q) = 8 \<Longrightarrow> \<forall>c \<in> set (cq_buf q). length c = 8 \<Longrightarrow>
    cq_inv (reset_confq q) \<and> chunks (reset_confq q) = []"
  by (simp add: reset_confq_def cq_inv_def chunks_def ring_inv_def)

text \<open>The index part of both operations is the ring arithmetic.\<close>

lemma buf_push_ring:
  assumes "cq_inv q" and "0 \<le> cq_inbuf q"
  shows "fst (buf_push q data) = 0"
    and "ring_push 8 (cq_inbuf q) (cq_outbuf q)
       = (cq_inbuf (snd (buf_push q data)), cq_outbuf (snd (buf_push q data)))"
    and "cq_buf (snd (buf_push q data)) = (case data of None \<Rightarrow> cq_buf q
       | Some d \<Rightarrow> (cq_buf q)[nat (cq_inbuf q) := take DAHDI_CHUNKSIZE d])"
  using assms
  by (auto simp: buf_push_def ring_push_def Let_def cq_inv_def ring_inv_def mod_succ
      split: option.splits if_splits)

lemma buf_pull_ring:
  assumes "cq_inv q" and "0 \<le> cq_outbuf q"
  shows "fst (buf_pull s q) = cq_buf q ! nat (cq_outbuf q)"
    and "fst (snd (buf_pull s q)) = 0"
    and "ring_pull 8 (cq_inbuf q) (cq_outbuf q)
       = (cq_inbuf (snd (snd (buf_pull s q))), cq_outbuf (snd (snd (buf_pull s q))))"
    and "cq_buf (snd (snd (buf_pull s q))) = cq_buf q"
  using assms
  by (auto simp: buf_pull_def ring_pull_def Let_def cq_inv_def ring_inv_def mod_succ
      split: if_splits)

lemma buf_push_refines:
  assumes "cq_inv q" and "length d = DAHDI_CHUNKSIZE"
  shows "cq_inv (snd (buf_push q (Some d))) \<and>
    (if length (chunks q) < 8
     then fst (buf_push q (Some d)) = 0 \<and> chunks (snd (buf_push q (Some d))) = chunks q @ [d]
     else buf_push q (Some d) = (-1, q))"
proof (cases "0 \<le> cq_inbuf q")
  case True
  let ?q' = "snd (buf_push q (Some d))"
  note r = buf_push_ring [OF assms(1) True, where data = "Some d"]
  from assms(1) have inv: "ring_inv 8 (cq_inbuf q) (cq_outbuf q)" by (simp add: cq_inv_def)
  have len: "nat (cq_inbuf q) < length (cq_buf q)"
    using assms(1) inv True by (auto simp: cq_inv_def ring_inv_def split: if_splits)
  have "chunks ?q' = chunks q @ [d]"
    using ring_push_slots [OF inv True r(2)] ring_fresh_slot [OF inv True] len r(3) assms(2)
    by (auto simp: chunks_def nth_list_update)
  moreover have "cq_inv ?q'"
    using assms ring_push_inv [OF inv True r(2)] r(3)
    by (auto simp: cq_inv_def dest!: set_update_subset_insert [THEN subsetD])
  moreover have "length (chunks q) < 8"
    using ring_room_iff [OF inv] True by (simp add: chunks_def)
  ultimately show ?thesis using r(1) by simp
next
  case False
  with assms(1) ring_room_iff [of 8 "cq_inbuf q" "cq_outbuf q"] have "\<not> length (chunks q) < 8"
    by (simp add: chunks_def cq_inv_def)
  with False assms show ?thesis by (simp add: buf_push_def)
qed

lemma buf_pull_refines:
  assumes "cq_inv q"
  shows "cq_inv (snd (snd (buf_pull s q))) \<and>
    (case chunks q of [] \<Rightarrow> buf_pull s q = (replicate DAHDI_CHUNKSIZE s, -1, q)
     | d # ds \<Rightarrow> fst (buf_pull s q) = d \<and> fst (snd (buf_pull s q)) = 0 \<and>
         chunks (snd (snd (buf_pull s q))) = ds)"
proof (cases "0 \<le> cq_outbuf q")
  case True
  note r = buf_pull_ring [OF assms True, where s = s]
  from assms have inv: "ring_inv 8 (cq_inbuf q) (cq_outbuf q)" by (simp add: cq_inv_def)
  have "chunks q = cq_buf q ! nat (cq_outbuf q) # chunks (snd (snd (buf_pull s q)))"
    using ring_pull_slots [OF inv True r(3)] r(4) by (simp add: chunks_def)
  with r ring_pull_inv [OF inv True r(3)] assms show ?thesis by (simp add: cq_inv_def)
next
  case False
  with assms show ?thesis by (simp add: buf_pull_def chunks_def)
qed

text \<open>The queue provides the interface of a bounded queue of eight chunks.\<close>

definition pull_chunk :: "confq \<Rightarrow> u8 list option \<times> confq" where
  "pull_chunk q = (let (d, r, q') = buf_pull 0 q in (if r = 0 then Some d else None, q'))"

interpretation cq: bounded_fifo cq_inv chunks 8 "\<lambda>d q. snd (buf_push q (Some d))" pull_chunk
    "\<lambda>d. length d = DAHDI_CHUNKSIZE"
proof (unfold_locales, goal_cases)
  case (1 s x)
  then show ?case using buf_push_refines [of s x] by simp
next
  case (2 s x)
  then show ?case using buf_push_refines [of s x] by (auto split: if_splits)
next
  case (3 s)
  then show ?case using buf_pull_refines [of s 0] by (simp add: pull_chunk_def split_beta)
next
  case (4 s)
  then show ?case using buf_pull_refines [of s 0]
    by (cases "chunks s") (auto simp: pull_chunk_def split_beta)
next
  case (5 s)
  then show ?case using buf_pull_refines [of s 0]
    by (cases "chunks s") (auto simp: pull_chunk_def split_beta)
next
  case (6 s)
  then show ?case using ring_used_le [of 8 "cq_inbuf s" "cq_outbuf s"]
    by (simp add: cq_inv_def chunks_def)
qed

text \<open>A producer and a consumer of chunks.\<close>

definition push_all :: "u8 list list \<Rightarrow> confq \<Rightarrow> confq" where
  "push_all ds q = foldl (\<lambda>q d. snd (buf_push q (Some d))) q ds"

fun pull_n :: "nat \<Rightarrow> u8 \<Rightarrow> confq \<Rightarrow> u8 list list \<times> confq" where
  "pull_n 0 s q = ([], q)"
| "pull_n (Suc n) s q = (let (d, r, q) = buf_pull s q; (ds, q) = pull_n n s q in (d # ds, q))"

lemma push_all_enq_all: "push_all ds q = cq.enq_all ds q"
  by (simp add: push_all_def cq.enq_all_def foldl_conv_fold)

lemma pull_n_chunks:
  "cq_inv q \<Longrightarrow> fst (pull_n n s q)
     = take n (chunks q) @ replicate (n - length (chunks q)) (replicate DAHDI_CHUNKSIZE s)"
proof (induction n arbitrary: q)
  case 0
  then show ?case by simp
next
  case (Suc n)
  show ?case
  proof (cases "chunks q")
    case Nil
    with buf_pull_refines [OF Suc.prems, of s] Suc.IH [OF Suc.prems] show ?thesis
      by (simp add: split_beta)
  next
    case (Cons d ds)
    with buf_pull_refines [OF Suc.prems, of s] Suc.IH [of "snd (snd (buf_pull s q))"]
    show ?thesis by (auto simp: split_beta)
  qed
qed

text \<open>C13. Conference audio is carried in order and never more than eight chunks late: whatever is
  pushed into an empty queue is read back in order, up to eight chunks, and after them the reader
  gets silence.\<close>

theorem confq_in_order:
  assumes "cq_inv q" and "chunks q = []" and "\<forall>d \<in> set ds. length d = DAHDI_CHUNKSIZE"
  shows "fst (pull_n n s (push_all ds q)) =
    take n (take 8 ds) @ replicate (n - length (take 8 ds)) (replicate DAHDI_CHUNKSIZE s)"
proof -
  from cq.enq_all_refines [OF assms(1,3)] assms(2)
  have "cq_inv (push_all ds q)" "chunks (push_all ds q) = take 8 ds"
    by (simp_all add: push_all_enq_all)
  with pull_n_chunks [of "push_all ds q" n s] show ?thesis by simp
qed

definition empty_confq :: confq where
  "empty_confq = \<lparr>cq_buf = replicate 8 (replicate 8 0), cq_inbuf = 5, cq_outbuf = -1\<rparr>"

theorem confq_in_order_witness:
  "fst (pull_n 3 0xff (push_all [replicate 8 1, replicate 8 2] empty_confq))
   = [replicate 8 1, replicate 8 2, replicate 8 0xff]"
  using confq_in_order [where q = empty_confq and ds = "[replicate 8 1, replicate 8 2]" and n = 3 and s = "0xff"]
  by (simp add: empty_confq_def cq_inv_def chunks_def ring_inv_def)

end
