(* ===== verification/Law.thy ===== *)
theory Law
  imports ConfQueue
begin

text \<open>
  The companding laws of \<^verbatim>\<open>dahdi-base.c\<close>: conversion between 16-bit linear samples and
  mu-law or A-law octets, the tables \<open>dahdi_conv_init\<close> computes from them and that the
  default build (without \<open>CONFIG_CALC_XLAW\<close>) uses, and the law of a channel. A C \<open>short\<close>
  is an integer reduced to its range by \<open>short\<close>.
\<close>

section \<open>Conversions\<close>

definition short :: "int \<Rightarrow> int" where
  "short i = (i + 32768) mod 65536 - 32768"

definition exp_lut :: "int list" where
  "exp_lut = [0,0,1,1,2,2,2,2,3,3,3,3,3,3,3,3] @ replicate 16 4 @ replicate 32 5 @
     replicate 64 6 @ replicate 128 7"

definition ulaw_pack :: "int \<Rightarrow> int \<Rightarrow> int \<Rightarrow> u8" where
  "ulaw_pack sign exponent mantissa = word_of_int (NOT (sign OR exponent * 16 OR mantissa))"

definition lineartoulaw :: "int \<Rightarrow> u8" where
  "lineartoulaw sample =
     (let sign = (sample div 256) AND 0x80;
          sample = (if sign \<noteq> 0 then short (- sample) else sample);
          sample = (if sample > 32635 then 32635 else sample);
          sample = short (sample + 0x84);
          exponent = exp_lut ! nat ((sample div 128) AND 0xff);
          mantissa = (sample div 2 ^ nat (exponent + 3)) AND 0x0f;
          ulawbyte = ulaw_pack sign exponent mantissa;
          ulawbyte = (if ulawbyte = 0 then 2 else ulawbyte)
      in if ulawbyte = 0xff then 0x7f else ulawbyte)"

fun seg_search :: "int \<Rightarrow> int list \<Rightarrow> int" where
  "seg_search pcm_val [] = 0"
| "seg_search pcm_val (e # es) = (if pcm_val \<le> e then 0 else 1 + seg_search pcm_val es)"

definition lineartoalaw :: "int \<Rightarrow> u8" where
  "lineartoalaw linear =
     (let mask = (if linear \<ge> 0 then 0xd5 else 0x55);
          pcm_val = (if linear \<ge> 0 then linear else - linear);
          seg = seg_search pcm_val [0xFF, 0x1FF, 0x3FF, 0x7FF, 0xFFF, 0x1FFF, 0x3FFF, 0x7FFF]
      in (word_of_int (seg * 16 OR
            ((pcm_val div 2 ^ nat (if seg \<noteq> 0 then seg + 3 else 4)) AND 0x0f)) XOR mask))"

definition alaw2linear :: "u8 \<Rightarrow> int" where
  "alaw2linear alaw =
     (let alaw = uint (alaw XOR 0x55);
          i = (alaw AND 0x0f) * 16;
          seg = (alaw AND 0x70) div 16;
          i = (if seg \<noteq> 0 then (i + 0x100) * 2 ^ nat (seg - 1) else i)
      in if alaw AND 0x80 \<noteq> 0 then i else - i)"

definition etab :: "int list" where
  "etab = [0, 132, 396, 924, 1980, 4092, 8316, 16764]"

definition mulaw2linear :: "int \<Rightarrow> int" where
  "mulaw2linear i =
     (let mu = 255 - i;
          e = (mu AND 0x70) div 16;
          f = mu AND 0x0f;
          y = f * 2 ^ nat (e + 3) + etab ! nat e
      in if mu AND 0x80 \<noteq> 0 then - y else y)"

text \<open>The tables; entry \<open>k\<close> of the reverse ones was written for the sample \<open>short (4 * k)\<close>.\<close>

definition mulaw_table :: "int list" where
  "mulaw_table = map (\<lambda>i. mulaw2linear (int i)) [0..<256]"

definition alaw_table :: "int list" where
  "alaw_table = map (\<lambda>i. alaw2linear (of_nat i)) [0..<256]"

definition lin2mu_table :: "u8 list" where
  "lin2mu_table = map (\<lambda>k. lineartoulaw (short (4 * int k))) [0..<16384]"

definition lin2a_table :: "u8 list" where
  "lin2a_table = map (\<lambda>k. lineartoalaw (short (4 * int k))) [0..<16384]"

section \<open>The law of a channel\<close>

text \<open>\<open>xlaw\<close> stands for the pair of table pointers \<open>xlaw\<close> and \<open>lin2x\<close>.\<close>

datatype law = MULAW | ALAW

record chan_law = chan_conf +
  deflaw :: int
  xlaw :: law

definition DAHDI_XLAW :: "u8 \<Rightarrow> law \<Rightarrow> int" where
  "DAHDI_XLAW a l = (case l of MULAW \<Rightarrow> mulaw_table ! unat a | ALAW \<Rightarrow> alaw_table ! unat a)"

definition DAHDI_LIN2X :: "int \<Rightarrow> law \<Rightarrow> u8" where
  "DAHDI_LIN2X a l = (case l of
     MULAW \<Rightarrow> lin2mu_table ! nat ((a mod 65536) div 4)
   | ALAW \<Rightarrow> lin2a_table ! nat ((a mod 65536) div 4))"

definition set_law :: "'a chan_law_scheme \<Rightarrow> int \<Rightarrow> 'a chan_law_scheme" where
  "set_law c l =
     (let l = (if l = LAW_DEFAULT then
                 (if deflaw c \<noteq> 0 then deflaw c
                  else (case chan_span c of Some s \<Rightarrow> span_deflaw s | None \<Rightarrow> LAW_MULAW))
               else l)
      in c\<lparr>xlaw := if l = LAW_ALAW then ALAW else MULAW\<rparr>)"

text \<open>\<open>DAHDI_SETLAW\<close>.\<close>

definition ioctl_setlaw :: "int \<Rightarrow> 'a chan_law_scheme \<Rightarrow> int \<times> 'a chan_law_scheme" where
  "ioctl_setlaw j c = (if j < 0 \<or> j > LAW_ALAW then (- EINVAL, c) else (0, set_law c j))"

section \<open>The tables compute the conversions\<close>

lemma short_id: "-32768 \<le> i \<Longrightarrow> i < 32768 \<Longrightarrow> short i = i"
  by (simp add: short_def)



lemma and_255: "(x::int) AND 0xff = x mod 256"
  using take_bit_eq_mask [of 8 x] by (simp add: mask_eq_exp_minus_1 take_bit_eq_mod)

lemma and_15: "(x::int) AND 0x0f = x mod 16"
  using take_bit_eq_mask [of 4 x] by (simp add: mask_eq_exp_minus_1 take_bit_eq_mod)

lemma and_single: "(x::int) AND push_bit k 1 = (if bit x k then push_bit k 1 else 0)"
  by (rule bit_eqI) (auto simp: bit_simps)

lemma and_128: "(x::int) AND 0x80 = (if odd (x div 128) then 128 else 0)"
  using and_single [of x 7] by (simp add: bit_iff_odd)

lemma sample_sign:
  fixes x :: int
  shows "-32768 \<le> x \<Longrightarrow> x < 32768 \<Longrightarrow> (x div 256) AND 0x80 = (if x < 0 then 128 else 0)"
proof -
  assume x: "-32768 \<le> x" "x < 32768"
  have "x div 256 div 128 = x div 32768" by (simp add: zdiv_zmult2_eq [symmetric])
  also have "\<dots> = (if x < 0 then -1 else 0)" using x by auto
  finally show ?thesis by (simp add: and_128)
qed

lemma exp_lut_low: "k < 16 \<Longrightarrow> [0,0,1,1,2,2,2,2,3,3,3,3,3,3,3,3 :: int] ! k =
    (if k < 2 then 0 else if k < 4 then 1 else if k < 8 then 2 else 3)"
proof -
  have "list_all (\<lambda>k. [0,0,1,1,2,2,2,2,3,3,3,3,3,3,3,3 :: int] ! k =
    (if k < 2 then 0 else if k < 4 then 1 else if k < 8 then 2 else 3)) [0..<16]" by code_simp
  then show "k < 16 \<Longrightarrow> ?thesis" by (simp add: list_all_iff)
qed

lemma exp_lut_nth: "0 \<le> k \<Longrightarrow> k < 256 \<Longrightarrow> exp_lut ! nat k =
    (if k < 2 then 0 else if k < 4 then 1 else if k < 8 then 2 else if k < 16 then 3
     else if k < 32 then 4 else if k < 64 then 5 else if k < 128 then 6 else 7)"
  unfolding exp_lut_def nth_append
  using exp_lut_low [of "nat k"] by (auto simp: nat_less_iff simp del: nth_Cons_numeral)

lemma or_shift: "0 \<le> m \<Longrightarrow> m < 2 ^ k \<Longrightarrow> push_bit k e OR m = e * 2 ^ k + (m::int)"
proof -
  assume "0 \<le> m" "m < 2 ^ k"
  then have m: "m = take_bit k m" by (simp add: take_bit_int_eq_self)
  have "push_bit k e + take_bit k m = push_bit k e OR take_bit k m"
    by (rule disjunctive_add) (auto simp: bit_simps)
  with m show ?thesis by (simp add: push_bit_eq_mult)
qed

lemma code_fields:
  "0 \<le> e \<Longrightarrow> e < 8 \<Longrightarrow> 0 \<le> m \<Longrightarrow> m < 16 \<Longrightarrow> s = 0 \<or> s = 128 \<Longrightarrow>
   (s::int) OR e * 16 OR m = s + 16 * e + m"
  using or_shift [of m 4 e] or_shift [of "e * 16 + m" 7 1]
  by (auto simp: push_bit_eq_mult or.assoc)

lemma code_word:
  assumes "0 \<le> e" "e < 8" "0 \<le> m" "m < 16" "s = 0 \<or> s = 128"
  shows "ulaw_pack s e m = word_of_int (255 - s - 16 * e - m)"
proof -
  have "take_bit 8 (a + 256) = take_bit 8 a" for a :: int by (simp add: take_bit_eq_mod)
  from this [of "- (s + 16 * e + m) - 1"]
  have "(word_of_int (255 - s - 16 * e - m) :: u8) = word_of_int (- (s + 16 * e + m) - 1)"
    by (simp add: word_of_int_eq_iff)
  then show ?thesis by (simp add: ulaw_pack_def code_fields [OF assms] not_eq_complement)
qed

text \<open>Encoding a magnitude: the octet holds the interval of the biased magnitude.\<close>

lemma ulaw_magnitude:
  assumes "0 \<le> p" "p \<le> 32635"
  obtains e m where "0 \<le> e" "e < 8" "0 \<le> m" "m < 16"
    "e = exp_lut ! nat (((p + 0x84) div 128) AND 0xff)"
    "m = ((p + 0x84) div 2 ^ nat (e + 3)) AND 0x0f"
    "(16 + m) * 2 ^ nat (e + 3) \<le> p + 132" "p + 132 < (17 + m) * 2 ^ nat (e + 3)"
proof -
  let ?t = "p + 132"
  let ?k = "?t div 128"
  have k: "1 \<le> ?k" "?k < 256" using assms by auto
  define e where "e = exp_lut ! nat ?k"
  have "e = 0 \<and> ?t < 256 \<or> e = 1 \<and> 256 \<le> ?t \<and> ?t < 512 \<or> e = 2 \<and> 512 \<le> ?t \<and> ?t < 1024
    \<or> e = 3 \<and> 1024 \<le> ?t \<and> ?t < 2048 \<or> e = 4 \<and> 2048 \<le> ?t \<and> ?t < 4096
    \<or> e = 5 \<and> 4096 \<le> ?t \<and> ?t < 8192 \<or> e = 6 \<and> 8192 \<le> ?t \<and> ?t < 16384
    \<or> e = 7 \<and> 16384 \<le> ?t \<and> ?t < 32768"
    unfolding e_def exp_lut_nth [OF order_trans [OF zero_le_one k(1)] k(2)]
    using assms by (simp split: if_split) linarith
  then have e: "0 \<le> e" "e < 8" "16 * 2 ^ nat (e + 3) \<le> ?t" "?t < 32 * 2 ^ nat (e + 3)"
    using assms by (elim disjE, simp_all)+
  define q where "q = (2::int) ^ nat (e + 3)"
  define d where "d = ?t div q"
  have q: "0 < q" by (simp add: q_def)
  have t: "?t = d * q + ?t mod q" "0 \<le> ?t mod q" "?t mod q < q"
    using q by (simp_all add: d_def)
  have "(d + 1) * q = d * q + q" by (simp add: algebra_simps)
  with t e have "16 * q < (d + 1) * q" "d * q < 32 * q"
    unfolding q_def [symmetric] by linarith+
  from this [THEN mult_right_less_imp_less] q have "16 < d + 1" "d < 32" by simp_all
  then have d: "16 \<le> d" "d < 32" by auto
  then have m: "d mod 16 = d - 16" by (simp add: mod_pos_pos_trivial [of "d - 16" 16, simplified])
  show thesis
  proof (rule that [of e "d - 16"])
    show "e = exp_lut ! nat (((p + 0x84) div 128) AND 0xff)"
      using k by (simp add: e_def and_255)
    show "d - 16 = ((p + 0x84) div 2 ^ nat (e + 3)) AND 0x0f"
      using m by (simp add: and_15 d_def q_def)
    from t(1,2) have "d * q \<le> p + 132" by linarith
    then show "(16 + (d - 16)) * 2 ^ nat (e + 3) \<le> p + 132" by (simp add: q_def)
    from t(1,3) have "p + 132 < d * q + q" by linarith
    also have "\<dots> = (17 + (d - 16)) * q" by (simp add: distrib_right)
    finally show "p + 132 < (17 + (d - 16)) * 2 ^ nat (e + 3)" by (simp only: q_def)
  qed (use d e in simp_all)
qed


lemma small_cases8: "0 \<le> (e::int) \<Longrightarrow> e < 8 \<Longrightarrow> P 0 \<Longrightarrow> P 1 \<Longrightarrow> P 2 \<Longrightarrow> P 3 \<Longrightarrow> P 4 \<Longrightarrow> P 5 \<Longrightarrow> P 6 \<Longrightarrow> P 7 \<Longrightarrow> P e"
proof -
  assume "0 \<le> e" "e < 8" and p: "P 0" "P 1" "P 2" "P 3" "P 4" "P 5" "P 6" "P 7"
  then have "e = 0 \<or> e = 1 \<or> e = 2 \<or> e = 3 \<or> e = 4 \<or> e = 5 \<or> e = 6 \<or> e = 7" by arith
  with p show ?thesis by (elim disjE) simp_all
qed

lemma etab_nth: "0 \<le> e \<Longrightarrow> e < 8 \<Longrightarrow> etab ! nat e = 132 * 2 ^ nat e - 132"
  by (erule (1) small_cases8) (simp_all add: etab_def)

lemma field_mu:
  fixes m e s :: int
  assumes "0 \<le> e" "e < 8" "0 \<le> m" "m < 16" "s = 0 \<or> s = 128"
  shows "(s + 16 * e + m) AND 0x0f = m" "((s + 16 * e + m) AND 0x70) div 16 = e"
    "((s + 16 * e + m) AND 0x80 \<noteq> 0) = (s = 128)"
proof -
  show "(s + 16 * e + m) AND 0x0f = m"
  proof -
    have "s + 16 * e + m = m + 16 * (e + s div 16)" using assms(5) by auto
    then have "(s + 16 * e + m) mod 16 = m mod 16" by (simp only: mod_mult_self2)
    with assms(3,4) show ?thesis by (simp add: and_15)
  qed
  show "((s + 16 * e + m) AND 0x80 \<noteq> 0) = (s = 128)"
  proof -
    have "(s + 16 * e + m) div 128 = s div 128" using assms by auto
    with assms(5) show ?thesis by (auto simp: and_128)
  qed
  have "x AND 0x70 = (x AND 0x7f) - (x AND 0x0f)" for x :: int
  proof -
    have "x AND 0x7f = (x AND 0x70) OR (x AND 0x0f)"
      by (simp flip: bit.conj_disj_distrib)
    also have "\<dots> = (x AND 0x70) + (x AND 0x0f)"
      by (rule disjunctive_add [symmetric]) (auto simp: bit_simps bit_numeral_rec split: nat.splits)
    finally show ?thesis by simp
  qed
  moreover have "x AND 0x7f = x mod 128" for x :: int
    using take_bit_eq_mask [of 7 x] by (simp add: mask_eq_exp_minus_1 take_bit_eq_mod)
  ultimately have "(s + 16 * e + m) AND 0x70 = (s + 16 * e + m) mod 128 - (s + 16 * e + m) mod 16"
    by (simp add: and_15)
  moreover have "(s + 16 * e + m) mod 16 = m"
    using \<open>(s + 16 * e + m) AND 0x0f = m\<close> by (simp add: and_15)
  moreover have "(s + 16 * e + m) mod 128 = 16 * e + m"
  proof -
    have "s + 16 * e + m = 16 * e + m + 128 * (s div 128)" using assms(5) by auto
    then have "(s + 16 * e + m) mod 128 = (16 * e + m) mod 128" by (simp only: mod_mult_self2)
    with assms show ?thesis by simp
  qed
  ultimately show "((s + 16 * e + m) AND 0x70) div 16 = e" by simp
qed

lemma mulaw_decode:
  assumes "0 \<le> e" "e < 8" "0 \<le> m" "m < 16"
  shows "mulaw2linear (255 - (16 * e + m)) = (16 + m) * 2 ^ nat (e + 3) + 4 * 2 ^ nat e - 132"
    and "mulaw2linear (127 - (16 * e + m)) = - ((16 + m) * 2 ^ nat (e + 3) + 4 * 2 ^ nat e - 132)"
  using field_mu [OF assms, of 0] field_mu [OF assms, of 128] assms etab_nth [OF assms(1,2)]
  by (simp_all add: mulaw2linear_def Let_def nat_add_distrib power_add algebra_simps)

lemma ulaw_encode:
  assumes "0 \<le> p" "p \<le> 32635"
  obtains e m where "0 \<le> e" "e < 8" "0 \<le> m" "m < 16"
    "(16 + m) * 2 ^ nat (e + 3) \<le> p + 132" "p + 132 < (17 + m) * 2 ^ nat (e + 3)"
    "lineartoulaw p = (let b = word_of_int (255 - 16 * e - m) in
       if b = 0 then 2 else if b = 0xff then 0x7f else b)"
    "p > 0 \<longrightarrow> lineartoulaw (- p) = (let b = word_of_int (127 - 16 * e - m) in
       if b = 0 then 2 else if b = 0xff then 0x7f else b)"
proof -
  obtain e m where em: "0 \<le> e" "e < 8" "0 \<le> m" "m < 16"
    and e: "e = exp_lut ! nat (((p + 0x84) div 128) AND 0xff)"
    and m: "m = ((p + 0x84) div 2 ^ nat (e + 3)) AND 0x0f"
    and iv: "(16 + m) * 2 ^ nat (e + 3) \<le> p + 132" "p + 132 < (17 + m) * 2 ^ nat (e + 3)"
    using ulaw_magnitude [OF assms] by blast
  have sg: "(p div 256) AND 0x80 = 0" "p > 0 \<longrightarrow> ((- p) div 256) AND 0x80 = 128"
    using assms sample_sign [of p] sample_sign [of "- p"] by auto
  have sh: "short (p + 0x84) = p + 0x84" "short p = p" using assms by (simp_all add: short_id)
  show thesis
  proof (rule that [OF em iv])
    show "lineartoulaw p = (let b = word_of_int (255 - 16 * e - m) in
       if b = 0 then 2 else if b = 0xff then 0x7f else b)"
      using assms sg sh code_word [OF em, of 0]
      by (simp add: lineartoulaw_def Let_def e [symmetric] m [symmetric])
    show "p > 0 \<longrightarrow> lineartoulaw (- p) = (let b = word_of_int (127 - 16 * e - m) in
       if b = 0 then 2 else if b = 0xff then 0x7f else b)"
      using assms sg sh code_word [OF em, of 128]
      by (simp add: lineartoulaw_def Let_def e [symmetric] m [symmetric])
  qed
qed


lemma uint_code: "0 \<le> i \<Longrightarrow> i < 256 \<Longrightarrow> uint (word_of_int i :: u8) = i"
  by (simp add: uint_word_of_int)

lemma power_e3: "0 \<le> e \<Longrightarrow> (2::int) ^ nat (e + 3) = 8 * 2 ^ nat e"
  by (simp add: nat_add_distrib power_add)

text \<open>The two zero codes decode alike, and the code 0 is replaced.\<close>

lemma fix_code:
  assumes "0 \<le> i" "i < 256" "i \<noteq> 0"
  shows "mulaw2linear (uint (let b = word_of_int i :: u8 in if b = 0 then 2 else if b = 0xff then 0x7f else b))
    = mulaw2linear i"
proof -
  have "(word_of_int i :: u8) \<noteq> 0"
    using uint_code [OF assms(1,2)] assms(3) by (metis unsigned_0)
  moreover have "i = 255" if "(word_of_int i :: u8) = 0xff"
    using uint_code [OF assms(1,2)] that by simp
  moreover have "mulaw2linear 255 = mulaw2linear 127"
    by (simp add: mulaw2linear_def etab_def)
  ultimately show ?thesis using uint_code [OF assms(1,2)] by (auto simp: Let_def)
qed

lemma interval_error:
  fixes p :: int
  assumes "0 \<le> e" "0 \<le> m" "(16 + m) * 2 ^ nat (e + 3) \<le> p + 132" "p + 132 < (17 + m) * 2 ^ nat (e + 3)"
  shows "32 * \<bar>((16 + m) * 2 ^ nat (e + 3) + 4 * 2 ^ nat e - 132) - p\<bar> \<le> p + 132"
proof -
  define E where "E = (2::int) ^ nat e"
  define X where "X = (16 + m) * (8 * E)"
  have "128 * E \<le> X" using assms(2) by (simp add: X_def E_def)
  moreover have "X \<le> p + 132" using assms(3) by (simp add: X_def E_def power_e3 [OF assms(1)])
  moreover have "p + 132 < X + 8 * E"
    using assms(4) by (simp add: X_def E_def power_e3 [OF assms(1)] distrib_right)
  ultimately have "32 * \<bar>(X + 4 * E - 132) - p\<bar> \<le> p + 132" by (auto simp: abs_if)
  then show ?thesis by (simp add: X_def E_def power_e3 [OF assms(1)])
qed

lemma mulaw_error_pos:
  assumes "0 \<le> p" "p \<le> 32635"
  shows "32 * \<bar>mulaw2linear (uint (lineartoulaw p)) - p\<bar> \<le> p + 132"
proof -
  obtain e m where em: "0 \<le> e" "e < 8" "0 \<le> m" "m < 16"
    and iv: "(16 + m) * 2 ^ nat (e + 3) \<le> p + 132" "p + 132 < (17 + m) * 2 ^ nat (e + 3)"
    and c: "lineartoulaw p = (let b = word_of_int (255 - 16 * e - m) in
       if b = 0 then 2 else if b = 0xff then 0x7f else b)"
    using ulaw_encode [OF assms] by blast
  have "mulaw2linear (uint (lineartoulaw p)) = (16 + m) * 2 ^ nat (e + 3) + 4 * 2 ^ nat e - 132"
    using c fix_code [of "255 - 16 * e - m"] em mulaw_decode(1) [OF em] by (simp add: algebra_simps)
  with interval_error [OF em(1,3) iv] show ?thesis by simp
qed

lemma mulaw_error_neg:
  assumes "0 < p" "p \<le> 31600"
  shows "32 * \<bar>mulaw2linear (uint (lineartoulaw (- p))) + p\<bar> \<le> p + 132"
proof -
  from assms have p: "0 \<le> p" "p \<le> 32635" by auto
  obtain e m where em: "0 \<le> e" "e < 8" "0 \<le> m" "m < 16"
    and iv: "(16 + m) * 2 ^ nat (e + 3) \<le> p + 132" "p + 132 < (17 + m) * 2 ^ nat (e + 3)"
    and c: "p > 0 \<longrightarrow> lineartoulaw (- p) = (let b = word_of_int (127 - 16 * e - m) in
       if b = 0 then 2 else if b = 0xff then 0x7f else b)"
    using ulaw_encode [OF p] by blast
  have nz: "127 - 16 * e - m \<noteq> 0"
  proof
    assume "127 - 16 * e - m = 0"
    with em have "e = 7" "m = 15" by auto
    with iv(1) assms show False by simp
  qed
  have "mulaw2linear (uint (lineartoulaw (- p))) = - ((16 + m) * 2 ^ nat (e + 3) + 4 * 2 ^ nat e - 132)"
    using c assms fix_code [of "127 - 16 * e - m"] nz em mulaw_decode(2) [OF em] by (simp add: algebra_simps)
  then have "mulaw2linear (uint (lineartoulaw (- p))) + p
    = - (((16 + m) * 2 ^ nat (e + 3) + 4 * 2 ^ nat e - 132) - p)" by simp
  with interval_error [OF em(1,3) iv] show ?thesis by (simp only: abs_minus_cancel)
qed

text \<open>A-law.\<close>

lemma alaw_magnitude:
  assumes "0 \<le> p" "p \<le> 32767"
  obtains g m where "0 \<le> g" "g < 8" "0 \<le> m" "m < 16"
    "g = seg_search p [0xFF, 0x1FF, 0x3FF, 0x7FF, 0xFFF, 0x1FFF, 0x3FFF, 0x7FFF]"
    "m = (p div 2 ^ nat (if g \<noteq> 0 then g + 3 else 4)) AND 0x0f"
    "(if g = 0 then 16 * m else (16 + m) * 2 ^ nat (g + 3)) \<le> p"
    "p < (if g = 0 then 16 * m + 16 else (17 + m) * 2 ^ nat (g + 3))"
proof -
  define g where "g = seg_search p [0xFF, 0x1FF, 0x3FF, 0x7FF, 0xFFF, 0x1FFF, 0x3FFF, 0x7FFF]"
  have cases: "g = 0 \<and> p < 256 \<or> g = 1 \<and> 256 \<le> p \<and> p < 512 \<or> g = 2 \<and> 512 \<le> p \<and> p < 1024
    \<or> g = 3 \<and> 1024 \<le> p \<and> p < 2048 \<or> g = 4 \<and> 2048 \<le> p \<and> p < 4096
    \<or> g = 5 \<and> 4096 \<le> p \<and> p < 8192 \<or> g = 6 \<and> 8192 \<le> p \<and> p < 16384
    \<or> g = 7 \<and> 16384 \<le> p \<and> p < 32768"
    using assms by (auto simp: g_def)
  define q where "q = (2::int) ^ nat (if g \<noteq> 0 then g + 3 else 4)"
  define d where "d = p div q"
  define h :: int where "h = (if g = 0 then 0 else 16)"
  from cases assms have b: "0 \<le> g" "g < 8" "h * q \<le> p" "p < (h + 16) * q"
    by (elim disjE, simp_all add: q_def h_def)+
  have q: "0 < q" by (simp add: q_def)
  have t: "p = d * q + p mod q" "0 \<le> p mod q" "p mod q < q" using q by (simp_all add: d_def)
  have "(d + 1) * q = d * q + q" by (simp add: algebra_simps)
  with t b have "h * q < (d + 1) * q" "d * q < (h + 16) * q" by linarith+
  from this [THEN mult_right_less_imp_less] q have d: "h < d + 1" "d < h + 16" by simp_all
  have m: "d mod 16 = d - h" using d by (auto simp: h_def mod_pos_pos_trivial [of "d - 16" 16, simplified])
  show thesis
  proof (rule that [of g "d - h"])
    show "g = seg_search p [0xFF, 0x1FF, 0x3FF, 0x7FF, 0xFFF, 0x1FFF, 0x3FFF, 0x7FFF]" by (fact g_def)
    show "d - h = (p div 2 ^ nat (if g \<noteq> 0 then g + 3 else 4)) AND 0x0f"
      using m by (simp only: and_15 d_def q_def)
    from t have "d * q \<le> p" "p < d * q + q" by linarith+
    then show "(if g = 0 then 16 * (d - h) else (16 + (d - h)) * 2 ^ nat (g + 3)) \<le> p"
      "p < (if g = 0 then 16 * (d - h) + 16 else (17 + (d - h)) * 2 ^ nat (g + 3))"
      by (cases "g = 0"; simp add: q_def h_def distrib_right)+
  qed (use d b in simp_all)
qed


text \<open>The A-law octet is the seven-bit code under a mask that also sets the sign.\<close>

definition alaw_code :: "int \<Rightarrow> int \<Rightarrow> u8" where
  "alaw_code g m = word_of_int (g * 16 OR m)"

lemma alaw_code_fields:
  assumes "0 \<le> g" "g < 8" "0 \<le> m" "m < 16"
  shows "uint (alaw_code g m) = 16 * g + m"
proof -
  have "g * 16 OR m = 16 * g + m" using code_fields [OF assms, of 0] by simp
  with uint_code [of "16 * g + m"] assms show ?thesis by (simp only: alaw_code_def)
qed

lemma xor_shift: "0 \<le> m \<Longrightarrow> m < 2 ^ k \<Longrightarrow> m XOR push_bit k 1 = 2 ^ k + (m::int)"
proof -
  assume m: "0 \<le> m" "m < 2 ^ k"
  then have t: "m = take_bit k m" by (simp add: take_bit_int_eq_self)
  have "take_bit k m XOR push_bit k 1 = push_bit k 1 OR take_bit k m"
    by (rule bit_eqI) (auto simp: bit_simps)
  with t or_shift [OF m, of 1] show ?thesis by simp
qed

lemma alaw_decode:
  assumes "0 \<le> g" "g < 8" "0 \<le> m" "m < 16"
  defines "v \<equiv> (if g = 0 then 16 * m else (16 + m) * 2 ^ nat (g + 3))"
  shows "alaw2linear (alaw_code g m XOR 0xd5) = v" "alaw2linear (alaw_code g m XOR 0x55) = - v"
proof -
  have x: "(a XOR 0xd5) XOR 0x55 = a XOR (0x80 :: u8)" "(a XOR 0x55) XOR 0x55 = (a :: u8)" for a
    by (simp_all add: xor.assoc)
  have u: "uint (alaw_code g m) = 16 * g + m" by (rule alaw_code_fields [OF assms(1-4)])
  have "uint (alaw_code g m XOR 0x80) = (16 * g + m) XOR 0x80"
    by (simp add: uint_xor u)
  also have "\<dots> = 128 + 16 * g + m"
    using xor_shift [of "16 * g + m" 7] assms by simp
  finally have u': "uint (alaw_code g m XOR 0x80) = 128 + 16 * g + m" .
  have p: "(m * 16 + 256) * 2 ^ nat (g - 1) = (16 + m) * 2 ^ nat (g + 3)" if "g \<noteq> 0"
  proof -
    from that assms(1) have "nat (g + 3) = 4 + nat (g - 1)" by auto
    then show ?thesis by (simp add: power_add distrib_right)
  qed
  have gen: "alaw2linear w = (if s = 128 then v else - v)"
    if "uint (w XOR 0x55) = s + 16 * g + m" "s = 0 \<or> s = 128" for w s
    using field_mu [OF assms(1-4) that(2)] p
    by (simp only: alaw2linear_def Let_def that(1)) (simp add: v_def mult.commute)
  show "alaw2linear (alaw_code g m XOR 0xd5) = v"
    using gen [of "alaw_code g m XOR 0xd5" 128] u' by (simp only: x) simp
  show "alaw2linear (alaw_code g m XOR 0x55) = - v"
    using gen [of "alaw_code g m XOR 0x55" 0] u by (simp only: x) simp
qed

lemma alaw_encode:
  assumes "0 \<le> p" "p \<le> 32767"
  obtains g m where "0 \<le> g" "g < 8" "0 \<le> m" "m < 16"
    "(if g = 0 then 16 * m else (16 + m) * 2 ^ nat (g + 3)) \<le> p"
    "p < (if g = 0 then 16 * m + 16 else (17 + m) * 2 ^ nat (g + 3))"
    "lineartoalaw p = alaw_code g m XOR 0xd5"
    "p > 0 \<longrightarrow> lineartoalaw (- p) = alaw_code g m XOR 0x55"
proof -
  obtain g m where gm: "0 \<le> g" "g < 8" "0 \<le> m" "m < 16"
    and g: "g = seg_search p [0xFF, 0x1FF, 0x3FF, 0x7FF, 0xFFF, 0x1FFF, 0x3FFF, 0x7FFF]"
    and m: "m = (p div 2 ^ nat (if g \<noteq> 0 then g + 3 else 4)) AND 0x0f"
    and iv: "(if g = 0 then 16 * m else (16 + m) * 2 ^ nat (g + 3)) \<le> p"
      "p < (if g = 0 then 16 * m + 16 else (17 + m) * 2 ^ nat (g + 3))"
    using alaw_magnitude [OF assms] by blast
  show thesis
  proof (rule that [OF gm iv])
    show "lineartoalaw p = alaw_code g m XOR 0xd5"
      using assms by (simp only: lineartoalaw_def Let_def g [symmetric] m [symmetric] alaw_code_def if_True)
    show "p > 0 \<longrightarrow> lineartoalaw (- p) = alaw_code g m XOR 0x55"
    proof
      assume "p > 0"
      then have n: "(0 \<le> - p) = False" by simp
      show "lineartoalaw (- p) = alaw_code g m XOR 0x55"
        by (simp only: lineartoalaw_def Let_def n if_False minus_minus g [symmetric] m [symmetric]
            alaw_code_def)
    qed
  qed
qed

lemma alaw_error:
  assumes "0 \<le> p" "p \<le> 32767"
  shows "16 * \<bar>alaw2linear (lineartoalaw p) - p\<bar> \<le> p + 240"
    and "p > 0 \<Longrightarrow> 16 * \<bar>alaw2linear (lineartoalaw (- p)) + p\<bar> \<le> p + 240"
proof -
  obtain g m where gm: "0 \<le> g" "g < 8" "0 \<le> m" "m < 16"
    and iv: "(if g = 0 then 16 * m else (16 + m) * 2 ^ nat (g + 3)) \<le> p"
      "p < (if g = 0 then 16 * m + 16 else (17 + m) * 2 ^ nat (g + 3))"
    and c: "lineartoalaw p = alaw_code g m XOR 0xd5"
      "p > 0 \<longrightarrow> lineartoalaw (- p) = alaw_code g m XOR 0x55"
    using alaw_encode [OF assms] by blast
  let ?v = "if g = 0 then 16 * m else (16 + m) * 2 ^ nat (g + 3)"
  have "0 \<le> p - ?v" using iv(1) by simp
  moreover have "16 * (p - ?v) \<le> p + 240"
  proof (cases "g = 0")
    case True
    with iv gm(3) show ?thesis by simp
  next
    case False
    define E where "E = (2::int) ^ nat (g + 3)"
    define X where "X = (16 + m) * E"
    have "16 * E \<le> X" using gm by (simp add: X_def E_def)
    moreover have "X \<le> p" "p < X + E"
      using iv False by (simp_all add: X_def E_def distrib_right)
    ultimately show ?thesis using False assms by (simp add: X_def [symmetric] E_def [symmetric])
  qed
  ultimately show "16 * \<bar>alaw2linear (lineartoalaw p) - p\<bar> \<le> p + 240"
    "p > 0 \<Longrightarrow> 16 * \<bar>alaw2linear (lineartoalaw (- p)) + p\<bar> \<le> p + 240"
    using c alaw_decode [OF gm] by (simp_all add: abs_if)
qed


section \<open>Properties of the tables in use\<close>

lemma XLAW_eq: "DAHDI_XLAW a l = (case l of MULAW \<Rightarrow> mulaw2linear (uint a) | ALAW \<Rightarrow> alaw2linear a)"
proof -
  have "unat a < 256" using unsigned_less [where 'a = nat and w = a] by simp
  then show ?thesis
    by (auto simp: DAHDI_XLAW_def mulaw_table_def alaw_table_def split: law.splits)
qed

lemma short_mod4: "((s::int) + 65536) mod 4 = s mod 4"
  by presburger

lemma short_index:
  assumes "-32768 \<le> s" "s < 32768"
  shows "short (4 * ((s mod 65536) div 4)) = s - s mod 4" "(s mod 65536) div 4 < 16384" "0 \<le> (s mod 65536) div 4"
proof -
  have "s mod 65536 = (if s < 0 then s + 65536 else s)" using assms mod_wrap [of "s + 65536" 65536]
    by (auto simp: mod_pos_pos_trivial)
  then have "4 * ((s mod 65536) div 4) = s - s mod 4 + (if s < 0 then 65536 else 0)"
    using short_mod4 [of s] by (auto simp: minus_mod_eq_mult_div [symmetric])
  moreover have "-32768 \<le> s - s mod 4 \<and> s - s mod 4 < 32768"
  proof -
    have "s - s mod 4 = 4 * (s div 4)" by (simp add: minus_mod_eq_mult_div)
    with assms show ?thesis by auto
  qed
  ultimately show "short (4 * ((s mod 65536) div 4)) = s - s mod 4"
    using mod_wrap [of "98304 + (s - s mod 4)" 65536] by (auto simp: short_def)
  show "(s mod 65536) div 4 < 16384" "0 \<le> (s mod 65536) div 4" by auto
qed

lemma LIN2X_eq:
  assumes "-32768 \<le> s" "s < 32768"
  shows "DAHDI_LIN2X s l = (case l of MULAW \<Rightarrow> lineartoulaw (s - s mod 4) | ALAW \<Rightarrow> lineartoalaw (s - s mod 4))"
proof -
  have "nat ((s mod 65536) div 4) < 16384" "int (nat ((s mod 65536) div 4)) = (s mod 65536) div 4"
    using short_index(2,3) [OF assms] by simp_all
  then show ?thesis using short_index(1) [OF assms]
    by (auto simp: DAHDI_LIN2X_def lin2mu_table_def lin2a_table_def split: law.splits)
qed

text \<open>C15. Companding loses little: for samples away from the negative end of the range, encoding
  through the tables and decoding again is off by at most a sixteenth of the sample plus the
  smallest step.\<close>

theorem companding_error:
  assumes "-31600 \<le> s" and "s \<le> 32635"
  shows "16 * \<bar>DAHDI_XLAW (DAHDI_LIN2X s l) l - s\<bar> \<le> \<bar>s\<bar> + 300"
proof -
  define q where "q = s - s mod 4"
  have q4: "q \<le> s" "s \<le> q + 3" "-31600 \<le> q"
  proof -
    show "q \<le> s" "s \<le> q + 3" by (simp_all add: q_def)
    have "q = 4 * (s div 4)" by (simp add: q_def minus_mod_eq_mult_div)
    with assms(1) show "-31600 \<le> q" by auto
  qed
  have r: "-32768 \<le> s" "s < 32768" using assms by auto
  show ?thesis
  proof (cases l)
    case MULAW
    have "32 * \<bar>mulaw2linear (uint (lineartoulaw q)) - q\<bar> \<le> \<bar>q\<bar> + 132"
      using mulaw_error_pos [of q] mulaw_error_neg [of "- q"] q4 assms by (cases "q \<ge> 0") auto
    then show ?thesis using q4
      by (simp add: MULAW XLAW_eq LIN2X_eq [OF r] q_def [symmetric] abs_if split: if_splits)
  next
    case ALAW
    have "16 * \<bar>alaw2linear (lineartoalaw q) - q\<bar> \<le> \<bar>q\<bar> + 240"
      using alaw_error [of q] alaw_error(2) [of "- q"] q4 assms by (cases "q \<ge> 0") auto
    then show ?thesis using q4
      by (simp add: ALAW XLAW_eq LIN2X_eq [OF r] q_def [symmetric] abs_if split: if_splits)
  qed
qed

theorem companding_error_witness: "16 * \<bar>DAHDI_XLAW (DAHDI_LIN2X 12345 ALAW) ALAW - 12345\<bar> \<le> 12645"
  using companding_error [of 12345 ALAW] by simp

text \<open>Decoded values come back as the code they came from.\<close>

lemma mu_interval_unique:
  assumes "0 \<le> e" "e < 8" "0 \<le> m" "m < 16" "0 \<le> e'" "e' < 8" "0 \<le> m'" "m' < (16::int)"
    and "(16 + m) * 2 ^ nat (e + 3) \<le> t" "t < (17 + m) * 2 ^ nat (e + 3)"
    and "(16 + m') * 2 ^ nat (e' + 3) \<le> t" "t < (17 + m') * 2 ^ nat (e' + 3)"
  shows "e = e' \<and> m = m'"
proof -
  have "(16 + m) * 2 ^ nat (e + 3) \<le> t \<longrightarrow> t < (17 + m) * 2 ^ nat (e + 3) \<longrightarrow>
    (16 + m') * 2 ^ nat (e' + 3) \<le> t \<longrightarrow> t < (17 + m') * 2 ^ nat (e' + 3) \<longrightarrow> e = e' \<and> m = m'"
    by (rule small_cases8 [OF assms(1,2)]; rule small_cases8 [OF assms(5,6)])
       (use assms(3,4,7,8) in simp_all)
  with assms show ?thesis by blast
qed

lemma mulaw_code_back:
  assumes "0 \<le> e" "e < 8" "0 \<le> m" "m < 16"
  defines "p \<equiv> (16 + m) * 2 ^ nat (e + 3) + 4 * 2 ^ nat e - 132"
  shows "0 \<le> p" "p \<le> 32635" "p mod 4 = 0"
    "lineartoulaw p = (let b = word_of_int (255 - 16 * e - m) in
       if b = 0 then 2 else if b = 0xff then 0x7f else b)"
    "p > 0 \<longrightarrow> lineartoulaw (- p) = (let b = word_of_int (127 - 16 * e - m) in
       if b = 0 then 2 else if b = 0xff then 0x7f else b)"
proof -
  have "0 \<le> (16 + m) * 2 ^ nat (e + 3) + 4 * 2 ^ nat e - 132 \<and>
     (16 + m) * 2 ^ nat (e + 3) + 4 * 2 ^ nat e - 132 \<le> 32635"
    by (rule small_cases8 [OF assms(1,2)]) (use assms(3,4) in simp_all)
  moreover have "p = 4 * ((16 + m) * (2 * 2 ^ nat e) + 2 ^ nat e - 33)"
    by (simp add: p_def power_e3 [OF assms(1)] algebra_simps)
  then have "p mod 4 = 0" by simp
  ultimately show p: "0 \<le> p" "p \<le> 32635" "p mod 4 = 0" by (simp_all add: p_def)
  obtain e' m' where em: "0 \<le> e'" "e' < 8" "0 \<le> m'" "m' < 16"
    "(16 + m') * 2 ^ nat (e' + 3) \<le> p + 132" "p + 132 < (17 + m') * 2 ^ nat (e' + 3)"
    and c: "lineartoulaw p = (let b = word_of_int (255 - 16 * e' - m') in
       if b = 0 then 2 else if b = 0xff then 0x7f else b)"
    "p > 0 \<longrightarrow> lineartoulaw (- p) = (let b = word_of_int (127 - 16 * e' - m') in
       if b = 0 then 2 else if b = 0xff then 0x7f else b)"
    using ulaw_encode [OF p(1,2)] by blast
  have "e = e' \<and> m = m'"
  proof (rule mu_interval_unique [OF assms(1-4) em(1-4) _ _ em(5,6)])
    show "(16 + m) * 2 ^ nat (e + 3) \<le> p + 132" by (simp add: p_def)
    show "p + 132 < (17 + m) * 2 ^ nat (e + 3)"
      by (simp add: p_def distrib_right power_e3 [OF assms(1)])
  qed
  with c show "lineartoulaw p = (let b = word_of_int (255 - 16 * e - m) in
       if b = 0 then 2 else if b = 0xff then 0x7f else b)"
    "p > 0 \<longrightarrow> lineartoulaw (- p) = (let b = word_of_int (127 - 16 * e - m) in
       if b = 0 then 2 else if b = 0xff then 0x7f else b)" by simp_all
qed


lemma alaw_code_back:
  assumes "0 \<le> g" "g < 8" "0 \<le> m" "m < 16"
  defines "p \<equiv> (if g = 0 then 16 * m else (16 + m) * 2 ^ nat (g + 3))"
  shows "0 \<le> p" "p \<le> 32767" "p mod 4 = 0" "lineartoalaw p = alaw_code g m XOR 0xd5"
    "p > 0 \<longrightarrow> lineartoalaw (- p) = alaw_code g m XOR 0x55" "p = 0 \<longleftrightarrow> g = 0 \<and> m = 0"
proof -
  have "0 \<le> (if g = 0 then 16 * m else (16 + m) * 2 ^ nat (g + 3)) \<and>
     (if g = 0 then 16 * m else (16 + m) * 2 ^ nat (g + 3)) \<le> 32767 \<and>
     ((if g = 0 then 16 * m else (16 + m) * 2 ^ nat (g + 3)) = 0 \<longleftrightarrow> g = 0 \<and> m = 0)"
    by (rule small_cases8 [OF assms(1,2)]) (use assms(3,4) in auto)
  moreover have "p mod 4 = 0"
  proof -
    have "p = 4 * (if g = 0 then 4 * m else (16 + m) * (2 * 2 ^ nat g))"
      by (simp add: p_def power_e3 [OF assms(1)])
    then show ?thesis by simp
  qed
  ultimately show p: "0 \<le> p" "p \<le> 32767" "p mod 4 = 0" "p = 0 \<longleftrightarrow> g = 0 \<and> m = 0" by (simp_all add: p_def)
  obtain g' m' where gm: "0 \<le> g'" "g' < 8" "0 \<le> m'" "m' < 16"
    "(if g' = 0 then 16 * m' else (16 + m') * 2 ^ nat (g' + 3)) \<le> p"
    "p < (if g' = 0 then 16 * m' + 16 else (17 + m') * 2 ^ nat (g' + 3))"
    and c: "lineartoalaw p = alaw_code g' m' XOR 0xd5"
    "p > 0 \<longrightarrow> lineartoalaw (- p) = alaw_code g' m' XOR 0x55"
    using alaw_encode [OF p(1,2)] by blast
  have "p = (if g = 0 then 16 * m else (16 + m) * 2 ^ nat (g + 3)) \<longrightarrow>
      (if g' = 0 then 16 * m' else (16 + m') * 2 ^ nat (g' + 3)) \<le> p \<longrightarrow>
      p < (if g' = 0 then 16 * m' + 16 else (17 + m') * 2 ^ nat (g' + 3)) \<longrightarrow> g = g' \<and> m = m'"
    by (rule small_cases8 [OF assms(1,2)]; rule small_cases8 [OF gm(1,2)])
       (use assms(3,4) gm(3,4) in simp_all)
  with gm(5,6) have "g = g' \<and> m = m'" by (simp add: p_def)
  with c show "lineartoalaw p = alaw_code g m XOR 0xd5"
    "p > 0 \<longrightarrow> lineartoalaw (- p) = alaw_code g m XOR 0x55" by simp_all
qed

lemma byte_fields:
  assumes "0 \<le> (i::int)" "i < 256"
  obtains s e m where "i = s + 16 * e + m" "0 \<le> e" "e < 8" "0 \<le> m" "m < 16" "s = 0 \<or> s = 128"
proof (rule that [of "128 * (i div 128)" "i mod 128 div 16" "i mod 16"])
  have "i mod 128 mod 16 = i mod 16" by (simp add: mod_mod_cancel)
  then show "i = 128 * (i div 128) + 16 * (i mod 128 div 16) + i mod 16"
    using mult_div_mod_eq [of 128 i] mult_div_mod_eq [of 16 "i mod 128"] by linarith
qed (use assms in auto)

text \<open>C16. Decoding an octet and encoding the sample again gives the octet back, for both laws and
  every octet but the second code of zero and the mu-law code 0, which the encoder replaces.\<close>

theorem companding_round_trip:
  "DAHDI_LIN2X (DAHDI_XLAW b l) l = (case l of
      MULAW \<Rightarrow> if b = 0 then 2 else if b = 0xff then 0x7f else b
    | ALAW \<Rightarrow> if b = 0x55 then 0xd5 else b)"
proof (cases l)
  case MULAW
  have "0 \<le> uint b" "uint b < 256"
    using unsigned_less [where 'a = int and w = b] by simp_all
  then have b: "0 \<le> 255 - uint b" "255 - uint b < 256" by linarith+
  obtain s e m where f: "255 - uint b = s + 16 * e + m" and em: "0 \<le> e" "e < 8" "0 \<le> m" "m < 16"
    and s: "s = 0 \<or> s = 128" using byte_fields [OF b] by blast
  define p where "p = (16 + m) * 2 ^ nat (e + 3) + 4 * 2 ^ nat e - 132"
  note bk = mulaw_code_back [OF em, folded p_def]
  have ub: "b = word_of_int (255 - s - 16 * e - m)"
    using f by (metis diff_diff_eq diff_diff_eq2 add_diff_cancel_left' diff_add_cancel word_of_int_uint)
  have dec: "mulaw2linear (uint b) = (if s = 0 then p else - p)"
  proof -
    from f s have "uint b = (if s = 0 then 255 - (16 * e + m) else 127 - (16 * e + m))" by auto
    with mulaw_decode [OF em] show ?thesis by (simp add: p_def)
  qed
  have p0: "p = 0 \<longleftrightarrow> e = 0 \<and> m = 0"
  proof -
    have "((16 + m) * 2 ^ nat (e + 3) + 4 * 2 ^ nat e - 132 = 0) = (e = 0 \<and> m = 0)"
      by (rule small_cases8 [OF em(1,2)]) (use em(3,4) in auto)
    then show ?thesis by (simp add: p_def)
  qed
  have "(- p) mod 4 = 0" using bk(3) by presburger
  then have lin: "DAHDI_LIN2X (mulaw2linear (uint b)) MULAW = lineartoulaw (mulaw2linear (uint b))"
    using bk(1-3) dec LIN2X_eq [of "mulaw2linear (uint b)" MULAW] by (auto split: if_splits)
  show ?thesis
  proof (cases "p = 0")
    case True
    with p0 have "e = 0" "m = 0" by auto
    with s ub True dec bk(4) lin show ?thesis by (auto simp: MULAW XLAW_eq)
  next
    case False
    with bk(1) have "p > 0" by simp
    with s ub dec bk(4,5) lin show ?thesis by (auto simp: MULAW XLAW_eq Let_def)
  qed
next
  case ALAW
  have u: "0 \<le> uint (b XOR 0x55)" "uint (b XOR 0x55) < 256"
    using unsigned_less [where 'a = int and w = "b XOR 0x55"] by simp_all
  obtain s g m where f: "uint (b XOR 0x55) = s + 16 * g + m" and gm: "0 \<le> g" "g < 8" "0 \<le> m" "m < 16"
    and s: "s = 0 \<or> s = 128" using byte_fields [OF u] by blast
  define p where "p = (if g = 0 then 16 * m else (16 + m) * 2 ^ nat (g + 3))"
  note bk = alaw_code_back [OF gm, folded p_def]
  note dec = alaw_decode [OF gm, folded p_def]
  have bb: "b = (if s = 128 then alaw_code g m XOR 0xd5 else alaw_code g m XOR 0x55)"
  proof -
    have "uint (b XOR 0x55) = uint (if s = 128 then alaw_code g m XOR 0x80 else alaw_code g m)"
      using f s alaw_code_fields [OF gm] xor_shift [of "16 * g + m" 7] gm by (auto simp: uint_xor)
    then have "b XOR 0x55 = (if s = 128 then alaw_code g m XOR 0x80 else alaw_code g m)"
      by (simp add: word_uint_eq_iff)
    then have "(b XOR 0x55) XOR 0x55 = (if s = 128 then alaw_code g m XOR 0x80 else alaw_code g m) XOR 0x55"
      by simp
    then show ?thesis by (simp add: xor.assoc split: if_splits)
  qed
  have "(- p) mod 4 = 0" using bk(3) by presburger
  then have lin: "DAHDI_LIN2X (alaw2linear b) ALAW = lineartoalaw (alaw2linear b)"
    using bk(1-3) dec bb LIN2X_eq [of "alaw2linear b" ALAW] by (auto split: if_splits)
  have z: "b = 0x55 \<longleftrightarrow> s = 0 \<and> p = 0"
  proof
    assume "b = 0x55"
    with f have "s + 16 * g + m = 0" by simp
    moreover have "0 \<le> s" using s by auto
    ultimately have "s = 0" "g = 0" "m = 0" using gm by linarith+
    then show "s = 0 \<and> p = 0" by (simp add: bk(6))
  next
    assume "s = 0 \<and> p = 0"
    then show "b = 0x55" using bb bk(6) by (simp add: alaw_code_def)
  qed
  show ?thesis
    using s bb dec bk lin z by (auto simp: ALAW XLAW_eq alaw_code_def)
qed

text \<open>The lowest samples are encoded as silence: the loudest negative peak becomes zero.\<close>

lemma lowest_sample_encodes_silence:
  "lineartoulaw (-32768) = 0x7f" "mulaw2linear 0x7f = 0"
  "lineartoalaw (-32768) = 0xd5" "alaw2linear 0xd5 = 0"
  by (simp_all add: lineartoulaw_def ulaw_pack_def short_def exp_lut_def mulaw2linear_def etab_def
      lineartoalaw_def alaw2linear_def Let_def)

end
