(* ===== verification/Rbs.thy ===== *)
theory Rbs
  imports Law
begin

text \<open>
  Robbed-bit signalling of \<^verbatim>\<open>dahdi-base.c\<close>: the transmit hook state
  (\<open>dahdi_rbs_sethook\<close>, \<open>dahdi_cas_setbits\<close>), the receive state machines
  (\<open>__dahdi_hooksig_pvt\<close>, \<open>dahdi_rbsbits\<close>), the expiry of the wink and flash timer and
  the timers that \<open>_dahdi_receive\<close> counts down. Times are kept in milliseconds or in
  samples, eight a millisecond, as the code keeps them. Wake-ups of sleeping processes
  have no state of their own and are left out.
\<close>

section \<open>State\<close>

datatype dahdi_txstate =
    TXSTATE_ONHOOK | TXSTATE_OFFHOOK | TXSTATE_START | TXSTATE_PREWINK | TXSTATE_WINK
  | TXSTATE_PREFLASH | TXSTATE_FLASH | TXSTATE_DEBOUNCE | TXSTATE_AFTERSTART
  | TXSTATE_RINGON | TXSTATE_RINGOFF | TXSTATE_KEWL | TXSTATE_AFTERKEWL
  | TXSTATE_PULSEBREAK | TXSTATE_PULSEMAKE | TXSTATE_PULSEAFTER

datatype dahdi_rxsig = RXSIG_ONHOOK | RXSIG_OFFHOOK | RXSIG_START | RXSIG_RING | RXSIG_INITIAL

abbreviation (input) TXSIG_ONHOOK :: int where "TXSIG_ONHOOK \<equiv> 0"
abbreviation (input) TXSIG_OFFHOOK :: int where "TXSIG_OFFHOOK \<equiv> 1"
abbreviation (input) TXSIG_START :: int where "TXSIG_START \<equiv> 2"
abbreviation (input) TXSIG_KEWL :: int where "TXSIG_KEWL \<equiv> 3"
abbreviation (input) REVERSE_RXTONE :: int where "REVERSE_RXTONE \<equiv> 1"
abbreviation (input) REVERSE_TXTONE :: int where "REVERSE_TXTONE \<equiv> 2"

abbreviation (input) RING_DEBOUNCE_TIME :: int where "RING_DEBOUNCE_TIME \<equiv> 2000"
abbreviation (input) MINPULSETIME :: int where "MINPULSETIME \<equiv> 120"
abbreviation (input) MAXPULSETIME :: int where "MAXPULSETIME \<equiv> 1600"
abbreviation (input) PULSETIMEOUT :: int where "PULSETIMEOUT \<equiv> 250"
abbreviation (input) RINGTRAILER :: int where "RINGTRAILER \<equiv> 400"
abbreviation (input) AFTERSTART_TIME :: int where "AFTERSTART_TIME \<equiv> 500"
abbreviation (input) KEWLTIME :: int where "KEWLTIME \<equiv> 500"
abbreviation (input) AFTERKEWLTIME :: int where "AFTERKEWLTIME \<equiv> 300"

record chan_rbs = chan_law +
  txtone :: int
  tx_v2 :: int
  tx_v3 :: int
  v1_1 :: int
  v2_1 :: int
  v3_1 :: int
  toneflags :: int
  prewinktime :: int
  preflashtime :: int
  winktime :: int
  flashtime :: int
  starttime :: int
  rxwinktime :: int
  rxflashtime :: int
  debouncetime :: int
  pulsebreaktime :: int
  pulsemaketime :: int
  pulseaftertime :: int
  ringdebtimer :: int
  ringtrailer :: int
  pulsecount :: int
  pulsetimer :: int
  itimerset :: int
  itimer :: int
  otimer :: int
  gotgs :: bool
  txstate :: dahdi_txstate
  rxsig :: int
  txsig :: int
  rxsigstate :: int
  rxhooksig :: dahdi_rxsig
  txhooksig :: int
  kewlonhook :: bool

section \<open>Transmit side\<close>

definition set_txtone :: "int \<Rightarrow> int \<Rightarrow> int \<Rightarrow> 'a chan_rbs_scheme \<Rightarrow> 'a chan_rbs_scheme" where
  "set_txtone fac init_v2 init_v3 c =
     (if fac = 0 then c\<lparr>v2_1 := 0, v3_1 := 0\<rparr>
      else c\<lparr>txtone := fac, v1_1 := 0, v2_1 := init_v2, v3_1 := init_v3\<rparr>)"

text \<open>The signalling bits of each signalling type, for on hook, off hook, start and kewl.\<close>

definition outs :: "(u32 \<times> int list) list" where
  "outs =
     [(SIG_NONE,  [BITS_ACD, 0, 0, 0]),
      (SIG_EM,    [0, BITS_ABCD, BITS_ABCD, 0]),
      (SIG_FXSLS, [BITS_BD, BITS_ABCD, BITS_ABCD, 0]),
      (SIG_FXSGS, [BITS_BD, BITS_ABCD, BITS_AC, 0]),
      (SIG_FXSKS, [BITS_BD, BITS_ABCD, BITS_ABCD, 0]),
      (SIG_FXOLS, [BITS_BD, BITS_BD, 0, 0]),
      (SIG_FXOGS, [BITS_ABCD, BITS_BD, 0, 0]),
      (SIG_FXOKS, [BITS_BD, BITS_BD, 0, BITS_ABCD]),
      (SIG_SF,    [BITS_BCD, BITS_ABCD, BITS_ABCD, BITS_BCD]),
      (SIG_EM_E1, [DBIT, BITS_ABD, BITS_ABD, DBIT])]"

definition sethook_sf :: "int \<Rightarrow> int \<Rightarrow> 'a chan_rbs_scheme \<Rightarrow> 'a chan_rbs_scheme" where
  "sethook_sf tsig timeout c =
     (let c = c\<lparr>txhooksig := tsig\<rparr>;
          reverse = (toneflags c AND REVERSE_TXTONE \<noteq> 0);
          c = (if txtone c \<noteq> 0 then
                 (if (tsig \<noteq> 0 \<and> \<not> reverse) \<or> (tsig = 0 \<and> reverse)
                  then set_txtone (txtone c) (tx_v2 c) (tx_v3 c) c
                  else set_txtone 0 0 0 c)
               else c)
      in c\<lparr>otimer := i32 (timeout * int DAHDI_CHUNKSIZE)\<rparr>)"

definition sethook_driver :: "int \<Rightarrow> int \<Rightarrow> 'a chan_rbs_scheme \<Rightarrow> 'a chan_rbs_scheme" where
  "sethook_driver tsig timeout c =
     (if chan_op op_hooksig c \<noteq> None then
        (let c = (if txhooksig c \<noteq> tsig
                  then drv_log (Drv_hooksig tsig) (c\<lparr>txhooksig := tsig\<rparr>) else c)
         in c\<lparr>otimer := i32 (timeout * int DAHDI_CHUNKSIZE)\<rparr>)
      else
        (case map_of outs (sig c) of
           Some bits \<Rightarrow>
             (let c = c\<lparr>txhooksig := tsig, txsig := bits ! nat tsig\<rparr>;
                  c = drv_log (Drv_rbsbits (txsig c)) c
              in c\<lparr>otimer := i32 (timeout * int DAHDI_CHUNKSIZE)\<rparr>)
         | None \<Rightarrow> c))"

definition rbs_sethook :: "int \<Rightarrow> dahdi_txstate \<Rightarrow> int \<Rightarrow> 'a chan_rbs_scheme \<Rightarrow> 'a chan_rbs_scheme" where
  "rbs_sethook tsig tstate timeout c =
     (case chan_span c of
        None \<Rightarrow> c
      | Some s \<Rightarrow>
         (if FLAG_RBS \<notin> span_flags s then c
          else if tsig > 3 \<or> tsig < 0 then c
          else if op_rbsbits (span_operations s) = None \<and> op_hooksig (span_operations s) = None then c
          else if sig c = SIG_DACS_RBS then c
          else
            (let c = c\<lparr>txstate := tstate\<rparr>
             in if sig c = SIG_SF then sethook_sf tsig timeout c
                else sethook_driver tsig timeout c)))"

definition cas_setbits :: "int \<Rightarrow> 'a chan_rbs_scheme \<Rightarrow> int \<times> 'a chan_rbs_scheme" where
  "cas_setbits bits c =
     (case chan_span c of
        None \<Rightarrow> (-1, c)
      | Some s \<Rightarrow> (0, if op_rbsbits (span_operations s) \<noteq> None
                      then drv_log (Drv_rbsbits bits) (c\<lparr>txsig := bits\<rparr>) else c))"

section \<open>Receive side\<close>

definition hooksig_em :: "dahdi_rxsig \<Rightarrow> 'a chan_rbs_scheme \<Rightarrow> 'a chan_rbs_scheme" where
  "hooksig_em r c =
     (case r of
        RXSIG_OFFHOOK \<Rightarrow>
          (let t = i32 (rxwinktime c * int DAHDI_CHUNKSIZE) in c\<lparr>itimerset := t, itimer := t\<rparr>)
      | RXSIG_ONHOOK \<Rightarrow>
          (let c = (if itimer c \<noteq> 0 then qevent c EVENT_WINKFLASH
                    else (qevent c EVENT_ONHOOK)\<lparr>gotgs := False\<rparr>)
           in c\<lparr>itimerset := 0, itimer := 0\<rparr>)
      | _ \<Rightarrow> c)"

definition hooksig_fxs :: "dahdi_rxsig \<Rightarrow> 'a chan_rbs_scheme \<Rightarrow> 'a chan_rbs_scheme" where
  "hooksig_fxs r c =
     (if r = RXSIG_ONHOOK then
        (let c = c\<lparr>ringdebtimer := RING_DEBOUNCE_TIME, ringtrailer := 0\<rparr>
         in if txstate c \<noteq> TXSTATE_DEBOUNCE then qevent (c\<lparr>gotgs := False\<rparr>) EVENT_ONHOOK else c)
      else c)"

definition hooksig_fxo_offhook :: "'a chan_rbs_scheme \<Rightarrow> 'a chan_rbs_scheme" where
  "hooksig_fxo_offhook c =
     (let c = (if txstate c = TXSTATE_START
               then rbs_sethook TXSIG_OFFHOOK TXSTATE_AFTERSTART AFTERSTART_TIME c else c);
          c = c\<lparr>kewlonhook := False\<rparr>;
          plen = itimerset c - itimer c;
          c = (if itimer c \<noteq> 0 then
                 (if plen \<le> MAXPULSETIME then
                    (if plen \<ge> MINPULSETIME then
                       (let c = c\<lparr>pulsecount := pulsecount c + 1, pulsetimer := PULSETIMEOUT,
                                  itimer := itimerset c\<rparr>
                        in if pulsecount c = 1 then qevent c EVENT_PULSE_START else c)
                     else c)
                  else qevent c EVENT_WINKFLASH)
               else if \<not> gotgs c then
                 (qevent c EVENT_RINGOFFHOOK)\<lparr>gotgs := True, itimerset := 0, itimer := 0\<rparr>
               else c)
      in c\<lparr>itimerset := 0, itimer := 0\<rparr>)"

definition hooksig_fxo_onhook :: "'a chan_rbs_scheme \<Rightarrow> 'a chan_rbs_scheme" where
  "hooksig_fxo_onhook c =
     (let c = (if txstate c \<notin> {TXSTATE_DEBOUNCE, TXSTATE_KEWL, TXSTATE_AFTERKEWL} then
                 (let t = i32 (rxflashtime c * int DAHDI_CHUNKSIZE) in c\<lparr>itimerset := t, itimer := t\<rparr>)
               else c)
      in if txstate c = TXSTATE_KEWL then c\<lparr>kewlonhook := True\<rparr> else c)"

definition hooksig_fxo :: "dahdi_rxsig \<Rightarrow> 'a chan_rbs_scheme \<Rightarrow> 'a chan_rbs_scheme" where
  "hooksig_fxo r c = (case r of
     RXSIG_OFFHOOK \<Rightarrow> hooksig_fxo_offhook c
   | RXSIG_ONHOOK \<Rightarrow> hooksig_fxo_onhook c
   | _ \<Rightarrow> c)"

definition hooksig_fxogs :: "dahdi_rxsig \<Rightarrow> 'a chan_rbs_scheme \<Rightarrow> 'a chan_rbs_scheme" where
  "hooksig_fxogs r c =
     hooksig_fxo r
       (if r = RXSIG_START \<and> \<not> gotgs c then (qevent c EVENT_RINGOFFHOOK)\<lparr>gotgs := True\<rparr> else c)"

definition hooksig_pvt :: "dahdi_rxsig \<Rightarrow> 'a chan_rbs_scheme \<Rightarrow> 'a chan_rbs_scheme" where
  "hooksig_pvt r c =
     (if rxhooksig c = r then c
      else if FLAG_SIGFREEZE \<in> chan_flags c then c
      else
        (let c = c\<lparr>rxhooksig := r\<rparr>;
             c = (if sig c AND SIGMASK_FXS \<noteq> 0 \<and> r = RXSIG_RING \<and> ringdebtimer c = 0
                  then qevent c EVENT_RINGBEGIN else c)
         in if sig c = SIG_EM \<or> sig c = SIG_EM_E1 then hooksig_em r c
            else if sig c = SIG_FXSKS then
              (if txstate c \<noteq> TXSTATE_OFFHOOK then c else hooksig_fxs r c)
            else if sig c = SIG_FXSGS then hooksig_fxs r c
            else if sig c = SIG_FXOGS then hooksig_fxogs r c
            else if sig c = SIG_FXOLS \<or> sig c = SIG_FXOKS then hooksig_fxo r c
            else c))"

definition rbsbits_hook :: "int \<Rightarrow> 'a chan_rbs_scheme \<Rightarrow> 'a chan_rbs_scheme" where
  "rbsbits_hook cursig c =
     (let a = (cursig AND ABIT \<noteq> 0); b = (cursig AND BBIT \<noteq> 0);
          hook = (if a then RXSIG_OFFHOOK else RXSIG_ONHOOK)
      in if sig c = SIG_FXOGS then hooksig_pvt (if \<not> b then RXSIG_START else hook) c
         else if sig c = SIG_EM_E1 \<or> sig c = SIG_FXOLS \<or> sig c = SIG_FXOKS then hooksig_pvt hook c
         else if sig c = SIG_EM then
           (if cursig AND ABIT = rxsig c AND ABIT then c else hooksig_pvt hook c)
         else if sig c = SIG_FXSKS \<or> sig c = SIG_FXSGS \<or> sig c = SIG_FXSLS then
           (if \<not> b then hooksig_pvt RXSIG_RING c
            else if sig c \<noteq> SIG_FXSLS \<and> a then hooksig_pvt RXSIG_ONHOOK c
            else hooksig_pvt RXSIG_OFFHOOK c)
         else if sig c = SIG_CAS then qevent c EVENT_BITSCHANGED
         else c)"

definition dahdi_rbsbits :: "int \<Rightarrow> 'a chan_rbs_scheme \<Rightarrow> 'a chan_rbs_scheme" where
  "dahdi_rbsbits cursig c =
     (if cursig = rxsig c then c
      else if FLAG_SIGFREEZE \<in> chan_flags c then c
      else (rbsbits_hook cursig c)\<lparr>rxsig := cursig\<rparr>)"

definition rbs_itimer_expire :: "'a chan_rbs_scheme \<Rightarrow> 'a chan_rbs_scheme" where
  "rbs_itimer_expire c =
     (if sig c = SIG_FXOLS \<or> sig c = SIG_FXOGS \<or> sig c = SIG_FXOKS
      then (qevent c EVENT_ONHOOK)\<lparr>gotgs := False\<rparr>
      else qevent c EVENT_RINGOFFHOOK)"

text \<open>The timers that each received chunk advances.\<close>

definition receive_itimer :: "'a chan_rbs_scheme \<Rightarrow> 'a chan_rbs_scheme" where
  "receive_itimer c =
     (if itimer c \<noteq> 0 then
        (let c = c\<lparr>itimer := itimer c - int DAHDI_CHUNKSIZE\<rparr>
         in if itimer c \<le> 0 then rbs_itimer_expire c else c)
      else c)"

definition receive_ring :: "'a chan_rbs_scheme \<Rightarrow> 'a chan_rbs_scheme" where
  "receive_ring c =
     (let c = (if ringdebtimer c \<noteq> 0 then c\<lparr>ringdebtimer := ringdebtimer c - 1\<rparr> else c)
      in if sig c AND SIGMASK_FXS \<noteq> 0 then
           (if rxhooksig c = RXSIG_RING then c\<lparr>ringtrailer := RINGTRAILER\<rparr>
            else if ringtrailer c \<noteq> 0 then
              (let c = c\<lparr>ringtrailer := ringtrailer c - int DAHDI_CHUNKSIZE\<rparr>
               in if ringtrailer c = 0 \<and> ringdebtimer c = 0 then qevent c EVENT_RINGOFFHOOK else c)
            else c)
         else c)"

definition pulse_digit :: "int \<Rightarrow> int option" where
  "pulse_digit n =
     (if n > 12 then None
      else Some (EVENT_PULSEDIGIT OR
        (if n > 11 then 35 else if n > 10 then 42 else if n > 9 then 48 else 48 + n)))"

definition receive_pulse :: "'a chan_rbs_scheme \<Rightarrow> 'a chan_rbs_scheme" where
  "receive_pulse c =
     (if pulsetimer c \<noteq> 0 then
        (let c = c\<lparr>pulsetimer := pulsetimer c - 1\<rparr>
         in if pulsetimer c \<le> 0 \<and> pulsecount c \<noteq> 0 then
              (case pulse_digit (pulsecount c) of Some e \<Rightarrow> qevent c e | None \<Rightarrow> c)\<lparr>pulsecount := 0\<rparr>
            else c)
      else c)"

definition receive_timers :: "'a chan_rbs_scheme \<Rightarrow> 'a chan_rbs_scheme" where
  "receive_timers c = receive_pulse (receive_ring (receive_itimer c))"

section \<open>Pulse digits\<close>

abbreviation (input) ticks :: "nat \<Rightarrow> 'a chan_rbs_scheme \<Rightarrow> 'a chan_rbs_scheme" where
  "ticks n \<equiv> receive_timers ^^ n"

text \<open>The receive state of an FXO channel that matters for pulse digits.\<close>

definition fxo_sig :: "u32 \<Rightarrow> bool" where
  "fxo_sig s \<longleftrightarrow> s = SIG_FXOLS \<or> s = SIG_FXOGS \<or> s = SIG_FXOKS"

definition fxo_rx :: "int \<Rightarrow> dahdi_rxsig \<Rightarrow> int \<Rightarrow> int \<Rightarrow> int \<Rightarrow> int \<Rightarrow> int list \<Rightarrow> 'a chan_rbs_scheme \<Rightarrow> bool" where
  "fxo_rx flash h n pt iset it es c \<longleftrightarrow>
     ev_inv c \<and> pending c = es \<and> fxo_sig (sig c) \<and>
     FLAG_SIGFREEZE \<notin> chan_flags c \<and> txstate c = TXSTATE_OFFHOOK \<and> rxflashtime c = flash \<and>
     rxhooksig c = h \<and> pulsecount c = n \<and> pulsetimer c = pt \<and> itimerset c = iset \<and> itimer c = it"

lemma fxo_no_fxs: "fxo_sig s \<Longrightarrow> s AND SIGMASK_FXS = 0"
  by (auto simp: fxo_sig_def)

lemma fxo_hooksig:
  assumes "fxo_sig (sig c)" and "r = RXSIG_ONHOOK \<or> r = RXSIG_OFFHOOK"
    and "rxhooksig c \<noteq> r" and "FLAG_SIGFREEZE \<notin> chan_flags c"
  shows "hooksig_pvt r c = hooksig_fxo r (c\<lparr>rxhooksig := r\<rparr>)"
  using assms fxo_no_fxs [OF assms(1)]
  by (auto simp: hooksig_pvt_def hooksig_fxogs_def fxo_sig_def)

lemma pending_rec [simp]:
  "pending (c\<lparr>itimer := x\<rparr>) = pending c" "pending (c\<lparr>ringdebtimer := x\<rparr>) = pending c"
  "pending (c\<lparr>pulsetimer := x\<rparr>) = pending c" "pending (c\<lparr>pulsecount := x\<rparr>) = pending c"
  "pending (c\<lparr>itimerset := x\<rparr>) = pending c" "pending (c\<lparr>rxhooksig := h\<rparr>) = pending c"
  "pending (c\<lparr>gotgs := b\<rparr>) = pending c" "pending (c\<lparr>kewlonhook := b\<rparr>) = pending c"
  "pending (c\<lparr>ringtrailer := x\<rparr>) = pending c" "pending (c\<lparr>txstate := t\<rparr>) = pending c"
  "pending (c\<lparr>otimer := x\<rparr>) = pending c"
  by (simp_all add: pending_def)

lemma ev_inv_rec [simp]:
  "ev_inv (c\<lparr>itimer := x\<rparr>) = ev_inv c" "ev_inv (c\<lparr>ringdebtimer := x\<rparr>) = ev_inv c"
  "ev_inv (c\<lparr>pulsetimer := x\<rparr>) = ev_inv c" "ev_inv (c\<lparr>pulsecount := x\<rparr>) = ev_inv c"
  "ev_inv (c\<lparr>itimerset := x\<rparr>) = ev_inv c" "ev_inv (c\<lparr>rxhooksig := h\<rparr>) = ev_inv c"
  "ev_inv (c\<lparr>gotgs := b\<rparr>) = ev_inv c" "ev_inv (c\<lparr>kewlonhook := b\<rparr>) = ev_inv c"
  "ev_inv (c\<lparr>ringtrailer := x\<rparr>) = ev_inv c" "ev_inv (c\<lparr>txstate := t\<rparr>) = ev_inv c"
  "ev_inv (c\<lparr>otimer := x\<rparr>) = ev_inv c"
  by (simp_all add: ev_inv_def)

text \<open>The fields of this component are not touched by the event queue.\<close>

lemma qevent_rbs [simp]:
  "rxflashtime (qevent c e) = rxflashtime c" "rxwinktime (qevent c e) = rxwinktime c"
  "ringdebtimer (qevent c e) = ringdebtimer c" "ringtrailer (qevent c e) = ringtrailer c"
  "pulsecount (qevent c e) = pulsecount c" "pulsetimer (qevent c e) = pulsetimer c"
  "itimerset (qevent c e) = itimerset c" "itimer (qevent c e) = itimer c"
  "otimer (qevent c e) = otimer c" "gotgs (qevent c e) = gotgs c"
  "txstate (qevent c e) = txstate c" "rxsig (qevent c e) = rxsig c"
  "rxhooksig (qevent c e) = rxhooksig c" "kewlonhook (qevent c e) = kewlonhook c"
  by (simp_all add: qevent_def Let_def)

lemma fxo_itimer:
  "fxo_rx f h n pt s it es c \<Longrightarrow> it = 0 \<or> 8 < it \<Longrightarrow>
   fxo_rx f h n pt s (if it = 0 then 0 else it - 8) es (receive_itimer c)"
  by (auto simp: fxo_rx_def receive_itimer_def)

lemma fxo_ring:
  "fxo_rx f h n pt s it es c \<Longrightarrow> fxo_rx f h n pt s it es (receive_ring c)"
  by (simp add: fxo_rx_def receive_ring_def fxo_no_fxs)

lemma fxo_ptimer:
  "fxo_rx f h n pt s it es c \<Longrightarrow> pt = 0 \<or> 1 < pt \<Longrightarrow>
   fxo_rx f h n (if pt = 0 then 0 else pt - 1) s it es (receive_pulse c)"
  by (auto simp: fxo_rx_def receive_pulse_def)

lemma fxo_tick:
  assumes "fxo_rx f h n pt s it es c" and "it = 0 \<or> 8 < it" and "pt = 0 \<or> 1 < pt"
  shows "fxo_rx f h n (if pt = 0 then 0 else pt - 1) s (if it = 0 then 0 else it - 8) es (receive_timers c)"
  unfolding receive_timers_def using assms by (intro fxo_ptimer fxo_ring fxo_itimer)

lemma fxo_ticks:
  "fxo_rx f h n pt s it es c \<Longrightarrow> it = 0 \<or> 8 * int m < it \<Longrightarrow> pt = 0 \<or> int m < pt \<Longrightarrow>
   fxo_rx f h n (if pt = 0 then 0 else pt - int m) s (if it = 0 then 0 else it - 8 * int m) es (ticks m c)"
proof (induction m)
  case (Suc m)
  then have "fxo_rx f h n (if pt = 0 then 0 else pt - int m) s (if it = 0 then 0 else it - 8 * int m) es (ticks m c)"
    by auto
  from fxo_tick [OF this] Suc.prems(2,3) show ?case
    by (auto simp: algebra_simps split: if_splits)
qed auto

lemma fxo_onhook:
  assumes "fxo_rx f RXSIG_OFFHOOK n pt s it es c" and "0 < f" "f < 10000"
  shows "fxo_rx f RXSIG_ONHOOK n pt (8 * f) (8 * f) es (hooksig_pvt RXSIG_ONHOOK c)"
proof -
  have "i32 (f * 8) = 8 * f" using assms by (simp add: i32_id)
  moreover have "hooksig_pvt RXSIG_ONHOOK c = hooksig_fxo RXSIG_ONHOOK (c\<lparr>rxhooksig := RXSIG_ONHOOK\<rparr>)"
    using assms(1) by (intro fxo_hooksig) (auto simp: fxo_rx_def)
  ultimately show ?thesis
    using assms(1) by (auto simp: fxo_rx_def hooksig_fxo_def hooksig_fxo_onhook_def Let_def)
qed

lemma fxo_offhook:
  assumes "fxo_rx f RXSIG_ONHOOK n pt s it es c" and "it \<noteq> 0" "120 \<le> s - it" "s - it \<le> 1600"
    and "length es < 63"
  shows "fxo_rx f RXSIG_OFFHOOK (n + 1) 250 0 0 (es @ (if n = 0 then [EVENT_PULSE_START] else []))
    (hooksig_pvt RXSIG_OFFHOOK c)"
proof -
  have "hooksig_pvt RXSIG_OFFHOOK c = hooksig_fxo RXSIG_OFFHOOK (c\<lparr>rxhooksig := RXSIG_OFFHOOK\<rparr>)"
    using assms(1) by (intro fxo_hooksig) (auto simp: fxo_rx_def)
  with assms show ?thesis
    by (auto simp: fxo_rx_def hooksig_fxo_def hooksig_fxo_offhook_def Let_def qevent_pending qevent_inv
        simp del: length_pending)
qed

lemma fxo_digit:
  assumes "fxo_rx f h n 1 s 0 es c" and "0 < n" "n \<le> 12" and "length es < 63"
  shows "fxo_rx f h 0 0 s 0 (es @ [the (pulse_digit n)]) (receive_timers c)"
proof -
  from fxo_ring [OF fxo_itimer [OF assms(1)]] have "fxo_rx f h n 1 s 0 es (receive_ring (receive_itimer c))"
    by simp
  moreover have "pulse_digit n = Some (the (pulse_digit n))" using assms(3) by (simp add: pulse_digit_def)
  ultimately show ?thesis using assms(2,4) unfolding receive_timers_def
    by (auto simp: fxo_rx_def receive_pulse_def Let_def qevent_pending qevent_inv
        simp del: length_pending split: option.splits)
qed

text \<open>A train of pulses: for each, the milliseconds on hook and then off hook.\<close>

fun pulse_train :: "(nat \<times> nat) list \<Rightarrow> 'a chan_rbs_scheme \<Rightarrow> 'a chan_rbs_scheme" where
  "pulse_train [] c = c"
| "pulse_train ((m, k) # ps) c =
     pulse_train ps (ticks k (hooksig_pvt RXSIG_OFFHOOK (ticks m (hooksig_pvt RXSIG_ONHOOK c))))"

lemma fxo_pulse:
  assumes "fxo_rx f RXSIG_OFFHOOK n pt s it es c" and "200 < f" "f < 10000"
    and "15 \<le> m" "m \<le> 200" "k < 50" and "pt = 0 \<or> 200 < pt" and "length es < 63"
  shows "fxo_rx f RXSIG_OFFHOOK (n + 1) (250 - int k) 0 0 (es @ (if n = 0 then [EVENT_PULSE_START] else []))
    (ticks k (hooksig_pvt RXSIG_OFFHOOK (ticks m (hooksig_pvt RXSIG_ONHOOK c))))"
proof -
  from fxo_onhook [OF assms(1)] assms
  have "fxo_rx f RXSIG_ONHOOK n pt (8 * f) (8 * f) es (hooksig_pvt RXSIG_ONHOOK c)" by simp
  from fxo_ticks [OF this, of m] assms
  have "fxo_rx f RXSIG_ONHOOK n (if pt = 0 then 0 else pt - int m) (8 * f) (8 * f - 8 * int m) es
      (ticks m (hooksig_pvt RXSIG_ONHOOK c))" by auto
  from fxo_ticks [OF fxo_offhook [OF this], of k] assms show ?thesis by simp
qed

lemma fxo_train:
  "fxo_rx f RXSIG_OFFHOOK n pt s it es c \<Longrightarrow> 200 < f \<Longrightarrow> f < 10000 \<Longrightarrow> 0 < n \<Longrightarrow> 200 < pt \<Longrightarrow> pt \<le> 250 \<Longrightarrow>
   s = 0 \<Longrightarrow> it = 0 \<Longrightarrow> length es < 63 \<Longrightarrow>
   \<forall>(m, k) \<in> set ps. 15 \<le> m \<and> m \<le> 200 \<and> k < 50 \<Longrightarrow>
   \<exists>pt'. 200 < pt' \<and> pt' \<le> 250 \<and>
     fxo_rx f RXSIG_OFFHOOK (n + int (length ps)) pt' 0 0 es (pulse_train ps c)"
proof (induction ps c arbitrary: n pt s it rule: pulse_train.induct)
  case (2 m k ps c)
  have "fxo_rx f RXSIG_OFFHOOK (n + 1) (250 - int k) 0 0 es
      (ticks k (hooksig_pvt RXSIG_OFFHOOK (ticks m (hooksig_pvt RXSIG_ONHOOK c))))"
    using fxo_pulse [OF "2.prems"(1), of m k] "2.prems" by auto
  from "2.IH" [OF this] "2.prems" show ?case by (auto simp: algebra_simps)
qed auto

text \<open>The digit of a train, by its length.\<close>

lemma pulse_digit_char:
  assumes "1 \<le> n" and "n \<le> 12"
  shows "pulse_digit (int n) = Some (EVENT_PULSEDIGIT + of_char (''1234567890*#'' ! (n - 1)))"
proof -
  have "n \<in> set [1, 2, 3, 4, 5, 6, 7, 8, 9, 10, 11, 12]" using assms by simp presburger
  then show ?thesis by (auto simp: pulse_digit_def)
qed

text \<open>C20. Rotary digits are decoded: on an FXO channel that is off hook, a train of one to twelve
  pulses, each on hook for 15 to 200 ms and then off hook for less than 50 ms, followed by quiet,
  queues exactly a pulse-start event and the event of its digit (one to nine, zero for ten, star for
  eleven and hash for twelve).\<close>

theorem pulse_train_decoded:
  assumes "ev_inv c" and "pending c = []" and "fxo_sig (sig c)"
    and "FLAG_SIGFREEZE \<notin> chan_flags c" and "txstate c = TXSTATE_OFFHOOK"
    and "rxhooksig c = RXSIG_OFFHOOK" and "pulsecount c = 0" and "pulsetimer c = 0"
    and "200 < rxflashtime c" and "rxflashtime c < 10000"
    and "\<forall>(m, k) \<in> set ps. 15 \<le> m \<and> m \<le> 200 \<and> k < 50" and "ps \<noteq> []" and "length ps \<le> 12"
    and "250 \<le> quiet"
  shows "pending (ticks quiet (pulse_train ps c))
    = [EVENT_PULSE_START, EVENT_PULSEDIGIT + of_char (''1234567890*#'' ! (length ps - 1))]"
proof -
  have dig: "the (pulse_digit (int (length ps))) = EVENT_PULSEDIGIT + of_char (''1234567890*#'' ! (length ps - 1))"
    using pulse_digit_char [of "length ps"] assms(12,13) by (cases ps) simp_all
  obtain m k ps' where ps: "ps = (m, k) # ps'" using assms(12) by (cases ps) auto
  let ?f = "rxflashtime c"
  have "fxo_rx ?f RXSIG_OFFHOOK 0 0 (itimerset c) (itimer c) [] c"
    using assms by (simp add: fxo_rx_def)
  from fxo_pulse [OF this, of m k] assms ps
  have "fxo_rx ?f RXSIG_OFFHOOK 1 (250 - int k) 0 0 [EVENT_PULSE_START]
      (ticks k (hooksig_pvt RXSIG_OFFHOOK (ticks m (hooksig_pvt RXSIG_ONHOOK c))))" by auto
  from fxo_train [OF this, of ps'] assms ps obtain pt where pt: "200 < pt" "pt \<le> 250"
    "fxo_rx ?f RXSIG_OFFHOOK (int (length ps)) pt 0 0 [EVENT_PULSE_START] (pulse_train ps c)" by auto
  let ?m = "nat (pt - 1)"
  from fxo_ticks [OF pt(3), of ?m] pt(1)
  have "fxo_rx ?f RXSIG_OFFHOOK (int (length ps)) 1 0 0 [EVENT_PULSE_START] (ticks ?m (pulse_train ps c))" by simp
  from fxo_digit [OF this] assms ps
  have "fxo_rx ?f RXSIG_OFFHOOK 0 0 0 0 [EVENT_PULSE_START, the (pulse_digit (int (length ps)))]
      (ticks (Suc ?m) (pulse_train ps c))" by simp
  from fxo_ticks [OF this, of "quiet - Suc ?m"]
  have "fxo_rx ?f RXSIG_OFFHOOK 0 0 0 0 [EVENT_PULSE_START, the (pulse_digit (int (length ps)))]
      (ticks (quiet - Suc ?m + Suc ?m) (pulse_train ps c))"
    unfolding funpow_add comp_def by simp
  moreover have "quiet - Suc ?m + Suc ?m = quiet" using pt(2) assms(14) by simp
  ultimately show ?thesis by (simp only: fxo_rx_def dig)
qed

definition rbs_demo_chan :: "u32 \<Rightarrow> dahdi_span option \<Rightarrow> chan_rbs" where
  "rbs_demo_chan s sp = \<lparr>channo = 1, chanpos = 1, chan_flags = {FLAG_REGISTERED, FLAG_AUDIO}, sig = s,
     sigcap = s, chan_alarms = 0, chan_span = sp, idlebits = 0, drv_calls = [],
     eventinidx = 0, eventoutidx = 0, eventbuf = replicate 64 0, iomask = 0,
     confna = 0, confn = 0, confmode = 0, confmute = 0, conf_chan = None, dacs_chan = None,
     confin = empty_confq, confout = empty_confq, conflast = replicate 8 0, conflast1 = replicate 8 0,
     conflast2 = replicate 8 0, rxgain = None, txgain = None, readchunkpreec = False, hwec = False,
     deflaw = 0, xlaw = MULAW, txtone = 0, tx_v2 = 0, tx_v3 = 0, v1_1 = 0, v2_1 = 0, v3_1 = 0,
     toneflags = 0, prewinktime = 50, preflashtime = 50, winktime = 150, flashtime = 750,
     starttime = 2000, rxwinktime = 300, rxflashtime = 1250, debouncetime = 600, pulsebreaktime = 50,
     pulsemaketime = 50, pulseaftertime = 750, ringdebtimer = 0, ringtrailer = 0, pulsecount = 0,
     pulsetimer = 0, itimerset = 0, itimer = 0, otimer = 0, gotgs = True, txstate = TXSTATE_OFFHOOK,
     rxsig = 0, txsig = 0, rxsigstate = 0, rxhooksig = RXSIG_OFFHOOK, txhooksig = 1, kewlonhook = False\<rparr>"

theorem pulse_train_decoded_witness:
  "pending (ticks 300 (pulse_train (replicate 10 (60, 40)) (rbs_demo_chan SIG_FXOKS None)))
   = [EVENT_PULSE_START, EVENT_PULSEDIGIT + 48]"
  using pulse_train_decoded [of "rbs_demo_chan SIG_FXOKS None" "replicate 10 (60, 40)" 300]
  by (simp add: rbs_demo_chan_def ev_inv_def pending_def ev_count_def fxo_sig_def)

end
