(* ===== verification/Tones.thy ===== *)
theory Tones
  imports Rbs
begin

text \<open>
  Tone zones and tone generation of \<^verbatim>\<open>dahdi-base.c\<close> and \<^verbatim>\<open>kernel.h\<close>: the zones
  loaded by \<open>DAHDI_LOADZONE\<close> with their reference counts, the choice of the tone of a digit
  (\<open>dahdi_mf_tone\<close>), starting a tone (\<open>start_tone\<close>), the dial parameters and the
  oscillators (\<open>dahdi_tone_nextsample\<close>). Zones live in a store, since channels and the list
  of zones share them; \<open>None\<close> in the store is a zone that was never allocated or is freed.
\<close>

section \<open>State\<close>

text \<open>
  A pointer to a tone names one of the static tones or a member of a zone: an element of
  one of its arrays, or (\<open>Slot_regular x\<close>) the tone loaded from the \<open>x\<close>-th definition, which
  is kept behind the zone. A tone's \<open>next\<close> pointer stays within its zone.
\<close>

datatype static_tone = TONE_PAUSE | DTMF_SILENCE | MFR1_SILENCE | MFR2_SILENCE

datatype tone_slot =
    Slot_regular nat | Slot_dtmf nat | Slot_dtmf_continuous nat | Slot_mfr1 nat
  | Slot_mfr2_fwd nat | Slot_mfr2_rev nat | Slot_mfr2_fwd_continuous nat | Slot_mfr2_rev_continuous nat

datatype tone_link = Link_static static_tone | Link_slot tone_slot

datatype tone_ptr = Static_tone static_tone | Zone_tone nat tone_slot

record dahdi_tone =
  fac1 :: int
  init_v2_1 :: int
  init_v3_1 :: int
  fac2 :: int
  init_v2_2 :: int
  init_v3_2 :: int
  tonesamples :: int
  tone_next :: "tone_link option"
  tone_modulate :: int

record dahdi_zone =
  zone_ringcadence :: "int list"
  zone_tones :: "tone_slot option list"
  zone_regular :: "dahdi_tone option list"
  zone_dtmf :: "dahdi_tone list"
  zone_dtmf_continuous :: "dahdi_tone list"
  zone_mfr1 :: "dahdi_tone list"
  zone_mfr2_fwd :: "dahdi_tone list"
  zone_mfr2_rev :: "dahdi_tone list"
  zone_mfr2_fwd_continuous :: "dahdi_tone list"
  zone_mfr2_rev_continuous :: "dahdi_tone list"
  zone_refcount :: int
  zone_num :: int

record dahdi_dialparams =
  dtmf_tonelen :: int
  mfv1_tonelen :: int
  mfr2_tonelen :: int

record tone_env =
  zone_at :: "nat \<Rightarrow> dahdi_zone option"
  zone_fresh :: nat
  tone_zones :: "nat list"
  global_dialparams :: dahdi_dialparams
  dtmf_silence :: int
  mfr1_silence :: int
  mfr2_silence :: int

record dahdi_tone_state =
  ts_v1_1 :: int
  ts_v2_1 :: int
  ts_v3_1 :: int
  ts_v1_2 :: int
  ts_v2_2 :: int
  ts_v3_2 :: int
  ts_modulate :: int

datatype dahdi_digit_mode =
    DIGIT_MODE_DTMF | DIGIT_MODE_MFR1 | DIGIT_MODE_PULSE | DIGIT_MODE_MFR2_FWD | DIGIT_MODE_MFR2_REV

text \<open>\<open>txdialbuf\<close> is the string in the buffer, without its terminator.\<close>

record chan_tone = chan_rbs +
  curzone :: "nat option"
  curtone :: "tone_ptr option"
  tonep :: int
  ts :: dahdi_tone_state
  pdialcount :: int
  ringcadence :: "int list"
  firstcadencepos :: int
  digitmode :: dahdi_digit_mode
  txdialbuf :: string
  dialing :: bool
  afterdialingtimer :: int
  cadencepos :: int

abbreviation (input) MAX_CADENCE :: nat where "MAX_CADENCE \<equiv> 16"
abbreviation (input) TONE_MAX :: int where "TONE_MAX \<equiv> 16"
abbreviation (input) TONE_DTMF_BASE :: int where "TONE_DTMF_BASE \<equiv> 64"
abbreviation (input) TONE_DTMF_MAX :: int where "TONE_DTMF_MAX \<equiv> 79"
abbreviation (input) TONE_MFR1_BASE :: int where "TONE_MFR1_BASE \<equiv> 80"
abbreviation (input) TONE_MFR1_MAX :: int where "TONE_MFR1_MAX \<equiv> 94"
abbreviation (input) TONE_MFR1_KP :: int where "TONE_MFR1_KP \<equiv> 90"
abbreviation (input) TONE_MFR2_FWD_BASE :: int where "TONE_MFR2_FWD_BASE \<equiv> 96"
abbreviation (input) TONE_MFR2_FWD_MAX :: int where "TONE_MFR2_FWD_MAX \<equiv> 110"
abbreviation (input) TONE_MFR2_REV_BASE :: int where "TONE_MFR2_REV_BASE \<equiv> 112"
abbreviation (input) TONE_MFR2_REV_MAX :: int where "TONE_MFR2_REV_MAX \<equiv> 126"
abbreviation (input) DEFAULT_TONE_ZONE :: int where "DEFAULT_TONE_ZONE \<equiv> -1"

section \<open>Zones\<close>

definition empty_tone :: dahdi_tone where
  "empty_tone = \<lparr>fac1 = 0, init_v2_1 = 0, init_v3_1 = 0, fac2 = 0, init_v2_2 = 0, init_v3_2 = 0,
     tonesamples = 0, tone_next = None, tone_modulate = 0\<rparr>"

definition nth_opt :: "'a list \<Rightarrow> nat \<Rightarrow> 'a option" where
  "nth_opt xs i = (if i < length xs then Some (xs ! i) else None)"

fun slot_tone :: "dahdi_zone \<Rightarrow> tone_slot \<Rightarrow> dahdi_tone option" where
  "slot_tone z (Slot_regular i) = Option.bind (nth_opt (zone_regular z) i) (\<lambda>t. t)"
| "slot_tone z (Slot_dtmf i) = nth_opt (zone_dtmf z) i"
| "slot_tone z (Slot_dtmf_continuous i) = nth_opt (zone_dtmf_continuous z) i"
| "slot_tone z (Slot_mfr1 i) = nth_opt (zone_mfr1 z) i"
| "slot_tone z (Slot_mfr2_fwd i) = nth_opt (zone_mfr2_fwd z) i"
| "slot_tone z (Slot_mfr2_rev i) = nth_opt (zone_mfr2_rev z) i"
| "slot_tone z (Slot_mfr2_fwd_continuous i) = nth_opt (zone_mfr2_fwd_continuous z) i"
| "slot_tone z (Slot_mfr2_rev_continuous i) = nth_opt (zone_mfr2_rev_continuous z) i"

fun static_samples :: "tone_env \<Rightarrow> static_tone \<Rightarrow> int" where
  "static_samples e TONE_PAUSE = 4000"
| "static_samples e DTMF_SILENCE = dtmf_silence e"
| "static_samples e MFR1_SILENCE = mfr1_silence e"
| "static_samples e MFR2_SILENCE = mfr2_silence e"

text \<open>Reading through a pointer; \<open>None\<close> is an access to memory that holds no tone.\<close>

fun tone_at :: "tone_env \<Rightarrow> tone_ptr \<Rightarrow> dahdi_tone option" where
  "tone_at e (Static_tone s) = Some (empty_tone\<lparr>tonesamples := static_samples e s\<rparr>)"
| "tone_at e (Zone_tone zid s) = Option.bind (zone_at e zid) (\<lambda>z. slot_tone z s)"

text \<open>The pointer that a tone's \<open>next\<close> member is, for a tone that \<open>p\<close> points to.\<close>

fun follow :: "tone_ptr \<Rightarrow> tone_link option \<Rightarrow> tone_ptr option" where
  "follow p None = None"
| "follow p (Some (Link_static s)) = Some (Static_tone s)"
| "follow (Zone_tone zid _) (Some (Link_slot s)) = Some (Zone_tone zid s)"
| "follow (Static_tone _) (Some (Link_slot s)) = None"

definition tone_zone_get :: "nat \<Rightarrow> tone_env \<Rightarrow> tone_env" where
  "tone_zone_get zid e = e\<lparr>zone_at := (zone_at e)(zid :=
     map_option (\<lambda>z. z\<lparr>zone_refcount := zone_refcount z + 1\<rparr>) (zone_at e zid))\<rparr>"

definition tone_zone_put :: "nat \<Rightarrow> tone_env \<Rightarrow> tone_env" where
  "tone_zone_put zid e = e\<lparr>zone_at := (zone_at e)(zid :=
     (case zone_at e zid of
        None \<Rightarrow> None
      | Some z \<Rightarrow> (if zone_refcount z - 1 = 0 then None else Some (z\<lparr>zone_refcount := zone_refcount z - 1\<rparr>))))\<rparr>"

definition zone_has_num :: "tone_env \<Rightarrow> int \<Rightarrow> nat \<Rightarrow> bool" where
  "zone_has_num e n zid = (case zone_at e zid of Some z \<Rightarrow> zone_num z = n | None \<Rightarrow> False)"

definition freezone :: "int option \<Rightarrow> tone_env \<Rightarrow> int \<times> tone_env" where
  "freezone arg e = (case arg of
     None \<Rightarrow> (- EFAULT, e)
   | Some num \<Rightarrow>
      (case find (zone_has_num e num) (tone_zones e) of
         Some zid \<Rightarrow> (0, tone_zone_put zid (e\<lparr>tone_zones := remove1 zid (tone_zones e)\<rparr>))
       | None \<Rightarrow> (0, e)))"

text \<open>The zone gets its address when it is allocated.\<close>

definition register_tone_zone :: "dahdi_zone \<Rightarrow> tone_env \<Rightarrow> int \<times> nat \<times> tone_env" where
  "register_tone_zone z e =
     (let zid = zone_fresh e;
          taken = (find (zone_has_num e (zone_num z)) (tone_zones e) \<noteq> None);
          e = e\<lparr>zone_fresh := zid + 1, zone_at := (zone_at e)(zid \<mapsto> z\<lparr>zone_refcount := 1\<rparr>)\<rparr>
      in if taken then (- EINVAL, zid, e) else (0, zid, e\<lparr>tone_zones := tone_zones e @ [zid]\<rparr>))"

definition pick_tone_zone :: "int \<Rightarrow> tone_env \<Rightarrow> nat option" where
  "pick_tone_zone zone e =
     (if zone = DEFAULT_TONE_ZONE \<and> tone_zones e \<noteq> [] then Some (hd (tone_zones e))
      else find (zone_has_num e (zone mod 256)) (tone_zones e))"

definition set_tone_zone :: "int \<Rightarrow> tone_env \<Rightarrow> 'a chan_tone_scheme \<Rightarrow> int \<times> tone_env \<times> 'a chan_tone_scheme" where
  "set_tone_zone zone e c =
     (case pick_tone_zone zone e of
        None \<Rightarrow> (- ENODATA, e, c)
      | Some zid \<Rightarrow>
         (let e = tone_zone_get zid e;
              e = (case curzone c of Some old \<Rightarrow> tone_zone_put old e | None \<Rightarrow> e)
          in (0, e, c\<lparr>curzone := Some zid,
                 ringcadence := (case zone_at e zid of Some z \<Rightarrow> zone_ringcadence z | None \<Rightarrow> ringcadence c)\<rparr>)))"

text \<open>A closing channel gives its zone back.\<close>

definition drop_tone_zone :: "tone_env \<Rightarrow> 'a chan_tone_scheme \<Rightarrow> tone_env \<times> 'a chan_tone_scheme" where
  "drop_tone_zone e c =
     (case curzone c of
        None \<Rightarrow> (e, c)
      | Some zid \<Rightarrow> (tone_zone_put zid e, c\<lparr>curzone := None\<rparr>))"

section \<open>Loading a zone\<close>

record tone_def =
  td_tone :: int
  td_next :: int
  td_samples :: int
  td_fac1 :: int
  td_init_v2_1 :: int
  td_init_v3_1 :: int
  td_fac2 :: int
  td_init_v2_2 :: int
  td_init_v3_2 :: int
  td_modulate :: int

record tone_def_header =
  th_count :: int
  th_zone :: int
  th_ringcadence :: "int list"

abbreviation (input) E2BIG :: int where "E2BIG \<equiv> 7"

definition zeroed_zone :: "nat \<Rightarrow> dahdi_zone" where
  "zeroed_zone count = \<lparr>zone_ringcadence = replicate MAX_CADENCE 0, zone_tones = replicate 16 None,
     zone_regular = replicate count None, zone_dtmf = replicate 16 empty_tone,
     zone_dtmf_continuous = replicate 16 empty_tone, zone_mfr1 = replicate 15 empty_tone,
     zone_mfr2_fwd = replicate 15 empty_tone, zone_mfr2_rev = replicate 15 empty_tone,
     zone_mfr2_fwd_continuous = replicate 16 empty_tone, zone_mfr2_rev_continuous = replicate 16 empty_tone,
     zone_refcount = 0, zone_num = 0\<rparr>"

text \<open>The oscillator part of a definition, copied into the tone.\<close>

definition def_tone :: "tone_def \<Rightarrow> dahdi_tone \<Rightarrow> dahdi_tone" where
  "def_tone td t = t\<lparr>fac1 := td_fac1 td, init_v2_1 := td_init_v2_1 td, init_v3_1 := td_init_v3_1 td,
     fac2 := td_fac2 td, init_v2_2 := td_init_v2_2 td, init_v3_2 := td_init_v3_2 td,
     tone_modulate := td_modulate td\<rparr>"

definition load_regular :: "nat \<Rightarrow> tone_def \<Rightarrow> dahdi_zone \<Rightarrow> dahdi_zone" where
  "load_regular x td z =
     (let z = z\<lparr>zone_regular := (zone_regular z)[x := Some ((def_tone td empty_tone)\<lparr>tonesamples := td_samples td\<rparr>)]\<rparr>
      in if zone_tones z ! nat (td_tone td) = None
         then z\<lparr>zone_tones := (zone_tones z)[nat (td_tone td) := Some (Slot_regular x)]\<rparr> else z)"

definition load_dtmf :: "dahdi_dialparams \<Rightarrow> nat \<Rightarrow> tone_def \<Rightarrow> dahdi_zone \<Rightarrow> dahdi_zone" where
  "load_dtmf g i td z =
     (let t = (def_tone td (zone_dtmf z ! i))\<lparr>tonesamples := dtmf_tonelen g, tone_next := Some (Link_static DTMF_SILENCE)\<rparr>
      in z\<lparr>zone_dtmf := (zone_dtmf z)[i := t],
           zone_dtmf_continuous := (zone_dtmf_continuous z)[i := t\<lparr>tone_next := Some (Link_slot (Slot_dtmf_continuous i))\<rparr>]\<rparr>)"

definition load_mfr1 :: "dahdi_dialparams \<Rightarrow> nat \<Rightarrow> tone_def \<Rightarrow> dahdi_zone \<Rightarrow> dahdi_zone" where
  "load_mfr1 g i td z =
     z\<lparr>zone_mfr1 := (zone_mfr1 z)[i := (def_tone td (zone_mfr1 z ! i))
          \<lparr>tonesamples := (if TONE_MFR1_KP \<le> int i + TONE_MFR1_BASE then 100 * int DAHDI_CHUNKSIZE else mfv1_tonelen g),
           tone_next := Some (Link_static MFR1_SILENCE)\<rparr>]\<rparr>"

definition load_mfr2_fwd :: "dahdi_dialparams \<Rightarrow> nat \<Rightarrow> tone_def \<Rightarrow> dahdi_zone \<Rightarrow> dahdi_zone" where
  "load_mfr2_fwd g i td z =
     (let t = (def_tone td (zone_mfr2_fwd z ! i))\<lparr>tonesamples := mfr2_tonelen g, tone_next := Some (Link_static DTMF_SILENCE)\<rparr>
      in z\<lparr>zone_mfr2_fwd := (zone_mfr2_fwd z)[i := t],
           zone_mfr2_fwd_continuous := (zone_mfr2_fwd_continuous z)[i := t\<lparr>tone_next := Some (Link_slot (Slot_mfr2_fwd_continuous i))\<rparr>]\<rparr>)"

definition load_mfr2_rev :: "dahdi_dialparams \<Rightarrow> nat \<Rightarrow> tone_def \<Rightarrow> dahdi_zone \<Rightarrow> dahdi_zone" where
  "load_mfr2_rev g i td z =
     (let t = (def_tone td (zone_mfr2_rev z ! i))\<lparr>tonesamples := mfr2_tonelen g, tone_next := Some (Link_static DTMF_SILENCE)\<rparr>
      in z\<lparr>zone_mfr2_rev := (zone_mfr2_rev z)[i := t],
           zone_mfr2_rev_continuous := (zone_mfr2_rev_continuous z)[i := t\<lparr>tone_next := Some (Link_slot (Slot_mfr2_rev_continuous i))\<rparr>]\<rparr>)"

text \<open>One definition: the new zone and the \<open>next\<close> number remembered for it, or an error.\<close>

definition load_tone :: "dahdi_dialparams \<Rightarrow> int \<Rightarrow> nat \<Rightarrow> tone_def \<Rightarrow> dahdi_zone \<Rightarrow> int + (dahdi_zone \<times> int)" where
  "load_tone g count x td z =
     (let k = td_tone td in
      if 0 \<le> k \<and> k < TONE_MAX then
        (let nx = short (td_next td) in
         if nx \<ge> count \<or> nx < 0 then Inl (- EINVAL) else Inr (load_regular x td z, nx))
      else if TONE_DTMF_BASE \<le> k \<and> k \<le> TONE_DTMF_MAX then
        Inr (load_dtmf g (nat (k - TONE_DTMF_BASE)) td z, 0)
      else if TONE_MFR1_BASE \<le> k \<and> k \<le> TONE_MFR1_MAX then
        Inr (load_mfr1 g (nat (k - TONE_MFR1_BASE)) td z, 0)
      else if TONE_MFR2_FWD_BASE \<le> k \<and> k \<le> TONE_MFR2_FWD_MAX then
        Inr (load_mfr2_fwd g (nat (k - TONE_MFR2_FWD_BASE)) td z, 0)
      else if TONE_MFR2_REV_BASE \<le> k \<and> k \<le> TONE_MFR2_REV_MAX then
        Inr (load_mfr2_rev g (nat (k - TONE_MFR2_REV_BASE)) td z, 0)
      else Inl (- EINVAL))"

text \<open>The definitions after the header; \<open>None\<close> is one that cannot be read from the user.\<close>

fun load_tones :: "dahdi_dialparams \<Rightarrow> int \<Rightarrow> nat \<Rightarrow> tone_def option list \<Rightarrow> dahdi_zone \<Rightarrow> int list \<Rightarrow>
    int + (dahdi_zone \<times> int list)" where
  "load_tones g count x [] z nexts = Inr (z, nexts)"
| "load_tones g count x (None # ds) z nexts = Inl (- EFAULT)"
| "load_tones g count x (Some td # ds) z nexts =
     (case load_tone g count x td z of
        Inl err \<Rightarrow> Inl err
      | Inr (z, nx) \<Rightarrow> load_tones g count (x + 1) ds z (nexts @ [nx]))"

text \<open>Turning the remembered numbers into pointers.\<close>

definition link_regular :: "int list \<Rightarrow> dahdi_zone \<Rightarrow> dahdi_zone" where
  "link_regular nexts z = z\<lparr>zone_regular := map (\<lambda>x.
     map_option (\<lambda>t. t\<lparr>tone_next :=
         (let n = nat (nexts ! x) in
          if zone_regular z ! n = None then None else Some (Link_slot (Slot_regular n)))\<rparr>)
       (zone_regular z ! x)) [0..<length (zone_regular z)]\<rparr>"

text \<open>
  The handler. The allocations of the work area, the zone and its name succeed or not; the sizes
  are those of the structures on a 64-bit machine.
\<close>

definition loadzone :: "bool \<Rightarrow> bool \<Rightarrow> bool \<Rightarrow> tone_def_header option \<Rightarrow> (nat \<Rightarrow> tone_def option) \<Rightarrow>
    tone_env \<Rightarrow> int \<times> tone_env" where
  "loadzone work_ok zone_ok name_ok header defs e =
     (if \<not> work_ok then (- ENOMEM, e)
      else case header of
        None \<Rightarrow> (- EFAULT, e)
      | Some th \<Rightarrow>
         (if th_zone th < 0 \<or> th_zone th > 255 then (- EINVAL, e)
          else if th_count th < 0 \<or> th_count th > 128 then (- EINVAL, e)
          else if 5464 + th_count th * 48 > 32768 then (- E2BIG, e)
          else if \<not> zone_ok then (- ENOMEM, e)
          else if \<not> name_ok then (- ENOMEM, e)
          else
            (case load_tones (global_dialparams e) (th_count th) 0 (map defs [0..<nat (th_count th)])
                   ((zeroed_zone (nat (th_count th)))\<lparr>zone_ringcadence := take MAX_CADENCE (th_ringcadence th)\<rparr>) [] of
               Inl err \<Rightarrow> (err, e)
             | Inr (z, nexts) \<Rightarrow>
                (let z = (link_regular nexts z)\<lparr>zone_num := th_zone th\<rparr>;
                     (res, zid, e) = register_tone_zone z e
                 in (res, if res \<noteq> 0 then tone_zone_put zid e else e)))))"

section \<open>Dial parameters\<close>

definition set_samples :: "int \<Rightarrow> dahdi_tone \<Rightarrow> dahdi_tone" where
  "set_samples n t = t\<lparr>tonesamples := n\<rparr>"

definition zone_dialparams :: "dahdi_dialparams \<Rightarrow> dahdi_zone \<Rightarrow> dahdi_zone" where
  "zone_dialparams g z =
     z\<lparr>zone_dtmf := map (set_samples (dtmf_tonelen g * int DAHDI_CHUNKSIZE)) (zone_dtmf z),
       zone_mfr1 := map (set_samples (mfv1_tonelen g * int DAHDI_CHUNKSIZE)) (take 10 (zone_mfr1 z)) @ drop 10 (zone_mfr1 z),
       zone_mfr2_fwd := map (set_samples (mfr2_tonelen g * int DAHDI_CHUNKSIZE)) (zone_mfr2_fwd z),
       zone_mfr2_rev := map (set_samples (mfr2_tonelen g * int DAHDI_CHUNKSIZE)) (zone_mfr2_rev z)\<rparr>"

definition set_dialparams :: "dahdi_dialparams option \<Rightarrow> tone_env \<Rightarrow> int \<times> tone_env" where
  "set_dialparams arg e = (case arg of
     None \<Rightarrow> (- EFAULT, e)
   | Some tdp \<Rightarrow>
      (let pick = (\<lambda>new old. if 10 \<le> new \<and> new \<le> 4000 then new else old);
           g0 = global_dialparams e;
           g = \<lparr>dtmf_tonelen = pick (dtmf_tonelen tdp) (dtmf_tonelen g0),
                mfv1_tonelen = pick (mfv1_tonelen tdp) (mfv1_tonelen g0),
                mfr2_tonelen = pick (mfr2_tonelen tdp) (mfr2_tonelen g0)\<rparr>
       in (0, e\<lparr>global_dialparams := g,
             zone_at := (\<lambda>zid. if zid \<in> set (tone_zones e) then map_option (zone_dialparams g) (zone_at e zid)
                              else zone_at e zid),
             dtmf_silence := dtmf_tonelen g * int DAHDI_CHUNKSIZE,
             mfr1_silence := mfv1_tonelen g * int DAHDI_CHUNKSIZE,
             mfr2_silence := mfr2_tonelen g * int DAHDI_CHUNKSIZE\<rparr>)))"

definition get_dialparams :: "bool \<Rightarrow> tone_env \<Rightarrow> int \<times> dahdi_dialparams" where
  "get_dialparams uout e = (if uout then 0 else - EFAULT, global_dialparams e)"

section \<open>Playing tones\<close>

definition init_tone_state :: "dahdi_tone \<Rightarrow> dahdi_tone_state" where
  "init_tone_state zt = \<lparr>ts_v1_1 = 0, ts_v2_1 = init_v2_1 zt, ts_v3_1 = init_v3_1 zt,
     ts_v1_2 = 0, ts_v2_2 = init_v2_2 zt, ts_v3_2 = init_v3_2 zt, ts_modulate = tone_modulate zt\<rparr>"

text \<open>C division by ten truncates towards zero.\<close>

definition div_10 :: "int \<Rightarrow> int" where
  "div_10 p = (if p < 0 then - ((- p) div 10) else p div 10)"

definition tone_nextsample :: "dahdi_tone_state \<Rightarrow> dahdi_tone \<Rightarrow> int \<times> dahdi_tone_state" where
  "tone_nextsample s zt =
     (let s = s\<lparr>ts_v1_1 := ts_v2_1 s, ts_v2_1 := ts_v3_1 s\<rparr>;
          s = s\<lparr>ts_v3_1 := i32 (i32 (fac1 zt * ts_v2_1 s) div 32768 - ts_v1_1 s)\<rparr>;
          s = s\<lparr>ts_v1_2 := ts_v2_2 s, ts_v2_2 := ts_v3_2 s\<rparr>;
          s = s\<lparr>ts_v3_2 := i32 (i32 (fac2 zt * ts_v2_2 s) div 32768 - ts_v1_2 s)\<rparr>
      in if ts_modulate s = 0 then (short (ts_v3_1 s + ts_v3_2 s), s)
         else
           (let p = i32 (ts_v3_2 s - 32768);
                p = (if p < 0 then i32 (- p) else p);
                p = div_10 (i32 (p * 9)) + 1
            in (short (i32 (ts_v3_1 s * p) div 32768), s)))"

definition txtone_nextsample :: "'a chan_rbs_scheme \<Rightarrow> int \<times> 'a chan_rbs_scheme" where
  "txtone_nextsample c =
     (let c = c\<lparr>v1_1 := v2_1 c, v2_1 := v3_1 c\<rparr>;
          c = c\<lparr>v3_1 := i32 (i32 (txtone c * v2_1 c) div 32768 - v1_1 c)\<rparr>
      in (short (v3_1 c), c))"

definition digit_in :: "char \<Rightarrow> char \<Rightarrow> char \<Rightarrow> bool" where
  "digit_in lo hi d \<longleftrightarrow> of_char lo \<le> (of_char d :: nat) \<and> (of_char d :: nat) \<le> of_char hi"

definition digit_off :: "char \<Rightarrow> char \<Rightarrow> nat" where
  "digit_off lo d = of_char d - of_char lo"

text \<open>The tone of a digit, as a member of the channel's zone \<open>zid\<close>.\<close>

definition dtmf_index :: "char \<Rightarrow> nat option" where
  "dtmf_index d =
     (if digit_in CHR ''0'' CHR ''9'' d then Some (digit_off CHR ''0'' d)
      else if d = CHR ''*'' then Some 10
      else if d = CHR ''#'' then Some 11
      else if digit_in CHR ''A'' CHR ''D'' d then Some (12 + digit_off CHR ''A'' d)
      else None)"

definition mfr1_index :: "char \<Rightarrow> nat option" where
  "mfr1_index d =
     (if digit_in CHR ''0'' CHR ''9'' d then Some (digit_off CHR ''0'' d)
      else if d = CHR ''*'' then Some 10
      else if d = CHR ''#'' then Some 11
      else if d = CHR ''A'' then Some 12
      else if d = CHR ''B'' then Some 13
      else if d = CHR ''C'' then Some 14
      else None)"

definition mfr2_index :: "char \<Rightarrow> nat option" where
  "mfr2_index d =
     (if digit_in CHR ''1'' CHR ''9'' d then Some (digit_off CHR ''1'' d)
      else if digit_in CHR ''A'' CHR ''F'' d then Some (9 + digit_off CHR ''A'' d)
      else None)"

definition mf_tone :: "'a chan_tone_scheme \<Rightarrow> char \<Rightarrow> dahdi_digit_mode \<Rightarrow> tone_ptr option" where
  "mf_tone c d mode = (case curzone c of
     None \<Rightarrow> None
   | Some zid \<Rightarrow>
      (if d = CHR ''W'' then Some (Static_tone TONE_PAUSE)
       else map_option (Zone_tone zid) (case mode of
          DIGIT_MODE_PULSE \<Rightarrow> None
        | DIGIT_MODE_DTMF \<Rightarrow> map_option Slot_dtmf (dtmf_index d)
        | DIGIT_MODE_MFR1 \<Rightarrow> map_option Slot_mfr1 (mfr1_index d)
        | DIGIT_MODE_MFR2_FWD \<Rightarrow> map_option Slot_mfr2_fwd (mfr2_index d)
        | DIGIT_MODE_MFR2_REV \<Rightarrow> map_option Slot_mfr2_rev (mfr2_index d))))"

definition start_tone_digit :: "int \<Rightarrow> tone_env \<Rightarrow> 'a chan_tone_scheme \<Rightarrow> (int \<times> 'a chan_tone_scheme) option" where
  "start_tone_digit tone e c = (case curzone c of
     None \<Rightarrow> Some (- ENODATA, c)
   | Some zid \<Rightarrow>
      (let c = (if digitmode c = DIGIT_MODE_DTMF then c\<lparr>dialing := True\<rparr> else c) in
       case (case digitmode c of
           DIGIT_MODE_DTMF \<Rightarrow> Some (TONE_DTMF_BASE, TONE_DTMF_MAX, Slot_dtmf_continuous)
         | DIGIT_MODE_MFR2_FWD \<Rightarrow> Some (TONE_MFR2_FWD_BASE, TONE_MFR2_FWD_MAX, Slot_mfr2_fwd_continuous)
         | DIGIT_MODE_MFR2_REV \<Rightarrow> Some (TONE_MFR2_REV_BASE, TONE_MFR2_REV_MAX, Slot_mfr2_rev_continuous)
         | _ \<Rightarrow> None) of
         None \<Rightarrow> Some (- EINVAL, c)
       | Some (base, mx, slot) \<Rightarrow>
          (if tone < base \<or> tone > mx then Some (- EINVAL, c)
           else (let playtone = Zone_tone zid (slot (nat (tone - base))) in
             case tone_at e playtone of
               None \<Rightarrow> None
             | Some t \<Rightarrow> (if tonesamples t = 0 then Some (- ENOSYS, c)
                         else Some (0, c\<lparr>curtone := Some playtone\<rparr>))))))"

text \<open>
  Starting a tone; \<open>None\<close> stands for a read outside the zone. The tone number \<open>DAHDI_TONE_MAX\<close>
  passes the guard of the code although the array ends before it.
\<close>

definition start_tone_choose :: "int \<Rightarrow> tone_env \<Rightarrow> 'a chan_tone_scheme \<Rightarrow> (int \<times> 'a chan_tone_scheme) option" where
  "start_tone_choose tone e c =
     (if tone = -1 then Some (0, c)
      else case curzone c of
        None \<Rightarrow> Some (- ENODATA, c)
      | Some zid \<Rightarrow>
         (if 0 \<le> tone \<and> tone \<le> TONE_MAX then
            (case zone_at e zid of
               None \<Rightarrow> None
             | Some z \<Rightarrow>
                (case nth_opt (zone_tones z) (nat tone) of
                   None \<Rightarrow> None
                 | Some None \<Rightarrow> Some (- ENOSYS, c)
                 | Some (Some s) \<Rightarrow> Some (0, c\<lparr>curtone := Some (Zone_tone zid s)\<rparr>)))
          else if digitmode c \<in> {DIGIT_MODE_DTMF, DIGIT_MODE_MFR2_FWD, DIGIT_MODE_MFR2_REV}
            then start_tone_digit tone e c
          else Some (- EINVAL, c\<lparr>dialing := False\<rparr>)))"

definition stop_tone :: "'a chan_tone_scheme \<Rightarrow> 'a chan_tone_scheme" where
  "stop_tone c = c\<lparr>tonep := 0, curtone := None, pdialcount := 0, txdialbuf := [], dialing := False\<rparr>"

definition start_tone :: "int \<Rightarrow> tone_env \<Rightarrow> 'a chan_tone_scheme \<Rightarrow> (int \<times> 'a chan_tone_scheme) option" where
  "start_tone tone e c =
     (case start_tone_choose tone e (stop_tone c) of
        None \<Rightarrow> None
      | Some (res, c) \<Rightarrow>
         (case curtone c of
            None \<Rightarrow> Some (res, c)
          | Some p \<Rightarrow> (case tone_at e p of
                 None \<Rightarrow> None
               | Some t \<Rightarrow> Some (res, c\<lparr>ts := init_tone_state t\<rparr>))))"

section \<open>Loaded zones are well formed\<close>

definition zone_shape :: "dahdi_zone \<Rightarrow> bool" where
  "zone_shape z \<longleftrightarrow> length (zone_tones z) = 16 \<and> length (zone_dtmf z) = 16 \<and>
     length (zone_dtmf_continuous z) = 16 \<and> length (zone_mfr1 z) = 15 \<and>
     length (zone_mfr2_fwd z) = 15 \<and> length (zone_mfr2_rev z) = 15 \<and>
     length (zone_mfr2_fwd_continuous z) = 16 \<and> length (zone_mfr2_rev_continuous z) = 16"

definition slot_ok :: "dahdi_zone \<Rightarrow> tone_slot \<Rightarrow> bool" where
  "slot_ok z s \<longleftrightarrow> slot_tone z s \<noteq> None"

definition link_ok :: "dahdi_zone \<Rightarrow> tone_link option \<Rightarrow> bool" where
  "link_ok z l \<longleftrightarrow> (case l of Some (Link_slot s) \<Rightarrow> slot_ok z s | _ \<Rightarrow> True)"

definition zone_ok :: "dahdi_zone \<Rightarrow> bool" where
  "zone_ok z \<longleftrightarrow> zone_shape z \<and> (\<forall>s. Some s \<in> set (zone_tones z) \<longrightarrow> slot_ok z s) \<and>
     (\<forall>s t. slot_tone z s = Some t \<longrightarrow> link_ok z (tone_next t))"

lemma nth_opt_Some [simp]: "(nth_opt xs i = Some x) = (i < length xs \<and> xs ! i = x)"
  by (simp add: nth_opt_def)

lemma nth_opt_None [simp]: "(nth_opt xs i = None) = (length xs \<le> i)"
  by (auto simp: nth_opt_def)

lemma nth_opt_update: "nth_opt (xs[i := x]) j = (if j = i \<and> i < length xs then Some x else nth_opt xs j)"
  by (auto simp: nth_opt_def)

lemma nth_update_in: "i < length xs \<Longrightarrow> (xs[i := x]) ! j = (if j = i then x else xs ! j)"
  by simp

text \<open>Which members a zone has depends on the regular tones only.\<close>

lemma slot_ok_shape:
  "zone_shape z \<Longrightarrow> slot_ok z s = (case s of
     Slot_regular i \<Rightarrow> i < length (zone_regular z) \<and> zone_regular z ! i \<noteq> None
   | Slot_dtmf i \<Rightarrow> i < 16 | Slot_dtmf_continuous i \<Rightarrow> i < 16 | Slot_mfr1 i \<Rightarrow> i < 15
   | Slot_mfr2_fwd i \<Rightarrow> i < 15 | Slot_mfr2_rev i \<Rightarrow> i < 15
   | Slot_mfr2_fwd_continuous i \<Rightarrow> i < 16 | Slot_mfr2_rev_continuous i \<Rightarrow> i < 16)"
  by (cases s) (auto simp: slot_ok_def zone_shape_def bind_eq_None_conv nth_opt_def)

text \<open>Changing a zone keeps it well formed when no member vanishes and every new link is good.\<close>

lemma zone_ok_change:
  assumes "zone_ok z" and "zone_shape z'"
    and members: "\<And>s. slot_ok z s \<Longrightarrow> slot_ok z' s"
    and tones: "\<And>s. Some s \<in> set (zone_tones z') \<Longrightarrow> Some s \<in> set (zone_tones z) \<or> slot_ok z' s"
    and links: "\<And>s t. slot_tone z' s = Some t \<Longrightarrow>
        link_ok z' (tone_next t) \<or> (\<exists>s t'. slot_tone z s = Some t' \<and> tone_next t = tone_next t')"
  shows "zone_ok z'"
proof -
  have l: "link_ok z' l" if "link_ok z l" for l
    using that members by (auto simp: link_ok_def split: option.splits tone_link.splits)
  show ?thesis
    unfolding zone_ok_def
  proof (intro conjI allI impI)
    show "zone_shape z'" by fact
  next
    fix s assume "Some s \<in> set (zone_tones z')"
    with tones assms(1) members show "slot_ok z' s" by (auto simp: zone_ok_def)
  next
    fix s t assume "slot_tone z' s = Some t"
    from links [OF this] assms(1) l show "link_ok z' (tone_next t)" by (auto simp: zone_ok_def)
  qed
qed

lemma def_tone_next [simp]: "tone_next (def_tone td t) = tone_next t"
  by (simp add: def_tone_def)

lemma zeroed_zone_ok: "zone_ok (zeroed_zone n)"
proof -
  have "zone_shape (zeroed_zone n)" by (simp add: zone_shape_def zeroed_zone_def)
  moreover have "tone_next t = None" if "slot_tone (zeroed_zone n) s = Some t" for s t
    using that by (cases s) (auto simp: zeroed_zone_def empty_tone_def nth_opt_def bind_eq_Some_conv split: if_splits)
  ultimately show ?thesis by (auto simp: zone_ok_def link_ok_def zeroed_zone_def)
qed

lemma zeroed_zone_regular [simp]: "zone_regular (zeroed_zone n) = replicate n None"
  by (simp add: zeroed_zone_def)

lemma load_regular_ok:
  assumes "zone_ok z" and "x < length (zone_regular z)" and "0 \<le> td_tone td" "td_tone td < 16"
  shows "zone_ok (load_regular x td z)"
proof (rule zone_ok_change [OF assms(1)])
  have sh: "zone_shape z" using assms(1) by (simp add: zone_ok_def)
  then show shape: "zone_shape (load_regular x td z)" by (simp add: zone_shape_def load_regular_def Let_def)
  have reg: "zone_regular (load_regular x td z)
      = (zone_regular z)[x := Some ((def_tone td empty_tone)\<lparr>tonesamples := td_samples td\<rparr>)]"
    by (simp add: load_regular_def Let_def)
  show "slot_ok (load_regular x td z) s" if "slot_ok z s" for s
    using that unfolding slot_ok_shape [OF sh] slot_ok_shape [OF shape] reg
    by (auto simp: nth_update_in [OF assms(2)] split: tone_slot.splits)
  show "Some s \<in> set (zone_tones z) \<or> slot_ok (load_regular x td z) s"
    if "Some s \<in> set (zone_tones (load_regular x td z))" for s
  proof -
    have "Some s \<in> set (zone_tones z) \<or> s = Slot_regular x"
      using that by (auto simp: load_regular_def Let_def split: if_splits dest!: set_update_subset_insert [THEN subsetD])
    moreover have "slot_ok (load_regular x td z) (Slot_regular x)"
      unfolding slot_ok_shape [OF shape] reg using assms(2) by simp
    ultimately show ?thesis by auto
  qed
  fix s t assume t: "slot_tone (load_regular x td z) s = Some t"
  show "link_ok (load_regular x td z) (tone_next t) \<or> (\<exists>s t'. slot_tone z s = Some t' \<and> tone_next t = tone_next t')"
  proof (cases "s = Slot_regular x")
    case True
    with t reg assms(2) show ?thesis by (auto simp: link_ok_def empty_tone_def bind_eq_Some_conv)
  next
    case False
    then have "slot_tone (load_regular x td z) s = slot_tone z s"
      by (cases s) (auto simp: load_regular_def Let_def nth_opt_update)
    with t show ?thesis by auto
  qed
qed

text \<open>The other kinds of tones: the regular tones and the table of tones do not change.\<close>

lemma zone_ok_same_members:
  assumes "zone_ok z" and "zone_shape z'" and "zone_regular z' = zone_regular z" and "zone_tones z' = zone_tones z"
    and "\<And>s t. slot_tone z' s = Some t \<Longrightarrow> slot_tone z s = Some t \<or>
      (case tone_next t of Some (Link_slot s) \<Rightarrow> slot_ok z s | _ \<Rightarrow> True)"
  shows "zone_ok z'"
proof (rule zone_ok_change [OF assms(1,2)])
  have sh: "zone_shape z" using assms(1) by (simp add: zone_ok_def)
  show same: "slot_ok z' s" if "slot_ok z s" for s
    using that unfolding slot_ok_shape [OF sh] slot_ok_shape [OF assms(2)] assms(3) by simp
  show "Some s \<in> set (zone_tones z) \<or> slot_ok z' s" if "Some s \<in> set (zone_tones z')" for s
    using that assms(4) by simp
  show "link_ok z' (tone_next t) \<or> (\<exists>s t'. slot_tone z s = Some t' \<and> tone_next t = tone_next t')"
    if "slot_tone z' s = Some t" for s t
    using assms(5) [OF that]
  proof
    assume "case tone_next t of Some (Link_slot s) \<Rightarrow> slot_ok z s | _ \<Rightarrow> True"
    with same show ?thesis by (auto simp: link_ok_def split: option.splits tone_link.splits)
  qed blast
qed

lemma load_others_ok:
  assumes "zone_ok z"
  shows "i < 16 \<Longrightarrow> zone_ok (load_dtmf g i td z)" and "i < 15 \<Longrightarrow> zone_ok (load_mfr1 g i td z)"
    and "i < 15 \<Longrightarrow> zone_ok (load_mfr2_fwd g i td z)" and "i < 15 \<Longrightarrow> zone_ok (load_mfr2_rev g i td z)"
proof -
  have sh: "zone_shape z" using assms by (simp add: zone_ok_def)
  note sk = slot_ok_shape [OF sh]
  show "zone_ok (load_dtmf g i td z)" if "i < 16"
  proof (rule zone_ok_same_members [OF assms])
    show "slot_tone z s = Some t \<or> (case tone_next t of Some (Link_slot s) \<Rightarrow> slot_ok z s | _ \<Rightarrow> True)"
      if "slot_tone (load_dtmf g i td z) s = Some t" for s t
      using that \<open>i < 16\<close> sk by (cases s) (auto simp: load_dtmf_def Let_def nth_opt_update split: if_splits)
  qed (use sh in \<open>auto simp: load_dtmf_def Let_def zone_shape_def\<close>)
  show "zone_ok (load_mfr1 g i td z)" if "i < 15"
  proof (rule zone_ok_same_members [OF assms])
    show "slot_tone z s = Some t \<or> (case tone_next t of Some (Link_slot s) \<Rightarrow> slot_ok z s | _ \<Rightarrow> True)"
      if "slot_tone (load_mfr1 g i td z) s = Some t" for s t
      using that \<open>i < 15\<close> sk by (cases s) (auto simp: load_mfr1_def Let_def nth_opt_update split: if_splits)
  qed (use sh in \<open>auto simp: load_mfr1_def Let_def zone_shape_def\<close>)
  show "zone_ok (load_mfr2_fwd g i td z)" if "i < 15"
  proof (rule zone_ok_same_members [OF assms])
    show "slot_tone z s = Some t \<or> (case tone_next t of Some (Link_slot s) \<Rightarrow> slot_ok z s | _ \<Rightarrow> True)"
      if "slot_tone (load_mfr2_fwd g i td z) s = Some t" for s t
      using that \<open>i < 15\<close> sk by (cases s) (auto simp: load_mfr2_fwd_def Let_def nth_opt_update split: if_splits)
  qed (use sh in \<open>auto simp: load_mfr2_fwd_def Let_def zone_shape_def\<close>)
  show "zone_ok (load_mfr2_rev g i td z)" if "i < 15"
  proof (rule zone_ok_same_members [OF assms])
    show "slot_tone z s = Some t \<or> (case tone_next t of Some (Link_slot s) \<Rightarrow> slot_ok z s | _ \<Rightarrow> True)"
      if "slot_tone (load_mfr2_rev g i td z) s = Some t" for s t
      using that \<open>i < 15\<close> sk by (cases s) (auto simp: load_mfr2_rev_def Let_def nth_opt_update split: if_splits)
  qed (use sh in \<open>auto simp: load_mfr2_rev_def Let_def zone_shape_def\<close>)
qed

lemma load_regular_length [simp]:
  "length (zone_regular (load_regular x td z)) = length (zone_regular z)"
  "zone_regular (load_dtmf g i td z) = zone_regular z"
  "zone_regular (load_mfr1 g i td z) = zone_regular z"
  "zone_regular (load_mfr2_fwd g i td z) = zone_regular z"
  "zone_regular (load_mfr2_rev g i td z) = zone_regular z"
  by (simp_all add: load_regular_def load_dtmf_def load_mfr1_def load_mfr2_fwd_def load_mfr2_rev_def Let_def)

lemma load_tone_ok:
  assumes "zone_ok z" and "x < length (zone_regular z)" and "int (length (zone_regular z)) = count"
    and "load_tone g count x td z = Inr (z', nx)"
  shows "zone_ok z' \<and> length (zone_regular z') = length (zone_regular z) \<and> 0 \<le> nx \<and> nx < count"
  using assms load_regular_ok [OF assms(1,2), of td] load_others_ok [OF assms(1)]
  by (auto simp: load_tone_def Let_def split: if_splits)

lemma load_tones_ok:
  "load_tones g count x ds z nexts = Inr (z', nexts') \<Longrightarrow> zone_ok z \<Longrightarrow>
   x + length ds \<le> length (zone_regular z) \<Longrightarrow> int (length (zone_regular z)) = count \<Longrightarrow>
   length nexts = x \<Longrightarrow> \<forall>n \<in> set nexts. 0 \<le> n \<and> n < count \<Longrightarrow>
   zone_ok z' \<and> length (zone_regular z') = length (zone_regular z) \<and>
   length nexts' = x + length ds \<and> (\<forall>n \<in> set nexts'. 0 \<le> n \<and> n < count)"
proof (induction g count x ds z nexts rule: load_tones.induct)
  case (3 g count x td ds z nexts)
  then obtain z1 nx where l: "load_tone g count x td z = Inr (z1, nx)"
    by (auto split: sum.splits)
  with load_tone_ok [OF "3.prems"(2) _ _ l] "3.prems" have ok: "zone_ok z1"
    "length (zone_regular z1) = length (zone_regular z)" "0 \<le> nx" "nx < count" by auto
  have "zone_ok z' \<and> length (zone_regular z') = length (zone_regular z1) \<and>
      length nexts' = x + 1 + length ds \<and> (\<forall>n \<in> set nexts'. 0 \<le> n \<and> n < count)"
    by (rule "3.IH" [OF l refl]) (use "3.prems" ok l in auto)
  with ok show ?case by simp
qed auto

lemma link_regular_ok:
  assumes "zone_ok z" and "length nexts = length (zone_regular z)"
    and range: "\<forall>n \<in> set nexts. 0 \<le> n \<and> n < int (length (zone_regular z))"
  shows "zone_ok (link_regular nexts z)"
proof (rule zone_ok_change [OF assms(1)])
  have sh: "zone_shape z" using assms by (simp add: zone_ok_def)
  then show sh': "zone_shape (link_regular nexts z)" by (simp add: zone_shape_def link_regular_def)
  have same: "slot_ok (link_regular nexts z) s = slot_ok z s" for s
    unfolding slot_ok_shape [OF sh] slot_ok_shape [OF sh'] by (auto simp: link_regular_def split: tone_slot.splits)
  show "slot_ok z s \<Longrightarrow> slot_ok (link_regular nexts z) s" for s by (simp add: same)
  show "Some s \<in> set (zone_tones z) \<or> slot_ok (link_regular nexts z) s"
    if "Some s \<in> set (zone_tones (link_regular nexts z))" for s using that by (simp add: link_regular_def)
  fix s t assume t: "slot_tone (link_regular nexts z) s = Some t"
  show "link_ok (link_regular nexts z) (tone_next t) \<or> (\<exists>s t'. slot_tone z s = Some t' \<and> tone_next t = tone_next t')"
  proof (cases "\<exists>i. s = Slot_regular i")
    case True
    then obtain i where "s = Slot_regular i" by blast
    let ?n = "nat (nexts ! i)"
    from t \<open>s = Slot_regular i\<close> have i: "i < length (zone_regular z)"
      and nx: "tone_next t = (if zone_regular z ! ?n = None then None else Some (Link_slot (Slot_regular ?n)))"
      by (auto simp: link_regular_def bind_eq_Some_conv Let_def)
    from i assms(2) range have "0 \<le> nexts ! i \<and> nexts ! i < int (length (zone_regular z))" by simp
    with nx show ?thesis by (auto simp: link_ok_def same slot_ok_shape [OF sh])
  next
    case False
    with t have "slot_tone z s = Some t" by (cases s) (auto simp: link_regular_def)
    then show ?thesis by blast
  qed
qed

text \<open>Changing the lengths of tones changes no pointer.\<close>

lemma set_samples_next [simp]: "tone_next (set_samples n t) = tone_next t"
  by (simp add: set_samples_def)

lemma zone_dialparams_ok: "zone_ok z \<Longrightarrow> zone_ok (zone_dialparams g z)"
proof (rule zone_ok_change)
  assume "zone_ok z"
  then have sh: "zone_shape z" by (simp add: zone_ok_def)
  then show sh': "zone_shape (zone_dialparams g z)" by (simp add: zone_shape_def zone_dialparams_def)
  show "slot_ok z s \<Longrightarrow> slot_ok (zone_dialparams g z) s" for s
    unfolding slot_ok_shape [OF sh] slot_ok_shape [OF sh'] by (auto simp: zone_dialparams_def split: tone_slot.splits)
  fix s t assume t: "slot_tone (zone_dialparams g z) s = Some t"
  have "\<exists>t'. slot_tone z s = Some t' \<and> tone_next t = tone_next t'"
    using t sh by (cases s) (auto simp: zone_dialparams_def zone_shape_def nth_append)
  then show "link_ok (zone_dialparams g z) (tone_next t) \<or> (\<exists>s t'. slot_tone z s = Some t' \<and> tone_next t = tone_next t')"
    by blast
qed (simp_all add: zone_dialparams_def)

section \<open>Zones, reference counts and channels\<close>

text \<open>
  What can happen to zones: one is loaded or taken off the list, the dial parameters change, a
  channel of the system (a list here) takes the zone of its choice or gives its zone back.
\<close>

inductive zone_step :: "tone_env \<times> 'a chan_tone_scheme list \<Rightarrow> tone_env \<times> 'a chan_tone_scheme list \<Rightarrow> bool" where
  load: "loadzone w zk n th defs e = (r, e') \<Longrightarrow> zone_step (e, cs) (e', cs)"
| free: "freezone num e = (r, e') \<Longrightarrow> zone_step (e, cs) (e', cs)"
| params: "set_dialparams g e = (r, e') \<Longrightarrow> zone_step (e, cs) (e', cs)"
| choose: "i < length cs \<Longrightarrow> set_tone_zone zone e (cs ! i) = (r, e', c') \<Longrightarrow> zone_step (e, cs) (e', cs[i := c'])"
| drop: "i < length cs \<Longrightarrow> drop_tone_zone e (cs ! i) = (e', c') \<Longrightarrow> zone_step (e, cs) (e', cs[i := c'])"

text \<open>References to a zone: its place on the list and the channels that use it.\<close>

definition chan_users :: "'a chan_tone_scheme list \<Rightarrow> nat \<Rightarrow> int" where
  "chan_users cs zid = int (count_list (map curzone cs) (Some zid))"

definition zone_refs_ok :: "tone_env \<Rightarrow> (nat \<Rightarrow> int) \<Rightarrow> nat \<Rightarrow> bool" where
  "zone_refs_ok e us zid \<longleftrightarrow>
     (let n = us zid + (if zid \<in> set (tone_zones e) then 1 else 0) in
      case zone_at e zid of
        Some z \<Rightarrow> zone_ok z \<and> zid < zone_fresh e \<and> zone_refcount z = n \<and> 0 < n
      | None \<Rightarrow> n = 0)"

definition refs_inv :: "tone_env \<Rightarrow> (nat \<Rightarrow> int) \<Rightarrow> bool" where
  "refs_inv e us \<longleftrightarrow> distinct (tone_zones e) \<and> (\<forall>zid. 0 \<le> us zid \<and> zone_refs_ok e us zid)"

definition zones_inv :: "tone_env \<times> 'a chan_tone_scheme list \<Rightarrow> bool" where
  "zones_inv s \<longleftrightarrow> refs_inv (fst s) (chan_users (snd s))"

lemma slot_tone_rec [simp]:
  "slot_tone (z\<lparr>zone_refcount := n\<rparr>) s = slot_tone z s"
  "slot_tone (z\<lparr>zone_num := n\<rparr>) s = slot_tone z s"
  "slot_tone (z\<lparr>zone_ringcadence := r\<rparr>) s = slot_tone z s"
  by (cases s; simp)+

lemma slot_ok_rec [simp]:
  "slot_ok (z\<lparr>zone_refcount := n\<rparr>) = slot_ok z" "slot_ok (z\<lparr>zone_num := n\<rparr>) = slot_ok z"
  "slot_ok (z\<lparr>zone_ringcadence := r\<rparr>) = slot_ok z"
  "link_ok (z\<lparr>zone_refcount := n\<rparr>) = link_ok z" "link_ok (z\<lparr>zone_num := n\<rparr>) = link_ok z"
  "link_ok (z\<lparr>zone_ringcadence := r\<rparr>) = link_ok z"
  by (auto simp: slot_ok_def link_ok_def fun_eq_iff split: option.splits tone_link.splits)

lemma zone_ok_rec [simp]:
  "zone_ok (z\<lparr>zone_refcount := n\<rparr>) = zone_ok z" "zone_ok (z\<lparr>zone_num := n\<rparr>) = zone_ok z"
  "zone_ok (z\<lparr>zone_ringcadence := r\<rparr>) = zone_ok z"
  by (simp_all add: zone_ok_def zone_shape_def)

lemma count_list_update:
  "i < length xs \<Longrightarrow> int (count_list (xs[i := x]) y)
     = int (count_list xs y) - (if xs ! i = y then 1 else 0) + (if x = y then 1 else 0)"
proof (induction xs arbitrary: i)
  case (Cons a xs)
  show ?case
  proof (cases i)
    case (Suc j)
    with Cons.IH [of j] Cons.prems show ?thesis by (auto split: if_splits)
  qed simp
qed simp

lemma chan_users_nonneg [simp]: "0 \<le> chan_users cs zid"
  by (simp add: chan_users_def)

lemma chan_users_update:
  "i < length cs \<Longrightarrow> chan_users (cs[i := c]) zid
     = chan_users cs zid - (if curzone (cs ! i) = Some zid then 1 else 0) + (if curzone c = Some zid then 1 else 0)"
  using count_list_update [of i "map curzone cs" "curzone c" "Some zid"]
  by (simp add: chan_users_def map_update)

lemma refs_at: "refs_inv e us \<Longrightarrow> zone_refs_ok e us zid"
  by (simp add: refs_inv_def)

text \<open>Taking and giving back one reference.\<close>

lemma refs_get:
  assumes "refs_inv e us" and "zone_at e zid \<noteq> None"
  shows "refs_inv (tone_zone_get zid e) (us(zid := us zid + 1))"
proof -
  have "zone_refs_ok (tone_zone_get zid e) (us(zid := us zid + 1)) x" for x
    using refs_at [OF assms(1), of x] assms(2)
    by (auto simp: zone_refs_ok_def tone_zone_get_def Let_def split: option.splits)
  with assms(1) show ?thesis by (auto simp: refs_inv_def tone_zone_get_def)
qed

lemma refs_put:
  assumes "refs_inv e us" and "0 < us zid"
  shows "refs_inv (tone_zone_put zid e) (us(zid := us zid - 1))"
proof -
  have "zone_refs_ok (tone_zone_put zid e) (us(zid := us zid - 1)) x" for x
    using refs_at [OF assms(1), of x] assms(2)
    by (auto simp: zone_refs_ok_def tone_zone_put_def Let_def split: option.splits if_splits)
  with assms(1,2) show ?thesis by (auto simp: refs_inv_def tone_zone_put_def)
qed

lemma refs_alive: "refs_inv e us \<Longrightarrow> zid \<in> set (tone_zones e) \<or> 0 < us zid \<Longrightarrow> zone_at e zid \<noteq> None"
  using refs_at [of e us zid] by (auto simp: zone_refs_ok_def refs_inv_def Let_def split: if_splits option.splits)

lemma refs_unlist:
  assumes "refs_inv e us" and "zid \<in> set (tone_zones e)"
  shows "refs_inv (e\<lparr>tone_zones := remove1 zid (tone_zones e)\<rparr>) (us(zid := us zid + 1))"
proof -
  have d: "distinct (tone_zones e)" using assms(1) by (simp add: refs_inv_def)
  have "zone_refs_ok (e\<lparr>tone_zones := remove1 zid (tone_zones e)\<rparr>) (us(zid := us zid + 1)) x" for x
    using refs_at [OF assms(1), of x] assms(2) d
    by (auto simp: zone_refs_ok_def Let_def split: option.splits if_splits)
  with assms(1) d show ?thesis by (auto simp: refs_inv_def)
qed

lemma find_zone: "find P xs = Some x \<Longrightarrow> x \<in> set xs"
  by (auto simp: find_Some_iff)

lemma freezone_refs:
  assumes "refs_inv e us" and "freezone num e = (r, e')"
  shows "refs_inv e' us"
proof (cases "num = None \<or> find (zone_has_num e (the num)) (tone_zones e) = None")
  case True
  with assms(2) have "e' = e" by (auto simp: freezone_def split: option.splits)
  with assms(1) show ?thesis by simp
next
  case False
  then obtain n zid where f: "num = Some n" "find (zone_has_num e n) (tone_zones e) = Some zid" by auto
  then have z: "zid \<in> set (tone_zones e)" by (auto dest: find_zone)
  have "us zid + 1 - 1 = us zid" "0 < us zid + 1" using assms(1) by (auto simp: refs_inv_def)
  with refs_put [OF refs_unlist [OF assms(1) z], of zid] assms(2) f show ?thesis
    by (simp add: freezone_def)
qed

lemma set_dialparams_refs:
  assumes "refs_inv e us" and "set_dialparams g e = (r, e')"
  shows "refs_inv e' us"
proof (cases g)
  case (Some g)
  from assms(2) obtain g' where e': "tone_zones e' = tone_zones e" "zone_fresh e' = zone_fresh e"
    "\<And>x. zone_at e' x = (if x \<in> set (tone_zones e) then map_option (zone_dialparams g') (zone_at e x) else zone_at e x)"
    by (auto simp: set_dialparams_def Some Let_def)
  have "zone_refs_ok e' us x" for x
    using refs_at [OF assms(1), of x] e'
    by (auto simp: zone_refs_ok_def Let_def zone_dialparams_ok split: option.splits if_splits)
      (auto simp: zone_dialparams_def)
  with assms(1) e' show ?thesis by (auto simp: refs_inv_def)
qed (use assms in \<open>simp add: set_dialparams_def\<close>)

lemma register_refs:
  assumes "refs_inv e us" and "zone_ok z" and "register_tone_zone z e = (r, zid, e')"
  shows "refs_inv (if r \<noteq> 0 then tone_zone_put zid e' else e') us"
proof -
  from assms(3) have zid: "zid = zone_fresh e" by (auto simp: register_tone_zone_def Let_def split: if_splits)
  have fresh: "zone_at e zid = None" "zid \<notin> set (tone_zones e)" "us zid = 0"
    using refs_at [OF assms(1), of zid] assms(1) zid
    by (auto simp: zone_refs_ok_def Let_def refs_inv_def split: option.splits if_splits)
  let ?e = "if r \<noteq> 0 then tone_zone_put zid e' else e'"
  have taken: "tone_zones ?e = (if r = 0 then tone_zones e @ [zid] else tone_zones e)"
    "zone_fresh ?e = zid + 1" "\<And>x. x \<noteq> zid \<Longrightarrow> zone_at ?e x = zone_at e x"
    "zone_at ?e zid = (if r = 0 then Some (z\<lparr>zone_refcount := 1\<rparr>) else None)"
    using assms(3) zid by (auto simp: register_tone_zone_def tone_zone_put_def Let_def split: if_splits)
  have "zone_refs_ok ?e us zid"
    unfolding zone_refs_ok_def Let_def taken using fresh assms(2) by simp
  moreover have "zone_refs_ok ?e us x" if "x \<noteq> zid" for x
    using refs_at [OF assms(1), of x] taken(1,2) taken(3) [OF that] that zid
    by (auto simp: zone_refs_ok_def Let_def split: option.splits)
  ultimately have "zone_refs_ok ?e us x" for x by (cases "x = zid") auto
  moreover have "distinct (tone_zones ?e)"
    using assms(1) fresh taken(1) by (simp add: refs_inv_def)
  ultimately show ?thesis using assms(1) by (auto simp: refs_inv_def)
qed

lemma loadzone_refs:
  assumes "refs_inv e us" and "loadzone w zk n th defs e = (r, e')"
  shows "refs_inv e' us"
proof -
  consider "e' = e" | th' z nexts zid e1 where "th = Some th'" "0 \<le> th_count th'"
      "load_tones (global_dialparams e) (th_count th') 0 (map defs [0..<nat (th_count th')])
         ((zeroed_zone (nat (th_count th')))\<lparr>zone_ringcadence := take MAX_CADENCE (th_ringcadence th')\<rparr>) [] = Inr (z, nexts)"
      "register_tone_zone ((link_regular nexts z)\<lparr>zone_num := th_zone th'\<rparr>) e = (r, zid, e1)"
      "e' = (if r \<noteq> 0 then tone_zone_put zid e1 else e1)"
    using assms(2) by (auto simp: loadzone_def Let_def split: option.splits if_splits sum.splits prod.splits)
  then show ?thesis
  proof cases
    case 2
    have "zone_ok z \<and> length (zone_regular z) = nat (th_count th') \<and> length nexts = nat (th_count th') \<and>
        (\<forall>n \<in> set nexts. 0 \<le> n \<and> n < th_count th')"
      using load_tones_ok [OF 2(3)] 2(2) zeroed_zone_ok [of "nat (th_count th')"] by simp
    with link_regular_ok [of z nexts] 2(2) have "zone_ok (link_regular nexts z)" by simp
    with register_refs [OF assms(1) _ 2(4)] 2(5) show ?thesis by simp
  qed (use assms(1) in simp)
qed

lemma chan_users_pos:
  assumes "i < length cs" and "curzone (cs ! i) = Some zid"
  shows "0 < chan_users cs zid"
proof -
  from assms have "Some zid \<in> set (map curzone cs)" by (metis length_map nth_map nth_mem)
  then show ?thesis using count_list_0_iff [of "map curzone cs" "Some zid"] by (simp add: chan_users_def)
qed

lemma pick_tone_zone_listed: "pick_tone_zone zone e = Some zid \<Longrightarrow> zid \<in> set (tone_zones e)"
  by (auto simp: pick_tone_zone_def dest: find_zone split: if_splits)

lemma drop_refs:
  assumes "refs_inv e (chan_users cs)" and "i < length cs" and "drop_tone_zone e (cs ! i) = (e', c')"
  shows "refs_inv e' (chan_users (cs[i := c']))"
proof (cases "curzone (cs ! i)")
  case None
  with assms have "e' = e" "c' = cs ! i" by (auto simp: drop_tone_zone_def)
  with assms show ?thesis by simp
next
  case (Some zid)
  with assms have e': "e' = tone_zone_put zid e" "curzone c' = None" by (auto simp: drop_tone_zone_def)
  have "chan_users (cs[i := c']) = (chan_users cs)(zid := chan_users cs zid - 1)"
    using chan_users_update [OF assms(2), of c'] Some e' by (auto simp: fun_eq_iff)
  moreover have "0 < chan_users cs zid" using chan_users_pos [OF assms(2) Some] .
  ultimately show ?thesis using refs_put [OF assms(1)] e' by simp
qed

lemma choose_refs:
  assumes "refs_inv e (chan_users cs)" and "i < length cs" and "set_tone_zone zone e (cs ! i) = (r, e', c')"
  shows "refs_inv e' (chan_users (cs[i := c']))"
proof -
  show ?thesis
  proof (cases "pick_tone_zone zone e")
    case None
    with assms(3) have "e' = e" "c' = cs ! i" by (auto simp: set_tone_zone_def)
    with assms show ?thesis by simp
  next
    case (Some zid)
    with assms(3) pick_tone_zone_listed have 2: "zid \<in> set (tone_zones e)" "curzone c' = Some zid"
      "e' = (case curzone (cs ! i) of Some old \<Rightarrow> tone_zone_put old (tone_zone_get zid e) | None \<Rightarrow> tone_zone_get zid e)"
      by (auto simp: set_tone_zone_def Let_def)
    have got: "refs_inv (tone_zone_get zid e) ((chan_users cs)(zid := chan_users cs zid + 1))" (is "refs_inv _ ?us")
      using refs_get [OF assms(1)] refs_alive [OF assms(1)] 2(1) by blast
    show ?thesis
    proof (cases "curzone (cs ! i)")
      case None
      have "chan_users (cs[i := c']) = ?us"
        using chan_users_update [OF assms(2), of c'] None 2(2) by (auto simp: fun_eq_iff)
      with got 2(3) None show ?thesis by simp
    next
      case (Some old)
      have "0 < chan_users cs old" using chan_users_pos [OF assms(2) Some] .
      moreover have "chan_users (cs[i := c']) = ?us(old := ?us old - 1)"
        using chan_users_update [OF assms(2), of c'] Some 2(2) by (auto simp: fun_eq_iff)
      ultimately show ?thesis using refs_put [OF got, of old] 2(3) Some by (auto split: if_splits)
    qed
  qed
qed

lemma zone_step_inv: "zone_step s s' \<Longrightarrow> zones_inv s \<Longrightarrow> zones_inv s'"
  by (induction rule: zone_step.induct)
    (auto simp: zones_inv_def intro: loadzone_refs freezone_refs set_dialparams_refs choose_refs drop_refs)

definition no_zones :: tone_env where
  "no_zones = \<lparr>zone_at = (\<lambda>_. None), zone_fresh = 0, tone_zones = [],
     global_dialparams = \<lparr>dtmf_tonelen = 800, mfv1_tonelen = 544, mfr2_tonelen = 800\<rparr>,
     dtmf_silence = 800, mfr1_silence = 544, mfr2_silence = 800\<rparr>"

lemma no_zones_inv: "\<forall>c \<in> set cs. curzone c = None \<Longrightarrow> zones_inv (no_zones, cs)"
  by (auto simp: zones_inv_def refs_inv_def zone_refs_ok_def no_zones_def chan_users_def count_list_0_iff)

text \<open>C17. No channel is left with a freed tone zone: whatever zones are loaded, freed, chosen and
  given back, in any order, the zone a channel uses is allocated, all its pointers to tones lead to
  tones of the zone, and its reference count is the number of its users.\<close>

theorem channel_zone_never_freed:
  assumes "zone_step\<^sup>*\<^sup>* (no_zones, cs0) (e, cs)" and "\<forall>c \<in> set cs0. curzone c = None"
    and "c \<in> set cs" and "curzone c = Some zid"
  shows "\<exists>z. zone_at e zid = Some z \<and> zone_ok z \<and>
    zone_refcount z = int (length (filter (\<lambda>c. curzone c = Some zid) cs)) + of_bool (zid \<in> set (tone_zones e))"
proof -
  from assms(1) have "zones_inv (e, cs)"
  proof (induction rule: rtranclp_induct2)
    case refl
    then show ?case using no_zones_inv [OF assms(2)] .
  next
    case (step e1 cs1 e2 cs2)
    from zone_step_inv [OF step(2,3)] show ?case .
  qed
  then have inv: "refs_inv e (chan_users cs)" by (simp add: zones_inv_def)
  have n: "chan_users cs zid = int (length (filter (\<lambda>c. curzone c = Some zid) cs))"
    by (simp add: chan_users_def count_list_eq_length_filter filter_map comp_def eq_commute)
  with assms(3,4) have "0 < chan_users cs zid" by (auto simp: filter_empty_conv)
  with refs_alive [OF inv] obtain z where "zone_at e zid = Some z" by blast
  with refs_at [OF inv, of zid] n show ?thesis by (auto simp: zone_refs_ok_def Let_def of_bool_def)
qed

definition tone_demo_chan :: "dahdi_digit_mode \<Rightarrow> chan_tone" where
  "tone_demo_chan mode = chan_rbs.extend (rbs_demo_chan SIG_FXOKS None)
     \<lparr>curzone = None, curtone = None, tonep = 0,
      ts = \<lparr>ts_v1_1 = 0, ts_v2_1 = 0, ts_v3_1 = 0, ts_v1_2 = 0, ts_v2_2 = 0, ts_v3_2 = 0, ts_modulate = 0\<rparr>,
      pdialcount = 0, ringcadence = replicate 16 0, firstcadencepos = 0, digitmode = mode, txdialbuf = [],
      dialing = False, afterdialingtimer = 0, cadencepos = 0\<rparr>"

definition demo_header :: "int \<Rightarrow> int \<Rightarrow> tone_def_header" where
  "demo_header count zone = \<lparr>th_count = count, th_zone = zone, th_ringcadence = replicate 16 0\<rparr>"

definition demo_zones :: tone_env where
  "demo_zones = snd (loadzone True True True (Some (demo_header 0 1)) (\<lambda>_. None) no_zones)"

definition demo_chosen :: "int \<times> tone_env \<times> chan_tone" where
  "demo_chosen = set_tone_zone 1 demo_zones (tone_demo_chan DIGIT_MODE_DTMF)"

lemma demo_zones_eq:
  "zone_at demo_zones = [0 \<mapsto> (zeroed_zone 0)\<lparr>zone_num := 1, zone_refcount := 1\<rparr>]"
  "tone_zones demo_zones = [0]"
  by (simp_all add: demo_zones_def loadzone_def demo_header_def no_zones_def register_tone_zone_def
      link_regular_def zeroed_zone_def Let_def)

lemma demo_chosen_eq:
  "curzone (snd (snd demo_chosen)) = Some 0"
  "zone_at (fst (snd demo_chosen)) = [0 \<mapsto> (zeroed_zone 0)\<lparr>zone_num := 1, zone_refcount := 2\<rparr>]"
  "tone_zones (fst (snd demo_chosen)) = [0]"
  by (simp_all add: demo_chosen_def set_tone_zone_def pick_tone_zone_def demo_zones_eq zone_has_num_def
      tone_zone_get_def tone_demo_chan_def rbs_demo_chan_def chan_rbs.extend_def Let_def)

theorem channel_zone_never_freed_witness:
  "\<exists>z. zone_at (snd (freezone (Some 1) (fst (snd demo_chosen)))) 0 = Some z \<and> zone_ok z \<and> zone_refcount z = 1"
proof -
  let ?before = "tone_demo_chan DIGIT_MODE_DTMF" and ?after = "snd (snd demo_chosen)"
  let ?e = "snd (freezone (Some 1) (fst (snd demo_chosen)))"
  have "zone_step (no_zones, [?before]) (demo_zones, [?before])"
    by (rule zone_step.load [of True True True "Some (demo_header 0 1)" "\<lambda>_. None" _ "fst (loadzone True True True (Some (demo_header 0 1)) (\<lambda>_. None) no_zones)"])
      (simp add: demo_zones_def)
  moreover have "zone_step (demo_zones, [?before]) (fst (snd demo_chosen), [?after])"
    using zone_step.choose [of 0 "[?before]" 1 demo_zones "fst demo_chosen" "fst (snd demo_chosen)" ?after]
    by (simp add: demo_chosen_def [symmetric])
  moreover have "zone_step (fst (snd demo_chosen), [?after]) (?e, [?after])"
    by (rule zone_step.free [of "Some 1" _ "fst (freezone (Some 1) (fst (snd demo_chosen)))"]) simp
  ultimately have "zone_step\<^sup>*\<^sup>* (no_zones, [?before]) (?e, [?after])"
    by (meson converse_rtranclp_into_rtranclp rtranclp.rtrancl_refl)
  moreover have "tone_zones ?e = []"
    by (simp add: freezone_def demo_chosen_eq zone_has_num_def tone_zone_put_def)
  ultimately show ?thesis
    using channel_zone_never_freed [of "[?before]" ?e "[?after]" ?after 0]
    by (simp add: demo_chosen_eq tone_demo_chan_def chan_rbs.extend_def rbs_demo_chan_def)
qed

section \<open>Tones of digits\<close>

fun dialable :: "dahdi_digit_mode \<Rightarrow> string" where
  "dialable DIGIT_MODE_DTMF = ''0123456789*#ABCDW''"
| "dialable DIGIT_MODE_MFR1 = ''0123456789*#ABCW''"
| "dialable DIGIT_MODE_PULSE = ''W''"
| "dialable DIGIT_MODE_MFR2_FWD = ''123456789ABCDEFW''"
| "dialable DIGIT_MODE_MFR2_REV = ''123456789ABCDEFW''"

lemma char_eq_code: "(d = c) = ((of_char d :: nat) = of_char c)"
  by simp

lemma digit_in_09: "digit_in CHR ''0'' CHR ''9'' d = (d \<in> set ''0123456789'')"
proof -
  have "(48 \<le> n \<and> n \<le> 57) = (n \<in> {48, 49, 50, 51, 52, 53, 54, 55, 56, 57})" for n :: nat by simp presburger
  from this [of "of_char d"] show ?thesis by (simp add: digit_in_def char_eq_code [of d])
qed

lemma digit_in_19: "digit_in CHR ''1'' CHR ''9'' d = (d \<in> set ''123456789'')"
proof -
  have "(49 \<le> n \<and> n \<le> 57) = (n \<in> {49, 50, 51, 52, 53, 54, 55, 56, 57})" for n :: nat by simp presburger
  from this [of "of_char d"] show ?thesis by (simp add: digit_in_def char_eq_code [of d])
qed

lemma digit_in_AD: "digit_in CHR ''A'' CHR ''D'' d = (d \<in> set ''ABCD'')"
proof -
  have "(65 \<le> n \<and> n \<le> 68) = (n \<in> {65, 66, 67, 68})" for n :: nat by simp presburger
  from this [of "of_char d"] show ?thesis by (simp add: digit_in_def char_eq_code [of d])
qed

lemma digit_in_AF: "digit_in CHR ''A'' CHR ''F'' d = (d \<in> set ''ABCDEF'')"
proof -
  have "(65 \<le> n \<and> n \<le> 70) = (n \<in> {65, 66, 67, 68, 69, 70})" for n :: nat by simp presburger
  from this [of "of_char d"] show ?thesis by (simp add: digit_in_def char_eq_code [of d])
qed

lemmas digit_ins = digit_in_09 digit_in_19 digit_in_AD digit_in_AF

lemma dtmf_index: "(dtmf_index d = None) = (d \<notin> set ''0123456789*#ABCD'')"
  "dtmf_index d = Some i \<Longrightarrow> i < 16"
proof -
  have "(d \<in> set ''0123456789*#ABCD'') = (digit_in CHR ''0'' CHR ''9'' d \<or> d = CHR ''*'' \<or> d = CHR ''#'' \<or> digit_in CHR ''A'' CHR ''D'' d)"
    by (simp add: digit_ins)
  then show "(dtmf_index d = None) = (d \<notin> set ''0123456789*#ABCD'')"
    by (simp add: dtmf_index_def)
  show "dtmf_index d = Some i \<Longrightarrow> i < 16"
    by (auto simp: dtmf_index_def digit_in_def digit_off_def split: if_splits)
qed

lemma mfr1_index: "(mfr1_index d = None) = (d \<notin> set ''0123456789*#ABC'')"
  "mfr1_index d = Some i \<Longrightarrow> i < 15"
proof -
  have "(d \<in> set ''0123456789*#ABC'') = (digit_in CHR ''0'' CHR ''9'' d \<or> d = CHR ''*'' \<or> d = CHR ''#'' \<or> d = CHR ''A'' \<or> d = CHR ''B'' \<or> d = CHR ''C'')"
    by (simp add: digit_ins)
  then show "(mfr1_index d = None) = (d \<notin> set ''0123456789*#ABC'')"
    by (simp add: mfr1_index_def)
  show "mfr1_index d = Some i \<Longrightarrow> i < 15"
    by (auto simp: mfr1_index_def digit_in_def digit_off_def split: if_splits)
qed

lemma mfr2_index: "(mfr2_index d = None) = (d \<notin> set ''123456789ABCDEF'')"
  "mfr2_index d = Some i \<Longrightarrow> i < 15"
proof -
  have "(d \<in> set ''123456789ABCDEF'') = (digit_in CHR ''1'' CHR ''9'' d \<or> digit_in CHR ''A'' CHR ''F'' d)"
    by (simp add: digit_ins)
  then show "(mfr2_index d = None) = (d \<notin> set ''123456789ABCDEF'')"
    by (simp add: mfr2_index_def)
  show "mfr2_index d = Some i \<Longrightarrow> i < 15"
    by (auto simp: mfr2_index_def digit_in_def digit_off_def split: if_splits)
qed

lemma slot_ok_tone:
  "zone_at e zid = Some z \<Longrightarrow> zone_ok z \<Longrightarrow> slot_ok z s \<Longrightarrow> tone_at e (Zone_tone zid s) \<noteq> None"
  by (simp add: slot_ok_def)

text \<open>C21. The tone of a digit is always a tone of the channel's zone: no digit leads outside its
  arrays, in any dialling mode, and exactly the digits of the mode have a tone.\<close>

theorem mf_tone_in_zone:
  assumes "curzone c = Some zid" and "zone_at e zid = Some z" and "zone_ok z"
  shows "case mf_tone c d mode of
      None \<Rightarrow> d \<notin> set (dialable mode)
    | Some p \<Rightarrow> d \<in> set (dialable mode) \<and> tone_at e p \<noteq> None"
proof (cases "d = CHR ''W''")
  case True
  with assms(1) show ?thesis by (cases mode) (simp_all add: mf_tone_def)
next
  case False
  have sh: "zone_shape z" using assms(3) by (simp add: zone_ok_def)
  have dtmf: "slot_ok z (Slot_dtmf i)" if "dtmf_index d = Some i" for i
    using dtmf_index(2) [OF that] slot_ok_shape [OF sh] by simp
  have mfr: "slot_ok z (Slot_mfr1 i)" if "mfr1_index d = Some i" for i
    using mfr1_index(2) [OF that] slot_ok_shape [OF sh] by simp
  have mfr2: "slot_ok z (Slot_mfr2_fwd i)" "slot_ok z (Slot_mfr2_rev i)" if "mfr2_index d = Some i" for i
    using mfr2_index(2) [OF that] slot_ok_shape [OF sh] by simp_all
  note mem = dtmf_index(1) [of d] mfr1_index(1) [of d] mfr2_index(1) [of d]
  from False assms mem dtmf mfr mfr2 show ?thesis
    by (cases mode; cases "dtmf_index d"; cases "mfr1_index d"; cases "mfr2_index d")
      (simp_all add: mf_tone_def slot_ok_def)
qed

theorem mf_tone_in_zone_witness:
  "mf_tone (snd (snd demo_chosen)) CHR ''F'' DIGIT_MODE_MFR2_FWD \<noteq> None"
  using mf_tone_in_zone [of "snd (snd demo_chosen)" 0 "fst (snd demo_chosen)"
      "(zeroed_zone 0)\<lparr>zone_num := 1, zone_refcount := 2\<rparr>" "CHR ''F''" DIGIT_MODE_MFR2_FWD]
  by (cases "mf_tone (snd (snd demo_chosen)) CHR ''F'' DIGIT_MODE_MFR2_FWD")
    (simp_all add: demo_chosen_eq zeroed_zone_ok)

section \<open>Starting a tone\<close>

text \<open>How a choice of tone can end: it plays from its start, or nothing plays and the caller learns why.\<close>

definition plays_tone :: "tone_ptr \<Rightarrow> dahdi_tone \<Rightarrow> int \<Rightarrow> 'a chan_tone_scheme \<Rightarrow> bool" where
  "plays_tone p t res c \<longleftrightarrow> res = 0 \<and> curtone c = Some p \<and> ts c = init_tone_state t"

definition plays_nothing :: "int \<Rightarrow> int \<Rightarrow> 'a chan_tone_scheme \<Rightarrow> bool" where
  "plays_nothing why res c \<longleftrightarrow> res = why \<and> curtone c = None"

text \<open>The digits of a mode: the tones of one array, numbered from \<open>base\<close> on; a tone without samples does not exist.\<close>

definition plays_digit :: "nat \<Rightarrow> (nat \<Rightarrow> tone_slot) \<Rightarrow> dahdi_tone list \<Rightarrow> int \<Rightarrow> int \<Rightarrow> int \<Rightarrow> int \<Rightarrow> 'a chan_tone_scheme \<Rightarrow> bool" where
  "plays_digit zid slot tones base mx tone res c \<longleftrightarrow>
     (if base \<le> tone \<and> tone \<le> mx then
        (let i = nat (tone - base) in
         if tonesamples (tones ! i) = 0 then plays_nothing (- ENOSYS) res c else plays_tone (Zone_tone zid (slot i)) (tones ! i) res c)
      else plays_nothing (- EINVAL) res c)"

text \<open>C22. Starting a tone always stops the old one and any dialling. Number -1 only stops; without a zone there is no tone; the numbers
  0 to 15 name the regular tones of the zone; the others name digits of the mode of the channel, which in DTMF mode also marks
  the channel as dialling: in each case the tone that plays, from its start, and the result are determined. The number 16 is excluded.\<close>

theorem start_tone_outcome:
  assumes "tone \<noteq> 16" and "\<forall>zid. curzone c = Some zid \<longrightarrow> (\<exists>z. zone_at e zid = Some z \<and> zone_ok z)"
  shows "\<exists>res c'. start_tone tone e c = Some (res, c') \<and>
    tonep c' = 0 \<and> pdialcount c' = 0 \<and> txdialbuf c' = [] \<and>
    (if tone = -1 then plays_nothing 0 res c' \<and> \<not> dialing c'
     else case curzone c of
       None \<Rightarrow> plays_nothing (- ENODATA) res c' \<and> \<not> dialing c'
     | Some zid \<Rightarrow> (\<exists>z. zone_at e zid = Some z \<and>
         (if 0 \<le> tone \<and> tone \<le> 15 then \<not> dialing c' \<and>
            (case zone_tones z ! nat tone of
               None \<Rightarrow> plays_nothing (- ENOSYS) res c'
             | Some s \<Rightarrow> \<exists>t. slot_tone z s = Some t \<and> plays_tone (Zone_tone zid s) t res c')
          else dialing c' = (digitmode c = DIGIT_MODE_DTMF) \<and>
            (case digitmode c of
               DIGIT_MODE_DTMF \<Rightarrow> plays_digit zid Slot_dtmf_continuous (zone_dtmf_continuous z) 64 79 tone res c'
             | DIGIT_MODE_MFR2_FWD \<Rightarrow> plays_digit zid Slot_mfr2_fwd_continuous (zone_mfr2_fwd_continuous z) 96 110 tone res c'
             | DIGIT_MODE_MFR2_REV \<Rightarrow> plays_digit zid Slot_mfr2_rev_continuous (zone_mfr2_rev_continuous z) 112 126 tone res c'
             | _ \<Rightarrow> plays_nothing (- EINVAL) res c'))))"
proof (cases "tone = -1 \<or> curzone c = None")
  case True
  then show ?thesis by (auto simp: start_tone_def start_tone_choose_def stop_tone_def plays_nothing_def)
next
  case False
  then obtain zid where zid: "curzone c = Some zid" and t1: "tone \<noteq> -1" by auto
  with assms(2) obtain z where z: "zone_at e zid = Some z" "zone_ok z" by blast
  have sh: "zone_shape z" using z(2) by (simp add: zone_ok_def)
  then have len: "length (zone_tones z) = 16" "length (zone_dtmf_continuous z) = 16" "length (zone_mfr2_fwd_continuous z) = 16"
    "length (zone_mfr2_rev_continuous z) = 16" by (simp_all add: zone_shape_def)
  show ?thesis
  proof (cases "0 \<le> tone \<and> tone \<le> 15")
    case True
    have reg: "slot_tone z s \<noteq> None" if "zone_tones z ! nat tone = Some s" for s
    proof -
      have "Some s \<in> set (zone_tones z)" using that len(1) nth_mem [of "nat tone" "zone_tones z"] True by (simp add: nat_less_iff)
      with z(2) show ?thesis by (simp add: zone_ok_def slot_ok_def)
    qed
    have n: "nth_opt (zone_tones z) (nat tone) = Some (zone_tones z ! nat tone)" using True len(1) by (simp add: nth_opt_def nat_less_iff)
    show ?thesis
    proof (cases "zone_tones z ! nat tone")
      case None
      with True t1 zid z show ?thesis
        by (auto simp: n start_tone_def start_tone_choose_def stop_tone_def plays_nothing_def)
    next
      case (Some s)
      with reg obtain t where t: "slot_tone z s = Some t" by blast
      with Some True t1 zid z show ?thesis
        by (auto simp: n start_tone_def start_tone_choose_def stop_tone_def plays_tone_def)
    qed
  next
    case False
    with assms(1) have out: "\<not> (0 \<le> tone \<and> tone \<le> 16)" by auto
    have i: "nth_opt (zone_dtmf_continuous z) (nat (tone - 64)) = Some (zone_dtmf_continuous z ! nat (tone - 64))" if "64 \<le> tone" "tone \<le> 79"
      using that len by (simp add: nth_opt_def)
    have j: "nth_opt (zone_mfr2_fwd_continuous z) (nat (tone - 96)) = Some (zone_mfr2_fwd_continuous z ! nat (tone - 96))" if "96 \<le> tone" "tone \<le> 110"
      using that len by (simp add: nth_opt_def)
    have k: "nth_opt (zone_mfr2_rev_continuous z) (nat (tone - 112)) = Some (zone_mfr2_rev_continuous z ! nat (tone - 112))" if "112 \<le> tone" "tone \<le> 126"
      using that len by (simp add: nth_opt_def)
    show ?thesis
      using t1 zid z out False
      by (cases "tonesamples (zone_dtmf_continuous z ! nat (tone - 64)) = 0"; cases "tonesamples (zone_mfr2_fwd_continuous z ! nat (tone - 96)) = 0";
          cases "tonesamples (zone_mfr2_rev_continuous z ! nat (tone - 112)) = 0"; cases "digitmode c")
        (auto simp: i j k start_tone_def start_tone_choose_def start_tone_digit_def stop_tone_def Let_def
          plays_digit_def plays_tone_def plays_nothing_def)
  qed
qed

text \<open>A zone in which the digit 5 has a tone of eight samples.\<close>

definition digit_demo_zone :: dahdi_zone where
  "digit_demo_zone = (zeroed_zone 0)\<lparr>zone_dtmf_continuous := (zone_dtmf_continuous (zeroed_zone 0))[5 := empty_tone\<lparr>tonesamples := 8\<rparr>]\<rparr>"

lemma digit_demo_zone_ok: "zone_ok digit_demo_zone"
proof -
  have "zone_shape digit_demo_zone" by (simp add: zone_shape_def zeroed_zone_def digit_demo_zone_def)
  moreover have "tone_next t = None" if "slot_tone digit_demo_zone s = Some t" for s t
    using that by (cases s) (auto simp: digit_demo_zone_def zeroed_zone_def empty_tone_def nth_list_update nth_opt_def split: if_splits)
  ultimately show ?thesis by (auto simp: zone_ok_def link_ok_def digit_demo_zone_def zeroed_zone_def)
qed

theorem start_tone_outcome_witness:
  "\<exists>c'. start_tone 69 (no_zones\<lparr>zone_at := [0 \<mapsto> digit_demo_zone]\<rparr>) (snd (snd demo_chosen)) = Some (0, c') \<and>
     curtone c' = Some (Zone_tone 0 (Slot_dtmf_continuous 5)) \<and> dialing c'"
proof -
  let ?e = "no_zones\<lparr>zone_at := [0 \<mapsto> digit_demo_zone]\<rparr>" and ?c = "snd (snd demo_chosen)"
  have m: "digitmode ?c = DIGIT_MODE_DTMF"
    by (simp add: demo_chosen_def set_tone_zone_def pick_tone_zone_def demo_zones_eq zone_has_num_def
      tone_zone_get_def tone_demo_chan_def chan_rbs.extend_def Let_def)
  have "\<forall>zid. curzone ?c = Some zid \<longrightarrow> (\<exists>z. zone_at ?e zid = Some z \<and> zone_ok z)"
    by (simp add: demo_chosen_eq digit_demo_zone_ok)
  from start_tone_outcome [OF _ this, of 69] show ?thesis
    by (auto simp: demo_chosen_eq m plays_digit_def plays_tone_def digit_demo_zone_def zeroed_zone_def empty_tone_def)
qed

section \<open>Behaviour worth knowing\<close>

text \<open>The number 16 passes the guard of \<open>start_tone\<close> but is past the end of the array.\<close>

lemma start_tone_16_reads_outside:
  assumes "curzone c = Some zid" and "zone_at e zid = Some z" and "zone_ok z"
  shows "start_tone 16 e c = None"
  using assms by (simp add: start_tone_def start_tone_choose_def stop_tone_def nth_opt_def zone_ok_def zone_shape_def)

text \<open>An invalid tone number in DTMF mode leaves the channel marked as dialling with no tone to end it.\<close>

lemma invalid_digit_leaves_dialing:
  assumes "curzone c = Some zid" and "digitmode c = DIGIT_MODE_DTMF" and "79 < tone"
  shows "\<exists>c'. start_tone tone e c = Some (- EINVAL, c') \<and> dialing c' \<and> curtone c' = None \<and> txdialbuf c' = []"
  using assms by (simp add: start_tone_def start_tone_choose_def start_tone_digit_def stop_tone_def Let_def)

text \<open>Choosing another zone does not stop the tone that plays; its zone may be freed by that.\<close>

lemma set_tone_zone_leaves_dangling_tone:
  assumes "curzone c = Some old" and "zone_at e old = Some z" and "zone_refcount z = 1"
    and "pick_tone_zone n e = Some new" and "new \<noteq> old" and "curtone c = Some (Zone_tone old s)"
  shows "case set_tone_zone n e c of (r, e', c') \<Rightarrow>
    r = 0 \<and> curtone c' = Some (Zone_tone old s) \<and> tone_at e' (Zone_tone old s) = None"
  using assms by (simp add: set_tone_zone_def tone_zone_put_def tone_zone_get_def Let_def)

text \<open>
  The dial parameters are set in milliseconds but the zone loader takes them as samples: a DTMF digit
  of a zone loaded afterwards is eight times too short.
\<close>

lemma dialparams_unit:
  assumes "i < 16" and "zone_shape z" and "set_dialparams (Some g) e = (0, e')" and "dtmf_tonelen g = 100"
  shows "tonesamples (zone_dtmf (load_dtmf (global_dialparams e') i td z) ! i) = 100"
    and "tonesamples (zone_dtmf (zone_dialparams (global_dialparams e') z) ! i) = 800"
  using assms by (auto simp: set_dialparams_def load_dtmf_def zone_dialparams_def set_samples_def zone_shape_def Let_def)

end
