(* ===== verification/Dial.thy ===== *)
theory Dial
  imports Tones
begin

text \<open>
  Dialling on a channel (\<open>__do_dtmf\<close>, \<open>DAHDI_DIAL\<close>), the transmit hook state machine
  that a timer drives (\<open>__rbs_otimer_expire\<close>) and the loop that plays tones into a chunk
  (\<open>__dahdi_getempty\<close>, and the same steps in \<open>__dahdi_getbuf_chunk\<close>). \<open>None\<close> stands for
  an access through a null or dangling pointer; the loop, which need not end, has fuel.
\<close>

section \<open>Operations\<close>

text \<open>Playing the tone that \<open>p\<close> points to from its start, as the callers do after setting \<open>curtone\<close>.\<close>

definition with_tone_state :: "tone_env \<Rightarrow> tone_ptr \<Rightarrow> 'a chan_tone_scheme \<Rightarrow> 'a chan_tone_scheme option" where
  "with_tone_state e p c = map_option (\<lambda>t. c\<lparr>ts := init_tone_state t\<rparr>) (tone_at e p)"

definition dial_mode :: "char \<Rightarrow> dahdi_digit_mode option" where
  "dial_mode d =
     (if d = CHR ''T'' then Some DIGIT_MODE_DTMF
      else if d = CHR ''M'' then Some DIGIT_MODE_MFR1
      else if d = CHR ''O'' then Some DIGIT_MODE_MFR2_FWD
      else if d = CHR ''R'' then Some DIGIT_MODE_MFR2_REV
      else if d = CHR ''P'' then Some DIGIT_MODE_PULSE
      else None)"

definition pulse_count :: "char \<Rightarrow> int" where
  "pulse_count d = (if d = CHR ''0'' then 10 else of_char d - 48)"

text \<open>The loop of \<open>__do_dtmf\<close> over the dial string; each character is taken off it first.\<close>

fun do_dtmf_loop :: "tone_env \<Rightarrow> string \<Rightarrow> 'a chan_tone_scheme \<Rightarrow> 'a chan_tone_scheme option" where
  "do_dtmf_loop e [] c = Some (qevent (c\<lparr>dialing := False\<rparr>) EVENT_DIALCOMPLETE)"
| "do_dtmf_loop e (d # ds) c =
     (let c = c\<lparr>txdialbuf := ds\<rparr> in
      case dial_mode d of
        Some m \<Rightarrow> do_dtmf_loop e ds (c\<lparr>digitmode := m, tonep := 0\<rparr>)
      | None \<Rightarrow>
         (if d \<noteq> CHR ''W'' \<and> digitmode c = DIGIT_MODE_PULSE then
            (if digit_in CHR ''0'' CHR ''9'' d \<and> txhooksig c = TXSIG_OFFHOOK then
               Some (rbs_sethook TXSIG_ONHOOK TXSTATE_PULSEBREAK (pulsebreaktime c)
                 (c\<lparr>pdialcount := pulse_count d\<rparr>))
             else do_dtmf_loop e ds c)
          else
            (let c = c\<lparr>curtone := mf_tone c d (digitmode c), tonep := 0\<rparr> in
             case curtone c of
               Some p \<Rightarrow> with_tone_state e p c
             | None \<Rightarrow> do_dtmf_loop e ds c)))"

definition do_dtmf :: "tone_env \<Rightarrow> 'a chan_tone_scheme \<Rightarrow> 'a chan_tone_scheme option" where
  "do_dtmf e c = do_dtmf_loop e (txdialbuf c) c"

abbreviation (input) DIAL_OP_APPEND :: int where "DIAL_OP_APPEND \<equiv> 1"
abbreviation (input) DIAL_OP_REPLACE :: int where "DIAL_OP_REPLACE \<equiv> 2"
abbreviation (input) DIAL_OP_CANCEL :: int where "DIAL_OP_CANCEL \<equiv> 3"

text \<open>
  \<open>DAHDI_DIAL\<close>. \<open>up\<close> is the kernel's \<open>toupper\<close>; the dial string given by the user is cut to
  the 255 characters before the forced terminator and ends at the first one.
\<close>

definition dial_string :: "(char \<Rightarrow> char) \<Rightarrow> string \<Rightarrow> string" where
  "dial_string up s = map up (takeWhile (\<lambda>c. c \<noteq> CHR 0x00) (take 255 s))"

definition ioctl_dial :: "(char \<Rightarrow> char) \<Rightarrow> bool \<Rightarrow> (int \<times> string) option \<Rightarrow> tone_env \<Rightarrow>
    'a chan_tone_scheme \<Rightarrow> (int \<times> 'a chan_tone_scheme) option" where
  "ioctl_dial up alloc arg e c =
     (if \<not> alloc then Some (- ENOMEM, c)
      else case arg of
        None \<Rightarrow> Some (- EFAULT, c)
      | Some (dop, str) \<Rightarrow>
         (let dialstr = dial_string up str in
          if curzone c = None then Some (- ENODATA, c)
          else if dop = DIAL_OP_CANCEL then
              Some (0, c\<lparr>curtone := None, dialing := False, txdialbuf := [], tonep := 0, pdialcount := 0\<rparr>)
          else if dop = DIAL_OP_REPLACE then
              map_option (Pair 0) (do_dtmf e (c\<lparr>txdialbuf := dialstr, dialing := True\<rparr>))
          else if dop = DIAL_OP_APPEND then
              (if length dialstr + length (txdialbuf c) \<ge> 255 then Some (- EBUSY, c)
               else
                 (let c = c\<lparr>txdialbuf := txdialbuf c @ dialstr\<rparr> in
                  if \<not> dialing c then map_option (Pair 0) (do_dtmf e (c\<lparr>dialing := True\<rparr>))
                  else Some (0, c)))
          else Some (- EINVAL, c)))"

section \<open>The transmit hook state machine\<close>

definition ring_cadence_at :: "'a chan_tone_scheme \<Rightarrow> int" where
  "ring_cadence_at c = ringcadence c ! nat (cadencepos c)"

text \<open>The ringer: the cadence wraps to \<open>firstcadencepos\<close> after a pause but to 0 after a ring.\<close>

definition otimer_ringoff :: "'a chan_tone_scheme \<Rightarrow> 'a chan_tone_scheme" where
  "otimer_ringoff c =
     (let c = c\<lparr>cadencepos := cadencepos c + 1\<rparr>;
          c = (if cadencepos c \<ge> int MAX_CADENCE then c\<lparr>cadencepos := firstcadencepos c\<rparr> else c);
          c = (if ring_cadence_at c = 0 then c\<lparr>cadencepos := firstcadencepos c\<rparr> else c)
      in qevent (rbs_sethook TXSIG_START TXSTATE_RINGON (ring_cadence_at c) c) EVENT_RINGERON)"

definition otimer_ringon :: "tone_env \<Rightarrow> 'a chan_tone_scheme \<Rightarrow> 'a chan_tone_scheme option" where
  "otimer_ringon e c =
     (let c = c\<lparr>cadencepos := cadencepos c + 1\<rparr>;
          c = (if cadencepos c \<ge> int MAX_CADENCE then c\<lparr>cadencepos := 0\<rparr> else c) in
      if ring_cadence_at c = 0 then
        (case Option.bind (curzone c) (zone_at e) of
           None \<Rightarrow> None
         | Some z \<Rightarrow> Some (qevent (rbs_sethook TXSIG_OFFHOOK TXSTATE_RINGOFF (zone_ringcadence z ! 0)
               (c\<lparr>cadencepos := 0\<rparr>)) EVENT_RINGEROFF))
      else Some (qevent (rbs_sethook TXSIG_OFFHOOK TXSTATE_RINGOFF (ring_cadence_at c) c) EVENT_RINGEROFF))"

text \<open>\<open>nonblock\<close> tells whether the channel is open without blocking, which asks for an event.\<close>

definition hook_complete :: "bool \<Rightarrow> 'a chan_tone_scheme \<Rightarrow> 'a chan_tone_scheme" where
  "hook_complete nonblock c = (if nonblock then qevent c EVENT_HOOKCOMPLETE else c)"

definition otimer_debounce :: "'a chan_tone_scheme \<Rightarrow> 'a chan_tone_scheme" where
  "otimer_debounce c =
     (let c = rbs_sethook TXSIG_OFFHOOK TXSTATE_OFFHOOK 0 c in
      if rxhooksig c = RXSIG_ONHOOK \<and> rxflashtime c > 2 then
        (let t = i32 (rxflashtime c * int DAHDI_CHUNKSIZE) in c\<lparr>itimerset := t, itimer := t\<rparr>)
      else c)"

definition otimer_afterkewl :: "'a chan_tone_scheme \<Rightarrow> 'a chan_tone_scheme" where
  "otimer_afterkewl c =
     (if kewlonhook c then qevent c EVENT_ONHOOK else c)\<lparr>txstate := TXSTATE_ONHOOK, gotgs := False\<rparr>"

definition otimer_pulsemake :: "'a chan_tone_scheme \<Rightarrow> 'a chan_tone_scheme" where
  "otimer_pulsemake c =
     (let c = (if pdialcount c \<noteq> 0 then c\<lparr>pdialcount := pdialcount c - 1\<rparr> else c) in
      if pdialcount c \<noteq> 0 then rbs_sethook TXSIG_ONHOOK TXSTATE_PULSEBREAK (pulsebreaktime c) c
      else c\<lparr>txstate := TXSTATE_PULSEAFTER, otimer := i32 (pulseaftertime c * int DAHDI_CHUNKSIZE)\<rparr>)"

definition rbs_otimer_expire :: "bool \<Rightarrow> tone_env \<Rightarrow> 'a chan_tone_scheme \<Rightarrow> 'a chan_tone_scheme option" where
  "rbs_otimer_expire nonblock e c =
     (let c = c\<lparr>otimer := 0\<rparr> in
      case txstate c of
        TXSTATE_RINGOFF \<Rightarrow> Some (otimer_ringoff c)
      | TXSTATE_RINGON \<Rightarrow> otimer_ringon e c
      | TXSTATE_START \<Rightarrow> Some (rbs_sethook TXSIG_OFFHOOK TXSTATE_AFTERSTART AFTERSTART_TIME c)
      | TXSTATE_PREWINK \<Rightarrow> Some (rbs_sethook TXSIG_OFFHOOK TXSTATE_WINK (winktime c) c)
      | TXSTATE_WINK \<Rightarrow> Some (hook_complete nonblock (rbs_sethook TXSIG_ONHOOK TXSTATE_ONHOOK 0 c))
      | TXSTATE_PREFLASH \<Rightarrow> Some (rbs_sethook TXSIG_ONHOOK TXSTATE_FLASH (flashtime c) c)
      | TXSTATE_FLASH \<Rightarrow> Some (hook_complete nonblock (rbs_sethook TXSIG_OFFHOOK TXSTATE_OFFHOOK 0 c))
      | TXSTATE_DEBOUNCE \<Rightarrow> Some (otimer_debounce c)
      | TXSTATE_AFTERSTART \<Rightarrow> Some (hook_complete nonblock (rbs_sethook TXSIG_OFFHOOK TXSTATE_OFFHOOK 0 c))
      | TXSTATE_KEWL \<Rightarrow> Some (hook_complete nonblock (rbs_sethook TXSIG_ONHOOK TXSTATE_AFTERKEWL AFTERKEWLTIME c))
      | TXSTATE_AFTERKEWL \<Rightarrow> Some (otimer_afterkewl c)
      | TXSTATE_PULSEBREAK \<Rightarrow> Some (rbs_sethook TXSIG_OFFHOOK TXSTATE_PULSEMAKE (pulsemaketime c) c)
      | TXSTATE_PULSEMAKE \<Rightarrow> Some (otimer_pulsemake c)
      | TXSTATE_PULSEAFTER \<Rightarrow> do_dtmf e (c\<lparr>txstate := TXSTATE_OFFHOOK\<rparr>)
      | _ \<Rightarrow> Some c)"

text \<open>What each transmitted chunk does to the timer.\<close>

definition transmit_otimer :: "bool \<Rightarrow> tone_env \<Rightarrow> 'a chan_tone_scheme \<Rightarrow> 'a chan_tone_scheme option" where
  "transmit_otimer nonblock e c =
     (if otimer c \<noteq> 0 then
        (let c = c\<lparr>otimer := otimer c - int DAHDI_CHUNKSIZE\<rparr>
         in if otimer c \<le> 0 then rbs_otimer_expire nonblock e c else Some c)
      else Some c)"

section \<open>Playing tones\<close>

fun tone_samples :: "nat \<Rightarrow> law \<Rightarrow> dahdi_tone \<Rightarrow> dahdi_tone_state \<Rightarrow> u8 list \<times> dahdi_tone_state" where
  "tone_samples 0 l t s = ([], s)"
| "tone_samples (Suc n) l t s =
     (let (getlin, s) = tone_nextsample s t; (xs, s) = tone_samples n l t s
      in (DAHDI_LIN2X getlin l # xs, s))"

text \<open>Going on to the next tone of a sequence, or to the next digit.\<close>

definition tone_advance :: "tone_env \<Rightarrow> tone_ptr \<Rightarrow> dahdi_tone \<Rightarrow> 'a chan_tone_scheme \<Rightarrow> 'a chan_tone_scheme option" where
  "tone_advance e p t c =
     (let c = c\<lparr>tonep := 0, curtone := follow p (tone_next t)\<rparr> in
      case curtone c of
        None \<Rightarrow> (if dialing c then do_dtmf e c else Some c)
      | Some q \<Rightarrow> (if q \<noteq> p then with_tone_state e q c else Some c))"

text \<open>
  One round of the loop for a channel that plays the tone \<open>p\<close>: the octets it writes and the
  number of octets still wanted. \<open>left\<close> is negative when the tone was shortened while it played.
\<close>

definition tone_round :: "tone_env \<Rightarrow> int \<Rightarrow> tone_ptr \<Rightarrow> 'a chan_tone_scheme \<Rightarrow>
    (u8 list \<times> int \<times> 'a chan_tone_scheme) option" where
  "tone_round e bytes p c = (case tone_at e p of
     None \<Rightarrow> None
   | Some t \<Rightarrow>
      (let left = tonesamples t - tonep c;
           left = (if left > bytes then bytes else left);
           (out, s) = tone_samples (nat left) (xlaw c) t (ts c);
           c = c\<lparr>ts := s, tonep := tonep c + left\<rparr>;
           bytes = bytes - left
       in if tonep c \<ge> tonesamples t then map_option (\<lambda>c. (out, bytes, c)) (tone_advance e p t c)
          else Some (out, bytes, c)))"

fun getempty :: "nat \<Rightarrow> tone_env \<Rightarrow> int \<Rightarrow> 'a chan_tone_scheme \<Rightarrow> (u8 list \<times> 'a chan_tone_scheme) option" where
  "getempty 0 e bytes c = None"
| "getempty (Suc fuel) e bytes c =
     (if bytes = 0 then Some ([], c)
      else case curtone c of
        None \<Rightarrow> Some (replicate (nat bytes) (DAHDI_LIN2X 0 (xlaw c)), c)
      | Some p \<Rightarrow>
         (case tone_round e bytes p c of
            None \<Rightarrow> None
          | Some (out, bytes, c) \<Rightarrow>
              map_option (\<lambda>(out', c). (out @ out', c)) (getempty fuel e bytes c)))"

section \<open>What the hook functions leave alone\<close>

lemma qevent_tone [simp]:
  "curzone (qevent c e) = curzone c" "curtone (qevent c e) = curtone c" "tonep (qevent c e) = tonep c"
  "txdialbuf (qevent c e) = txdialbuf c" "dialing (qevent c e) = dialing c" "digitmode (qevent c e) = digitmode c"
  "pdialcount (qevent c e) = pdialcount c" "ts (qevent c e) = ts c" "ringcadence (qevent c e) = ringcadence c"
  by (simp_all add: qevent_def Let_def)

lemma sethook_tone [simp]:
  "curzone (rbs_sethook a b t c) = curzone c" "curtone (rbs_sethook a b t c) = curtone c"
  "tonep (rbs_sethook a b t c) = tonep c" "txdialbuf (rbs_sethook a b t c) = txdialbuf c"
  "dialing (rbs_sethook a b t c) = dialing c" "digitmode (rbs_sethook a b t c) = digitmode c"
  "pdialcount (rbs_sethook a b t c) = pdialcount c" "ts (rbs_sethook a b t c) = ts c"
  "ringcadence (rbs_sethook a b t c) = ringcadence c"
  by (auto simp: rbs_sethook_def sethook_sf_def sethook_driver_def set_txtone_def Let_def split: option.splits)

section \<open>The loop that plays tones ends\<close>

definition ptr_alive :: "tone_env \<Rightarrow> tone_ptr \<Rightarrow> bool" where
  "ptr_alive e p \<longleftrightarrow> (case p of Static_tone _ \<Rightarrow> True
     | Zone_tone zid s \<Rightarrow> (\<exists>z. zone_at e zid = Some z \<and> zone_ok z \<and> slot_ok z s))"

definition zone_alive :: "tone_env \<Rightarrow> nat option \<Rightarrow> bool" where
  "zone_alive e zo \<longleftrightarrow> (\<forall>zid. zo = Some zid \<longrightarrow> (\<exists>z. zone_at e zid = Some z \<and> zone_ok z))"

definition tone_pos_ok :: "tone_env \<Rightarrow> tone_ptr option \<Rightarrow> int \<Rightarrow> bool" where
  "tone_pos_ok e po pos \<longleftrightarrow> (\<forall>p. po = Some p \<longrightarrow> ptr_alive e p \<and>
     (\<exists>t. tone_at e p = Some t \<and> 0 \<le> pos \<and> (pos = 0 \<or> pos < tonesamples t)))"

definition play_inv :: "tone_env \<Rightarrow> 'a chan_tone_scheme \<Rightarrow> bool" where
  "play_inv e c \<longleftrightarrow> zone_alive e (curzone c) \<and> tone_pos_ok e (curtone c) (tonep c)"

text \<open>A tone of no length is the last of its sequence; no tone has negative length.\<close>

definition playable :: "tone_env \<Rightarrow> bool" where
  "playable e \<longleftrightarrow> (\<forall>p t. tone_at e p = Some t \<longrightarrow>
     0 < tonesamples t \<or> (tonesamples t = 0 \<and> tone_next t = None))"

lemma ptr_alive_at: "ptr_alive e p \<Longrightarrow> \<exists>t. tone_at e p = Some t"
  by (cases p) (auto simp: ptr_alive_def slot_ok_def)

lemma follow_alive:
  assumes "ptr_alive e p" and "tone_at e p = Some t" and "follow p (tone_next t) = Some q"
  shows "ptr_alive e q"
proof (cases p)
  case (Static_tone s)
  with assms(2) have "tone_next t = None" by (auto simp: empty_tone_def)
  with assms(3) show ?thesis by simp
next
  case (Zone_tone zid s)
  with assms obtain z where z: "zone_at e zid = Some z" "zone_ok z" "slot_tone z s = Some t"
    by (auto simp: ptr_alive_def)
  then have "link_ok z (tone_next t)" by (auto simp: zone_ok_def)
  with assms(3) Zone_tone z show ?thesis
    by (cases "tone_next t" rule: option.exhaust; cases "the (tone_next t)")
      (auto simp: ptr_alive_def link_ok_def)
qed

lemma mf_tone_alive:
  assumes "zone_alive e (curzone c)" and "mf_tone c d m = Some p"
  shows "ptr_alive e p"
proof -
  obtain zid where zid: "curzone c = Some zid" using assms(2) by (auto simp: mf_tone_def split: option.splits)
  with assms(1) obtain z where z: "zone_at e zid = Some z" "zone_ok z" by (auto simp: zone_alive_def)
  show ?thesis
  proof (cases "d = CHR ''W''")
    case True
    with assms(2) zid show ?thesis by (auto simp: mf_tone_def ptr_alive_def)
  next
    case False
    have sh: "zone_shape z" using z by (simp add: zone_ok_def)
    from False assms(2) zid obtain s where "p = Zone_tone zid s" "slot_ok z s"
      using dtmf_index(2) [of d] mfr1_index(2) [of d] mfr2_index(2) [of d]
      by (cases m) (auto simp: mf_tone_def slot_ok_shape [OF sh])
    with z show ?thesis by (simp add: ptr_alive_def)
  qed
qed

lemma play_inv_rec [simp]:
  "play_inv e (c\<lparr>txdialbuf := b\<rparr>) = play_inv e c" "play_inv e (c\<lparr>dialing := x\<rparr>) = play_inv e c"
  "play_inv e (c\<lparr>digitmode := m\<rparr>) = play_inv e c" "play_inv e (c\<lparr>pdialcount := n\<rparr>) = play_inv e c"
  "play_inv e (c\<lparr>ts := s\<rparr>) = play_inv e c" "play_inv e (qevent c ev) = play_inv e c"
  "play_inv e (rbs_sethook h st tmo c) = play_inv e c"
  by (simp_all add: play_inv_def)

lemma play_inv_tonep0: "play_inv e c \<Longrightarrow> play_inv e (c\<lparr>tonep := 0\<rparr>)"
  by (auto simp: play_inv_def tone_pos_ok_def)

lemma with_tone_state_play:
  assumes "playable e" and "zone_alive e (curzone c)" and "ptr_alive e p" and "curtone c = Some p" and "tonep c = 0"
  shows "\<exists>c'. with_tone_state e p c = Some c' \<and> play_inv e c' \<and> txdialbuf c' = txdialbuf c \<and> curtone c' = Some p"
proof -
  obtain t where t: "tone_at e p = Some t" using ptr_alive_at [OF assms(3)] by blast
  with assms(1) have "0 \<le> tonesamples t" by (fastforce simp: playable_def)
  with assms t show ?thesis by (auto simp: with_tone_state_def play_inv_def tone_pos_ok_def)
qed

text \<open>Dialling consumes a digit whenever it starts a tone.\<close>

lemma do_dtmf_play:
  "playable e \<Longrightarrow> play_inv e c \<Longrightarrow> txdialbuf c = ds \<Longrightarrow>
   \<exists>c'. do_dtmf_loop e ds c = Some c' \<and> play_inv e c' \<and> length (txdialbuf c') \<le> length ds \<and>
     (curtone c = None \<longrightarrow> curtone c' \<noteq> None \<longrightarrow> length (txdialbuf c') < length ds)"
proof (induction e ds c rule: do_dtmf_loop.induct)
  case (1 e c)
  then show ?case by simp
next
  case (2 e d ds c)
  let ?c = "c\<lparr>txdialbuf := ds\<rparr>"
  show ?case
  proof (cases "dial_mode d")
    case (Some m)
    have "play_inv e (?c\<lparr>digitmode := m, tonep := 0\<rparr>)"
      using play_inv_tonep0 [of e c] "2.prems"(2) by (simp add: play_inv_def)
    from "2.IH"(3) [OF refl Some "2.prems"(1) this] Some show ?thesis by (auto simp: Let_def)
  next
    case None
    show ?thesis
    proof (cases "d \<noteq> CHR ''W'' \<and> digitmode ?c = DIGIT_MODE_PULSE")
      case True
      show ?thesis
      proof (cases "digit_in CHR ''0'' CHR ''9'' d \<and> txhooksig ?c = TXSIG_OFFHOOK")
        case True
        with \<open>d \<noteq> _ \<and> _\<close> None "2.prems" show ?thesis by (simp add: Let_def)
      next
        case False
        have "play_inv e ?c" using "2.prems"(2) by simp
        from "2.IH"(1) [OF refl None True False "2.prems"(1) this] None True False show ?thesis
          by (auto simp: Let_def)
      qed
    next
      case False
      let ?d = "?c\<lparr>curtone := mf_tone ?c d (digitmode ?c), tonep := 0\<rparr>"
      have za: "zone_alive e (curzone c)" using "2.prems"(2) by (simp add: play_inv_def)
      show ?thesis
      proof (cases "mf_tone ?c d (digitmode ?c)")
        case mf: None
        have "play_inv e ?d" using za mf by (simp add: play_inv_def tone_pos_ok_def)
        moreover have "curtone ?d = None" using mf by simp
        ultimately show ?thesis using "2.IH"(2) [OF refl None False refl _ "2.prems"(1)] None False mf
          by (auto simp: Let_def)
      next
        case (Some p)
        from mf_tone_alive [OF _ Some, of e] za have alive: "ptr_alive e p" by simp
        have "curtone ?d = Some p" "tonep ?d = 0" using Some by simp_all
        from with_tone_state_play [OF "2.prems"(1) _ alive this] za None False Some show ?thesis
          by (auto simp: Let_def)
      qed
    qed
  qed
qed

lemma length_tone_samples [simp]: "length (fst (tone_samples n l t s)) = n"
  by (induction n arbitrary: s) (auto simp: split_beta)

lemma tone_advance_play:
  assumes "playable e" and "zone_alive e (curzone c)" and "ptr_alive e p" and "tone_at e p = Some t"
  shows "\<exists>c'. tone_advance e p t c = Some c' \<and> play_inv e c' \<and> length (txdialbuf c') \<le> length (txdialbuf c) \<and>
    (tone_next t = None \<longrightarrow> length (txdialbuf c') + of_bool (curtone c' \<noteq> None) \<le> length (txdialbuf c))"
proof (cases "follow p (tone_next t)")
  case None
  let ?c = "c\<lparr>tonep := 0, curtone := None\<rparr>"
  have inv: "play_inv e ?c" using assms(2) by (simp add: play_inv_def tone_pos_ok_def)
  show ?thesis
  proof (cases "dialing c")
    case True
    from do_dtmf_play [OF assms(1) inv refl] obtain c' where
      "do_dtmf e ?c = Some c'" "play_inv e c'" "length (txdialbuf c') \<le> length (txdialbuf c)"
      "curtone c' \<noteq> None \<longrightarrow> length (txdialbuf c') < length (txdialbuf c)"
      by (auto simp: do_dtmf_def)
    with None True show ?thesis by (auto simp: tone_advance_def Let_def of_bool_def)
  next
    case False
    with None inv show ?thesis by (simp add: tone_advance_def)
  qed
next
  case (Some q)
  from follow_alive [OF assms(3,4) Some] have alive: "ptr_alive e q" .
  let ?c = "c\<lparr>tonep := 0, curtone := Some q\<rparr>"
  from with_tone_state_play [of e ?c q] assms(1,2) alive
  obtain c' where c': "with_tone_state e q ?c = Some c'" "play_inv e c'" "txdialbuf c' = txdialbuf c" by auto
  have "play_inv e ?c"
    using ptr_alive_at [OF alive] assms(1,2) alive
    by (fastforce simp: play_inv_def tone_pos_ok_def playable_def)
  moreover have "tone_next t \<noteq> None" using Some by (metis follow.simps(1) option.distinct(1))
  ultimately show ?thesis using c' Some by (auto simp: tone_advance_def Let_def)
qed

definition play_measure :: "int \<Rightarrow> 'a chan_tone_scheme \<Rightarrow> nat" where
  "play_measure bytes c = nat bytes + length (txdialbuf c) + of_bool (curtone c \<noteq> None)"

lemma tone_round_play:
  assumes "playable e" and "play_inv e c" and "curtone c = Some p" and "0 < bytes"
  shows "\<exists>out bytes' c'. tone_round e bytes p c = Some (out, bytes', c') \<and> play_inv e c' \<and>
    0 \<le> bytes' \<and> int (length out) + bytes' = bytes \<and> play_measure bytes' c' < play_measure bytes c"
proof -
  from assms(2,3) obtain t where t: "tone_at e p = Some t" "0 \<le> tonep c" "tonep c = 0 \<or> tonep c < tonesamples t"
    and alive: "ptr_alive e p" "zone_alive e (curzone c)" by (auto simp: play_inv_def tone_pos_ok_def)
  have ends: "0 < tonesamples t \<or> tonesamples t = 0 \<and> tone_next t = None"
    using assms(1) t(1) by (auto simp: playable_def)
  define left where "left = (if tonesamples t - tonep c > bytes then bytes else tonesamples t - tonep c)"
  obtain out s where os: "tone_samples (nat left) (xlaw c) t (ts c) = (out, s)" by fastforce
  then have len: "length out = nat left" using length_tone_samples [of "nat left" "xlaw c" t "ts c"] by simp
  let ?c = "c\<lparr>ts := s, tonep := tonep c + left\<rparr>"
  have left: "0 \<le> left" "left \<le> bytes" using t ends assms(4) by (auto simp: left_def)
  have run: "tone_round e bytes p c = (if tonep ?c \<ge> tonesamples t
      then map_option (\<lambda>c. (out, bytes - left, c)) (tone_advance e p t ?c) else Some (out, bytes - left, ?c))"
    unfolding tone_round_def t(1) option.case Let_def left_def [symmetric] os prod.case ..
  show ?thesis
  proof (cases "tonep ?c \<ge> tonesamples t")
    case False
    then have "left = bytes" by (auto simp: left_def split: if_splits)
    with False run t alive len left assms(3,4) show ?thesis
      by (auto simp: play_inv_def tone_pos_ok_def play_measure_def)
  next
    case True
    from tone_advance_play [of e ?c p t] assms(1) alive t(1) obtain c' where c':
      "tone_advance e p t ?c = Some c'" "play_inv e c'" "length (txdialbuf c') \<le> length (txdialbuf c)"
      "tone_next t = None \<longrightarrow> length (txdialbuf c') + of_bool (curtone c' \<noteq> None) \<le> length (txdialbuf c)"
      by auto
    have "0 < left \<or> tone_next t = None"
      using t(3) ends assms(4) by (auto simp: left_def)
    with c' run len left assms(3,4) True show ?thesis by (auto simp: play_measure_def of_bool_def)
  qed
qed

text \<open>C18. The loop that fills a chunk with tones ends: when no tone of the zones is silent for ever (a
  tone without length is the last of its sequence), a bounded number of rounds - one for each octet,
  each digit still to dial and the tone being played - writes exactly the octets wanted, whatever
  sequence of tones and digits is played, and leaves the channel ready for the next chunk.\<close>

theorem getempty_terminates:
  assumes "playable e" and "play_inv e c" and "0 \<le> bytes" and "play_measure bytes c < fuel"
  shows "\<exists>out c'. getempty fuel e bytes c = Some (out, c') \<and> length out = nat bytes \<and> play_inv e c'"
  using assms(2-4)
proof (induction fuel arbitrary: bytes c)
  case 0
  then show ?case by simp
next
  case (Suc fuel)
  show ?case
  proof (cases "bytes = 0 \<or> curtone c = None")
    case True
    with Suc.prems show ?thesis by auto
  next
    case False
    then obtain p where p: "curtone c = Some p" by blast
    from tone_round_play [OF assms(1) Suc.prems(1) p, of bytes] False Suc.prems(2)
    obtain out b c1 where r: "tone_round e bytes p c = Some (out, b, c1)" "play_inv e c1" "0 \<le> b"
      "int (length out) + b = bytes" "play_measure b c1 < play_measure bytes c" by auto
    with Suc.IH [of c1 b] Suc.prems obtain out' c2 where
      "getempty fuel e b c1 = Some (out', c2)" "length out' = nat b" "play_inv e c2" by auto
    with False p r show ?thesis by auto
  qed
qed

definition dialing_chan :: "tone_ptr option \<Rightarrow> string \<Rightarrow> chan_tone" where
  "dialing_chan p ds = (tone_demo_chan DIGIT_MODE_DTMF)
     \<lparr>curzone := Some 0, curtone := p, txdialbuf := ds, dialing := True\<rparr>"

definition zone_env :: "dahdi_zone \<Rightarrow> tone_env" where
  "zone_env z = no_zones\<lparr>zone_at := [0 \<mapsto> z\<lparr>zone_refcount := 2\<rparr>], zone_fresh := 1, tone_zones := [0]\<rparr>"

definition dtmf_5 :: tone_def where
  "dtmf_5 = \<lparr>td_tone = 69, td_next = 0, td_samples = 0, td_fac1 = 53688, td_init_v2_1 = -9000,
     td_init_v3_1 = -5500, td_fac2 = 32662, td_init_v2_2 = -11000, td_init_v3_2 = -11000, td_modulate = 0\<rparr>"

definition dial_zone :: dahdi_zone where
  "dial_zone = load_dtmf \<lparr>dtmf_tonelen = 3, mfv1_tonelen = 5, mfr2_tonelen = 5\<rparr> 5 dtmf_5 (zeroed_zone 0)"

lemma dial_zone_ok: "zone_ok dial_zone"
  unfolding dial_zone_def by (rule load_others_ok(1) [OF zeroed_zone_ok]) simp

lemma dial_zone_tones:
  assumes "slot_tone dial_zone s = Some t"
  shows "0 < tonesamples t \<or> tonesamples t = 0 \<and> tone_next t = None"
  using assms by (cases s) (auto simp: dial_zone_def load_dtmf_def zeroed_zone_def empty_tone_def Let_def
    nth_list_update bind_eq_Some_conv split: if_splits)

lemma dial_env_playable: "playable (zone_env dial_zone)"
  unfolding playable_def
proof (intro allI impI)
  fix p t assume t: "tone_at (zone_env dial_zone) p = Some t"
  show "0 < tonesamples t \<or> tonesamples t = 0 \<and> tone_next t = None"
  proof (cases p)
    case (Static_tone s)
    with t show ?thesis by (cases s) (auto simp: zone_env_def no_zones_def empty_tone_def)
  next
    case (Zone_tone zid s)
    with t dial_zone_tones show ?thesis by (auto simp: zone_env_def no_zones_def split: if_splits)
  qed
qed

theorem getempty_terminates_witness:
  "\<exists>out c'. getempty 12 (zone_env dial_zone) 8 (dialing_chan (Some (Zone_tone 0 (Slot_dtmf 5))) ''5W'') = Some (out, c') \<and>
    length out = 8"
proof -
  let ?c = "dialing_chan (Some (Zone_tone 0 (Slot_dtmf 5))) ''5W''"
  have "slot_ok dial_zone (Slot_dtmf 5)"
    using slot_ok_shape [of dial_zone] dial_zone_ok by (simp add: zone_ok_def)
  then have "play_inv (zone_env dial_zone) ?c"
    using dial_zone_ok by (auto simp: play_inv_def zone_alive_def tone_pos_ok_def ptr_alive_def dialing_chan_def
      zone_env_def no_zones_def tone_demo_chan_def chan_rbs.extend_def slot_ok_def)
  with getempty_terminates [OF dial_env_playable, of ?c 8 12] show ?thesis
    by (fastforce simp: play_measure_def dialing_chan_def)
qed

section \<open>Behaviour worth knowing about tones\<close>

text \<open>
  The loader accepts a regular tone of no length that follows itself; playing it never ends, however
  much fuel the loop gets.
\<close>

lemma zero_length_cycle_never_ends:
  assumes "tone_at e p = Some t" and "tonesamples t = 0" and "follow p (tone_next t) = Some p"
  shows "curtone c = Some p \<Longrightarrow> tonep c = 0 \<Longrightarrow> 0 < bytes \<Longrightarrow> getempty fuel e bytes c = None"
proof (induction fuel arbitrary: c)
  case (Suc fuel)
  have "tone_round e bytes p c = Some ([], bytes, c)"
    using assms Suc.prems by (simp add: tone_round_def tone_advance_def Let_def)
  with Suc show ?case by simp
qed simp

lemma zero_length_cycle_loads:
  "load_tones g 1 0 [Some (dtmf_5\<lparr>td_tone := 0\<rparr>)] (zeroed_zone 1) [] = Inr (z, ns) \<Longrightarrow>
   slot_tone (link_regular ns z) (Slot_regular 0) = Some t \<Longrightarrow>
   tonesamples t = 0 \<and> tone_next t = Some (Link_slot (Slot_regular 0))"
  by (auto simp: load_tone_def load_regular_def link_regular_def dtmf_5_def def_tone_def empty_tone_def
      zeroed_zone_def short_def nth_opt_def Let_def)

text \<open>
  When the dial parameters shorten a tone below the position already played, the number of octets
  wanted grows: the loop writes more than the chunk it was given.
\<close>

lemma shortened_tone_overruns_chunk:
  assumes "tone_at e p = Some t" and "0 < tonesamples t" and "tonesamples t < tonep c"
    and "tone_next t = None" and "\<not> dialing c" and "curtone c = Some p"
  shows "\<exists>out c'. getempty 2 e 8 c = Some (out, c') \<and> int (length out) = 8 + (tonep c - tonesamples t)"
proof -
  have "tone_round e 8 p c = Some ([], 8 - (tonesamples t - tonep c), c\<lparr>tonep := 0, curtone := None\<rparr>)"
    using assms by (simp add: tone_round_def tone_advance_def Let_def)
  with assms show ?thesis by (simp add: numeral_2_eq_2)
qed

section \<open>Pulse dialling\<close>

text \<open>The call to the driver that puts the line on hook (0) or off hook (1).\<close>

definition hook_call :: "int \<Rightarrow> 'a chan_rbs_scheme \<Rightarrow> drv_call" where
  "hook_call h c = (if chan_op op_hooksig c \<noteq> None then Drv_hooksig h
     else Drv_rbsbits (the (map_of outs (sig c)) ! nat h))"

text \<open>A channel whose board takes hook states, either itself or as signalling bits.\<close>

definition rbs_ready :: "'a chan_rbs_scheme \<Rightarrow> bool" where
  "rbs_ready c \<longleftrightarrow> (case chan_span c of None \<Rightarrow> False
     | Some s \<Rightarrow> FLAG_RBS \<in> span_flags s \<and> sig c \<noteq> SIG_DACS_RBS \<and> sig c \<noteq> SIG_SF \<and>
         (op_hooksig (span_operations s) \<noteq> None \<or>
          op_rbsbits (span_operations s) \<noteq> None \<and> map_of outs (sig c) \<noteq> None))"

definition rbs_same :: "'a chan_rbs_scheme \<Rightarrow> 'a chan_rbs_scheme \<Rightarrow> bool" where
  "rbs_same c0 c \<longleftrightarrow> chan_span c = chan_span c0 \<and> sig c = sig c0 \<and> (ev_inv c0 \<longrightarrow> ev_inv c) \<and> pending c = pending c0"

lemma rbs_same_ready: "rbs_same c0 c \<Longrightarrow> rbs_ready c = rbs_ready c0"
  by (auto simp: rbs_same_def rbs_ready_def split: option.splits)

lemma rbs_same_call: "rbs_same c0 c \<Longrightarrow> hook_call h c = hook_call h c0"
  by (simp add: rbs_same_def hook_call_def chan_op_def)

lemma pending_eq: "eventbuf c = eventbuf c' \<Longrightarrow> eventinidx c = eventinidx c' \<Longrightarrow> eventoutidx c = eventoutidx c' \<Longrightarrow>
    pending c = pending c' \<and> ev_inv c = ev_inv c'"
  by (simp add: pending_def ev_inv_def)

lemma sethook_driver_events [simp]:
  "eventbuf (rbs_sethook h st t c) = eventbuf c" "eventinidx (rbs_sethook h st t c) = eventinidx c"
  "eventoutidx (rbs_sethook h st t c) = eventoutidx c"
  "chan_span (rbs_sethook h st t c) = chan_span c" "sig (rbs_sethook h st t c) = sig c"
  "chan_flags (rbs_sethook h st t c) = chan_flags c"
  "pulsebreaktime (rbs_sethook h st t c) = pulsebreaktime c" "pulsemaketime (rbs_sethook h st t c) = pulsemaketime c"
  "pulseaftertime (rbs_sethook h st t c) = pulseaftertime c"
  "gotgs (rbs_sethook h st t c) = gotgs c" "kewlonhook (rbs_sethook h st t c) = kewlonhook c"
  "itimer (rbs_sethook h st t c) = itimer c" "itimerset (rbs_sethook h st t c) = itimerset c"
  "rxhooksig (rbs_sethook h st t c) = rxhooksig c" "rxflashtime (rbs_sethook h st t c) = rxflashtime c"
  by (auto simp: rbs_sethook_def sethook_sf_def sethook_driver_def set_txtone_def Let_def split: option.splits)

lemma sethook_ready:
  assumes "rbs_ready c" and "h = 0 \<or> h = 1" and "txhooksig c \<noteq> h"
  shows "txstate (rbs_sethook h st t c) = st" and "txhooksig (rbs_sethook h st t c) = h"
    and "otimer (rbs_sethook h st t c) = i32 (t * 8)"
    and "drv_calls (rbs_sethook h st t c) = drv_calls c @ [hook_call h c]"
    and "rbs_same c (rbs_sethook h st t c)"
proof -
  obtain s where s: "chan_span c = Some s" "FLAG_RBS \<in> span_flags s" "sig c \<noteq> SIG_DACS_RBS" "sig c \<noteq> SIG_SF"
    "op_hooksig (span_operations s) \<noteq> None \<or>
     op_rbsbits (span_operations s) \<noteq> None \<and> map_of outs (sig c) \<noteq> None"
    using assms(1) by (auto simp: rbs_ready_def split: option.splits)
  have eq: "rbs_sethook h st t c = sethook_driver h t (c\<lparr>txstate := st\<rparr>)"
    using s assms(2) by (auto simp: rbs_sethook_def)
  show "txstate (rbs_sethook h st t c) = st" "txhooksig (rbs_sethook h st t c) = h"
    "otimer (rbs_sethook h st t c) = i32 (t * 8)"
    "drv_calls (rbs_sethook h st t c) = drv_calls c @ [hook_call h c]"
    unfolding eq using s assms(3) by (auto simp: sethook_driver_def chan_op_def hook_call_def Let_def split: option.splits)
  show "rbs_same c (rbs_sethook h st t c)"
    using pending_eq [of "rbs_sethook h st t c" c] by (simp add: rbs_same_def)
qed

text \<open>The chunks that are sent, as far as the timer of the line goes.\<close>

fun otimer_chunks :: "nat \<Rightarrow> bool \<Rightarrow> tone_env \<Rightarrow> 'a chan_tone_scheme \<Rightarrow> 'a chan_tone_scheme option" where
  "otimer_chunks 0 nb e c = Some c"
| "otimer_chunks (Suc n) nb e c = Option.bind (transmit_otimer nb e c) (otimer_chunks n nb e)"

lemma otimer_chunks_add: "otimer_chunks (m + n) nb e c = Option.bind (otimer_chunks m nb e c) (otimer_chunks n nb e)"
  by (induction m arbitrary: c) (auto split: bind_split)

lemma otimer_runs: "otimer c = 8 * int t \<Longrightarrow> k < t \<Longrightarrow> otimer_chunks k nb e c = Some (c\<lparr>otimer := 8 * int (t - k)\<rparr>)"
proof (induction k arbitrary: c t)
  case 0
  then show ?case by simp
next
  case (Suc k)
  then obtain u where u: "t = Suc u" by (cases t) auto
  with Suc.prems have "transmit_otimer nb e c = Some (c\<lparr>otimer := 8 * int u\<rparr>)" by (simp add: transmit_otimer_def Let_def)
  with Suc.IH [of "c\<lparr>otimer := 8 * int u\<rparr>" u] Suc.prems u show ?case by simp
qed

lemma otimer_expires: "otimer c = 8 * int t \<Longrightarrow> 0 < t \<Longrightarrow> otimer_chunks t nb e c = rbs_otimer_expire nb e (c\<lparr>otimer := 0\<rparr>)"
proof -
  assume t: "otimer c = 8 * int t" "0 < t"
  have "otimer_chunks (t - 1 + 1) nb e c = Option.bind (otimer_chunks (t - 1) nb e c) (otimer_chunks 1 nb e)" by (rule otimer_chunks_add)
  also have "\<dots> = transmit_otimer nb e (c\<lparr>otimer := 8\<rparr>)"
    using otimer_runs [OF t(1), of "t - 1" nb e] t(2) by (cases "transmit_otimer nb e (c\<lparr>otimer := 8\<rparr>)") simp_all
  also have "\<dots> = rbs_otimer_expire nb e (c\<lparr>otimer := 0\<rparr>)" by (simp add: transmit_otimer_def)
  finally show ?thesis using t(2) by simp
qed

lemma otimer_idle: "otimer c = 0 \<Longrightarrow> otimer_chunks k nb e c = Some c"
  by (induction k) (simp_all add: transmit_otimer_def)

lemma i32_chunks: "0 \<le> t \<Longrightarrow> t < 2 ^ 28 \<Longrightarrow> i32 (t * 8) = 8 * t"
  by (simp add: i32_def)

abbreviation (input) pulses :: "nat \<Rightarrow> 'a chan_rbs_scheme \<Rightarrow> drv_call list" where
  "pulses n c \<equiv> concat (replicate n [hook_call 0 c, hook_call 1 c])"

text \<open>The line between two timer expiries while a digit is sent: \<open>n\<close> pulses are still to finish.\<close>

definition dial_break :: "nat \<Rightarrow> string \<Rightarrow> 'a chan_tone_scheme \<Rightarrow> drv_call list \<Rightarrow> 'a chan_tone_scheme \<Rightarrow> bool" where
  "dial_break n ds c0 calls c \<longleftrightarrow> rbs_same (c0\<lparr>otimer := 0\<rparr>) c \<and> txstate c = TXSTATE_PULSEBREAK \<and> txhooksig c = 0 \<and>
     pdialcount c = int n \<and> txdialbuf c = ds \<and> digitmode c = DIGIT_MODE_PULSE \<and> drv_calls c = calls @ [hook_call 0 c0]"

lemma rbs_same_trans: "rbs_same a b \<Longrightarrow> rbs_same b c \<Longrightarrow> rbs_same a c"
  by (simp add: rbs_same_def)

lemma rbs_same_rec [simp]:
  "rbs_same (c0\<lparr>otimer := x\<rparr>) c = rbs_same c0 c" "rbs_same c0 (c\<lparr>otimer := x\<rparr>) = rbs_same c0 c"
  "rbs_same c0 (c\<lparr>txstate := s\<rparr>) = rbs_same c0 c"
  by (simp_all add: rbs_same_def)

lemma rbs_same_tone [simp]:
  "rbs_same c0 (c\<lparr>pdialcount := n\<rparr>) = rbs_same c0 (c :: 'a chan_tone_scheme)"
  "rbs_same c0 (c\<lparr>txdialbuf := ds\<rparr>) = rbs_same c0 c"
  by (simp_all add: rbs_same_def pending_def ev_inv_def)

text \<open>
  The line shows the hook states \<open>w\<close>, one for each chunk that is sent, without any event, and the channel is \<open>d\<close> after them.
\<close>

definition shows_wave :: "bool \<Rightarrow> tone_env \<Rightarrow> int list \<Rightarrow> 'a chan_tone_scheme \<Rightarrow> 'a chan_tone_scheme \<Rightarrow> bool" where
  "shows_wave nb e w c d \<longleftrightarrow> otimer_chunks (length w) nb e c = Some d \<and>
     (\<forall>k < length w. \<exists>x. otimer_chunks k nb e c = Some x \<and> txhooksig x = w ! k \<and> pending x = pending c)"

lemma shows_wave_Nil [simp]: "shows_wave nb e [] c c"
  by (simp add: shows_wave_def)

lemma shows_wave_append:
  assumes "shows_wave nb e v b c" and "shows_wave nb e w c d" and "pending c = pending b"
  shows "shows_wave nb e (v @ w) b d"
proof -
  have "\<exists>x. otimer_chunks k nb e b = Some x \<and> txhooksig x = (v @ w) ! k \<and> pending x = pending b" if "k < length (v @ w)" for k
  proof (cases "k < length v")
    case True
    with assms(1) show ?thesis by (simp add: shows_wave_def nth_append)
  next
    case False
    then obtain j where j: "k = length v + j" by (metis le_Suc_ex not_less)
    with that have "j < length w" by simp
    with assms j show ?thesis by (auto simp: shows_wave_def otimer_chunks_add nth_append)
  qed
  moreover have "otimer_chunks (length (v @ w)) nb e b = Some d" using assms by (simp add: shows_wave_def otimer_chunks_add)
  ultimately show ?thesis by (simp add: shows_wave_def)
qed

lemma shows_wave_timer:
  assumes "otimer c = 8 * int t" and "0 < t" and "rbs_otimer_expire nb e c = Some d"
  shows "shows_wave nb e (replicate t (txhooksig c)) c d"
proof -
  have "rbs_otimer_expire nb e (c\<lparr>otimer := 0\<rparr>) = Some d" using assms(3) by (simp add: rbs_otimer_expire_def Let_def)
  then have "otimer_chunks t nb e c = Some d" using otimer_expires [OF assms(1,2)] by simp
  moreover have "\<exists>x. otimer_chunks k nb e c = Some x \<and> txhooksig x = txhooksig c \<and> pending x = pending c" if "k < t" for k
    using otimer_runs [OF assms(1) that, of nb e] by (simp add: pending_def)
  ultimately show ?thesis by (simp add: shows_wave_def)
qed

text \<open>The times of a pulse, in chunks.\<close>

definition pulse_times :: "nat \<Rightarrow> nat \<Rightarrow> nat \<Rightarrow> 'a chan_rbs_scheme \<Rightarrow> bool" where
  "pulse_times B M A c \<longleftrightarrow> pulsebreaktime c = int B \<and> pulsemaketime c = int M \<and> pulseaftertime c = int A \<and>
     0 < B \<and> 0 < M \<and> 0 < A \<and> B < 2 ^ 28 \<and> M < 2 ^ 28 \<and> A < 2 ^ 28"

lemma pulse_times_rec [simp]:
  "pulse_times B M A (rbs_sethook h st t c) = pulse_times B M A c" "pulse_times B M A (c\<lparr>otimer := x\<rparr>) = pulse_times B M A c"
  "pulse_times B M A (c\<lparr>txstate := s\<rparr>) = pulse_times B M A c"
  by (simp_all add: pulse_times_def)

lemma pulse_times_tone [simp]:
  "pulse_times B M A (c\<lparr>pdialcount := n\<rparr>) = pulse_times B M A (c :: 'a chan_tone_scheme)"
  "pulse_times B M A (c\<lparr>txdialbuf := ds\<rparr>) = pulse_times B M A c"
  by (simp_all add: pulse_times_def)

lemma i32_time: "t < 2 ^ 28 \<Longrightarrow> i32 (int t * 8) = 8 * int t"
  by (simp add: i32_def)

text \<open>One pulse: the break, the make, and then the next break or the pause after the digit.\<close>

lemma one_pulse:
  assumes "rbs_ready c0" and "dial_break (Suc n) ds c0 calls c" and t: "pulse_times B M A c" and o: "otimer c = 8 * int B"
  shows "\<exists>d. shows_wave nb e (replicate B 0 @ replicate M 1) c d \<and> pulse_times B M A d \<and> pending d = pending c \<and>
    (if n = 0 then rbs_same c0 d \<and> txstate d = TXSTATE_PULSEAFTER \<and> txhooksig d = 1 \<and> txdialbuf d = ds \<and> digitmode d = DIGIT_MODE_PULSE \<and>
       drv_calls d = calls @ [hook_call 0 c0, hook_call 1 c0] \<and> otimer d = 8 * int A
     else dial_break n ds c0 (calls @ [hook_call 0 c0, hook_call 1 c0]) d \<and> otimer d = 8 * int B)"
proof -
  let ?c = "c\<lparr>otimer := 0\<rparr>"
  let ?m = "rbs_sethook TXSIG_OFFHOOK TXSTATE_PULSEMAKE (pulsemaketime c) ?c"
  from assms(2) have same: "rbs_same c0 ?c" and c: "txstate c = TXSTATE_PULSEBREAK" "txhooksig c = 0"
    "pdialcount c = int n + 1" "txdialbuf c = ds" "digitmode c = DIGIT_MODE_PULSE" "drv_calls c = calls @ [hook_call 0 c0]"
    by (auto simp: dial_break_def)
  from t have T: "pulsebreaktime c = int B" "pulsemaketime c = int M" "pulseaftertime c = int A" "0 < B" "0 < M" "B < 2 ^ 28" "M < 2 ^ 28" "A < 2 ^ 28"
    by (simp_all add: pulse_times_def)
  have step1: "rbs_otimer_expire nb e c = Some ?m" using c by (simp add: rbs_otimer_expire_def Let_def)
  note m = sethook_ready [of ?c 1 TXSTATE_PULSEMAKE "pulsemaketime c"]
  have m1: "txstate ?m = TXSTATE_PULSEMAKE" "txhooksig ?m = 1" "drv_calls ?m = calls @ [hook_call 0 c0, hook_call 1 c0]"
    "rbs_same c0 ?m" "otimer ?m = 8 * int M" using m assms(1) c same rbs_same_ready [OF same] rbs_same_call [OF same] rbs_same_trans [OF same] T(2,7)
    by (auto simp: i32_time)
  have w1: "shows_wave nb e (replicate B 0) c ?m" using shows_wave_timer [OF o T(4) step1] c(2) by simp
  let ?p = "?m\<lparr>otimer := 0, pdialcount := int n\<rparr>"
  let ?d = "otimer_pulsemake (?m\<lparr>otimer := 0\<rparr>)"
  have step2: "rbs_otimer_expire nb e ?m = Some ?d" using m1 by (simp add: rbs_otimer_expire_def Let_def)
  have pm: "pending ?m = pending c" by (simp add: pending_def)
  have w: "shows_wave nb e (replicate B 0 @ replicate M 1) c ?d"
    using shows_wave_append [OF w1 shows_wave_timer [OF m1(5) T(5) step2, unfolded m1(2)] pm] .
  have same2: "rbs_same c0 ?p" using m1(4) by (simp add: rbs_same_def pending_def ev_inv_def)
  show ?thesis
  proof (cases "n = 0")
    case True
    have d: "?d = ?p\<lparr>txstate := TXSTATE_PULSEAFTER, otimer := i32 (pulseaftertime ?p * int DAHDI_CHUNKSIZE)\<rparr>"
      using c True by (simp add: otimer_pulsemake_def)
    have "pulse_times B M A ?d" "pending ?d = pending c" unfolding d using t by (simp_all add: pending_def)
    moreover have "otimer ?d = 8 * int A" unfolding d using T(3,8) by (simp add: i32_time)
    moreover have "rbs_same c0 ?d \<and> txstate ?d = TXSTATE_PULSEAFTER \<and> txhooksig ?d = 1 \<and> txdialbuf ?d = ds \<and> digitmode ?d = DIGIT_MODE_PULSE \<and>
       drv_calls ?d = calls @ [hook_call 0 c0, hook_call 1 c0]" unfolding d using same2 m1 c True by simp
    ultimately show ?thesis using w True by (intro exI [of _ ?d]) simp
  next
    case False
    have d: "?d = rbs_sethook TXSIG_ONHOOK TXSTATE_PULSEBREAK (pulsebreaktime ?p) ?p"
      using c False by (simp add: otimer_pulsemake_def Let_def)
    note b = sethook_ready [of ?p 0 TXSTATE_PULSEBREAK "pulsebreaktime ?p"]
    have "dial_break n ds c0 (calls @ [hook_call 0 c0, hook_call 1 c0]) ?d" unfolding d
      using b assms(1) m1 c rbs_same_ready [OF same2] rbs_same_call [OF same2] rbs_same_trans [OF same2]
      by (auto simp: dial_break_def)
    moreover have "otimer ?d = 8 * int B" unfolding d
      using b(3) m1(2) assms(1) rbs_same_ready [OF same2] T(1,6) by (simp add: i32_time)
    moreover have "pulse_times B M A ?d" "pending ?d = pending c" unfolding d using t by (simp_all add: pending_def)
    ultimately show ?thesis using w False by (intro exI [of _ ?d]) simp
  qed
qed

definition pulse_wave :: "nat \<Rightarrow> nat \<Rightarrow> nat \<Rightarrow> int list" where
  "pulse_wave B M n = concat (replicate n (replicate B 0 @ replicate M 1))"

lemma all_pulses:
  "rbs_ready c0 \<Longrightarrow> dial_break (Suc n) ds c0 calls c \<Longrightarrow> pulse_times B M A c \<Longrightarrow> otimer c = 8 * int B \<Longrightarrow>
   \<exists>d. shows_wave nb e (pulse_wave B M (Suc n)) c d \<and> pulse_times B M A d \<and> pending d = pending c \<and>
     rbs_same c0 d \<and> txstate d = TXSTATE_PULSEAFTER \<and> txhooksig d = 1 \<and> txdialbuf d = ds \<and> digitmode d = DIGIT_MODE_PULSE \<and>
     drv_calls d = calls @ pulses (Suc n) c0 \<and> otimer d = 8 * int A"
proof (induction n arbitrary: c calls)
  case 0
  from one_pulse [OF "0.prems", of nb e] show ?case by (auto simp: pulse_wave_def)
next
  case (Suc n)
  from one_pulse [OF Suc.prems, of nb e] obtain c1 where c1: "shows_wave nb e (replicate B 0 @ replicate M 1) c c1" "pulse_times B M A c1"
    "pending c1 = pending c" "dial_break (Suc n) ds c0 (calls @ [hook_call 0 c0, hook_call 1 c0]) c1" "otimer c1 = 8 * int B" by auto
  from Suc.IH [OF Suc.prems(1) c1(4,2,5)] obtain d where d: "shows_wave nb e (pulse_wave B M (Suc n)) c1 d" "pulse_times B M A d" "pending d = pending c1"
    "rbs_same c0 d" "txstate d = TXSTATE_PULSEAFTER" "txhooksig d = 1" "txdialbuf d = ds" "digitmode d = DIGIT_MODE_PULSE"
    "drv_calls d = (calls @ [hook_call 0 c0, hook_call 1 c0]) @ pulses (Suc n) c0" "otimer d = 8 * int A" by auto
  have "shows_wave nb e (pulse_wave B M (Suc (Suc n))) c d"
    using shows_wave_append [OF c1(1) d(1) c1(3)] by (simp add: pulse_wave_def)
  with d c1(3) show ?case by (intro exI [of _ d]) simp
qed

lemma pulse_count_range: "digit_in CHR ''0'' CHR ''9'' d \<Longrightarrow> 1 \<le> pulse_count d \<and> pulse_count d \<le> 10"
  by (auto simp: digit_in_09 pulse_count_def)

text \<open>The pulses of a digit: as many as it says, and ten for zero.\<close>

definition digit_pulses :: "char \<Rightarrow> nat" where
  "digit_pulses d = (if d = CHR ''0'' then 10 else of_char d - 48)"

lemma pulse_count_digit: "d \<in> set ''0123456789'' \<Longrightarrow> pulse_count d = int (digit_pulses d) \<and> 0 < digit_pulses d"
  by (auto simp: pulse_count_def digit_pulses_def)

text \<open>Starting one digit.\<close>

lemma start_pulses:
  assumes "rbs_ready c" and "txhooksig c = 1" and "digitmode c = DIGIT_MODE_PULSE" and "txdialbuf c = d # ds" and "d \<in> set ''0123456789''"
    and "pulse_times B M A c"
  shows "\<exists>c'. do_dtmf e c = Some c' \<and> dial_break (digit_pulses d) ds c (drv_calls c) c' \<and> pulse_times B M A c' \<and> otimer c' = 8 * int B \<and>
    pending c' = pending c"
proof -
  let ?c = "c\<lparr>txdialbuf := ds, pdialcount := pulse_count d\<rparr>"
  let ?d = "rbs_sethook TXSIG_ONHOOK TXSTATE_PULSEBREAK (pulsebreaktime ?c) ?c"
  have dig: "digit_in CHR ''0'' CHR ''9'' d" using assms(5) by (simp add: digit_in_09)
  have mode: "dial_mode d = None" "d \<noteq> CHR ''W''"
    using dig by (auto simp: digit_in_09 dial_mode_def)
  have eq: "do_dtmf e c = Some ?d" using assms(1-4) dig mode by (simp add: do_dtmf_def Let_def)
  have same: "rbs_same c ?c" by (simp add: rbs_same_def pending_def ev_inv_def)
  note b = sethook_ready [of ?c 0 TXSTATE_PULSEBREAK "pulsebreaktime ?c"]
  have "dial_break (digit_pulses d) ds c (drv_calls c) ?d"
    using b assms(1-4) rbs_same_ready [OF same] rbs_same_call [OF same] rbs_same_trans [OF same] pulse_count_digit [OF assms(5)]
    by (auto simp: dial_break_def)
  moreover have "otimer ?d = 8 * int B"
    using b(3) assms(1,2,6) rbs_same_ready [OF same] by (simp add: pulse_times_def i32_time)
  moreover have "pulse_times B M A ?d" "pending ?d = pending c" using assms(6) by (simp_all add: pending_def)
  ultimately show ?thesis using eq by (intro exI [of _ ?d]) simp
qed

text \<open>The hook states for a string of digits: each pulse is a break and a make, and a digit ends with a pause off hook.\<close>

definition dial_wave :: "nat \<Rightarrow> nat \<Rightarrow> nat \<Rightarrow> string \<Rightarrow> int list" where
  "dial_wave B M A ds = concat (map (\<lambda>d. pulse_wave B M (digit_pulses d) @ replicate A 1) ds)"

text \<open>C19. Pulse dialling runs to completion: on an idle line that is off hook, a string of digits makes the
  channel put the line on hook and off hook once for every pulse of every digit (ten for zero), in
  the order of the digits, each break, make and pause between digits lasting exactly as many chunks as
  is configured; with the last pause it reports, and not before, that dialling is
  complete, and the line stays off hook.\<close>

theorem pulse_dialing_completes:
  assumes "rbs_ready c" and "txhooksig c = TXSIG_OFFHOOK" and "digitmode c = DIGIT_MODE_PULSE" and "otimer c = 0"
    and "txdialbuf c = ds" and "\<forall>d \<in> set ds. d \<in> set ''0123456789''"
    and "ev_inv c" and "length (pending c) < 63" and "pulse_times B M A c"
  shows "\<exists>c1 c2. do_dtmf e c = Some c1 \<and>
    (\<forall>k < length (dial_wave B M A ds). \<exists>x. otimer_chunks k nonblock e c1 = Some x \<and> txhooksig x = dial_wave B M A ds ! k \<and> pending x = pending c) \<and>
    (\<forall>k \<ge> length (dial_wave B M A ds). otimer_chunks k nonblock e c1 = Some c2) \<and>
    drv_calls c2 = drv_calls c @ concat (map (\<lambda>d. pulses (digit_pulses d) c) ds) \<and>
    pending c2 = pending c @ [EVENT_DIALCOMPLETE] \<and> \<not> dialing c2 \<and> txdialbuf c2 = [] \<and> txhooksig c2 = TXSIG_OFFHOOK"
proof -
  have "\<exists>c1 c2. do_dtmf e c = Some c1 \<and> shows_wave nonblock e (dial_wave B M A ds) c1 c2 \<and> (ds \<noteq> [] \<longrightarrow> pending c1 = pending c) \<and>
      drv_calls c2 = drv_calls c @ concat (map (\<lambda>d. pulses (digit_pulses d) c) ds) \<and>
      pending c2 = pending c @ [EVENT_DIALCOMPLETE] \<and> \<not> dialing c2 \<and> txdialbuf c2 = [] \<and> txhooksig c2 = 1 \<and> otimer c2 = 0"
    using assms
  proof (induction ds arbitrary: c)
    case Nil
    have "do_dtmf e c = Some (qevent (c\<lparr>dialing := False\<rparr>) EVENT_DIALCOMPLETE)" using Nil by (simp add: do_dtmf_def)
    moreover have "pending (c\<lparr>dialing := False\<rparr>) = pending c" "ev_inv (c\<lparr>dialing := False\<rparr>)"
      using Nil by (simp_all add: pending_def ev_inv_def)
    moreover have "txhooksig (qevent (c\<lparr>dialing := False\<rparr>) 9) = txhooksig c" "otimer (qevent (c\<lparr>dialing := False\<rparr>) 9) = otimer c"
      "drv_calls (qevent (c\<lparr>dialing := False\<rparr>) 9) = drv_calls c" "txdialbuf (qevent (c\<lparr>dialing := False\<rparr>) 9) = txdialbuf c"
      "\<not> dialing (qevent (c\<lparr>dialing := False\<rparr>) 9)"
      by (simp_all add: qevent_def Let_def)
    ultimately show ?case using Nil qevent_pending [of "c\<lparr>dialing := False\<rparr>" EVENT_DIALCOMPLETE]
      by (intro exI [of _ "qevent (c\<lparr>dialing := False\<rparr>) 9"]) (simp add: dial_wave_def)
  next
    case (Cons d ds)
    have d: "d \<in> set ''0123456789''" using Cons.prems(6) by simp
    let ?n = "digit_pulses d"
    from pulse_count_digit [OF d] have n: "?n = Suc (?n - 1)" by simp
    from start_pulses [OF Cons.prems(1-3,5) d Cons.prems(9), of e] obtain c1 where c1: "do_dtmf e c = Some c1"
      "dial_break ?n ds c (drv_calls c) c1" "pulse_times B M A c1" "otimer c1 = 8 * int B" "pending c1 = pending c" by blast
    from all_pulses [OF Cons.prems(1) _ c1(3,4), of "?n - 1" ds "drv_calls c" nonblock e] c1(2) n
    obtain c2 where c2: "shows_wave nonblock e (pulse_wave B M ?n) c1 c2" "pulse_times B M A c2" "pending c2 = pending c1" "rbs_same c c2"
      "txstate c2 = TXSTATE_PULSEAFTER" "txhooksig c2 = 1" "txdialbuf c2 = ds" "digitmode c2 = DIGIT_MODE_PULSE"
      "drv_calls c2 = drv_calls c @ pulses ?n c" "otimer c2 = 8 * int A" by metis
    let ?c = "c2\<lparr>otimer := 0, txstate := TXSTATE_OFFHOOK\<rparr>"
    have same: "rbs_same c ?c" using c2(4) by (simp add: rbs_same_def)
    have "rbs_ready ?c" using Cons.prems(1) rbs_same_ready [OF same] by simp
    moreover have "ev_inv ?c" "length (pending ?c) < 63"
      using same Cons.prems(7,8) by (simp_all add: rbs_same_def)
    ultimately obtain c3 c4 where c4: "do_dtmf e ?c = Some c3" "shows_wave nonblock e (dial_wave B M A ds) c3 c4" "ds \<noteq> [] \<longrightarrow> pending c3 = pending ?c"
      "drv_calls c4 = drv_calls ?c @ concat (map (\<lambda>d. pulses (digit_pulses d) ?c) ds)"
      "pending c4 = pending ?c @ [EVENT_DIALCOMPLETE]" "\<not> dialing c4" "txdialbuf c4 = []" "txhooksig c4 = 1" "otimer c4 = 0"
      using Cons.IH [of ?c] c2 Cons.prems(6) by auto
    have after: "rbs_otimer_expire nonblock e c2 = Some c3"
      using c2(5) c4(1) by (simp add: rbs_otimer_expire_def Let_def)
    have A: "0 < A" using Cons.prems(9) by (simp add: pulse_times_def)
    have p2: "pending ?c = pending c" using same by (simp add: rbs_same_def)
    have wA: "shows_wave nonblock e (replicate A 1) c2 c3" using shows_wave_timer [OF c2(10) A after] c2(6) by simp
    have "shows_wave nonblock e (replicate A 1 @ dial_wave B M A ds) c2 c4"
    proof (cases "ds = []")
      case True
      then have "c4 = c3" using c4(2) by (simp add: dial_wave_def shows_wave_def)
      with True wA show ?thesis by (simp add: dial_wave_def)
    next
      case False
      with c4(3) p2 c2(3) c1(5) have "pending c3 = pending c2" by simp
      from shows_wave_append [OF wA c4(2) this] show ?thesis .
    qed
    from shows_wave_append [OF c2(1) this c2(3)]
    have "shows_wave nonblock e (dial_wave B M A (d # ds)) c1 c4" by (simp add: dial_wave_def)
    moreover have "hook_call h ?c = hook_call h c" for h using rbs_same_call [OF same] .
    ultimately show ?case using c1(1,5) c4 c2(9) p2 by (intro exI [of _ c1] exI [of _ c4]) simp
  qed
  then obtain c1 c2 where r: "do_dtmf e c = Some c1" "shows_wave nonblock e (dial_wave B M A ds) c1 c2" "ds \<noteq> [] \<longrightarrow> pending c1 = pending c"
    "drv_calls c2 = drv_calls c @ concat (map (\<lambda>d. pulses (digit_pulses d) c) ds)"
    "pending c2 = pending c @ [EVENT_DIALCOMPLETE]" "\<not> dialing c2" "txdialbuf c2 = []" "txhooksig c2 = 1" "otimer c2 = 0" by blast
  have e: "otimer_chunks (length (dial_wave B M A ds)) nonblock e c1 = Some c2"
    and w: "\<And>k. k < length (dial_wave B M A ds) \<Longrightarrow> \<exists>x. otimer_chunks k nonblock e c1 = Some x \<and> txhooksig x = dial_wave B M A ds ! k \<and> pending x = pending c1"
    by (rule r(2) [unfolded shows_wave_def, THEN conjunct1], rule r(2) [unfolded shows_wave_def, THEN conjunct2, rule_format])
  have "otimer_chunks k nonblock e c1 = Some c2" if l: "length (dial_wave B M A ds) \<le> k" for k
  proof -
    obtain j where j: "k = length (dial_wave B M A ds) + j" using le_Suc_ex [OF l] by auto
    show ?thesis unfolding j otimer_chunks_add e bind.bind_lunit by (rule otimer_idle [OF r(9)])
  qed
  have "ds \<noteq> []" if "k < length (dial_wave B M A ds)" for k using that by (auto simp: dial_wave_def)
  then have "\<exists>x. otimer_chunks k nonblock e c1 = Some x \<and> txhooksig x = dial_wave B M A ds ! k \<and> pending x = pending c"
    if "k < length (dial_wave B M A ds)" for k using w [OF that] r(3) that by metis
  with r \<open>\<And>k. length (dial_wave B M A ds) \<le> k \<Longrightarrow> otimer_chunks k nonblock e c1 = Some c2\<close> show ?thesis
    by (intro exI [of _ c1] exI [of _ c2]) simp
qed

definition hook_span :: dahdi_span where
  "hook_span = \<lparr>spanno = 1, span_flags = {FLAG_RBS, FLAG_REGISTERED}, span_deflaw = 0, span_alarms = 0,
     span_operations = \<lparr>op_rbsbits = None, op_hooksig = Some (\<lambda>_. 0), op_sethook = None, op_open = None,
       op_close = None, op_chanconfig = None, op_dacs = None, op_enable_hw_preechocan = None,
       op_disable_hw_preechocan = False, op_hdlc_hard_xmit = False\<rparr>\<rparr>"

definition pulse_chan :: "string \<Rightarrow> chan_tone" where
  "pulse_chan ds = (tone_demo_chan DIGIT_MODE_PULSE)
     \<lparr>chan_span := Some hook_span, txdialbuf := ds, dialing := True\<rparr>"

lemma pulse_chan_facts:
  "rbs_ready (pulse_chan ds)" "txhooksig (pulse_chan ds) = 1" "digitmode (pulse_chan ds) = DIGIT_MODE_PULSE"
  "txdialbuf (pulse_chan ds) = ds" "ev_inv (pulse_chan ds)" "pending (pulse_chan ds) = []"
  "drv_calls (pulse_chan ds) = []" "hook_call h (pulse_chan ds) = Drv_hooksig h"
  by (simp_all add: pulse_chan_def tone_demo_chan_def chan_rbs.extend_def rbs_demo_chan_def hook_span_def rbs_ready_def
      ev_inv_def pending_def ev_count_def hook_call_def chan_op_def)

theorem pulse_dialing_completes_witness:
  "\<exists>c1 c2. do_dtmf no_zones (pulse_chan ''21'') = Some c1 \<and> otimer_chunks (2 * (50 + 50) + 750 + (50 + 50) + 750) False no_zones c1 = Some c2 \<and>
     drv_calls c2 = [Drv_hooksig 0, Drv_hooksig 1, Drv_hooksig 0, Drv_hooksig 1, Drv_hooksig 0, Drv_hooksig 1] \<and>
     pending c2 = [EVENT_DIALCOMPLETE]"
proof -
  have n: "digit_pulses CHR ''2'' = Suc (Suc 0)" "digit_pulses CHR ''1'' = Suc 0"
    by (simp_all add: digit_pulses_def)
  have t: "pulse_times 50 50 750 (pulse_chan ''21'')" "otimer (pulse_chan ''21'') = 0"
    by (simp_all add: pulse_times_def pulse_chan_def tone_demo_chan_def chan_rbs.extend_def rbs_demo_chan_def)
  have l: "length (dial_wave 50 50 750 ''21'') = 2 * (50 + 50) + 750 + (50 + 50) + 750"
    by (simp add: dial_wave_def pulse_wave_def n)
  from pulse_dialing_completes [of "pulse_chan ''21''" "''21''" 50 50 750 no_zones False, unfolded l]
  show ?thesis by (auto simp: pulse_chan_facts n t)
qed

end
