(* ===== verification/FastHdlc.thy ===== *)
theory FastHdlc
  imports Dahdi_Prelude
begin

text \<open>
  The table-driven HDLC engine of \<^verbatim>\<open>include/dahdi/fasthdlc.h\<close>: the three precomputed
  tables (flag search, frame decoding, zero-stuffing encoder) and the operations on
  \<^verbatim>\<open>struct fasthdlc_state\<close> that move octets in and out of its 32-bit queue.

  The C \<^verbatim>\<open>int\<close> locals that only count up are natural numbers; the fields of the
  structure keep the type \<^verbatim>\<open>int\<close>; the bit patterns are words of their C width.
\<close>

section \<open>State and constants\<close>

datatype fasthdlc_mode = FASTHDLC_MODE_64 | FASTHDLC_MODE_56 | FASTHDLC_MODE_16

record fasthdlc_state =
  fh_state :: int
  fh_data :: u32
  fh_bits :: int
  fh_ones :: int
  fh_mode :: fasthdlc_mode
  fh_minbits :: int

abbreviation (input) RETURN_COMPLETE_FLAG :: int where "RETURN_COMPLETE_FLAG \<equiv> 0x1000"
abbreviation (input) RETURN_DISCARD_FLAG :: int where "RETURN_DISCARD_FLAG \<equiv> 0x2000"
abbreviation (input) RETURN_EMPTY_FLAG :: int where "RETURN_EMPTY_FLAG \<equiv> 0x4000"

abbreviation (input) FRAME_SEARCH :: int where "FRAME_SEARCH \<equiv> 0"
abbreviation (input) PROCESS_FRAME :: int where "PROCESS_FRAME \<equiv> 1"

abbreviation (input) CONTROL_COMPLETE :: u16 where "CONTROL_COMPLETE \<equiv> 1"
abbreviation (input) CONTROL_ABORT :: u16 where "CONTROL_ABORT \<equiv> 2"
abbreviation (input) STATUS_MASK :: u16 where "STATUS_MASK \<equiv> 0x8000"
abbreviation (input) STATUS_VALID :: u16 where "STATUS_VALID \<equiv> 0x8000"
abbreviation (input) STATE_MASK :: u16 where "STATE_MASK \<equiv> 0x8000"
abbreviation (input) ONES_MASK :: u16 where "ONES_MASK \<equiv> 0x7000"
abbreviation (input) DATA_MASK :: u16 where "DATA_MASK \<equiv> 0xff"

section \<open>The tables\<close>

text \<open>
  \<open>hdlc_search_precalc\<close>: 8 bits of the stream to (next state in bit 4, bits to
  consume in bits 3-0). The loop looks for the zero nearest to the end.
\<close>

fun hdlc_search_loop :: "u8 \<Rightarrow> u8 \<Rightarrow> nat \<Rightarrow> nat" where
  "hdlc_search_loop c x 0 = 0"
| "hdlc_search_loop c x (Suc p) =
     (if c AND x \<noteq> 0 then hdlc_search_loop c (push_bit 1 x) p else Suc p)"

definition hdlc_search_precalc :: "u8 \<Rightarrow> u8" where
  "hdlc_search_precalc c =
     (if c = 0x7e then 0x10 OR 8
      else if c = 0x7f then 0x00 OR 8
      else if c = 0xff then 0x00 OR 8
      else of_nat (hdlc_search_loop c 1 7))"

text \<open>The macro \<^verbatim>\<open>HFP\<close> packs one entry of the frame table.\<close>

definition HFP :: "u16 \<Rightarrow> nat \<Rightarrow> nat \<Rightarrow> u16 \<Rightarrow> u16" where
  "HFP status ones bits data =
     status OR push_bit 12 (of_nat ones) OR push_bit 8 (of_nat bits) OR data"

text \<open>
  \<open>hdlc_frame_precalc\<close>: with \<open>x\<close> ones already seen and the next ten bits in \<open>c\<close>,
  decode one octet, a closing flag or an abort. Each turn of the loop either collects a
  bit or drops a stuffed zero and clears \<open>ones\<close>, so it stops.
\<close>

function hdlc_frame_loop :: "nat \<Rightarrow> u8 \<Rightarrow> nat \<Rightarrow> nat \<Rightarrow> u16 \<Rightarrow> u16" where
  "hdlc_frame_loop ones data bits consumed c =
     (if bits < 8 then
        (let data = drop_bit 1 data; consumed = consumed + 1 in
         if ones = 5 then
           (if c AND 0x0200 \<noteq> 0 then
              (if c AND 0x0100 = 0 \<and> bits = 6
               then HFP 0 0 8 CONTROL_COMPLETE
               else HFP 0 0 (consumed + 1) CONTROL_ABORT)
            else hdlc_frame_loop 0 (push_bit 1 data) bits consumed (push_bit 1 c))
         else
           (if c AND 0x0200 \<noteq> 0
            then hdlc_frame_loop (ones + 1) (data OR 0x80) (bits + 1) consumed (push_bit 1 c)
            else hdlc_frame_loop 0 data (bits + 1) consumed (push_bit 1 c)))
      else
        (let (ones, consumed) = (if ones = 5 then (0, consumed + 1) else (ones, consumed))
         in HFP STATUS_VALID ones consumed (ucast data)))"
  by pat_completeness auto
termination
  by (relation "measures [\<lambda>(ones, data, bits, consumed, c). 8 - bits,
                          \<lambda>(ones, data, bits, consumed, c). of_bool (ones = 5)]") auto

declare hdlc_frame_loop.simps [simp del]

definition hdlc_frame_precalc :: "nat \<Rightarrow> u16 \<Rightarrow> u16" where
  "hdlc_frame_precalc x c = hdlc_frame_loop x 0 0 0 c"

text \<open>
  \<open>hdlc_encode_precalc\<close>: after \<open>x\<close> ones, octet \<open>y\<close> as up to ten stuffed bits
  (bits 31-22), the new count of ones (bits 15-8) and the number of bits (bits 3-0).
\<close>

fun hdlc_encode_loop :: "nat \<Rightarrow> u8 \<Rightarrow> nat \<Rightarrow> nat \<Rightarrow> u16 \<Rightarrow> nat \<times> nat \<times> u16" where
  "hdlc_encode_loop 0 y ones bits data = (ones, bits, data)"
| "hdlc_encode_loop (Suc z) y ones bits data =
     (let (ones, bits, data) =
        (if ones = 5 then (0, bits + 1, push_bit 1 data) else (ones, bits, data)) in
      if y AND 0x01 \<noteq> 0
      then hdlc_encode_loop z (drop_bit 1 y) (ones + 1) (bits + 1) (push_bit 1 data OR 1)
      else hdlc_encode_loop z (drop_bit 1 y) 0 (bits + 1) (push_bit 1 data))"

definition hdlc_encode_precalc :: "nat \<Rightarrow> u8 \<Rightarrow> u32" where
  "hdlc_encode_precalc x y =
     (let (ones, bits, data) = hdlc_encode_loop 8 y x 0 0;
          (ones, bits, data) =
            (if ones = 5 then (0, bits + 1, push_bit 1 data) else (ones, bits, data));
          data = push_bit (10 - bits) data
      in push_bit 22 (ucast data) OR push_bit 8 (of_nat ones) OR of_nat bits)"

text \<open>
  The tables as \<open>fasthdlc_precalc\<close> fills them; \<open>minbits\<close> is what each receive state
  needs in its queue.
\<close>

definition hdlc_search :: "u8 list" where
  "hdlc_search = map (\<lambda>x. hdlc_search_precalc (of_nat x)) [0..<256]"

definition hdlc_frame :: "u16 list list" where
  "hdlc_frame = map (\<lambda>x. map (\<lambda>y. hdlc_frame_precalc x (of_nat y)) [0..<1024]) [0..<6]"

definition hdlc_encode :: "u32 list list" where
  "hdlc_encode = map (\<lambda>x. map (\<lambda>y. hdlc_encode_precalc x (of_nat y)) [0..<256]) [0..<6]"

definition rx_minbits :: "int list" where
  "rx_minbits = [8, 10]"

lemma hdlc_search_nth [simp]: "n < 256 \<Longrightarrow> hdlc_search ! n = hdlc_search_precalc (of_nat n)"
  by (simp add: hdlc_search_def)

lemma hdlc_frame_nth [simp]:
  "x < 6 \<Longrightarrow> n < 1024 \<Longrightarrow> hdlc_frame ! x ! n = hdlc_frame_precalc x (of_nat n)"
  by (simp add: hdlc_frame_def)

lemma hdlc_encode_nth [simp]:
  "x < 6 \<Longrightarrow> n < 256 \<Longrightarrow> hdlc_encode ! x ! n = hdlc_encode_precalc x (of_nat n)"
  by (simp add: hdlc_encode_def)

section \<open>Operations on the state\<close>

definition fasthdlc_init :: "fasthdlc_state \<Rightarrow> fasthdlc_mode \<Rightarrow> fasthdlc_state" where
  "fasthdlc_init h mode =
     h\<lparr>fh_mode := mode, fh_state := 0, fh_bits := 0, fh_data := 0, fh_ones := 0,
       fh_minbits := (case mode of FASTHDLC_MODE_64 \<Rightarrow> 8
                                 | FASTHDLC_MODE_56 \<Rightarrow> 7
                                 | FASTHDLC_MODE_16 \<Rightarrow> 2)\<rparr>"

definition fasthdlc_tx_load_nocheck :: "fasthdlc_state \<Rightarrow> u8 \<Rightarrow> fasthdlc_state \<times> int" where
  "fasthdlc_tx_load_nocheck h c =
     (let res = hdlc_encode ! nat (fh_ones h) ! unat c in
      (h\<lparr>fh_ones := uint (drop_bit 8 (res AND 0xf00)),
         fh_data := fh_data h OR drop_bit (nat (fh_bits h)) (res AND 0xffc00000),
         fh_bits := fh_bits h + uint (res AND 0xf)\<rparr>, 0))"

definition fasthdlc_tx_load :: "fasthdlc_state \<Rightarrow> u8 \<Rightarrow> fasthdlc_state \<times> int" where
  "fasthdlc_tx_load h c =
     (if fh_bits h > 22 then (h, -1) else fasthdlc_tx_load_nocheck h c)"

definition fasthdlc_tx_frame_nocheck :: "fasthdlc_state \<Rightarrow> fasthdlc_state \<times> int" where
  "fasthdlc_tx_frame_nocheck h =
     (h\<lparr>fh_ones := 0,
        fh_data := fh_data h OR drop_bit (nat (fh_bits h)) 0x7e000000,
        fh_bits := fh_bits h + 8\<rparr>, 0)"

definition fasthdlc_tx_frame :: "fasthdlc_state \<Rightarrow> fasthdlc_state \<times> int" where
  "fasthdlc_tx_frame h =
     (if fh_bits h > 24 then (h, -1) else fasthdlc_tx_frame_nocheck h)"

definition fasthdlc_tx_need_data :: "fasthdlc_state \<Rightarrow> bool" where
  "fasthdlc_tx_need_data h =
     (case fh_mode h of
        FASTHDLC_MODE_56 \<Rightarrow> fh_bits h < 7
      | FASTHDLC_MODE_16 \<Rightarrow> fh_bits h < 2
      | FASTHDLC_MODE_64 \<Rightarrow> fh_bits h < 8)"

definition fasthdlc_tx_run_nocheck :: "fasthdlc_state \<Rightarrow> fasthdlc_state \<times> int" where
  "fasthdlc_tx_run_nocheck h =
     (case fh_mode h of
        FASTHDLC_MODE_16 \<Rightarrow>
          (let b = (ucast (drop_bit 30 (fh_data h)) :: u8) in
           (h\<lparr>fh_bits := fh_bits h - 2, fh_data := push_bit 2 (fh_data h)\<rparr>,
            uint (push_bit 6 (b AND 3))))
      | FASTHDLC_MODE_56 \<Rightarrow>
          (let b = (ucast (drop_bit 25 (fh_data h)) :: u8) in
           (h\<lparr>fh_bits := fh_bits h - 7, fh_data := push_bit 7 (fh_data h)\<rparr>,
            uint (push_bit 1 (b AND 0x7f) OR 1)))
      | FASTHDLC_MODE_64 \<Rightarrow>
          (let b = (ucast (drop_bit 24 (fh_data h)) :: u8) in
           (h\<lparr>fh_bits := fh_bits h - 8, fh_data := push_bit 8 (fh_data h)\<rparr>, uint b)))"

definition fasthdlc_tx_run :: "fasthdlc_state \<Rightarrow> fasthdlc_state \<times> int" where
  "fasthdlc_tx_run h =
     (if fh_bits h < fh_minbits h then (h, -1) else fasthdlc_tx_run_nocheck h)"

definition fasthdlc_rx_load_nocheck :: "fasthdlc_state \<Rightarrow> u8 \<Rightarrow> fasthdlc_state \<times> int" where
  "fasthdlc_rx_load_nocheck h b =
     (case fh_mode h of
        FASTHDLC_MODE_16 \<Rightarrow>
          (h\<lparr>fh_data := fh_data h OR push_bit (nat (30 - fh_bits h)) (ucast (drop_bit 6 b)),
             fh_bits := fh_bits h + 2\<rparr>, 0)
      | FASTHDLC_MODE_56 \<Rightarrow>
          (h\<lparr>fh_data := fh_data h OR push_bit (nat (25 - fh_bits h)) (ucast (drop_bit 1 b)),
             fh_bits := fh_bits h + 7\<rparr>, 0)
      | FASTHDLC_MODE_64 \<Rightarrow>
          (h\<lparr>fh_data := fh_data h OR push_bit (nat (24 - fh_bits h)) (ucast b),
             fh_bits := fh_bits h + 8\<rparr>, 0))"

definition fasthdlc_rx_load :: "fasthdlc_state \<Rightarrow> u8 \<Rightarrow> fasthdlc_state \<times> int" where
  "fasthdlc_rx_load h b =
     (if fh_bits h > 24 then (h, -1) else fasthdlc_rx_load_nocheck h b)"

section \<open>Facts about the search table\<close>

text \<open>Every entry consumes between one and eight bits, so the search always advances.\<close>

lemma hdlc_search_loop_le: "hdlc_search_loop c x p \<le> p"
  by (induction c x p rule: hdlc_search_loop.induct) auto

lemma hdlc_search_loop_0:
  "hdlc_search_loop c (push_bit k 1) p = 0 \<Longrightarrow> k \<le> i \<Longrightarrow> i < k + p \<Longrightarrow> i < 8 \<Longrightarrow> bit c i"
proof (induction p arbitrary: k)
  case 0
  then show ?case by simp
next
  case (Suc p)
  from Suc.prems(1) have ck: "c AND push_bit k 1 \<noteq> 0"
    and rest: "hdlc_search_loop c (push_bit (Suc k) 1) p = 0"
    by (auto split: if_splits simp: mult.commute)
  show ?case
  proof (cases "i = k")
    case True
    with ck Suc.prems(4) show ?thesis
      by (simp add: bit_iff_and_push_bit_not_eq_0)
  next
    case False
    with Suc.IH [OF rest] Suc.prems show ?thesis by simp
  qed
qed

lemma u8_all_low_bits:
  assumes "\<And>i. i < 7 \<Longrightarrow> bit (c::u8) i"
  shows "c = 0x7f \<or> c = 0xff"
proof (cases "bit c 7")
  case True
  have "c = mask 8"
    by (rule bit_word_eqI) (use True assms less_Suc_eq in \<open>auto simp: bit_mask_iff eval_nat_numeral\<close>)
  then show ?thesis by (simp add: mask_eq_exp_minus_1)
next
  case False
  have "c = mask 7"
  proof (rule bit_word_eqI)
    fix n assume "n < LENGTH(8)"
    then consider "n < 7" | "n = 7" by fastforce
    then show "bit c n = bit (mask 7 :: u8) n"
      by cases (use False assms in \<open>auto simp: bit_mask_iff\<close>)
  qed
  then show ?thesis by (simp add: mask_eq_exp_minus_1)
qed

lemma hdlc_search_precalc_cases:
  obtains "c = 0x7e" "hdlc_search_precalc c = 0x18"
  | "c \<noteq> 0x7e" "hdlc_search_precalc c = 8"
  | p where "c \<noteq> 0x7e" "1 \<le> p" "p \<le> 7" "hdlc_search_precalc c = of_nat p"
proof -
  consider "c = 0x7e" | "c = 0x7f \<or> c = 0xff" | "c \<noteq> 0x7e" "c \<noteq> 0x7f" "c \<noteq> 0xff" by blast
  then show thesis
  proof cases
    case 3
    have "hdlc_search_loop c 1 7 \<noteq> 0"
      using hdlc_search_loop_0 [of c 0 7] u8_all_low_bits [of c] 3 by auto
    then show thesis
      using 3 that(3) [of "hdlc_search_loop c 1 7"] hdlc_search_loop_le [of c 1 7]
      by (simp add: hdlc_search_precalc_def)
  qed (use that in \<open>auto simp: hdlc_search_precalc_def\<close>)
qed

lemma hdlc_search_step:
  obtains k st where "1 \<le> k" "k \<le> 8" "st = 0 \<or> st = 1"
    "uint ((ucast (hdlc_search_precalc c) :: u16) AND 0x0f) = int k"
    "unat ((ucast (hdlc_search_precalc c) :: u16) AND 0x0f) = k"
    "uint (drop_bit 4 (ucast (hdlc_search_precalc c) :: u16)) = st"
    "st = 1 \<longleftrightarrow> c = 0x7e"
proof (cases c rule: hdlc_search_precalc_cases)
  case 1
  then show thesis by (intro that [of 8 1]) auto
next
  case 2
  then show thesis by (intro that [of 8 0]) auto
next
  case (3 p)
  then have "p \<in> {1,2,3,4,5,6,7}" by auto
  with 3 show thesis by (intro that [of p 0]) auto
qed

section \<open>The receiver\<close>

text \<open>
  \<open>fasthdlc_rx_run\<close>: the \<^verbatim>\<open>while\<close> loop runs until a result is found or the queue is too
  short for the current state. The states other than \<open>FRAME_SEARCH\<close> and
  \<open>PROCESS_FRAME\<close> are never stored (see \<open>hdlc_inv\<close> below); \<open>minbits\<close> has no row
  for them.
\<close>

definition next_consumed :: "u16 \<Rightarrow> u16" where
  "next_consumed nxt = drop_bit 8 (nxt AND 0x0f00)"

definition next_state :: "u16 \<Rightarrow> u16" where
  "next_state nxt = drop_bit 15 (nxt AND STATE_MASK)"

definition next_ones :: "u16 \<Rightarrow> u16" where
  "next_ones nxt = drop_bit 12 (nxt AND ONES_MASK)"

function fasthdlc_rx_loop :: "fasthdlc_state \<Rightarrow> int \<Rightarrow> fasthdlc_state \<times> int" where
  "fasthdlc_rx_loop h retval =
     (if (fh_state h = FRAME_SEARCH \<or> fh_state h = PROCESS_FRAME)
         \<and> fh_bits h \<ge> rx_minbits ! nat (fh_state h) \<and> retval = RETURN_EMPTY_FLAG
      then (if fh_state h = FRAME_SEARCH then
              (let nxt = (ucast (hdlc_search ! unat (drop_bit 24 (fh_data h))) :: u16) in
               fasthdlc_rx_loop
                 (h\<lparr>fh_bits := fh_bits h - uint (nxt AND 0x0f),
                    fh_data := push_bit (unat (nxt AND 0x0f)) (fh_data h),
                    fh_state := uint (drop_bit 4 nxt), fh_ones := 0\<rparr>) retval)
            else
              (let nxt = hdlc_frame ! nat (fh_ones h) ! unat (drop_bit 22 (fh_data h));
                   h' = h\<lparr>fh_bits := fh_bits h - uint (next_consumed nxt),
                          fh_data := push_bit (unat (next_consumed nxt)) (fh_data h),
                          fh_state := uint (next_state nxt),
                          fh_ones := uint (next_ones nxt)\<rparr> in
               if nxt AND STATUS_MASK = 0 then
                 (if nxt AND CONTROL_COMPLETE \<noteq> 0
                  then fasthdlc_rx_loop (h'\<lparr>fh_state := 1\<rparr>) RETURN_COMPLETE_FLAG
                  else fasthdlc_rx_loop h' RETURN_DISCARD_FLAG)
               else fasthdlc_rx_loop h' (uint (nxt AND DATA_MASK))))
      else (h, retval))"
  by pat_completeness auto

lemma data_mask_bound: "uint (w AND DATA_MASK) < 256"
proof -
  have "uint (w AND DATA_MASK) \<le> uint DATA_MASK"
    by (simp add: uint_and AND_upper2')
  then show ?thesis by simp
qed

lemma unat_drop24: "unat (drop_bit 24 (w::u32)) < 256"
  using unsigned_less [where 'a = nat and w = w] by (simp add: drop_bit_eq_div unat_div)

lemma unat_drop22: "unat (drop_bit 22 (w::u32)) < 1024"
  using unsigned_less [where 'a = nat and w = w] by (simp add: drop_bit_eq_div unat_div)

termination fasthdlc_rx_loop
proof (relation "measure (\<lambda>(h, r). if r = RETURN_EMPTY_FLAG then nat (fh_bits h) + 1 else 0)",
    goal_cases)
  case (2 h retval nxt)
  obtain k :: nat where "1 \<le> k" "uint (nxt AND 0x0f) = int k"
    by (rule hdlc_search_step
      [of "of_nat (unat (drop_bit 24 (fh_data h))) :: u8"])
      (use 2 unat_drop24 in auto)
  with 2 show ?case by (auto simp: rx_minbits_def)
next
  case (5 h retval nxt h')
  then show ?case using data_mask_bound [of nxt] by auto
qed auto

declare fasthdlc_rx_loop.simps [simp del]

definition fasthdlc_rx_run :: "fasthdlc_state \<Rightarrow> fasthdlc_state \<times> int" where
  "fasthdlc_rx_run h = fasthdlc_rx_loop h RETURN_EMPTY_FLAG"

end
