(* ===== verification/Registry.thy ===== *)
theory Registry
  imports Events
begin

text \<open>
  The span list, the pseudo channels and the numbering of both: channel lookup by number
  (\<open>_chan_from_num\<close>), the assignment of span and base channel numbers to a new span,
  the sorted insertion into the list, the choice of the span that provides timing, and
  alarm propagation. Spans are the entries of \<open>span_list\<close> with their channels inside;
  \<open>span_id\<close> is the identity of the C structure. Numbers are C unsigned integers, read
  modulo \<open>2 ^ 32\<close> where the code adds.
\<close>

section \<open>State\<close>

record 'c reg_span = dahdi_span +
  span_id :: nat
  rs_chans :: "'c list"
  lastalarms :: u32
  linecompat :: int
  cannot_provide_timing :: bool
  maintstat :: int
  mainttimer :: int

abbreviation (input) FIRST_PSEUDO_CHANNEL :: int where "FIRST_PSEUDO_CHANNEL \<equiv> 0x8000"
abbreviation (input) UINT_MAX :: int where "UINT_MAX \<equiv> 0xffffffff"

definition u32_add :: "int \<Rightarrow> int \<Rightarrow> int" where
  "u32_add a b = (a + b) mod 2 ^ 32"

section \<open>Lookup by number\<close>

definition is_pseudo_chan :: "'a dahdi_chan_scheme \<Rightarrow> bool" where
  "is_pseudo_chan c \<longleftrightarrow> chan_span c = None"

fun for_each_channel :: "('c \<Rightarrow> int) \<Rightarrow> 'c list \<Rightarrow> int" where
  "for_each_channel f [] = 0"
| "for_each_channel f (c # cs) = (let res = f c in if res \<noteq> 0 then res else for_each_channel f cs)"

definition all_channels :: "('a dahdi_chan_scheme, 'b) reg_span_scheme list \<Rightarrow>
    'a dahdi_chan_scheme list \<Rightarrow> 'a dahdi_chan_scheme list" where
  "all_channels spans pseudos = concat (map rs_chans spans) @ pseudos"

fun chan_from_spans ::
    "('a dahdi_chan_scheme, 'b) reg_span_scheme list \<Rightarrow> int \<Rightarrow> 'a dahdi_chan_scheme option" where
  "chan_from_spans [] n = None"
| "chan_from_spans (s # ss) n =
     (case rs_chans s of
        [] \<Rightarrow> chan_from_spans ss n
      | c # _ \<Rightarrow>
         (let basechan = channo c in
          if n \<ge> u32_add basechan (int (length (rs_chans s))) then chan_from_spans ss n
          else if n < basechan then None
          else Some (rs_chans s ! nat (n - basechan))))"

definition chan_from_num :: "('a dahdi_chan_scheme, 'b) reg_span_scheme list \<Rightarrow>
    'a dahdi_chan_scheme list \<Rightarrow> int \<Rightarrow> 'a dahdi_chan_scheme option" where
  "chan_from_num spans pseudos n =
     (if n mod 2 ^ 32 \<ge> FIRST_PSEUDO_CHANNEL
      then find (\<lambda>c. channo c mod 2 ^ 32 = n mod 2 ^ 32) pseudos
      else chan_from_spans spans (n mod 2 ^ 32))"

fun find_span :: "('c, 'b) reg_span_scheme list \<Rightarrow> int \<Rightarrow> ('c, 'b) reg_span_scheme option" where
  "find_span [] n = None"
| "find_span (s # ss) n = (if spanno s = n then Some s else find_span ss n)"

section \<open>Numbering a new span\<close>

text \<open>
  The first channel number at or after a position of the list, all ones when there is none.
\<close>

fun get_next_channo :: "('a dahdi_chan_scheme, 'b) reg_span_scheme list \<Rightarrow> int" where
  "get_next_channo [] = UINT_MAX"
| "get_next_channo (s # ss) = (case rs_chans s of c # _ \<Rightarrow> channo c mod 2 ^ 32 | [] \<Rightarrow> get_next_channo ss)"

definition set_spanno_and_basechan ::
    "('a dahdi_chan_scheme, 'b) reg_span_scheme \<Rightarrow> int \<Rightarrow> int \<Rightarrow> ('a dahdi_chan_scheme, 'b) reg_span_scheme" where
  "set_spanno_and_basechan s no base =
     s\<lparr>spanno := no,
       rs_chans := map (\<lambda>i. (rs_chans s ! i)\<lparr>channo := base + int i\<rparr>) [0..<length (rs_chans s)]\<rparr>"

text \<open>
  The search loop of \<open>_assign_spanno_and_basechan\<close> for a span of \<open>n\<close> channels. \<open>None\<close> is
  the read of \<open>chans[0]\<close> of a span that has no channels.
\<close>

fun assign_loop ::
    "('a dahdi_chan_scheme, 'b) reg_span_scheme list \<Rightarrow> int \<Rightarrow> int \<Rightarrow> int \<Rightarrow> (int \<times> int) option" where
  "assign_loop [] n spanno' basechan = Some (spanno', basechan)"
| "assign_loop (pos # ps) n spanno' basechan =
     (if spanno pos \<le> spanno' then
        (case rs_chans pos of
           [] \<Rightarrow> None
         | c # _ \<Rightarrow> assign_loop ps n (u32_add (spanno pos) 1)
                     (u32_add (channo c) (int (length (rs_chans pos)))))
      else
        (let next_channo = get_next_channo (pos # ps) in
         if u32_add basechan n \<le> next_channo then Some (spanno', basechan)
         else assign_loop ps n (u32_add (spanno pos) 1)
                (case rs_chans pos of [] \<Rightarrow> basechan
                 | c # _ \<Rightarrow> u32_add (channo c) (int (length (rs_chans pos))))))"

definition assign_spanno_and_basechan ::
    "('a dahdi_chan_scheme, 'b) reg_span_scheme list \<Rightarrow> ('a dahdi_chan_scheme, 'b) reg_span_scheme
     \<Rightarrow> ('a dahdi_chan_scheme, 'b) reg_span_scheme option" where
  "assign_spanno_and_basechan spans s =
     (case assign_loop spans (int (length (rs_chans s))) 1 1 of
        None \<Rightarrow> None
      | Some (no, base) \<Rightarrow> Some (set_spanno_and_basechan s no base))"

fun check_loop :: "('a dahdi_chan_scheme, 'b) reg_span_scheme list \<Rightarrow> int \<Rightarrow> int \<Rightarrow> int \<Rightarrow> bool" where
  "check_loop [] n spanno' basechan = True"
| "check_loop (pos # ps) n spanno' basechan =
     (let next_channo = get_next_channo (pos # ps) in
      if spanno pos \<le> spanno' then
        (if basechan < u32_add next_channo (int (length (rs_chans pos))) then False
         else check_loop ps n spanno' basechan)
      else if next_channo = UINT_MAX then True
      else u32_add basechan n \<le> next_channo)"

definition check_spanno_and_basechan ::
    "('a dahdi_chan_scheme, 'b) reg_span_scheme list \<Rightarrow> ('a dahdi_chan_scheme, 'b) reg_span_scheme
     \<Rightarrow> int \<Rightarrow> int \<Rightarrow> int \<times> ('a dahdi_chan_scheme, 'b) reg_span_scheme" where
  "check_spanno_and_basechan spans s no base =
     (if check_loop spans (int (length (rs_chans s))) no base
      then (0, set_spanno_and_basechan s no base) else (- EINVAL, s))"

fun add_span_to_span_list :: "('c, 'b) reg_span_scheme \<Rightarrow> ('c, 'b) reg_span_scheme list \<Rightarrow>
    ('c, 'b) reg_span_scheme list" where
  "add_span_to_span_list s [] = [s]"
| "add_span_to_span_list s (pos # ps) =
     (if spanno pos > spanno s then s # pos # ps else pos # add_span_to_span_list s ps)"

text \<open>
  The number of a new pseudo channel and its place: the first gap of the list.
\<close>

fun pseudo_slot :: "int \<Rightarrow> 'a dahdi_chan_scheme list \<Rightarrow> int \<times> 'a dahdi_chan_scheme list \<times> 'a dahdi_chan_scheme list" where
  "pseudo_slot n [] = (n, [], [])"
| "pseudo_slot n (p # ps) =
     (if n \<noteq> channo p then (n, [], p # ps)
      else (let (m, before, after) = pseudo_slot (n + 1) ps in (m, p # before, after)))"

text \<open>
  \<open>dahdi_alloc_pseudo\<close> once there is a timing source (\<open>can_open_timer\<close>) and memory for the channel: without
  either it returns before it has changed anything, as it does here when there are too many pseudo channels.
\<close>

definition alloc_pseudo :: "nat \<Rightarrow> 'a dahdi_chan_scheme \<Rightarrow> 'a dahdi_chan_scheme list \<Rightarrow>
    ('a dahdi_chan_scheme \<times> 'a dahdi_chan_scheme list) option" where
  "alloc_pseudo max_pseudo_channels fresh pseudos =
     (if max_pseudo_channels \<le> length pseudos then None
      else (let (n, before, after) = pseudo_slot FIRST_PSEUDO_CHANNEL pseudos;
                c = fresh\<lparr>sig := SIG_CLEAR, sigcap := SIG_CLEAR,
                          chan_flags := {FLAG_AUDIO, FLAG_REGISTERED}, chan_span := None,
                          channo := n, chanpos := n - FIRST_PSEUDO_CHANNEL + 1\<rparr>
            in Some (c, before @ c # after)))"

section \<open>Timing master and alarms\<close>

text \<open>
  \<open>master\<close> is the identity of the span that provides timing (\<open>master_span\<close>).
\<close>

fun find_master_loop :: "nat option \<Rightarrow> ('c, 'b) reg_span_scheme list \<Rightarrow> nat option" where
  "find_master_loop master [] = master"
| "find_master_loop master (s # ss) =
     (if span_alarms s \<noteq> 0 \<and> master \<noteq> None then find_master_loop master ss
      else if 0 < linecompat s \<and> FLAG_RUNNING \<notin> span_flags s \<and> master \<noteq> None
        then find_master_loop master ss
      else if cannot_provide_timing s then find_master_loop master ss
      else if master = Some (span_id s) then find_master_loop master ss
      else Some (span_id s))"

definition find_master_span :: "('c, 'b) reg_span_scheme list \<Rightarrow> nat option \<Rightarrow> nat option" where
  "find_master_span spans master = find_master_loop master spans"

definition set_master_span :: "int \<Rightarrow> ('c, 'b) reg_span_scheme list \<Rightarrow> nat option \<Rightarrow> nat option" where
  "set_master_span no spans master =
     (case find_span spans no of Some s \<Rightarrow> Some (span_id s) | None \<Rightarrow> master)"

text \<open>The new master when a span is removed; \<open>spans\<close> no longer holds it.\<close>

fun unassign_master_loop :: "nat option \<Rightarrow> ('c, 'b) reg_span_scheme list \<Rightarrow> nat option" where
  "unassign_master_loop new_master [] = new_master"
| "unassign_master_loop new_master (s # ss) =
     (if new_master = Some (span_id s) \<or> cannot_provide_timing s
      then unassign_master_loop new_master ss else Some (span_id s))"

definition unassign_master :: "nat \<Rightarrow> ('c, 'b) reg_span_scheme list \<Rightarrow> nat option \<Rightarrow> nat option" where
  "unassign_master gone spans master =
     unassign_master_loop (if master = Some gone then None else master) spans"

definition alarm_channel :: "u32 \<Rightarrow> 'a chan_ev_scheme \<Rightarrow> 'a chan_ev_scheme" where
  "alarm_channel alarms c =
     (if chan_alarms c \<noteq> alarms
      then qevent (c\<lparr>chan_alarms := alarms\<rparr>) (if alarms \<noteq> 0 then EVENT_ALARM else EVENT_NOALARM)
      else c)"

text \<open>The second result tells whether a search for a new master is scheduled.\<close>

definition alarm_notify :: "('a chan_ev_scheme, 'b) reg_span_scheme \<Rightarrow>
    ('a chan_ev_scheme, 'b) reg_span_scheme \<times> bool" where
  "alarm_notify s =
     (let s = s\<lparr>span_alarms := span_alarms s AND NOT ALARM_LOOPBACK\<rparr>;
          s = (if maintstat s \<noteq> 0 \<or> mainttimer s \<noteq> 0
               then s\<lparr>span_alarms := span_alarms s OR ALARM_LOOPBACK\<rparr> else s)
      in if (span_alarms s = 0) \<noteq> (lastalarms s = 0)
         then (s\<lparr>lastalarms := span_alarms s,
                 rs_chans := map (alarm_channel (span_alarms s)) (rs_chans s)\<rparr>, True)
         else (s, False))"

definition disable_span :: "('a chan_ev_scheme, 'b) reg_span_scheme \<Rightarrow>
    ('a chan_ev_scheme, 'b) reg_span_scheme \<times> bool" where
  "disable_span s = alarm_notify
     (s\<lparr>span_alarms := ALARM_NOTOPEN,
        rs_chans := map (\<lambda>c. qevent c EVENT_REMOVED) (rs_chans s)\<rparr>)"

definition open_channel_count :: "('a dahdi_chan_scheme, 'b) reg_span_scheme \<Rightarrow> nat" where
  "open_channel_count s = length (filter (test_flag FLAG_OPEN) (rs_chans s))"

section \<open>The numbering invariant\<close>

text \<open>
  Spans are listed by increasing number and every span has channels, numbered consecutively
  and above those of the spans before it.
\<close>

definition consecutive :: "int \<Rightarrow> 'a dahdi_chan_scheme list \<Rightarrow> bool" where
  "consecutive b cs \<longleftrightarrow> (\<forall>i < length cs. channo (cs ! i) = b + int i)"

fun numbered :: "int \<Rightarrow> int \<Rightarrow> ('a dahdi_chan_scheme, 'b) reg_span_scheme list \<Rightarrow> bool" where
  "numbered m b [] = True"
| "numbered m b (s # ss) = (m \<le> spanno s \<and> rs_chans s \<noteq> [] \<and>
     b \<le> channo (hd (rs_chans s)) \<and> consecutive (channo (hd (rs_chans s))) (rs_chans s) \<and>
     numbered (spanno s + 1) (channo (hd (rs_chans s)) + int (length (rs_chans s))) ss)"

text \<open>Every number in use stays below a limit.\<close>

definition below :: "int \<Rightarrow> int \<Rightarrow> ('a dahdi_chan_scheme, 'b) reg_span_scheme list \<Rightarrow> bool" where
  "below k l spans \<longleftrightarrow> (\<forall>s \<in> set spans. spanno s < k \<and> (\<forall>c \<in> set (rs_chans s). channo c < l))"

lemma below_Cons: "below k l (s # ss) \<longleftrightarrow>
    spanno s < k \<and> (\<forall>c \<in> set (rs_chans s). channo c < l) \<and> below k l ss"
  by (auto simp: below_def)

lemma consecutive_last: "consecutive b cs \<Longrightarrow> cs \<noteq> [] \<Longrightarrow> channo (last cs) = b + int (length cs) - 1"
  by (cases cs rule: rev_cases) (auto simp: consecutive_def)

lemma consecutive_hd: "consecutive b cs \<Longrightarrow> cs \<noteq> [] \<Longrightarrow> channo (hd cs) = b"
  by (auto simp: consecutive_def hd_conv_nth)

lemma numbered_weaken: "numbered m b ss \<Longrightarrow> m' \<le> m \<Longrightarrow> b' \<le> b \<Longrightarrow> numbered m' b' ss"
  by (cases ss) auto

lemma numbered_lower: "numbered m b ss \<Longrightarrow> s \<in> set ss \<Longrightarrow> m \<le> spanno s \<and> (\<forall>c \<in> set (rs_chans s). b \<le> channo c)"
proof (induction m b ss rule: numbered.induct)
  case (2 m b t ss)
  then show ?case
    by (fastforce simp: consecutive_def in_set_conv_nth)
qed simp

lemma numbered_chan_range:
  assumes "numbered m b (s # ss)" and "below k l (s # ss)"
  shows "channo (hd (rs_chans s)) + int (length (rs_chans s)) \<le> l"
proof -
  from assms have "rs_chans s \<noteq> []" "consecutive (channo (hd (rs_chans s))) (rs_chans s)"
    and l: "\<forall>c \<in> set (rs_chans s). channo c < l"
    by (auto simp: below_Cons)
  with consecutive_last [of _ "rs_chans s"] last_in_set [of "rs_chans s"] show ?thesis
    by fastforce
qed

lemma set_spanno_sel [simp]:
  "spanno (set_spanno_and_basechan s no base) = no"
  "length (rs_chans (set_spanno_and_basechan s no base)) = length (rs_chans s)"
  "rs_chans (set_spanno_and_basechan s no base) = [] \<longleftrightarrow> rs_chans s = []"
  by (auto simp: set_spanno_and_basechan_def)

lemma set_spanno_consecutive: "consecutive base (rs_chans (set_spanno_and_basechan s no base))"
  by (simp add: consecutive_def set_spanno_and_basechan_def)

lemma set_spanno_hd: "rs_chans s \<noteq> [] \<Longrightarrow>
    channo (hd (rs_chans (set_spanno_and_basechan s no base))) = base"
  by (rule consecutive_hd [OF set_spanno_consecutive]) simp

lemma u32_add_small: "0 \<le> a \<Longrightarrow> 0 \<le> b \<Longrightarrow> a + b < 2 ^ 32 \<Longrightarrow> u32_add a b = a + b"
  by (simp add: u32_add_def)

text \<open>
  The loop finds a number and a base that fit where the insertion puts the span.
\<close>

lemma assign_loop_fits:
  assumes "rs_chans s \<noteq> []" and n: "n = int (length (rs_chans s))"
  shows "numbered m b ss \<Longrightarrow> below (2 ^ 31 - 1) (2 ^ 31 - n) ss \<Longrightarrow>
    1 \<le> m \<Longrightarrow> m < 2 ^ 31 \<Longrightarrow> 1 \<le> b \<Longrightarrow> b \<le> 2 ^ 31 - n \<Longrightarrow>
    \<exists>no base. assign_loop ss n m b = Some (no, base) \<and> m \<le> no \<and> b \<le> base \<and>
     no < 2 ^ 31 \<and> base \<le> 2 ^ 31 - n \<and>
     numbered m b (add_span_to_span_list (set_spanno_and_basechan s no base) ss)"
proof (induction ss arbitrary: m b)
  case Nil
  then show ?case using assms
    by (auto simp: set_spanno_consecutive set_spanno_hd)
next
  case (Cons pos ps)
  let ?h = "channo (hd (rs_chans pos))" and ?l = "int (length (rs_chans pos))"
  from Cons.prems(1) have pos: "m \<le> spanno pos" "rs_chans pos \<noteq> []" "b \<le> ?h"
      "consecutive ?h (rs_chans pos)" and ps: "numbered (spanno pos + 1) (?h + ?l) ps" by auto
  from Cons.prems(2) have bps: "below (2 ^ 31 - 1) (2 ^ 31 - n) ps"
    and sp: "spanno pos < 2 ^ 31 - 1" by (auto simp: below_Cons)
  from numbered_chan_range [OF Cons.prems(1,2)] have hl: "?h + ?l \<le> 2 ^ 31 - n" .
  obtain c cs where c: "rs_chans pos = c # cs" using pos(2) by (cases "rs_chans pos") auto
  have l: "0 < ?l" and n0: "0 < n" using pos(2) assms by auto
  have nxt: "u32_add (spanno pos) 1 = spanno pos + 1" "u32_add (channo c) ?l = ?h + ?l"
    "u32_add b n = b + n" "channo c mod 2 ^ 32 = ?h"
    using sp hl l n0 pos Cons.prems(3-6) c by (simp_all add: u32_add_small)
  obtain no base where ih: "assign_loop ps n (spanno pos + 1) (?h + ?l) = Some (no, base)"
    "spanno pos + 1 \<le> no" "?h + ?l \<le> base" "no < 2 ^ 31" "base \<le> 2 ^ 31 - n"
    "numbered (spanno pos + 1) (?h + ?l) (add_span_to_span_list (set_spanno_and_basechan s no base) ps)"
    using Cons.IH [OF ps bps] sp hl l pos Cons.prems(3,5) by auto
  show ?case
  proof (cases "m < spanno pos \<and> b + n \<le> ?h")
    case True
    then have "assign_loop (pos # ps) n m b = Some (m, b)"
      using nxt c by (simp add: Let_def)
    moreover have "numbered m b (add_span_to_span_list (set_spanno_and_basechan s m b) (pos # ps))"
      using True assms pos ps n by (simp add: set_spanno_consecutive set_spanno_hd)
    ultimately show ?thesis using Cons.prems(4,6) by blast
  next
    case False
    then have "assign_loop (pos # ps) n m b = Some (no, base)"
      using nxt c ih(1) pos(1) by (auto simp: Let_def)
    moreover have "numbered m b (add_span_to_span_list (set_spanno_and_basechan s no base) (pos # ps))"
      using ih pos by simp
    ultimately show ?thesis using ih pos l by (intro exI) auto
  qed
qed


lemma get_next_channo_numbered:
  "numbered m b (s # ss) \<Longrightarrow> below k (2 ^ 31) (s # ss) \<Longrightarrow> 0 \<le> b \<Longrightarrow>
   get_next_channo (s # ss) = channo (hd (rs_chans s))"
  using numbered_chan_range [of m b s ss k "2 ^ 31"]
  by (cases "rs_chans s") (auto simp: mod_pos_pos_trivial)

lemma check_loop_fits:
  assumes "rs_chans s \<noteq> []" and n: "n = int (length (rs_chans s))"
    and "0 \<le> base" and "base + n \<le> 2 ^ 31"
  shows "numbered m b ss \<Longrightarrow> below k (2 ^ 31) ss \<Longrightarrow> m \<le> no \<Longrightarrow> b \<le> base \<Longrightarrow> 0 \<le> b \<Longrightarrow>
    no \<notin> spanno ` set ss \<Longrightarrow> check_loop ss n no base \<Longrightarrow>
    numbered m b (add_span_to_span_list (set_spanno_and_basechan s no base) ss)"
proof (induction ss arbitrary: m b)
  case Nil
  then show ?case using assms by (auto simp: set_spanno_consecutive set_spanno_hd)
next
  case (Cons pos ps)
  let ?h = "channo (hd (rs_chans pos))" and ?l = "int (length (rs_chans pos))"
  from Cons.prems have pos: "rs_chans pos \<noteq> []" "b \<le> ?h" "m \<le> spanno pos"
    and ps: "numbered (spanno pos + 1) (?h + ?l) ps" and bps: "below k (2 ^ 31) ps"
    by (auto simp: below_Cons)
  from numbered_chan_range [OF Cons.prems(1,2)] have hl: "?h + ?l \<le> 2 ^ 31" .
  note g = get_next_channo_numbered [OF Cons.prems(1,2,5)]
  have u: "u32_add ?h ?l = ?h + ?l" "u32_add base n = base + n"
    using hl pos Cons.prems(5) assms by (simp_all add: u32_add_small)
  show ?case
  proof (cases "spanno pos \<le> no")
    case True
    with Cons.prems(7) g u have "?h + ?l \<le> base" "check_loop ps n no base"
      by (auto simp: Let_def split: if_splits simp del: get_next_channo.simps)
    moreover from True Cons.prems(6) have "spanno pos + 1 \<le> no" by auto
    ultimately have "numbered (spanno pos + 1) (?h + ?l)
        (add_span_to_span_list (set_spanno_and_basechan s no base) ps)"
      using Cons.IH [OF ps bps] Cons.prems(5,6) pos by auto
    with True Cons.prems show ?thesis by simp
  next
    case False
    with Cons.prems(7) g u hl pos have "base + n \<le> ?h"
      by (auto simp: Let_def split: if_splits simp del: get_next_channo.simps)
    with False Cons.prems assms show ?thesis
      by (simp add: set_spanno_consecutive set_spanno_hd)
  qed
qed

text \<open>Lookup.\<close>

lemma find_append: "find P (xs @ ys) = (case find P xs of None \<Rightarrow> find P ys | Some x \<Rightarrow> Some x)"
  by (induction xs) auto

lemma find_consecutive:
  assumes "consecutive b cs"
  shows "find (\<lambda>c. channo c = n) cs =
    (if b \<le> n \<and> n < b + int (length cs) then Some (cs ! nat (n - b)) else None)"
proof (cases "b \<le> n \<and> n < b + int (length cs)")
  case True
  then have i: "nat (n - b) < length cs" "channo (cs ! nat (n - b)) = n"
    using assms by (auto simp: consecutive_def)
  moreover have "\<forall>j < nat (n - b). channo (cs ! j) \<noteq> n"
    using assms i(1) by (auto simp: consecutive_def)
  ultimately show ?thesis using True by (auto simp: find_Some_iff)
next
  case False
  have "channo c \<noteq> n" if "c \<in> set cs" for c
    using that assms False by (auto simp: consecutive_def in_set_conv_nth)
  then have "find (\<lambda>c. channo c = n) cs = None" by (auto simp: find_None_iff)
  with False show ?thesis by simp
qed

lemma find_below: "numbered m b ss \<Longrightarrow> n < b \<Longrightarrow> find (\<lambda>c. channo c = n) (concat (map rs_chans ss)) = None"
  using numbered_lower [of m b ss] by (fastforce simp: find_None_iff)

lemma chan_from_spans_find:
  "numbered m b ss \<Longrightarrow> 0 \<le> b \<Longrightarrow> below k (2 ^ 31) ss \<Longrightarrow>
   chan_from_spans ss n = find (\<lambda>c. channo c = n) (concat (map rs_chans ss))"
proof (induction ss arbitrary: m b)
  case Nil
  then show ?case by simp
next
  case (Cons s ss)
  let ?h = "channo (hd (rs_chans s))" and ?l = "int (length (rs_chans s))"
  obtain c cs where c: "rs_chans s = c # cs" using Cons.prems(1) by (cases "rs_chans s") auto
  from numbered_chan_range [OF Cons.prems(1,3)] have hl: "?h + ?l \<le> 2 ^ 31" .
  from Cons.prems have ss: "numbered (spanno s + 1) (?h + ?l) ss" and b: "below k (2 ^ 31) ss"
    and h: "b \<le> ?h" and cons: "consecutive ?h (rs_chans s)" by (auto simp: below_Cons)
  have u: "u32_add ?h ?l = ?h + ?l" using hl h Cons.prems(2) by (simp add: u32_add_small)
  have "find (\<lambda>c. channo c = n) (concat (map rs_chans (s # ss))) =
      (if ?h \<le> n \<and> n < ?h + ?l then Some (rs_chans s ! nat (n - ?h))
       else if n < ?h then None else find (\<lambda>c. channo c = n) (concat (map rs_chans ss)))"
    using find_consecutive [OF cons, of n] find_below [OF ss, of n] by (auto simp: find_append)
  moreover have "chan_from_spans (s # ss) n =
      (if ?h \<le> n \<and> n < ?h + ?l then Some (rs_chans s ! nat (n - ?h))
       else if n < ?h then None else chan_from_spans ss n)"
    using u c by (auto simp: Let_def)
  ultimately show ?case using Cons.IH [OF ss _ b] h Cons.prems(2) by simp
qed

definition pseudos_ok :: "'a dahdi_chan_scheme list \<Rightarrow> bool" where
  "pseudos_ok ps \<longleftrightarrow> sorted_wrt (<) (map channo ps) \<and>
     (\<forall>p \<in> set ps. FIRST_PSEUDO_CHANNEL \<le> channo p \<and> channo p < 2 ^ 31)"

lemma chan_from_num_find:
  assumes "numbered 1 1 spans" and "below k FIRST_PSEUDO_CHANNEL spans" and "pseudos_ok pseudos"
    and "0 \<le> n" and "n < 2 ^ 31"
  shows "chan_from_num spans pseudos n = find (\<lambda>c. channo c = n) (all_channels spans pseudos)"
proof -
  have "below k (2 ^ 31) spans" using assms(2) by (force simp: below_def)
  then have sp: "chan_from_spans spans n = find (\<lambda>c. channo c = n) (concat (map rs_chans spans))"
    by (intro chan_from_spans_find [OF assms(1)]) auto
  have ps: "find (\<lambda>c. channo c mod 2 ^ 32 = n mod 2 ^ 32) pseudos = find (\<lambda>c. channo c = n) pseudos"
    using assms(3-5) by (intro find_cong) (auto simp: pseudos_ok_def)
  show ?thesis
  proof (cases "FIRST_PSEUDO_CHANNEL \<le> n")
    case True
    have "find (\<lambda>c. channo c = n) (concat (map rs_chans spans)) = None"
      using assms(2) True by (force simp: find_None_iff below_def)
    with True ps assms(4,5) show ?thesis
      by (simp add: chan_from_num_def all_channels_def find_append)
  next
    case False
    have "find (\<lambda>c. channo c = n) pseudos = None"
      using assms(3) False by (auto simp: find_None_iff pseudos_ok_def)
    with False sp assms(4,5) show ?thesis
      by (simp add: chan_from_num_def all_channels_def find_append split: option.splits)
  qed
qed

text \<open>C7. Looking a channel up by its number, through the base number of each span, finds the
  channel that has the number and only that one, on spans and among the pseudo channels.\<close>

theorem chan_from_num_correct:
  assumes "numbered 1 1 spans" and "below k FIRST_PSEUDO_CHANNEL spans" and "pseudos_ok pseudos"
    and "0 \<le> n" and "n < 2 ^ 31"
  shows "chan_from_num spans pseudos n = find (\<lambda>c. channo c = n) (all_channels spans pseudos)"
  using assms by (rule chan_from_num_find)

section \<open>Properties\<close>

definition demo_chan :: "int \<Rightarrow> chan_ev" where
  "demo_chan n = \<lparr>channo = n, chanpos = 1, chan_flags = {}, sig = 0, sigcap = 0, chan_alarms = 0,
     chan_span = None, idlebits = 0, drv_calls = [],
     eventinidx = 0, eventoutidx = 0, eventbuf = replicate 64 0, iomask = 0\<rparr>"

definition no_ops :: span_ops where
  "no_ops = \<lparr>op_rbsbits = None, op_hooksig = None, op_sethook = None, op_open = None,
     op_close = None, op_chanconfig = None, op_dacs = None,
     op_enable_hw_preechocan = None, op_disable_hw_preechocan = False, op_hdlc_hard_xmit = False\<rparr>"

definition demo_span :: "int \<Rightarrow> nat \<Rightarrow> chan_ev list \<Rightarrow> chan_ev reg_span" where
  "demo_span no i cs = \<lparr>spanno = no, span_flags = {}, span_deflaw = 1, span_alarms = 0,
     span_operations = no_ops, span_id = i, rs_chans = cs, lastalarms = 0, linecompat = 0,
     cannot_provide_timing = False, maintstat = 0, mainttimer = 0\<rparr>"

definition demo_spans :: "chan_ev reg_span list" where
  "demo_spans = [demo_span 1 1 [demo_chan 1, demo_chan 2], demo_span 3 3 [demo_chan 7]]"

lemma demo_spans_ok: "numbered 1 1 demo_spans" "below 100 100 demo_spans"
  by (auto simp: demo_spans_def demo_span_def demo_chan_def consecutive_def below_def nth_Cons')

theorem chan_from_num_correct_witness:
  "chan_from_num demo_spans [demo_chan 0x8000] 7 = Some (demo_chan 7)"
proof -
  have "below 100 FIRST_PSEUDO_CHANNEL demo_spans"
    using demo_spans_ok(2) by (force simp: below_def)
  from chan_from_num_correct [OF demo_spans_ok(1) this, of "[demo_chan 0x8000]" 7]
  show ?thesis
    by (simp add: pseudos_ok_def all_channels_def demo_spans_def demo_span_def demo_chan_def)
qed

text \<open>C8. A span registered without a wanted number always gets a place: the list with the span
  inserted still has unique increasing span numbers, and the channels are numbered
  consecutively without overlapping those of any other span.\<close>

theorem assign_span_keeps_numbering:
  assumes "numbered 1 1 spans" and "rs_chans s \<noteq> []"
    and "below (2 ^ 31 - 1) (2 ^ 31 - int (length (rs_chans s))) spans"
    and "int (length (rs_chans s)) < 2 ^ 31"
  shows "\<exists>s'. assign_spanno_and_basechan spans s = Some s' \<and> 1 \<le> spanno s' \<and>
    numbered 1 1 (add_span_to_span_list s' spans)"
proof -
  obtain no base where "assign_loop spans (int (length (rs_chans s))) 1 1 = Some (no, base)"
    "1 \<le> no" "numbered 1 1 (add_span_to_span_list (set_spanno_and_basechan s no base) spans)"
    using assign_loop_fits [OF assms(2) refl assms(1,3)] assms(4) by auto
  then show ?thesis by (simp add: assign_spanno_and_basechan_def)
qed

theorem assign_span_keeps_numbering_witness:
  "\<exists>s'. assign_spanno_and_basechan demo_spans (demo_span 0 9 [demo_chan 0, demo_chan 0]) = Some s' \<and>
     1 \<le> spanno s' \<and> numbered 1 1 (add_span_to_span_list s' demo_spans)"
proof -
  have "below (2 ^ 31 - 1) (2 ^ 31 - int (length (rs_chans (demo_span 0 9 [demo_chan 0, demo_chan 0])))) demo_spans"
    using demo_spans_ok(2) by (fastforce simp: below_def demo_span_def)
  from assign_span_keeps_numbering [OF demo_spans_ok(1) _ this] show ?thesis
    by (simp add: demo_span_def)
qed

text \<open>C9. A span registered with a wanted number that is not in use is accepted only where the
  numbering invariant is kept.\<close>

theorem check_span_keeps_numbering:
  assumes "numbered 1 1 spans" and "rs_chans s \<noteq> []" and "below k (2 ^ 31) spans"
    and "1 \<le> no" and "1 \<le> base" and "base + int (length (rs_chans s)) \<le> 2 ^ 31"
    and "no \<notin> spanno ` set spans"
    and "check_spanno_and_basechan spans s no base = (0, s')"
  shows "numbered 1 1 (add_span_to_span_list s' spans)"
proof -
  from assms(8) have "check_loop spans (int (length (rs_chans s))) no base"
    and "s' = set_spanno_and_basechan s no base"
    by (auto simp: check_spanno_and_basechan_def split: if_splits)
  with check_loop_fits [OF assms(2) refl _ assms(6) assms(1,3,4,5)] assms(5,7) show ?thesis
    by auto
qed

theorem check_span_keeps_numbering_witness:
  "numbered 1 1 (add_span_to_span_list
     (set_spanno_and_basechan (demo_span 0 9 [demo_chan 0, demo_chan 0]) 2 4) demo_spans)"
  by (rule check_span_keeps_numbering [of demo_spans "demo_span 0 9 [demo_chan 0, demo_chan 0]" 100 2 4])
     (use demo_spans_ok in \<open>force simp: below_def demo_span_def demo_spans_def demo_chan_def
        check_spanno_and_basechan_def u32_add_def\<close>)+

text \<open>
  Without the premise that the number is free the conclusion fails: a number in use is
  accepted again whenever the base channel is high enough.
\<close>

lemma check_span_accepts_taken_number:
  "fst (check_spanno_and_basechan demo_spans (demo_span 0 9 [demo_chan 0]) 1 5) = 0"
  by (simp add: check_spanno_and_basechan_def demo_spans_def demo_span_def demo_chan_def u32_add_def)

text \<open>Pseudo channels.\<close>

lemma pseudo_slot_gap:
  assumes "sorted_wrt (<) (map channo ps)" and "\<forall>p \<in> set ps. n \<le> channo p"
    and "pseudo_slot n ps = (m, before, after)"
  shows "ps = before @ after \<and> n \<le> m \<and> m \<le> n + int (length ps) \<and>
    (\<forall>p \<in> set before. channo p < m) \<and> (\<forall>p \<in> set after. m < channo p) \<and>
    m = n + int (length before)"
  using assms
proof (induction n ps arbitrary: m before after rule: pseudo_slot.induct)
  case (2 n p ps)
  show ?case
  proof (cases "n = channo p")
    case True
    obtain m' b' a' where r: "pseudo_slot (n + 1) ps = (m', b', a')" by (cases "pseudo_slot (n + 1) ps")
    from "2.prems" True have "\<forall>q \<in> set ps. n + 1 \<le> channo q" by auto
    with "2.IH" [of m' b' a'] r True "2.prems" show ?thesis by (auto simp: Let_def)
  next
    case False
    with "2.prems" have "n < channo p" by auto
    with False "2.prems" show ?thesis by force
  qed
qed auto

text \<open>C10. A new pseudo channel gets the lowest free number from 0x8000 up, the list stays sorted
  and free of duplicates, and no more pseudo channels than the limit exist.\<close>

theorem alloc_pseudo_lowest_free:
  assumes "pseudos_ok ps" and "alloc_pseudo limit fresh ps = Some (c, ps')" and "length ps < 2 ^ 30"
  shows "pseudos_ok ps' \<and> length ps' = length ps + 1 \<and> length ps' \<le> limit \<and> c \<in> set ps' \<and>
    channo c \<notin> channo ` set ps \<and> chanpos c = channo c - FIRST_PSEUDO_CHANNEL + 1 \<and>
    (\<forall>n. FIRST_PSEUDO_CHANNEL \<le> n \<and> n < channo c \<longrightarrow> n \<in> channo ` set ps)"
proof -
  obtain m b a where sl: "pseudo_slot FIRST_PSEUDO_CHANNEL ps = (m, b, a)"
    by (cases "pseudo_slot FIRST_PSEUDO_CHANNEL ps")
  from assms(1) have so: "sorted_wrt (<) (map channo ps)" "\<forall>p \<in> set ps. FIRST_PSEUDO_CHANNEL \<le> channo p"
    by (auto simp: pseudos_ok_def)
  from pseudo_slot_gap [OF so sl] have g: "ps = b @ a" "FIRST_PSEUDO_CHANNEL \<le> m"
    "m \<le> FIRST_PSEUDO_CHANNEL + int (length ps)" "\<forall>p \<in> set b. channo p < m"
    "\<forall>p \<in> set a. m < channo p" "m = FIRST_PSEUDO_CHANNEL + int (length b)" by auto
  from assms(2) sl have c: "limit > length ps" "channo c = m" "chanpos c = m - FIRST_PSEUDO_CHANNEL + 1"
    "ps' = b @ c # a"
    by (auto simp: alloc_pseudo_def Let_def split: if_splits)
  have "\<forall>n. FIRST_PSEUDO_CHANNEL \<le> n \<and> n < m \<longrightarrow> n \<in> channo ` set b"
  proof (intro allI impI)
    fix n assume n: "FIRST_PSEUDO_CHANNEL \<le> n \<and> n < m"
    have "card (channo ` set b) = length b"
      using so g(1) distinct_card [of "map channo b"] by (simp add: strict_sorted_iff)
    moreover have "channo ` set b \<subseteq> {FIRST_PSEUDO_CHANNEL..<m}" using g so by auto
    ultimately have "channo ` set b = {FIRST_PSEUDO_CHANNEL..<m}"
      using g(6) by (intro card_subset_eq) auto
    with n show "n \<in> channo ` set b" by auto
  qed
  with c g so assms show ?thesis
    by (auto simp: pseudos_ok_def sorted_wrt_append)
qed


theorem alloc_pseudo_lowest_free_witness:
  "\<exists>c ps'. alloc_pseudo 512 (demo_chan 0) [demo_chan 0x8000, demo_chan 0x8002] = Some (c, ps') \<and>
     channo c = 0x8001 \<and> length ps' = 3"
proof -
  have ok: "pseudos_ok [demo_chan 0x8000, demo_chan 0x8002]" by (simp add: pseudos_ok_def demo_chan_def)
  obtain c ps' where a: "alloc_pseudo 512 (demo_chan 0) [demo_chan 0x8000, demo_chan 0x8002] = Some (c, ps')"
    and n: "channo c = 0x8001"
    by (simp add: alloc_pseudo_def demo_chan_def Let_def)
  from alloc_pseudo_lowest_free [OF ok a] a n show ?thesis by auto
qed

text \<open>Timing master.\<close>

definition may_provide :: "('c, 'b) reg_span_scheme \<Rightarrow> bool" where
  "may_provide s \<longleftrightarrow> \<not> cannot_provide_timing s \<and> span_alarms s = 0 \<and>
     (0 < linecompat s \<longrightarrow> FLAG_RUNNING \<in> span_flags s)"

definition may_replace :: "nat option \<Rightarrow> ('c, 'b) reg_span_scheme \<Rightarrow> bool" where
  "may_replace master s \<longleftrightarrow> \<not> cannot_provide_timing s \<and> master \<noteq> Some (span_id s) \<and> (master \<noteq> None \<longrightarrow> may_provide s)"

lemma find_master_loop_find:
  "find_master_loop master ss = (case find (may_replace master) ss of None \<Rightarrow> master | Some s \<Rightarrow> Some (span_id s))"
  by (induction ss) (auto simp: may_replace_def may_provide_def)

text \<open>C11. The timing master is replaced by the first span of the list that may replace it, and stays when there is none:
  a span may replace a master if it is another one, able to provide timing, free of alarms and, when it is digital,
  running; when there was no master any span able to provide timing may. So a healthy master too is replaced.\<close>

theorem find_master_span_selects:
  "(find_master_span spans master = master \<and> (\<forall>s \<in> set spans. \<not> may_replace master s)) \<or>
   (\<exists>xs s ys. spans = xs @ s # ys \<and> find_master_span spans master = Some (span_id s) \<and>
      \<not> cannot_provide_timing s \<and> master \<noteq> Some (span_id s) \<and>
      (master \<noteq> None \<longrightarrow> span_alarms s = 0 \<and> (0 < linecompat s \<longrightarrow> FLAG_RUNNING \<in> span_flags s)) \<and>
      (\<forall>t \<in> set xs. \<not> may_replace master t))"
proof (cases "find (may_replace master) spans")
  case None
  then have "find_master_span spans master = master" "\<forall>s \<in> set spans. \<not> may_replace master s"
    by (simp_all add: find_master_span_def find_master_loop_find) (simp add: find_None_iff)
  then show ?thesis by blast
next
  case (Some s)
  then obtain xs ys where s: "spans = xs @ s # ys" "may_replace master s" "\<forall>t \<in> set xs. \<not> may_replace master t"
    by (auto simp: find_Some_iff) (metis id_take_nth_drop in_set_conv_nth length_take less_imp_le_nat min.absorb2 nth_take)
  have "find_master_span spans master = Some (span_id s)" using Some by (simp add: find_master_span_def find_master_loop_find)
  with s show ?thesis by (fastforce simp: may_replace_def may_provide_def)
qed

theorem find_master_span_selects_witness:
  "find_master_span [demo_span 1 1 [], demo_span 2 2 [], demo_span 3 3 []] (Some 1) = Some 2"
proof -
  let ?ss = "[demo_span 1 1 [], demo_span 2 2 [], demo_span 3 3 []] :: chan_ev reg_span list"
  have m: "may_replace (Some 1) (demo_span 2 2 [])" "\<not> may_replace (Some 1) (demo_span 1 1 [])"
    by (simp_all add: may_replace_def may_provide_def demo_span_def)
  from find_master_span_selects [of ?ss "Some 1"] m(1) obtain xs s ys where
    s: "?ss = xs @ s # ys" "find_master_span ?ss (Some 1) = Some (span_id s)" "Some 1 \<noteq> Some (span_id s)" "\<forall>t \<in> set xs. \<not> may_replace (Some 1) t"
    by auto
  have "xs = [demo_span 1 1 []]"
    using s(1,3,4) m(1) by (auto simp: Cons_eq_append_conv demo_span_def)
  with s(1) have "span_id s = 2" by (auto simp: demo_span_def)
  with s(2) show ?thesis by simp
qed

text \<open>Removing a span that is not the master moves the master as well.\<close>

lemma unassign_master_moves:
  "unassign_master 9 [demo_span 1 1 [], demo_span 2 2 []] (Some 1) = Some 2"
  by (simp add: unassign_master_def demo_span_def)

text \<open>Alarms.\<close>

lemma alarm_channel_alarms [simp]: "chan_alarms (alarm_channel a c) = a"
  by (simp add: alarm_channel_def)

text \<open>C12. Alarms reach the channels when, and only when, the span enters or leaves the state of
  having any alarm: the alarms are those of the board, with the loopback bit on exactly during maintenance; then each
  channel takes them over and, unless it had just them already, is told by one event, and a search for a new
  master is scheduled; otherwise no channel changes.\<close>

theorem alarm_notify_channels:
  assumes "alarm_notify s = (s', sched)"
  shows "(\<forall>k. bit (span_alarms s') k = (if k = 1 then maintstat s \<noteq> 0 \<or> mainttimer s \<noteq> 0 else bit (span_alarms s) k)) \<and>
    sched = ((span_alarms s' = 0) \<noteq> (lastalarms s = 0)) \<and>
    lastalarms s' = (if sched then span_alarms s' else lastalarms s) \<and>
    rs_chans s' = (if sched then map (\<lambda>c. if chan_alarms c = span_alarms s' then c
        else qevent (c\<lparr>chan_alarms := span_alarms s'\<rparr>)
               (if span_alarms s' \<noteq> 0 then EVENT_ALARM else EVENT_NOALARM)) (rs_chans s)
      else rs_chans s)"
proof -
  have a: "span_alarms s' = (if maintstat s \<noteq> 0 \<or> mainttimer s \<noteq> 0
      then span_alarms s AND NOT ALARM_LOOPBACK OR ALARM_LOOPBACK else span_alarms s AND NOT ALARM_LOOPBACK)"
    using assms by (auto simp: alarm_notify_def Let_def split: if_splits)
  have two: "bit (2 :: u32) k = (k = 1)" for k using bit_exp_iff [of 1 k, where 'a = u32] by (cases "k = 1") simp_all
  have bits: "bit (x AND NOT (2 :: u32)) k = (k \<noteq> 1 \<and> bit x k)" "bit (x AND NOT (2 :: u32) OR 2) k = (k = 1 \<or> bit x k)" for x :: u32 and k
    using bit_imp_le_length [of x k] by (auto simp: bit_simps two)
  have "bit (span_alarms s') k = (if k = 1 then maintstat s \<noteq> 0 \<or> mainttimer s \<noteq> 0 else bit (span_alarms s) k)" for k
    unfolding a by (simp only: bits split: if_split) auto
  with assms show ?thesis
    by (auto simp: alarm_notify_def Let_def alarm_channel_def [abs_def] split: if_splits)
qed

theorem alarm_notify_channels_witness:
  "map chan_alarms (rs_chans (fst (alarm_notify
     ((demo_span 1 1 [demo_chan 1, demo_chan 2])\<lparr>span_alarms := ALARM_RED, maintstat := 1\<rparr>)))) = [ALARM_RED OR ALARM_LOOPBACK, ALARM_RED OR ALARM_LOOPBACK]"
proof -
  let ?s = "(demo_span 1 1 [demo_chan 1, demo_chan 2])\<lparr>span_alarms := ALARM_RED, maintstat := 1\<rparr>"
  obtain s' sched where n: "alarm_notify ?s = (s', sched)" by fastforce
  have k: "bit (span_alarms s') k = (if k = 1 then True else bit (8 :: u32) k)" for k
    using alarm_notify_channels [OF n] by (simp add: demo_span_def)
  have "bit (2 :: u32) k = (k = 1)" for k using bit_exp_iff [of 1 k, where 'a = u32] by (cases "k = 1") simp_all
  with k have "bit (span_alarms s') k = bit (8 OR 2 :: u32) k" for k by (simp only: bit_or_iff) auto
  then have "span_alarms s' = 8 OR 2" by (intro bit_eqI) blast
  with alarm_notify_channels [OF n] n show ?thesis
    by (simp add: demo_span_def demo_chan_def)
qed

end
