(* ===== verification/Buffers.thy ===== *)
theory Buffers
  imports Dial FastHdlc Registry
begin

text \<open>
  The read and write buffers of a channel in \<^verbatim>\<open>dahdi-base.c\<close>: their allocation
  (\<open>dahdi_reallocbufs\<close>), the system calls \<open>read\<close> and \<open>write\<close>, the chunks received into
  them (\<open>__putbuf_chunk\<close>) and sent from them (\<open>__dahdi_getbuf_chunk\<close>), the frames of boards
  with their own HDLC controller (\<open>dahdi_hdlc_putbuf\<close>, \<open>_finish\<close>, \<open>_getbuf\<close>, \<open>_abort\<close>) and
  the requests about buffers. Both rings use \<open>-1\<close> for ``none'', as in \<open>IndexRings\<close>.
\<close>

section \<open>State\<close>

abbreviation (input) MAX_BLOCKSIZE :: int where "MAX_BLOCKSIZE \<equiv> 8192"
abbreviation (input) MAX_NUM_BUFS :: int where "MAX_NUM_BUFS \<equiv> 32"
abbreviation (input) MAX_BUF_SPACE :: int where "MAX_BUF_SPACE \<equiv> 32768"
abbreviation (input) POLICY_IMMEDIATE :: int where "POLICY_IMMEDIATE \<equiv> 0"
abbreviation (input) POLICY_WHEN_FULL :: int where "POLICY_WHEN_FULL \<equiv> 1"
abbreviation (input) POLICY_HALF_FULL :: int where "POLICY_HALF_FULL \<equiv> 2"
abbreviation (input) ELAST :: int where "ELAST \<equiv> 500"

text \<open>The frame check sequence of PPP comes from the kernel; its two constants are documented there.\<close>

abbreviation (input) PPP_INITFCS :: int where "PPP_INITFCS \<equiv> 0xffff"
abbreviation (input) PPP_GOODFCS :: int where "PPP_GOODFCS \<equiv> 0xf0b8"

text \<open>
  \<open>readbuf\<close> and \<open>writebuf\<close> are the arrays of \<open>numbufs\<close> pointers, each to \<open>blocksize\<close> octets, or
  \<open>None\<close> when nothing is allocated. \<open>readchunk\<close> and \<open>writechunk\<close> are the octets the board
  received and will send.
\<close>

record chan_buf = chan_tone +
  readchunk :: "u8 list"
  writechunk :: "u8 list"
  readbuf :: "u8 list list option"
  inreadbuf :: int
  outreadbuf :: int
  writebuf :: "u8 list list option"
  inwritebuf :: int
  outwritebuf :: int
  blocksize :: int
  readn :: "int list"
  readidx :: "int list"
  writen :: "int list"
  writeidx :: "int list"
  numbufs :: int
  txbufpolicy :: int
  txdisable :: bool
  txhdlc :: fasthdlc_state
  rxhdlc :: fasthdlc_state
  infcs :: int

definition fill_0 :: "int \<Rightarrow> int list \<Rightarrow> int list" where
  "fill_0 n xs = replicate (min (nat n) (length xs)) 0 @ drop (nat n) xs"

text \<open>Copying \<open>d\<close> into \<open>buf\<close> at position \<open>i\<close>.\<close>

definition copy_at :: "nat \<Rightarrow> u8 list \<Rightarrow> u8 list \<Rightarrow> u8 list" where
  "copy_at i d buf = take i buf @ d @ drop (i + length d) buf"

section \<open>Allocation\<close>

definition reallocbufs :: "bool \<Rightarrow> int \<Rightarrow> int \<Rightarrow> 'a chan_buf_scheme \<Rightarrow> int \<times> 'a chan_buf_scheme" where
  "reallocbufs alloc bsize nbufs c =
     (let nbufs = (if nbufs < 2 then 2 else nbufs);
          nbufs = (if nbufs > MAX_NUM_BUFS then MAX_NUM_BUFS else nbufs) in
      if bsize \<noteq> 0 \<and> \<not> alloc then (- ENOMEM, c)
      else
        (let bufs = (if bsize \<noteq> 0 then Some (replicate (nat nbufs) (replicate (nat bsize) 0)) else None);
             inidx = (if bsize \<noteq> 0 then 0 else -1)
         in (0, c\<lparr>blocksize := bsize, readbuf := bufs, writebuf := bufs,
                  writen := fill_0 nbufs (writen c), writeidx := fill_0 nbufs (writeidx c),
                  readn := fill_0 nbufs (readn c), readidx := fill_0 nbufs (readidx c),
                  inreadbuf := inidx, inwritebuf := inidx, outreadbuf := -1, outwritebuf := -1,
                  numbufs := nbufs,
                  txdisable := (txbufpolicy c = POLICY_WHEN_FULL \<or> txbufpolicy c = POLICY_HALF_FULL)\<rparr>)))"

record dahdi_bufferinfo =
  bi_txbufpolicy :: int
  bi_rxbufpolicy :: int
  bi_numbufs :: int
  bi_bufsize :: int
  bi_readbufs :: int
  bi_writebufs :: int

definition get_bufinfo :: "'a chan_buf_scheme \<Rightarrow> dahdi_bufferinfo" where
  "get_bufinfo c = \<lparr>bi_txbufpolicy = txbufpolicy c, bi_rxbufpolicy = POLICY_IMMEDIATE, bi_numbufs = numbufs c,
     bi_bufsize = blocksize c, bi_readbufs = -1, bi_writebufs = -1\<rparr>"

definition set_bufinfo :: "bool \<Rightarrow> dahdi_bufferinfo option \<Rightarrow> 'a chan_buf_scheme \<Rightarrow> int \<times> 'a chan_buf_scheme" where
  "set_bufinfo alloc arg c = (case arg of
     None \<Rightarrow> (- EFAULT, c)
   | Some bi \<Rightarrow>
      (if bi_bufsize bi > MAX_BLOCKSIZE then (- EINVAL, c)
       else if bi_bufsize bi < 16 then (- EINVAL, c)
       else if i32 (bi_bufsize bi * bi_numbufs bi) > MAX_BUF_SPACE then (- EINVAL, c)
       else reallocbufs alloc (bi_bufsize bi) (bi_numbufs bi)
              (c\<lparr>txbufpolicy := bi_txbufpolicy bi AND 3\<rparr>)))"

definition set_blocksize :: "bool \<Rightarrow> int \<Rightarrow> 'a chan_buf_scheme \<Rightarrow> int \<times> 'a chan_buf_scheme" where
  "set_blocksize alloc j c =
     (if j > MAX_BLOCKSIZE then (- EINVAL, c)
      else if j < 16 then (- EINVAL, c)
      else reallocbufs alloc j (numbufs c) c)"

definition ioctl_flush :: "int \<Rightarrow> 'a chan_buf_scheme \<Rightarrow> 'a chan_buf_scheme" where
  "ioctl_flush i c =
     (let c = (if i AND 1 \<noteq> 0 then c\<lparr>inreadbuf := 0, outreadbuf := -1, readn := fill_0 (numbufs c) (readn c),
                 readidx := fill_0 (numbufs c) (readidx c)\<rparr> else c);
          c = (if i AND 2 \<noteq> 0 then c\<lparr>outwritebuf := -1, inwritebuf := 0, writen := fill_0 (numbufs c) (writen c),
                 writeidx := fill_0 (numbufs c) (writeidx c)\<rparr> else c)
      in if i AND 4 \<noteq> 0 then flush_events c else c)"

section \<open>Reading\<close>

text \<open>
  What a system call does: it returns a number, with the octets copied to the user, or it sleeps.
  A linear sample is two octets, the low one first.
\<close>

datatype io_result = Ret int "u8 list" | Sleep

definition sample_bytes :: "int \<Rightarrow> u8 list" where
  "sample_bytes s = [word_of_int s, word_of_int (s div 256)]"

definition bytes_sample :: "u8 \<Rightarrow> u8 \<Rightarrow> int" where
  "bytes_sample lo hi = short (uint lo + 256 * uint hi)"

definition read_advance :: "int \<Rightarrow> 'a chan_buf_scheme \<Rightarrow> 'a chan_buf_scheme" where
  "read_advance res c =
     (let c = c\<lparr>readidx := (readidx c)[nat res := 0], readn := (readn c)[nat res := 0],
               outreadbuf := (res + 1) mod numbufs c\<rparr>;
          c = (if outreadbuf c = inreadbuf c then c\<lparr>outreadbuf := -1\<rparr> else c)
      in if inreadbuf c < 0 then c\<lparr>inreadbuf := res\<rparr> else c)"

definition chan_read :: "bool \<Rightarrow> bool \<Rightarrow> int \<Rightarrow> 'a chan_buf_scheme \<Rightarrow> (io_result \<times> 'a chan_buf_scheme) option" where
  "chan_read uok nonblock count c =
     (let count = count mod 65536 in
      if count < 1 then Some (Ret (- EINVAL) [], c)
      else if eventinidx c \<noteq> eventoutidx c then Some (Ret (- ELAST) [], c)
      else if outreadbuf c < 0 then Some (if nonblock then Ret (- EAGAIN) [] else Sleep, c)
      else
        (let res = outreadbuf c; n = readn c ! nat res in
         case readbuf c of
           None \<Rightarrow> None
         | Some bufs \<Rightarrow>
            (let linear = (FLAG_LINEAR \<in> chan_flags c);
                 amnt = (if linear then (if count > n * 2 then n * 2 else count)
                         else (if count > n then n else count));
                 data = (if linear
                         then concat (map (\<lambda>x. sample_bytes (DAHDI_XLAW x (xlaw c))) (take (nat (amnt div 2)) (bufs ! nat res)))
                         else take (nat amnt) (bufs ! nat res))
             in if data \<noteq> [] \<and> \<not> uok then Some (Ret (- EFAULT) [], c)
                else Some (Ret amnt data, read_advance res c))))"

section \<open>Writing\<close>

text \<open>A parameter \<open>ppp_fcs\<close> stands for the kernel's table-driven step of the check sequence.\<close>

definition fcs_of :: "(int \<Rightarrow> u8 \<Rightarrow> int) \<Rightarrow> u8 list \<Rightarrow> int" where
  "fcs_of ppp_fcs ds = foldl ppp_fcs PPP_INITFCS ds"

definition calc_fcs :: "(int \<Rightarrow> u8 \<Rightarrow> int) \<Rightarrow> int \<Rightarrow> u8 list \<Rightarrow> u8 list" where
  "calc_fcs ppp_fcs len data =
     (if len < 2 then data
      else
        (let fcs = fcs_of ppp_fcs (take (nat (len - 2)) data) XOR 0xffff
         in data[nat (len - 2) := word_of_int (fcs AND 0xff), nat (len - 1) := word_of_int ((fcs div 256) AND 0xff)]))"

definition num_filled_bufs :: "'a chan_buf_scheme \<Rightarrow> int" where
  "num_filled_bufs c =
     (if inwritebuf c < 0 then numbufs c
      else if outwritebuf c < 0 then 0
      else if outwritebuf c \<le> inwritebuf c then inwritebuf c - outwritebuf c
      else (numbufs c - outwritebuf c) + inwritebuf c)"

text \<open>A write stops the tone or the digits being sent.\<close>

definition write_stops_tone :: "'a chan_buf_scheme \<Rightarrow> 'a chan_buf_scheme" where
  "write_stops_tone c =
     (if (curtone c \<noteq> None \<or> pdialcount c \<noteq> 0) \<and> \<not> is_pseudo_chan c
      then c\<lparr>curtone := None, tonep := 0, dialing := False, txdialbuf := [], pdialcount := 0\<rparr> else c)"

fun samples_of :: "law \<Rightarrow> u8 list \<Rightarrow> u8 list" where
  "samples_of l (lo # hi # bs) = DAHDI_LIN2X (bytes_sample lo hi) l # samples_of l bs"
| "samples_of l _ = []"

definition write_advance :: "int \<Rightarrow> 'a chan_buf_scheme \<Rightarrow> 'a chan_buf_scheme" where
  "write_advance res c =
     (let c = c\<lparr>inwritebuf := (res + 1) mod numbufs c\<rparr>;
          c = (if inwritebuf c = outwritebuf c then c\<lparr>inwritebuf := -1, txdisable := False\<rparr> else c);
          c = (if outwritebuf c < 0 then c\<lparr>outwritebuf := res\<rparr> else c)
      in if txbufpolicy c = POLICY_HALF_FULL \<and> txdisable c \<and> num_filled_bufs c \<ge> numbufs c div 2
         then c\<lparr>txdisable := False\<rparr> else c)"

definition hard_xmit :: "'a chan_buf_scheme \<Rightarrow> 'a chan_buf_scheme" where
  "hard_xmit c =
     (if FLAG_NOSTDTXRX \<in> chan_flags c \<and> (case chan_span c of Some s \<Rightarrow> op_hdlc_hard_xmit (span_operations s) | None \<Rightarrow> False)
      then drv_log Drv_hdlc_hard_xmit c else c)"

text \<open>The octets of the user go into the free buffer \<open>res\<close>; \<open>usr\<close> are at least \<open>count\<close> octets.\<close>

definition write_buffer :: "(int \<Rightarrow> u8 \<Rightarrow> int) \<Rightarrow> int \<Rightarrow> int \<Rightarrow> u8 list \<Rightarrow> 'a chan_buf_scheme \<Rightarrow> 'a chan_buf_scheme option" where
  "write_buffer ppp_fcs res amnt usr c = (case writebuf c of
     None \<Rightarrow> None
   | Some bufs \<Rightarrow>
      (let data = (if FLAG_LINEAR \<in> chan_flags c then samples_of (xlaw c) (take (2 * nat (amnt div 2)) usr)
                   else take (nat amnt) usr);
           n = int (length data);
           buf = copy_at 0 data (bufs ! nat res);
           buf = (if FLAG_FCS \<in> chan_flags c then calc_fcs ppp_fcs n buf else buf)
       in Some (write_advance res (c\<lparr>writebuf := Some (bufs[nat res := buf]),
                  writen := (writen c)[nat res := n], writeidx := (writeidx c)[nat res := 0]\<rparr>))))"

definition chan_write :: "(int \<Rightarrow> u8 \<Rightarrow> int) \<Rightarrow> bool \<Rightarrow> bool \<Rightarrow> int \<Rightarrow> u8 list \<Rightarrow> 'a chan_buf_scheme \<Rightarrow>
    (io_result \<times> 'a chan_buf_scheme) option" where
  "chan_write ppp_fcs uok nonblock count usr c =
     (let count = count mod 65536 in
      if count < 1 then Some (Ret (- EINVAL) [], c)
      else
        (let c = write_stops_tone c in
         if eventinidx c \<noteq> eventoutidx c then Some (Ret (- ELAST) [], c)
         else if inwritebuf c < 0 then Some (if nonblock then Ret (- EAGAIN) [] else Sleep, c)
         else
           (let res = inwritebuf c;
                space = (if FLAG_LINEAR \<in> chan_flags c then blocksize c * 2 else blocksize c);
                amnt = (if count > space then space else count) in
            if amnt = 0 then Some (Ret 0 [], c)
            else if \<not> uok \<and> (FLAG_LINEAR \<in> chan_flags c \<longrightarrow> amnt div 2 \<noteq> 0) then Some (Ret (- EFAULT) [], c)
            else map_option (\<lambda>c. (Ret amnt [], hard_xmit c)) (write_buffer ppp_fcs res amnt usr c))))"

section \<open>Receiving\<close>

text \<open>
  De-framing up to \<open>left\<close> octets: the octets that remain, whether a frame has ended, the event of
  an error (or 0) and the channel. The loop stops at the end of a frame and at an error.
\<close>

definition rx_idx :: "'a chan_buf_scheme \<Rightarrow> int" where
  "rx_idx c = readidx c ! nat (inreadbuf c)"

definition set_rx_idx :: "int \<Rightarrow> 'a chan_buf_scheme \<Rightarrow> 'a chan_buf_scheme" where
  "set_rx_idx i c = c\<lparr>readidx := (readidx c)[nat (inreadbuf c) := i]\<rparr>"

definition store_octets :: "u8 list \<Rightarrow> 'a chan_buf_scheme \<Rightarrow> 'a chan_buf_scheme option" where
  "store_octets ds c = (case readbuf c of
     None \<Rightarrow> if ds = [] then Some c else None
   | Some bufs \<Rightarrow>
      (let i = nat (inreadbuf c) in
       Some (set_rx_idx (rx_idx c + int (length ds))
         (c\<lparr>readbuf := Some (bufs[i := copy_at (nat (rx_idx c)) ds (bufs ! i)])\<rparr>))))"

fun rx_hdlc :: "(int \<Rightarrow> u8 \<Rightarrow> int) \<Rightarrow> nat \<Rightarrow> u8 list \<Rightarrow> 'a chan_buf_scheme \<Rightarrow>
    (u8 list \<times> bool \<times> int \<times> 'a chan_buf_scheme) option" where
  "rx_hdlc ppp_fcs (Suc left) (b # rxb) c =
     (let (h, res) = fasthdlc_rx_run (fst (fasthdlc_rx_load_nocheck (rxhdlc c) b));
          c = c\<lparr>rxhdlc := h\<rparr> in
      if res AND RETURN_EMPTY_FLAG \<noteq> 0 then rx_hdlc ppp_fcs left rxb c
      else if res AND RETURN_COMPLETE_FLAG \<noteq> 0 then
        (if rx_idx c \<noteq> 0 then
           (if FLAG_FCS \<in> chan_flags c \<and> infcs c \<noteq> PPP_GOODFCS then Some (rxb, False, EVENT_BADFCS, c)
            else Some (rxb, True, 0, c))
         else rx_hdlc ppp_fcs left rxb c)
      else if res AND RETURN_DISCARD_FLAG \<noteq> 0 then
        (if rx_idx c = 0 then rx_hdlc ppp_fcs left rxb c else Some (rxb, False, EVENT_ABORT, c))
      else
        (case store_octets [word_of_int res] (c\<lparr>infcs := ppp_fcs (infcs c) (word_of_int res)\<rparr>) of
           None \<Rightarrow> None
         | Some c \<Rightarrow>
            (if rx_idx c \<ge> blocksize c then
               Some (rxb, False, EVENT_OVERRUN, set_rx_idx 0 (c\<lparr>rxhdlc := (rxhdlc c)\<lparr>fh_state := 0, fh_bits := 0\<rparr>\<rparr>))
             else rx_hdlc ppp_fcs left rxb c)))"
| "rx_hdlc ppp_fcs _ rxb c = Some (rxb, False, 0, c)"

text \<open>A buffer is complete; on an MTP2 channel a repetition of the previous message is discarded.\<close>

definition rx_advance :: "'a chan_buf_scheme \<Rightarrow> 'a chan_buf_scheme" where
  "rx_advance c =
     (let oldbuf = inreadbuf c;
          c = c\<lparr>inreadbuf := (inreadbuf c + 1) mod numbufs c\<rparr>;
          c = (if inreadbuf c = outreadbuf c then c\<lparr>inreadbuf := -1\<rparr> else c)
      in if outreadbuf c < 0 then c\<lparr>outreadbuf := oldbuf\<rparr> else c)"

definition mtp2_repeated :: "'a chan_buf_scheme \<Rightarrow> bool" where
  "mtp2_repeated c = (case readbuf c of
     None \<Rightarrow> True
   | Some bufs \<Rightarrow>
      (let comparemessage = (inreadbuf c - 1) AND (numbufs c - 1);
           n = nat (readn c ! nat (inreadbuf c))
       in take n (bufs ! nat comparemessage) = take n (bufs ! nat (inreadbuf c))))"

definition rx_frame_end :: "'a chan_buf_scheme \<Rightarrow> 'a chan_buf_scheme" where
  "rx_frame_end c =
     (let c = c\<lparr>infcs := PPP_INITFCS, readn := (readn c)[nat (inreadbuf c) := rx_idx c]\<rparr> in
      if FLAG_MTP2 \<in> chan_flags c \<and> mtp2_repeated c then
        set_rx_idx 0 (c\<lparr>readn := (readn c)[nat (inreadbuf c) := 0]\<rparr>)
      else rx_advance c)"

definition rx_abort :: "bool \<Rightarrow> int \<Rightarrow> 'a chan_buf_scheme \<Rightarrow> 'a chan_buf_scheme" where
  "rx_abort alarms event c =
     (let c = (set_rx_idx 0 c)\<lparr>infcs := PPP_INITFCS\<rparr>
      in if FLAG_OPEN \<in> chan_flags c \<and> \<not> alarms then qevent c event else c)"

text \<open>
  One round of the loop; \<open>nostd\<close> and \<open>alarms\<close> are the flag \<open>NOSTDTXRX\<close> of the channel whose chunk
  this is and whether its span is in alarm (the octets go to its master \<open>c\<close>).
\<close>

definition rx_round :: "(int \<Rightarrow> u8 \<Rightarrow> int) \<Rightarrow> bool \<Rightarrow> bool \<Rightarrow> u8 list \<Rightarrow> 'a chan_buf_scheme \<Rightarrow>
    (u8 list \<times> 'a chan_buf_scheme) option" where
  "rx_round ppp_fcs nostd alarms rxb c =
     (let left = nat (min (blocksize c - rx_idx c) (int (length rxb))) in
      case (if FLAG_HDLC \<in> chan_flags c then rx_hdlc ppp_fcs left rxb c
            else map_option (\<lambda>c.
                   (let eof = (rx_idx c \<ge> blocksize c)
                    in (drop left rxb, eof \<and> \<not> nostd, if eof \<and> nostd then EVENT_OVERRUN else 0, c)))
                 (store_octets (take left rxb) c)) of
        None \<Rightarrow> None
      | Some (rxb, eof, abort, c) \<Rightarrow>
         (let c = (if eof then rx_frame_end c else c)
          in Some (rxb, if abort \<noteq> 0 then rx_abort alarms abort c else c)))"

fun rx_loop :: "(int \<Rightarrow> u8 \<Rightarrow> int) \<Rightarrow> nat \<Rightarrow> bool \<Rightarrow> bool \<Rightarrow> u8 list \<Rightarrow> 'a chan_buf_scheme \<Rightarrow>
    (u8 list \<times> 'a chan_buf_scheme) option" where
  "rx_loop ppp_fcs 0 nostd alarms rxb c = None"
| "rx_loop ppp_fcs (Suc fuel) nostd alarms rxb c =
     (if rxb = [] \<or> inreadbuf c \<le> -1 then Some (rxb, c)
      else (case rx_round ppp_fcs nostd alarms rxb c of
              None \<Rightarrow> None
            | Some (rxb, c) \<Rightarrow> rx_loop ppp_fcs fuel nostd alarms rxb c))"

definition rx_overrun_flag :: "bool \<Rightarrow> 'a chan_buf_scheme \<Rightarrow> 'a chan_buf_scheme" where
  "rx_overrun_flag dropped c =
     (if dropped then
        (if FLAG_RXOVERRUN \<notin> chan_flags c then
           set_flag FLAG_RXOVERRUN (if FLAG_BUFEVENTS \<in> chan_flags c then qevent c EVENT_READ_OVERRUN else c)
         else c)
      else clear_flag FLAG_RXOVERRUN c)"

definition putbuf_chunk :: "(int \<Rightarrow> u8 \<Rightarrow> int) \<Rightarrow> nat \<Rightarrow> bool \<Rightarrow> bool \<Rightarrow> u8 list \<Rightarrow> 'a chan_buf_scheme \<Rightarrow>
    'a chan_buf_scheme option" where
  "putbuf_chunk ppp_fcs fuel nostd alarms rxb c =
     map_option (\<lambda>(rxb, c). rx_overrun_flag (rxb \<noteq> []) c) (rx_loop ppp_fcs fuel nostd alarms rxb c)"

section \<open>Boards with an HDLC controller\<close>

text \<open>\<open>alarms\<close> tells whether the channel's span is in alarm; the master is the channel itself here.\<close>

definition hdlc_abort :: "bool \<Rightarrow> int \<Rightarrow> 'a chan_buf_scheme \<Rightarrow> 'a chan_buf_scheme" where
  "hdlc_abort alarms event c =
     (let c = (if inreadbuf c \<ge> 0 then set_rx_idx 0 c else c)
      in if FLAG_OPEN \<in> chan_flags c \<and> \<not> alarms then qevent c event else c)"

definition hdlc_putbuf :: "bool \<Rightarrow> u8 list \<Rightarrow> 'a chan_buf_scheme \<Rightarrow> 'a chan_buf_scheme option" where
  "hdlc_putbuf alarms rxb c =
     (if inreadbuf c < 0 then Some c
      else
        (let left = min (blocksize c - rx_idx c) (int (length rxb));
             stored = (if left > 0 then store_octets (take (nat left) rxb) c else Some c);
             rest = (if left > 0 then drop (nat left) rxb else rxb)
         in map_option (\<lambda>c. if rest \<noteq> [] then hdlc_abort alarms EVENT_OVERRUN c else c) stored))"

definition hdlc_finish :: "'a chan_buf_scheme \<Rightarrow> 'a chan_buf_scheme" where
  "hdlc_finish c =
     (if inreadbuf c < 0 then c
      else if rx_idx c = 0 then c
      else rx_advance (c\<lparr>readn := (readn c)[nat (inreadbuf c) := rx_idx c]\<rparr>))"

text \<open>The buffer being sent is used up: the transmitter goes to the next one.\<close>

definition tx_idx :: "'a chan_buf_scheme \<Rightarrow> int" where
  "tx_idx c = writeidx c ! nat (outwritebuf c)"

definition tx_len :: "'a chan_buf_scheme \<Rightarrow> int" where
  "tx_len c = writen c ! nat (outwritebuf c)"

definition set_tx_idx :: "int \<Rightarrow> 'a chan_buf_scheme \<Rightarrow> 'a chan_buf_scheme" where
  "set_tx_idx i c = c\<lparr>writeidx := (writeidx c)[nat (outwritebuf c) := i]\<rparr>"

definition disable_when_empty :: "'a chan_buf_scheme \<Rightarrow> 'a chan_buf_scheme" where
  "disable_when_empty c =
     (if txbufpolicy c = POLICY_WHEN_FULL \<or> txbufpolicy c = POLICY_HALF_FULL then c\<lparr>txdisable := True\<rparr> else c)"

definition tx_advance :: "'a chan_buf_scheme \<Rightarrow> 'a chan_buf_scheme" where
  "tx_advance c =
     (let oldbuf = outwritebuf c;
          c = set_tx_idx 0 c;
          c = c\<lparr>outwritebuf := (oldbuf + 1) mod numbufs c\<rparr>;
          c = (if FLAG_MTP2 \<notin> chan_flags c then
                 (let c = c\<lparr>writen := (writen c)[nat oldbuf := 0]\<rparr>
                  in if outwritebuf c = inwritebuf c then disable_when_empty (c\<lparr>outwritebuf := -1\<rparr>) else c)
               else if outwritebuf c = inwritebuf c then disable_when_empty (c\<lparr>outwritebuf := oldbuf\<rparr>)
               else c)
      in if inwritebuf c < 0 then c\<lparr>inwritebuf := oldbuf\<rparr> else c)"

text \<open>
  The next part of a frame for the controller: the result, the octets and their number. The size
  is unsigned, so a frame shorter than its check sequence counts as an endless one; \<open>None\<close> is a
  read past the buffer.
\<close>

definition hdlc_getbuf :: "int \<Rightarrow> 'a chan_buf_scheme \<Rightarrow> (int \<times> u8 list \<times> int \<times> 'a chan_buf_scheme) option" where
  "hdlc_getbuf sz c =
     (if outwritebuf c > -1 then
        (case writebuf c of
           None \<Rightarrow> None
         | Some bufs \<Rightarrow>
            (let left = (tx_len c - tx_idx c - 2) mod 4294967296;
                 eof = (left \<le> sz);
                 sz = (if eof then left else sz)
             in if tx_idx c + sz > blocksize c then None
                else
                  (let data = take (nat sz) (drop (nat (tx_idx c)) (bufs ! nat (outwritebuf c)));
                       c = set_tx_idx (tx_idx c + sz) c
                   in if \<not> eof then Some (0, data, sz, c)
                      else
                        (let oldbuf = outwritebuf c;
                             c = c\<lparr>writeidx := (writeidx c)[nat oldbuf := 0], writen := (writen c)[nat oldbuf := 0],
                                  outwritebuf := (oldbuf + 1) mod numbufs c\<rparr>;
                             last = (outwritebuf c = inwritebuf c);
                             c = (if last then disable_when_empty (c\<lparr>outwritebuf := -1\<rparr>) else c);
                             c = (if inwritebuf c < 0 then c\<lparr>inwritebuf := oldbuf\<rparr> else c)
                         in Some (if last then -1 else 1, data, sz, c)))))
      else Some (-1, [], 0, c))"

section \<open>Transmitting\<close>

text \<open>HDLC: \<open>left\<close> octets leave, and octets of the buffer are taken only when the engine needs them.\<close>

fun tx_hdlc :: "nat \<Rightarrow> u8 list \<Rightarrow> int \<Rightarrow> fasthdlc_state \<Rightarrow> u8 list \<times> int \<times> fasthdlc_state" where
  "tx_hdlc 0 buf i h = ([], i, h)"
| "tx_hdlc (Suc left) buf i h =
     (let (h, i) = (if fasthdlc_tx_need_data h then (fst (fasthdlc_tx_load_nocheck h (buf ! nat i)), i + 1) else (h, i));
          (h, b) = fasthdlc_tx_run_nocheck h;
          (out, i, h) = tx_hdlc left buf i h
      in (word_of_int b # out, i, h))"

text \<open>Sending from the current buffer; the octets sent and the channel after it.\<close>

definition tx_buffer :: "int \<Rightarrow> 'a chan_buf_scheme \<Rightarrow> (u8 list \<times> 'a chan_buf_scheme) option" where
  "tx_buffer bytes c = (case writebuf c of
     None \<Rightarrow> None
   | Some bufs \<Rightarrow>
      (let buf = bufs ! nat (outwritebuf c);
           left = min (tx_len c - tx_idx c) bytes;
           (out, c) = (if FLAG_HDLC \<in> chan_flags c then
                         (let (out, i, h) = tx_hdlc (nat left) buf (tx_idx c) (txhdlc c)
                          in (out, set_tx_idx i (c\<lparr>txhdlc := h\<rparr>)))
                       else (take (nat left) (drop (nat (tx_idx c)) buf), set_tx_idx (tx_idx c + left) c))
       in Some (out,
            if tx_idx c \<ge> tx_len c then
              (let c = tx_advance c
               in if FLAG_HDLC \<in> chan_flags c then c\<lparr>txhdlc := fst (fasthdlc_tx_frame_nocheck (txhdlc c))\<rparr> else c)
            else c)))"

fun tx_flags :: "nat \<Rightarrow> fasthdlc_state \<Rightarrow> u8 list \<times> fasthdlc_state" where
  "tx_flags 0 h = ([], h)"
| "tx_flags (Suc n) h =
     (let h = (if fasthdlc_tx_need_data h then fst (fasthdlc_tx_frame_nocheck h) else h);
          (h, b) = fasthdlc_tx_run_nocheck h;
          (out, h) = tx_flags n h
      in (word_of_int b # out, h))"

text \<open>What an idle channel sends, and whether that counts as an underrun.\<close>

definition tx_idle :: "int \<Rightarrow> 'a chan_buf_scheme \<Rightarrow> u8 list \<times> bool \<times> 'a chan_buf_scheme" where
  "tx_idle bytes c =
     (if FLAG_LOOPED \<in> chan_flags c then (take (nat bytes) (readchunk c), False, c)
      else if FLAG_HDLC \<in> chan_flags c then
        (let (out, h) = tx_flags (nat bytes) (txhdlc c) in (out, False, c\<lparr>txhdlc := h\<rparr>))
      else if FLAG_CLEAR \<in> chan_flags c \<and> FLAG_AUDIO \<notin> chan_flags c then (replicate (nat bytes) 0xff, True, c)
      else (replicate (nat bytes) (DAHDI_LIN2X 0 (xlaw c)), True, c))"

definition tone_of :: "'a chan_buf_scheme \<Rightarrow> tone_ptr option" where
  "tone_of c = (if is_pseudo_chan c then None else curtone c)"

fun tx_loop :: "nat \<Rightarrow> tone_env \<Rightarrow> int \<Rightarrow> 'a chan_buf_scheme \<Rightarrow> (u8 list \<times> bool \<times> 'a chan_buf_scheme) option" where
  "tx_loop 0 e bytes c = None"
| "tx_loop (Suc fuel) e bytes c =
     (if bytes = 0 then Some ([], False, c)
      else if outwritebuf c > -1 \<and> \<not> txdisable c then
        (case tx_buffer bytes c of
           None \<Rightarrow> None
         | Some (out, c) \<Rightarrow>
             map_option (\<lambda>(out', ur, c). (out @ out', ur, c)) (tx_loop fuel e (bytes - int (length out)) c))
      else (case tone_of c of
          Some p \<Rightarrow>
            (case tone_round e bytes p c of
               None \<Rightarrow> None
             | Some (out, bytes, c) \<Rightarrow>
                 map_option (\<lambda>(out', ur, c). (out @ out', ur, c)) (tx_loop fuel e bytes c))
        | None \<Rightarrow> Some (tx_idle bytes c)))"

definition tx_underrun_flag :: "bool \<Rightarrow> 'a chan_buf_scheme \<Rightarrow> 'a chan_buf_scheme" where
  "tx_underrun_flag ur c =
     (if ur then
        (if FLAG_TXUNDERRUN \<notin> chan_flags c then
           set_flag FLAG_TXUNDERRUN (if FLAG_BUFEVENTS \<in> chan_flags c then qevent c EVENT_WRITE_UNDERRUN else c)
         else c)
      else clear_flag FLAG_TXUNDERRUN c)"

definition getbuf_chunk :: "nat \<Rightarrow> tone_env \<Rightarrow> 'a chan_buf_scheme \<Rightarrow> (u8 list \<times> 'a chan_buf_scheme) option" where
  "getbuf_chunk fuel e c =
     map_option (\<lambda>(out, ur, c). (out, tx_underrun_flag ur c)) (tx_loop fuel e (int DAHDI_CHUNKSIZE) c)"

end
