(* ===== verification/Receive.thy ===== *)
theory Receive
  imports Buffers
begin

text \<open>
  The receive side of \<open>Buffers\<close> as queues of octets: the invariant of the read ring, its
  abstraction to a list of frames and the frame being received, a reference receiver that
  handles one octet at a time, and the proof that \<open>__putbuf_chunk\<close> computes it for chunks of
  any length. The ring then provides \<open>bounded_fifo\<close>: frames are read in the order received.
\<close>

section \<open>The read ring\<close>

abbreviation rx_bufs :: "'a chan_buf_scheme \<Rightarrow> u8 list list" where
  "rx_bufs c \<equiv> the (readbuf c)"

abbreviation rx_slots :: "'a chan_buf_scheme \<Rightarrow> nat list" where
  "rx_slots c \<equiv> slots (numbufs c) (inreadbuf c) (outreadbuf c)"

definition rx_slot_ok :: "'a chan_buf_scheme \<Rightarrow> nat \<Rightarrow> bool" where
  "rx_slot_ok c s \<longleftrightarrow> length (rx_bufs c ! s) = nat (blocksize c) \<and>
     0 \<le> readn c ! s \<and> readn c ! s \<le> blocksize c \<and>
     0 \<le> readidx c ! s \<and> readidx c ! s \<le> blocksize c \<and>
     (s \<notin> set (rx_slots c) \<longrightarrow> int s \<noteq> inreadbuf c \<longrightarrow> readidx c ! s = 0)"

definition rx_ok :: "'a chan_buf_scheme \<Rightarrow> bool" where
  "rx_ok c \<longleftrightarrow> 0 < blocksize c \<and> ring_inv (numbufs c) (inreadbuf c) (outreadbuf c) \<and>
     readbuf c \<noteq> None \<and> length (rx_bufs c) = nat (numbufs c) \<and>
     nat (numbufs c) \<le> length (readn c) \<and> nat (numbufs c) \<le> length (readidx c) \<and>
     (\<forall>s < nat (numbufs c). rx_slot_ok c s)"

text \<open>The frame being received never fills its buffer between two octets.\<close>

definition rx_inv :: "'a chan_buf_scheme \<Rightarrow> bool" where
  "rx_inv c \<longleftrightarrow> rx_ok c \<and> (0 \<le> inreadbuf c \<longrightarrow> rx_idx c < blocksize c)"

definition rx_frames :: "'a chan_buf_scheme \<Rightarrow> u8 list list" where
  "rx_frames c = map (\<lambda>s. take (nat (readn c ! s)) (rx_bufs c ! s)) (rx_slots c)"

definition rx_partial :: "'a chan_buf_scheme \<Rightarrow> u8 list" where
  "rx_partial c = (if inreadbuf c < 0 then []
     else take (nat (rx_idx c)) (rx_bufs c ! nat (inreadbuf c)))"

lemma rx_ok_ring: "rx_ok c \<Longrightarrow> ring_inv (numbufs c) (inreadbuf c) (outreadbuf c)"
  by (simp add: rx_ok_def)

lemma rx_ok_in: "rx_ok c \<Longrightarrow> 0 \<le> inreadbuf c \<Longrightarrow> nat (inreadbuf c) < nat (numbufs c)"
  by (auto simp: rx_ok_def ring_inv_def split: if_splits)

lemma rx_ok_slot: "rx_ok c \<Longrightarrow> s < nat (numbufs c) \<Longrightarrow> rx_slot_ok c s"
  by (simp add: rx_ok_def)

lemma rx_ok_lengths: "rx_ok c \<Longrightarrow> s < nat (numbufs c) \<Longrightarrow>
    s < length (rx_bufs c) \<and> s < length (readn c) \<and> s < length (readidx c)"
  by (simp add: rx_ok_def)

lemma rx_fresh: "rx_ok c \<Longrightarrow> 0 \<le> inreadbuf c \<Longrightarrow> nat (inreadbuf c) \<notin> set (rx_slots c)"
  using rx_ok_ring ring_fresh_slot by blast

lemma rx_fresh': "rx_ok c \<Longrightarrow> 0 \<le> inreadbuf c \<Longrightarrow> s \<in> set (rx_slots c) \<Longrightarrow> nat (inreadbuf c) \<noteq> s"
  using rx_fresh by blast

lemma rx_idx_range: "rx_ok c \<Longrightarrow> 0 \<le> inreadbuf c \<Longrightarrow> 0 \<le> rx_idx c \<and> rx_idx c \<le> blocksize c"
  using rx_ok_slot [OF _ rx_ok_in, of c] by (simp add: rx_slot_ok_def rx_idx_def)

lemma length_rx_partial: "rx_ok c \<Longrightarrow> 0 \<le> inreadbuf c \<Longrightarrow> int (length (rx_partial c)) = rx_idx c"
  using rx_ok_slot [OF _ rx_ok_in, of c] rx_idx_range [of c] by (auto simp: rx_partial_def rx_slot_ok_def)

lemma length_rx_frames [simp]: "length (rx_frames c) = ring_used (numbufs c) (inreadbuf c) (outreadbuf c)"
  by (simp add: rx_frames_def)

text \<open>Changes elsewhere in the channel do not matter.\<close>

definition rx_same :: "'a chan_buf_scheme \<Rightarrow> 'a chan_buf_scheme \<Rightarrow> bool" where
  "rx_same c d \<longleftrightarrow> readbuf c = readbuf d \<and> inreadbuf c = inreadbuf d \<and> outreadbuf c = outreadbuf d \<and>
     blocksize c = blocksize d \<and> readn c = readn d \<and> readidx c = readidx d \<and> numbufs c = numbufs d"

lemma rx_same_views:
  assumes "rx_same c d"
  shows "rx_idx c = rx_idx d" "rx_ok c = rx_ok d" "rx_inv c = rx_inv d" "rx_frames c = rx_frames d"
    "rx_partial c = rx_partial d"
  using assms by (simp_all add: rx_same_def rx_idx_def rx_ok_def rx_slot_ok_def rx_inv_def rx_frames_def rx_partial_def)

lemma qevent_buf [simp]:
  "readbuf (qevent c e) = readbuf c" "inreadbuf (qevent c e) = inreadbuf c"
  "outreadbuf (qevent c e) = outreadbuf c" "blocksize (qevent c e) = blocksize c"
  "readn (qevent c e) = readn c" "readidx (qevent c e) = readidx c" "numbufs (qevent c e) = numbufs c"
  "infcs (qevent c e) = infcs c" "rxhdlc (qevent c e) = rxhdlc c" "txhdlc (qevent c e) = txhdlc c"
  "writebuf (qevent c e) = writebuf c" "inwritebuf (qevent c e) = inwritebuf c"
  "outwritebuf (qevent c e) = outwritebuf c" "writen (qevent c e) = writen c"
  "writeidx (qevent c e) = writeidx c" "txbufpolicy (qevent c e) = txbufpolicy c"
  "txdisable (qevent c e) = txdisable c" "readchunk (qevent c e) = readchunk c"
  by (simp_all add: qevent_def Let_def)

text \<open>What receiving leaves alone.\<close>

definition rx_cfg :: "'a chan_buf_scheme \<Rightarrow> 'a chan_buf_scheme \<Rightarrow> bool" where
  "rx_cfg c d \<longleftrightarrow> numbufs d = numbufs c \<and> blocksize d = blocksize c \<and> chan_flags d = chan_flags c"

section \<open>Storing, completing and dropping a frame\<close>

lemma length_copy_at: "i + length d \<le> length b \<Longrightarrow> length (copy_at i d b) = length b"
  by (simp add: copy_at_def)

lemma take_copy_at: "i + length d \<le> length b \<Longrightarrow> take (i + length d) (copy_at i d b) = take i b @ d"
  by (simp add: copy_at_def)

lemma store_octets_ok:
  assumes ok: "rx_ok c" and i: "0 \<le> inreadbuf c" and fits: "rx_idx c + int (length ds) \<le> blocksize c"
  obtains d where "store_octets ds c = Some d" and "rx_ok d" and "rx_frames d = rx_frames c"
    and "rx_partial d = rx_partial c @ ds" and "rx_idx d = rx_idx c + int (length ds)"
    and "inreadbuf d = inreadbuf c" and "rxhdlc d = rxhdlc c" and "infcs d = infcs c" and "rx_cfg c d"
proof -
  let ?i = "nat (inreadbuf c)" and ?k = "nat (rx_idx c)"
  obtain bufs where b: "readbuf c = Some bufs" using ok by (auto simp: rx_ok_def)
  define d where "d = set_rx_idx (rx_idx c + int (length ds))
         (c\<lparr>readbuf := Some (bufs[?i := copy_at ?k ds (bufs ! ?i)])\<rparr>)"
  note il = rx_ok_in [OF ok i] and r = rx_idx_range [OF ok i]
  have len: "?i < length bufs" "length (bufs ! ?i) = nat (blocksize c)" "?i < length (readidx c)"
    using rx_ok_slot [OF ok il] rx_ok_lengths [OF ok il] b by (simp_all add: rx_slot_ok_def)
  have kl: "?k + length ds \<le> length (bufs ! ?i)" using r fits len by linarith
  have idx: "rx_idx d = rx_idx c + int (length ds)"
    using len by (simp add: d_def set_rx_idx_def rx_idx_def)
  have slot: "rx_slot_ok d s" if "s < nat (numbufs c)" for s
  proof (cases "s = ?i")
    case True
    with rx_ok_slot [OF ok il] length_copy_at [OF kl] idx r fits i len show ?thesis
      by (simp add: rx_slot_ok_def d_def set_rx_idx_def b rx_idx_def)
  next
    case False
    with rx_ok_slot [OF ok that] i show ?thesis
      by (simp add: rx_slot_ok_def d_def set_rx_idx_def b)
  qed
  then have "rx_ok d" using ok b by (simp add: rx_ok_def d_def set_rx_idx_def)
  moreover have "rx_frames d = rx_frames c"
    using rx_fresh' [OF ok i] b by (simp add: rx_frames_def d_def set_rx_idx_def)
  moreover have "rx_partial d = rx_partial c @ ds"
    using len i b r take_copy_at [OF kl]
    by (simp add: rx_partial_def d_def set_rx_idx_def rx_idx_def nat_add_distrib)
  moreover have "store_octets ds c = Some d"
    by (simp add: store_octets_def b d_def Let_def)
  moreover have "inreadbuf d = inreadbuf c" "rxhdlc d = rxhdlc c" "infcs d = infcs c" "rx_cfg c d"
    by (simp_all add: d_def set_rx_idx_def rx_cfg_def)
  ultimately show ?thesis using idx that by blast
qed

text \<open>The buffer of the current frame enters the ring with the length received.\<close>

lemma rx_advance_ring:
  assumes "ring_inv (numbufs c) (inreadbuf c) (outreadbuf c)" and "0 \<le> inreadbuf c"
    and "ring_push (numbufs c) (inreadbuf c) (outreadbuf c) = (i, j)"
  shows "rx_advance c = c\<lparr>inreadbuf := i, outreadbuf := j\<rparr>"
proof -
  have "0 \<le> (inreadbuf c + 1) mod numbufs c" using assms(1) by (simp add: ring_inv_def)
  then show ?thesis using assms(2,3)
    by (cases "outreadbuf c < 0"; cases "(inreadbuf c + 1) mod numbufs c = outreadbuf c")
      (simp_all add: rx_advance_def ring_push_def)
qed

lemma rx_complete:
  assumes ok: "rx_ok c" and i: "0 \<le> inreadbuf c"
  defines "d \<equiv> rx_advance (c\<lparr>readn := (readn c)[nat (inreadbuf c) := rx_idx c]\<rparr>)"
  shows "rx_inv d" and "rx_frames d = rx_frames c @ [rx_partial c]" and "rx_partial d = []"
    and "rxhdlc d = rxhdlc c" and "infcs d = infcs c" and "rx_cfg c d"
proof -
  let ?i = "nat (inreadbuf c)"
  note ring = rx_ok_ring [OF ok]
  obtain i' j' where p: "ring_push (numbufs c) (inreadbuf c) (outreadbuf c) = (i', j')" by fastforce
  have d: "d = c\<lparr>readn := (readn c)[?i := rx_idx c], inreadbuf := i', outreadbuf := j'\<rparr>"
    using rx_advance_ring [of "c\<lparr>readn := (readn c)[?i := rx_idx c]\<rparr>" i' j'] ring i p by (simp add: d_def)
  note sl = ring_push_slots [OF ring i p] and il = rx_ok_in [OF ok i] and r = rx_idx_range [OF ok i]
  have ring': "ring_inv (numbufs c) i' j'" by (rule ring_push_inv [OF ring i p])
  have slot: "rx_slot_ok d s" if "s < nat (numbufs c)" for s
  proof (cases "s = ?i")
    case True
    with rx_ok_slot [OF ok il] rx_ok_lengths [OF ok il] r i sl show ?thesis
      by (simp add: rx_slot_ok_def d)
  next
    case False
    with rx_ok_slot [OF ok that] i sl show ?thesis by (auto simp: rx_slot_ok_def d)
  qed
  then have ok': "rx_ok d" using ok ring' by (simp add: rx_ok_def d)
  have free: "readidx c ! nat i' = 0" if "0 \<le> i'"
  proof -
    have "nat i' \<notin> set (rx_slots c)" "int (nat i') \<noteq> inreadbuf c" "nat i' < nat (numbufs c)"
      using ring_fresh_slot [OF ring' that] sl that i ring'
      by (auto simp: ring_inv_def split: if_splits)
    then show ?thesis using rx_ok_slot [OF ok] by (simp add: rx_slot_ok_def)
  qed
  then show "rx_inv d" using ok' ok by (simp add: rx_inv_def rx_idx_def d rx_ok_def)
  show "rx_frames d = rx_frames c @ [rx_partial c]"
    using rx_fresh' [OF ok i] rx_ok_lengths [OF ok il] i by (simp add: rx_frames_def d sl rx_partial_def)
  show "rx_partial d = []"
    using free by (auto simp: rx_partial_def rx_idx_def d)
  show "rxhdlc d = rxhdlc c" "infcs d = infcs c" "rx_cfg c d"
    by (simp_all add: d rx_cfg_def)
qed

lemma rx_drop:
  assumes ok: "rx_ok c" and i: "0 \<le> inreadbuf c"
  shows "rx_inv (set_rx_idx 0 c)" and "rx_frames (set_rx_idx 0 c) = rx_frames c"
    and "rx_partial (set_rx_idx 0 c) = []"
proof -
  let ?i = "nat (inreadbuf c)" and ?d = "set_rx_idx 0 c"
  note il = rx_ok_in [OF ok i]
  have z: "readidx ?d ! ?i = 0" using rx_ok_lengths [OF ok il] by (simp add: set_rx_idx_def)
  have slot: "rx_slot_ok ?d s" if "s < nat (numbufs c)" for s
  proof (cases "s = ?i")
    case True
    with rx_ok_slot [OF ok il] rx_ok_lengths [OF ok il] ok show ?thesis
      by (simp add: rx_slot_ok_def set_rx_idx_def rx_ok_def)
  next
    case False
    with rx_ok_slot [OF ok that] show ?thesis by (simp add: rx_slot_ok_def set_rx_idx_def)
  qed
  then have "rx_ok ?d" using ok by (simp add: rx_ok_def set_rx_idx_def)
  then show "rx_inv ?d" using z ok by (simp add: rx_inv_def rx_idx_def rx_ok_def set_rx_idx_def)
  show "rx_frames ?d = rx_frames c" by (simp add: rx_frames_def set_rx_idx_def)
  show "rx_partial ?d = []" using z by (simp add: rx_partial_def rx_idx_def set_rx_idx_def)
qed

section \<open>A reference receiver\<close>

text \<open>
  The de-framer, the frames in the ring, the frame being received and its check sequence. One
  octet at a time: with every buffer full it is lost; an HDLC channel runs the de-framer and
  keeps frames that are not empty and, when asked to, have a good check sequence; any other
  channel cuts the octets into blocks.
\<close>

type_synonym rx_state = "fasthdlc_state \<times> u8 list list \<times> u8 list \<times> int"

definition rx_abs :: "'a chan_buf_scheme \<Rightarrow> rx_state" where
  "rx_abs c = (rxhdlc c, rx_frames c, rx_partial c, infcs c)"

definition rx_deframe :: "(int \<Rightarrow> u8 \<Rightarrow> int) \<Rightarrow> bool \<Rightarrow> int \<Rightarrow> int \<Rightarrow> rx_state \<Rightarrow> rx_state" where
  "rx_deframe ppp_fcs chk b res = (\<lambda>(h, fs, p, fcs).
     if res AND RETURN_EMPTY_FLAG \<noteq> 0 then (h, fs, p, fcs)
     else if res AND RETURN_COMPLETE_FLAG \<noteq> 0 then
       (if p = [] then (h, fs, p, fcs)
        else (h, if chk \<and> fcs \<noteq> PPP_GOODFCS then fs else fs @ [p], [], PPP_INITFCS))
     else if res AND RETURN_DISCARD_FLAG \<noteq> 0 then
       (if p = [] then (h, fs, p, fcs) else (h, fs, [], PPP_INITFCS))
     else if int (length p) + 1 < b then (h, fs, p @ [word_of_int res], ppp_fcs fcs (word_of_int res))
     else (h\<lparr>fh_state := 0, fh_bits := 0\<rparr>, fs, [], PPP_INITFCS))"

definition rx_block :: "bool \<Rightarrow> int \<Rightarrow> u8 \<Rightarrow> rx_state \<Rightarrow> rx_state" where
  "rx_block nostd b x = (\<lambda>(h, fs, p, fcs).
     if int (length p) + 1 < b then (h, fs, p @ [x], fcs)
     else (h, if nostd then fs else fs @ [p @ [x]], [], PPP_INITFCS))"

definition rx_octet :: "(int \<Rightarrow> u8 \<Rightarrow> int) \<Rightarrow> bool \<Rightarrow> 'a chan_buf_scheme \<Rightarrow> u8 \<Rightarrow> rx_state \<Rightarrow> rx_state" where
  "rx_octet ppp_fcs nostd c x = (\<lambda>(h, fs, p, fcs).
     if int (length fs) = numbufs c then (h, fs, p, fcs)
     else if FLAG_HDLC \<in> chan_flags c then
       (let (h, res) = fasthdlc_rx_run (fst (fasthdlc_rx_load_nocheck h x))
        in rx_deframe ppp_fcs (FLAG_FCS \<in> chan_flags c) (blocksize c) res (h, fs, p, fcs))
     else rx_block nostd (blocksize c) x (h, fs, p, fcs))"

lemma rx_cfg_trans: "rx_cfg c d \<Longrightarrow> rx_cfg d e \<Longrightarrow> rx_cfg c e"
  by (simp add: rx_cfg_def)

lemma rx_octet_cfg: "rx_cfg c d \<Longrightarrow> rx_octet ppp_fcs nostd d = rx_octet ppp_fcs nostd c"
  by (simp add: rx_octet_def rx_cfg_def fun_eq_iff)

lemma rx_unrelated [simp]:
  "rx_ok (c\<lparr>rxhdlc := h\<rparr>) = rx_ok c" "rx_ok (c\<lparr>infcs := f\<rparr>) = rx_ok c" "rx_ok (qevent c e) = rx_ok c"
  "rx_inv (c\<lparr>rxhdlc := h\<rparr>) = rx_inv c" "rx_inv (c\<lparr>infcs := f\<rparr>) = rx_inv c" "rx_inv (qevent c e) = rx_inv c"
  "rx_frames (c\<lparr>rxhdlc := h\<rparr>) = rx_frames c" "rx_frames (c\<lparr>infcs := f\<rparr>) = rx_frames c"
  "rx_frames (qevent c e) = rx_frames c" "rx_partial (c\<lparr>rxhdlc := h\<rparr>) = rx_partial c"
  "rx_partial (c\<lparr>infcs := f\<rparr>) = rx_partial c" "rx_partial (qevent c e) = rx_partial c"
  "rx_idx (c\<lparr>rxhdlc := h\<rparr>) = rx_idx c" "rx_idx (c\<lparr>infcs := f\<rparr>) = rx_idx c" "rx_idx (qevent c e) = rx_idx c"
  by (simp_all add: rx_ok_def rx_slot_ok_def rx_inv_def rx_frames_def rx_partial_def rx_idx_def)

text \<open>What follows a pass over octets: the frame is finished, or dropped, or still open.\<close>

definition rx_settle :: "bool \<Rightarrow> bool \<Rightarrow> int \<Rightarrow> 'a chan_buf_scheme \<Rightarrow> 'a chan_buf_scheme" where
  "rx_settle alarms eof abort c =
     (let c = (if eof then rx_frame_end c else c) in if abort \<noteq> 0 then rx_abort alarms abort c else c)"

lemma rx_frame_end_ok:
  assumes ok: "rx_ok c" and i: "0 \<le> inreadbuf c" and m: "FLAG_MTP2 \<notin> chan_flags c"
  shows "rx_inv (rx_frame_end c)" and "rx_cfg c (rx_frame_end c)"
    and "rx_abs (rx_frame_end c) = (rxhdlc c, rx_frames c @ [rx_partial c], [], PPP_INITFCS)"
proof -
  let ?c = "c\<lparr>infcs := PPP_INITFCS\<rparr>"
  define d where "d = rx_advance (?c\<lparr>readn := (readn ?c)[nat (inreadbuf ?c) := rx_idx ?c]\<rparr>)"
  have e: "rx_frame_end c = d" using m by (simp add: rx_frame_end_def d_def rx_idx_def)
  have ok': "rx_ok ?c" "0 \<le> inreadbuf ?c" using ok i by simp_all
  note k = rx_complete [OF ok', folded d_def]
  show "rx_inv (rx_frame_end c)" using k(1) by (simp add: e)
  have d: "rxhdlc d = rxhdlc c" "infcs d = PPP_INITFCS" "rx_cfg c d"
    using k(4-6) by (simp_all add: rx_cfg_def)
  show "rx_cfg c (rx_frame_end c)" using d(3) by (simp add: e)
  show "rx_abs (rx_frame_end c) = (rxhdlc c, rx_frames c @ [rx_partial c], [], PPP_INITFCS)"
    using k(2,3) d by (simp add: rx_abs_def e)
qed

lemma rx_abort_ok:
  assumes ok: "rx_ok c" and i: "0 \<le> inreadbuf c"
  shows "rx_inv (rx_abort alarms e c)" and "rx_cfg c (rx_abort alarms e c)"
    and "rx_abs (rx_abort alarms e c) = (rxhdlc c, rx_frames c, [], PPP_INITFCS)"
  using rx_drop [OF ok i]
  by (simp_all add: rx_abort_def Let_def rx_abs_def rx_cfg_def set_rx_idx_def)

lemma rx_settle_ok:
  assumes "rx_ok c" and "0 \<le> inreadbuf c" and "FLAG_MTP2 \<notin> chan_flags c" and "\<not> (eof \<and> abort \<noteq> 0)"
    and "eof \<or> abort \<noteq> 0 \<or> rx_idx c < blocksize c"
  shows "rx_inv (rx_settle alarms eof abort c)" and "rx_cfg c (rx_settle alarms eof abort c)"
    and "rx_abs (rx_settle alarms eof abort c) =
      (if eof then (rxhdlc c, rx_frames c @ [rx_partial c], [], PPP_INITFCS)
       else if abort \<noteq> 0 then (rxhdlc c, rx_frames c, [], PPP_INITFCS) else rx_abs c)"
  using assms rx_frame_end_ok [of c] rx_abort_ok [of c]
  by (auto simp: rx_settle_def rx_inv_def rx_cfg_def)

lemma rx_room: "rx_ok c \<Longrightarrow> (int (length (rx_frames c)) = numbufs c) = (inreadbuf c < 0)"
  using ring_room_iff [OF rx_ok_ring, of c] ring_used_le [OF rx_ok_ring, of c] rx_ok_ring [of c]
  by (auto simp: ring_inv_def)

lemma rx_partial_Nil: "rx_ok c \<Longrightarrow> 0 \<le> inreadbuf c \<Longrightarrow> (rx_partial c = []) = (rx_idx c = 0)"
  using length_rx_partial [of c] by (cases "rx_partial c") auto

lemma rx_octet_hdlc:
  assumes "rx_ok c" and "0 \<le> inreadbuf c" and "FLAG_HDLC \<in> chan_flags c"
    and "fasthdlc_rx_run (fst (fasthdlc_rx_load_nocheck (rxhdlc c) x)) = (h, res)"
  shows "rx_octet ppp_fcs nostd c x (rx_abs c)
    = rx_deframe ppp_fcs (FLAG_FCS \<in> chan_flags c) (blocksize c) res (rx_abs (c\<lparr>rxhdlc := h\<rparr>))"
  using assms rx_room [OF assms(1)] by (simp add: rx_octet_def rx_abs_def)

text \<open>A pass of the de-framer: a prefix of the octets is used, at least one.\<close>

definition rx_passed :: "(int \<Rightarrow> u8 \<Rightarrow> int) \<Rightarrow> bool \<Rightarrow> 'a chan_buf_scheme \<Rightarrow> u8 list \<Rightarrow> nat \<Rightarrow> u8 list \<Rightarrow> 'a chan_buf_scheme \<Rightarrow> bool" where
  "rx_passed ppp_fcs nostd c rxb left rest d \<longleftrightarrow> rx_inv d \<and> rx_cfg c d \<and>
     (\<exists>k \<le> left. rest = drop k rxb \<and> (0 < left \<longrightarrow> 0 < k) \<and>
        rx_abs d = fold (rx_octet ppp_fcs nostd c) (take k rxb) (rx_abs c))"

lemma rx_passed_one:
  "rx_inv d \<Longrightarrow> rx_cfg c d \<Longrightarrow> rx_abs d = rx_octet ppp_fcs nostd c x (rx_abs c) \<Longrightarrow>
   rx_passed ppp_fcs nostd c (x # rxb) (Suc left) rxb d"
  unfolding rx_passed_def by (intro conjI exI [of _ 1]) simp_all

lemma rx_passed_Cons:
  assumes "rx_passed ppp_fcs nostd c1 rxb left rest d" and "rx_cfg c c1"
    and "rx_abs c1 = rx_octet ppp_fcs nostd c x (rx_abs c)"
  shows "rx_passed ppp_fcs nostd c (x # rxb) (Suc left) rest d"
proof -
  from assms(1) obtain k where k: "rx_inv d" "rx_cfg c1 d" "k \<le> left" "rest = drop k rxb"
      "rx_abs d = fold (rx_octet ppp_fcs nostd c1) (take k rxb) (rx_abs c1)"
    by (auto simp: rx_passed_def)
  then show ?thesis
    using assms(2,3) rx_octet_cfg [OF assms(2)] rx_cfg_trans [OF assms(2) k(2)] unfolding rx_passed_def
    by (intro conjI exI [of _ "Suc k"]) simp_all
qed

lemma rx_passed_0: "rx_inv c \<Longrightarrow> rx_passed ppp_fcs nostd c rxb 0 rxb c"
  by (simp add: rx_passed_def rx_cfg_def)

definition rx_pass_ok where
  "rx_pass_ok ppp_fcs nostd alarms c rxb left = (\<lambda>(rest, eof, abort, d).
     rx_passed ppp_fcs nostd c rxb left rest (rx_settle alarms eof abort d))"

lemma rx_hdlc_ok:
  "rx_inv c \<Longrightarrow> 0 \<le> inreadbuf c \<Longrightarrow> FLAG_HDLC \<in> chan_flags c \<Longrightarrow> FLAG_MTP2 \<notin> chan_flags c \<Longrightarrow>
   left \<le> length rxb \<Longrightarrow> rx_idx c + int left \<le> blocksize c \<Longrightarrow>
   \<exists>r. rx_hdlc ppp_fcs left rxb c = Some r \<and> rx_pass_ok ppp_fcs nostd alarms c rxb left r"
proof (induction left arbitrary: rxb c)
  case 0
  then show ?case by (simp add: rx_pass_ok_def rx_settle_def rx_passed_0)
next
  case (Suc left)
  from Suc.prems(5) obtain x xs where rxb: "rxb = x # xs" by (cases rxb) auto
  obtain h res where run: "fasthdlc_rx_run (fst (fasthdlc_rx_load_nocheck (rxhdlc c) x)) = (h, res)"
    by fastforce
  let ?c = "c\<lparr>rxhdlc := h\<rparr>"
  have ok: "rx_ok c" using Suc.prems(1) by (simp add: rx_inv_def)
  note oct = rx_octet_hdlc [OF ok Suc.prems(2,3) run, of ppp_fcs nostd]
  note empty = rx_partial_Nil [OF ok Suc.prems(2)]
  have cfg: "rx_cfg c ?c" by (simp add: rx_cfg_def)
  have go: "\<exists>r. rx_hdlc ppp_fcs left xs d = Some r \<and> rx_pass_ok ppp_fcs nostd alarms c rxb (Suc left) r"
    if "rx_inv d" "0 \<le> inreadbuf d" "rx_cfg c d" "rx_idx d \<le> rx_idx c + 1"
      "rx_abs d = rx_octet ppp_fcs nostd c x (rx_abs c)" for d
  proof -
    have "\<exists>r. rx_hdlc ppp_fcs left xs d = Some r \<and> rx_pass_ok ppp_fcs nostd alarms d xs left r"
      using that Suc.prems rxb by (intro Suc.IH) (simp_all add: rx_cfg_def)
    then show ?thesis
      using that rxb by (auto simp: rx_pass_ok_def intro: rx_passed_Cons split: prod.splits)
  qed
  have stop: "\<exists>r. Some (xs, eof, abort, d) = Some r \<and> rx_pass_ok ppp_fcs nostd alarms c rxb (Suc left) r"
    if "rx_inv (rx_settle alarms eof abort d)" "rx_cfg c (rx_settle alarms eof abort d)"
      "rx_abs (rx_settle alarms eof abort d) = rx_octet ppp_fcs nostd c x (rx_abs c)" for eof abort d
    using that rxb by (simp add: rx_pass_ok_def rx_passed_one)
  show ?case
  proof (cases "res AND RETURN_EMPTY_FLAG \<noteq> 0")
    case True
    with go [of ?c] Suc.prems oct cfg run show ?thesis
      by (simp add: rxb rx_deframe_def rx_abs_def)
  next
    case e: False
    show ?thesis
    proof (cases "res AND RETURN_COMPLETE_FLAG \<noteq> 0")
      case cm: True
      show ?thesis
      proof (cases "rx_idx c = 0")
        case True
        with go [of ?c] Suc.prems oct cfg run e cm empty show ?thesis
          by (simp add: rxb rx_deframe_def rx_abs_def)
      next
        case False
        show ?thesis
        proof (cases "FLAG_FCS \<in> chan_flags c \<and> infcs c \<noteq> PPP_GOODFCS")
          case bad: True
          with stop [where d = ?c and eof = False and abort = EVENT_BADFCS] Suc.prems(1-4) oct run e cm
            empty ok False rx_settle_ok [of ?c False EVENT_BADFCS alarms] show ?thesis
            by (simp add: rxb rx_deframe_def rx_abs_def rx_cfg_def Let_def)
        next
          case good: False
          with stop [where d = ?c and eof = True and abort = 0] Suc.prems(1-4) oct run e cm
            empty ok False rx_settle_ok [of ?c True 0 alarms] show ?thesis
            by (auto simp: rxb rx_deframe_def rx_abs_def rx_cfg_def Let_def)
        qed
      qed
    next
      case cm: False
      show ?thesis
      proof (cases "res AND RETURN_DISCARD_FLAG \<noteq> 0")
        case True
        with go [of ?c] stop [where d = ?c and eof = False and abort = EVENT_ABORT] Suc.prems(1-4) oct cfg run e
          cm empty ok rx_settle_ok [of ?c False EVENT_ABORT alarms] show ?thesis
          by (auto simp add: rxb rx_deframe_def rx_abs_def rx_cfg_def Let_def)
      next
        case False
        let ?d = "?c\<lparr>infcs := ppp_fcs (infcs ?c) (word_of_int res)\<rparr>"
        have a: "rx_ok ?d" "0 \<le> inreadbuf ?d"
            "rx_idx ?d + int (length [word_of_int res :: u8]) \<le> blocksize ?d"
          using Suc.prems ok by simp_all
        obtain d where st: "store_octets [word_of_int res] ?d = Some d" "rx_ok d"
            "rx_frames d = rx_frames ?d" "rx_partial d = rx_partial ?d @ [word_of_int res]"
            "rx_idx d = rx_idx ?d + int (length [word_of_int res :: u8])"
            "inreadbuf d = inreadbuf ?d" "rxhdlc d = rxhdlc ?d" "infcs d = infcs ?d" "rx_cfg ?d d"
          by (rule store_octets_ok [OF a])
        have keep: "inreadbuf d = inreadbuf c" "blocksize d = blocksize c" "rxhdlc d = h"
            "infcs d = ppp_fcs (infcs c) (word_of_int res)" "rx_cfg c d"
          using st(6-9) by (simp_all add: rx_cfg_def)
        have len: "int (length (rx_partial c)) = rx_idx c" by (rule length_rx_partial [OF ok Suc.prems(2)])
        have step: "rx_hdlc ppp_fcs (Suc left) rxb c = (if rx_idx d \<ge> blocksize d then
               Some (xs, False, EVENT_OVERRUN, set_rx_idx 0 (d\<lparr>rxhdlc := (rxhdlc d)\<lparr>fh_state := 0, fh_bits := 0\<rparr>\<rparr>))
             else rx_hdlc ppp_fcs left xs d)"
          using run e cm False st(1) by (simp add: rxb Let_def)
        show ?thesis
        proof (cases "rx_idx d \<ge> blocksize d")
          case over: True
          let ?e = "d\<lparr>rxhdlc := (rxhdlc d)\<lparr>fh_state := 0, fh_bits := 0\<rparr>\<rparr>"
          have "rx_ok ?e" "0 \<le> inreadbuf ?e" using st(2) keep Suc.prems(2) by simp_all
          note drop = rx_drop [OF this]
          have e2: "rx_ok (set_rx_idx 0 ?e)" "0 \<le> inreadbuf (set_rx_idx 0 ?e)"
              "FLAG_MTP2 \<notin> chan_flags (set_rx_idx 0 ?e)" "rx_cfg c (set_rx_idx 0 ?e)"
            using drop(1) keep Suc.prems by (simp_all add: rx_inv_def set_rx_idx_def rx_cfg_def)
          from stop [where d = "set_rx_idx 0 ?e" and eof = False and abort = EVENT_OVERRUN]
            rx_settle_ok [OF e2(1-3), of False EVENT_OVERRUN alarms] rx_cfg_trans [OF e2(4)]
            oct e cm False over drop(2) st(3,5) keep len
          show ?thesis
            by (simp add: step rx_deframe_def rx_abs_def set_rx_idx_def)
        next
          case room: False
          with go [of d] step oct e cm False st keep len show ?thesis
            by (simp add: rx_inv_def rx_deframe_def rx_abs_def Suc.prems(2))
        qed
      qed
    qed
  qed
qed

text \<open>Octets that are not de-framed.\<close>

lemma fold_rx_block:
  assumes "FLAG_HDLC \<notin> chan_flags c" and "int (length fs) \<noteq> numbufs c" and "xs \<noteq> []"
    and "int (length p + length xs) \<le> blocksize c"
  shows "fold (rx_octet ppp_fcs nostd c) xs (h, fs, p, fcs) =
    (if int (length p + length xs) < blocksize c then (h, fs, p @ xs, fcs)
     else (h, if nostd then fs else fs @ [p @ xs], [], PPP_INITFCS))"
  using assms(3,4)
proof (induction xs arbitrary: p rule: list_nonempty_induct)
  case (single x)
  with assms(1,2) show ?case by (simp add: rx_octet_def rx_block_def)
next
  case (cons x xs)
  then have "int (length p) + 1 < blocksize c" by (cases xs) auto
  with assms(1,2) have "rx_octet ppp_fcs nostd c x (h, fs, p, fcs) = (h, fs, p @ [x], fcs)"
    by (simp add: rx_octet_def rx_block_def)
  with cons.IH [of "p @ [x]"] cons.prems show ?case by simp
qed

lemma rx_round_block:
  assumes inv: "rx_inv c" and i: "0 \<le> inreadbuf c" and fl: "FLAG_HDLC \<notin> chan_flags c" "FLAG_MTP2 \<notin> chan_flags c"
    and ne: "rxb \<noteq> []" and left: "left = nat (min (blocksize c - rx_idx c) (int (length rxb)))"
  obtains d where "store_octets (take left rxb) c = Some d"
    and "rx_pass_ok ppp_fcs nostd alarms c rxb left
      (drop left rxb, rx_idx d \<ge> blocksize d \<and> \<not> nostd, if rx_idx d \<ge> blocksize d \<and> nostd then EVENT_OVERRUN else 0, d)"
proof -
  have ok: "rx_ok c" and idx: "rx_idx c < blocksize c" using inv i by (simp_all add: rx_inv_def)
  have pos: "0 < left" "left \<le> length rxb" "rx_idx c + int left \<le> blocksize c"
    using idx ne by (auto simp: left min_def)
  then have a: "rx_idx c + int (length (take left rxb)) \<le> blocksize c" by simp
  obtain d where st: "store_octets (take left rxb) c = Some d" "rx_ok d" "rx_frames d = rx_frames c"
      "rx_partial d = rx_partial c @ take left rxb" "rx_idx d = rx_idx c + int (length (take left rxb))"
      "inreadbuf d = inreadbuf c" "rxhdlc d = rxhdlc c" "infcs d = infcs c" "rx_cfg c d"
    by (rule store_octets_ok [OF ok i a])
  have keep: "inreadbuf d = inreadbuf c" "blocksize d = blocksize c" "rxhdlc d = rxhdlc c" "infcs d = infcs c"
      "rx_cfg c d" "FLAG_MTP2 \<notin> chan_flags d"
    using st(6-9) fl by (simp_all add: rx_cfg_def)
  have len: "int (length (rx_partial c)) = rx_idx c" by (rule length_rx_partial [OF ok i])
  have fold: "fold (rx_octet ppp_fcs nostd c) (take left rxb) (rx_abs c) =
      (if rx_idx d < blocksize c then rx_abs d
       else (rxhdlc d, if nostd then rx_frames d else rx_frames d @ [rx_partial d], [], PPP_INITFCS))"
  proof -
    let ?xs = "take left rxb"
    have xs: "?xs \<noteq> []" "length ?xs = left" using pos by auto
    have "int (length (rx_frames c)) \<noteq> numbufs c" using rx_room [OF ok] i by simp
    from fold_rx_block [OF fl(1) this xs(1), of "rx_partial c" ppp_fcs nostd "rxhdlc c" "infcs c"] len pos(3) xs(2)
    show ?thesis by (simp add: rx_abs_def st(3-5) keep del: length_rx_frames)
  qed
  let ?eof = "rx_idx d \<ge> blocksize d \<and> \<not> nostd" and ?ab = "if rx_idx d \<ge> blocksize d \<and> nostd then EVENT_OVERRUN else 0"
  note s = rx_settle_ok [of d ?eof ?ab alarms]
  have "rx_passed ppp_fcs nostd c rxb left (drop left rxb) (rx_settle alarms ?eof ?ab d)"
    unfolding rx_passed_def using s st(2) keep i fold rx_cfg_trans [OF keep(5)] pos
    by (intro conjI exI [of _ left]) (auto split: if_splits)
  with st(1) show ?thesis using that by (simp add: rx_pass_ok_def)
qed

lemma rx_round_ok:
  assumes inv: "rx_inv c" and i: "0 \<le> inreadbuf c" and m: "FLAG_MTP2 \<notin> chan_flags c" and ne: "rxb \<noteq> []"
  shows "\<exists>rest d. rx_round ppp_fcs nostd alarms rxb c = Some (rest, d) \<and>
    rx_passed ppp_fcs nostd c rxb (length rxb) rest d"
proof -
  let ?left = "nat (min (blocksize c - rx_idx c) (int (length rxb)))"
  have pos: "0 < ?left" "?left \<le> length rxb" "rx_idx c + int ?left \<le> blocksize c"
    using inv i ne by (auto simp: rx_inv_def min_def)
  have "\<exists>r. (if FLAG_HDLC \<in> chan_flags c then rx_hdlc ppp_fcs ?left rxb c
            else map_option (\<lambda>c.
                   (let eof = (rx_idx c \<ge> blocksize c)
                    in (drop ?left rxb, eof \<and> \<not> nostd, if eof \<and> nostd then EVENT_OVERRUN else 0, c)))
                 (store_octets (take ?left rxb) c)) = Some r \<and> rx_pass_ok ppp_fcs nostd alarms c rxb ?left r"
  proof (cases "FLAG_HDLC \<in> chan_flags c")
    case True
    with rx_hdlc_ok [OF inv i True m pos(2,3)] show ?thesis by simp
  next
    case False
    then obtain d where "store_octets (take ?left rxb) c = Some d"
      "rx_pass_ok ppp_fcs nostd alarms c rxb ?left
      (drop ?left rxb, rx_idx d \<ge> blocksize d \<and> \<not> nostd, if rx_idx d \<ge> blocksize d \<and> nostd then EVENT_OVERRUN else 0, d)"
      using rx_round_block [OF inv i False m ne refl] by blast
    with False show ?thesis by (simp add: Let_def)
  qed
  then obtain rest eof abort d where r: "rx_round ppp_fcs nostd alarms rxb c = Some (rest, rx_settle alarms eof abort d)"
      "rx_passed ppp_fcs nostd c rxb ?left rest (rx_settle alarms eof abort d)"
    by (auto simp: rx_round_def Let_def rx_pass_ok_def rx_settle_def)
  from r(2) have "rx_passed ppp_fcs nostd c rxb (length rxb) rest (rx_settle alarms eof abort d)"
    using pos ne unfolding rx_passed_def by (blast intro: le_trans)
  with r(1) show ?thesis by blast
qed

lemma fold_rx_full:
  "int (length fs) = numbufs c \<Longrightarrow> fold (rx_octet ppp_fcs nostd c) xs (h, fs, p, fcs) = (h, fs, p, fcs)"
  by (induction xs) (simp_all add: rx_octet_def)

lemma rx_loop_ok:
  "rx_inv c \<Longrightarrow> FLAG_MTP2 \<notin> chan_flags c \<Longrightarrow> length rxb < fuel \<Longrightarrow>
   \<exists>rest d. rx_loop ppp_fcs fuel nostd alarms rxb c = Some (rest, d) \<and> rx_inv d \<and> rx_cfg c d \<and>
     rx_abs d = fold (rx_octet ppp_fcs nostd c) rxb (rx_abs c) \<and> (rest \<noteq> [] \<longrightarrow> inreadbuf d < 0)"
proof (induction fuel arbitrary: rxb c)
  case 0
  then show ?case by simp
next
  case (Suc fuel)
  show ?case
  proof (cases "rxb = [] \<or> inreadbuf c \<le> -1")
    case True
    have "rx_ok c" using Suc.prems(1) by (simp add: rx_inv_def)
    with True rx_room [of c] Suc.prems show ?thesis
      by (auto simp: rx_cfg_def rx_abs_def fold_rx_full)
  next
    case False
    then obtain rest d where r: "rx_round ppp_fcs nostd alarms rxb c = Some (rest, d)"
        "rx_passed ppp_fcs nostd c rxb (length rxb) rest d"
      using rx_round_ok [OF Suc.prems(1) _ Suc.prems(2)] by force
    then obtain k where k: "0 < k" "rest = drop k rxb" "rx_inv d" "rx_cfg c d"
        "rx_abs d = fold (rx_octet ppp_fcs nostd c) (take k rxb) (rx_abs c)"
      using False by (auto simp: rx_passed_def)
    have "length rest < fuel" using k(1,2) Suc.prems(3) False by (cases rxb) auto
    then obtain rest' d' where d': "rx_loop ppp_fcs fuel nostd alarms rest d = Some (rest', d')" "rx_inv d'"
        "rx_cfg d d'" "rx_abs d' = fold (rx_octet ppp_fcs nostd d) rest (rx_abs d)" "rest' \<noteq> [] \<longrightarrow> inreadbuf d' < 0"
      using Suc.IH [of d rest] k Suc.prems(2) by (auto simp: rx_cfg_def)
    have "fold (rx_octet ppp_fcs nostd c) rest (fold (rx_octet ppp_fcs nostd c) (take k rxb) s)
        = fold (rx_octet ppp_fcs nostd c) rxb s" for s
      using fun_cong [OF fold_append [of "rx_octet ppp_fcs nostd c" "take k rxb" rest], of s] k(2) by simp
    then have "rx_abs d' = fold (rx_octet ppp_fcs nostd c) rxb (rx_abs c)"
      using d'(4) k(5) rx_octet_cfg [OF k(4)] by simp
    moreover have "rx_loop ppp_fcs (Suc fuel) nostd alarms rxb c = Some (rest', d')"
      using False r(1) d'(1) by simp
    ultimately show ?thesis using d'(2,5) rx_cfg_trans [OF k(4) d'(3)] by blast
  qed
qed

section \<open>Reading and allocating\<close>

lemma read_advance_ring:
  assumes "ring_inv (numbufs c) (inreadbuf c) (outreadbuf c)" and "0 \<le> outreadbuf c"
    and "ring_pull (numbufs c) (inreadbuf c) (outreadbuf c) = (i, j)"
  shows "read_advance (outreadbuf c) c = c\<lparr>readidx := (readidx c)[nat (outreadbuf c) := 0],
    readn := (readn c)[nat (outreadbuf c) := 0], inreadbuf := i, outreadbuf := j\<rparr>"
  using assms by (cases "inreadbuf c < 0"; cases "(outreadbuf c + 1) mod numbufs c = inreadbuf c")
    (simp_all add: read_advance_def ring_pull_def Let_def)

lemma read_advance_ok:
  assumes inv: "rx_inv c" and j: "0 \<le> outreadbuf c"
  defines "d \<equiv> read_advance (outreadbuf c) c"
  shows "rx_inv d" and "rx_cfg c d" and "rx_partial d = rx_partial c" and "rxhdlc d = rxhdlc c"
    and "infcs d = infcs c"
    and "rx_frames c = take (nat (readn c ! nat (outreadbuf c))) (rx_bufs c ! nat (outreadbuf c)) # rx_frames d"
proof -
  let ?j = "nat (outreadbuf c)"
  have ok: "rx_ok c" using inv by (simp add: rx_inv_def)
  note ring = rx_ok_ring [OF ok]
  obtain i' j' where p: "ring_pull (numbufs c) (inreadbuf c) (outreadbuf c) = (i', j')" by fastforce
  note d = read_advance_ring [OF ring j p, folded d_def]
  note sl = ring_pull_slots [OF ring j p] and ring' = ring_pull_inv [OF ring j p]
  have jn: "?j < nat (numbufs c)" using ring j by (auto simp: ring_inv_def split: if_splits)
  note len = rx_ok_lengths [OF ok jn]
  have i': "i' = (if inreadbuf c < 0 then outreadbuf c else inreadbuf c)"
    using p by (simp add: ring_pull_def)
  have nj: "inreadbuf c \<noteq> outreadbuf c" using ring j by (auto simp: ring_inv_def split: if_splits)
  have slot: "rx_slot_ok d s" if "s < nat (numbufs c)" for s
  proof (cases "s = ?j")
    case True
    with rx_ok_slot [OF ok jn] len ok show ?thesis by (simp add: rx_slot_ok_def d rx_ok_def)
  next
    case False
    with rx_ok_slot [OF ok that] sl i' j show ?thesis by (auto simp: rx_slot_ok_def d)
  qed
  have out: "?j \<notin> set (slots (numbufs c) i' j')" using distinct_slots [OF ring] sl by simp
  have "rx_ok d" using ok ring' slot by (simp add: rx_ok_def d)
  moreover have "rx_idx d < blocksize d" if "0 \<le> inreadbuf d"
    using inv i' len j nj rx_ok_in [OF ok]
    by (auto simp: rx_idx_def d rx_inv_def rx_ok_def nat_eq_iff nth_list_update split: if_splits)
  ultimately show "rx_inv d" by (simp add: rx_inv_def)
  show "rx_cfg c d" "rxhdlc d = rxhdlc c" "infcs d = infcs c" by (simp_all add: d rx_cfg_def)
  show "rx_partial d = rx_partial c"
    using i' len j nj by (auto simp: rx_partial_def rx_idx_def d nat_eq_iff nth_list_update)
  have "map (\<lambda>s. take (nat ((readn c)[?j := 0] ! s)) (rx_bufs c ! s)) (slots (numbufs c) i' j')
      = map (\<lambda>s. take (nat (readn c ! s)) (rx_bufs c ! s)) (slots (numbufs c) i' j')"
    using out by (intro map_cong refl) (metis nth_list_update_neq)
  then show "rx_frames c = take (nat (readn c ! ?j)) (rx_bufs c ! ?j) # rx_frames d"
    by (simp add: rx_frames_def sl d)
qed

lemma rx_frames_Nil: "rx_ok c \<Longrightarrow> (rx_frames c = []) = (outreadbuf c < 0)"
  using ring_used_0_iff [OF rx_ok_ring, of c] by (simp add: rx_frames_def flip: length_0_conv)

text \<open>Reading: the first frame, cut to the length asked for; what is cut off is lost.\<close>

lemma chan_read_frame:
  assumes inv: "rx_inv c" and ev: "eventinidx c = eventoutidx c" and lin: "FLAG_LINEAR \<notin> chan_flags c"
    and frames: "rx_frames c = f # fs" and count: "0 < count" "count < 65536"
  obtains d where "chan_read True nonblock count c = Some (Ret (min count (int (length f))) (take (nat count) f), d)"
    and "rx_inv d" and "rx_cfg c d" and "rx_frames d = fs" and "rx_partial d = rx_partial c"
    and "rxhdlc d = rxhdlc c" and "infcs d = infcs c" and "eventinidx d = eventoutidx d"
proof -
  have ok: "rx_ok c" using inv by (simp add: rx_inv_def)
  have j: "0 \<le> outreadbuf c" using rx_frames_Nil [OF ok] frames by simp
  let ?j = "nat (outreadbuf c)"
  define d where "d = read_advance (outreadbuf c) c"
  note k = read_advance_ok [OF inv j, folded d_def]
  have jn: "?j < nat (numbufs c)" using rx_ok_ring [OF ok] j by (auto simp: ring_inv_def split: if_splits)
  obtain bufs where b: "readbuf c = Some bufs" using ok by (auto simp: rx_ok_def)
  have f: "f = take (nat (readn c ! ?j)) (bufs ! ?j)" "fs = rx_frames d"
    using k(6) frames b by simp_all
  have n: "int (length f) = readn c ! ?j"
    using rx_ok_slot [OF ok jn] b f(1) by (auto simp: rx_slot_ok_def)
  have "chan_read True nonblock count c =
      Some (Ret (if readn c ! ?j < count then readn c ! ?j else count)
        (take (nat (if readn c ! ?j < count then readn c ! ?j else count)) (bufs ! ?j)), d)"
    using ev lin count j b by (auto simp: chan_read_def d_def Let_def)
  moreover have "take (nat (if readn c ! ?j < count then readn c ! ?j else count)) (bufs ! ?j) = take (nat count) f"
    using n count by (auto simp: f(1) min_def)
  ultimately have "chan_read True nonblock count c = Some (Ret (min count (int (length f))) (take (nat count) f), d)"
    by (simp add: n min_def)
  moreover have "eventinidx d = eventoutidx d" using ev by (simp add: d_def read_advance_def Let_def)
  ultimately show ?thesis using k f that by metis
qed

lemma chan_read_empty:
  "rx_inv c \<Longrightarrow> eventinidx c = eventoutidx c \<Longrightarrow> rx_frames c = [] \<Longrightarrow> 0 < count \<Longrightarrow> count < 65536 \<Longrightarrow>
   chan_read True True count c = Some (Ret (- EAGAIN) [], c)"
  using rx_frames_Nil [of c] by (simp add: chan_read_def rx_inv_def)

lemma fill_0_nth: "s < nat n \<Longrightarrow> s < length xs \<Longrightarrow> fill_0 n xs ! s = 0"
  by (simp add: fill_0_def nth_append)

lemma length_fill_0 [simp]: "length (fill_0 n xs) = length xs"
  by (auto simp: fill_0_def)

lemma reallocbufs_rx:
  assumes "reallocbufs True bsize nbufs c = (r, d)" and "0 < bsize" and "32 \<le> length (readn c)"
    and "32 \<le> length (readidx c)"
  shows "r = 0" and "rx_inv d" and "rx_frames d = []" and "rx_partial d = []" and "blocksize d = bsize"
    and "numbufs d = max 2 (min 32 nbufs)"
proof -
  let ?n = "max 2 (min 32 nbufs)"
  have d: "r = 0" "blocksize d = bsize" "numbufs d = ?n" "inreadbuf d = 0" "outreadbuf d = -1"
      "readbuf d = Some (replicate (nat ?n) (replicate (nat bsize) 0))"
      "readn d = fill_0 ?n (readn c)" "readidx d = fill_0 ?n (readidx c)"
    using assms(1,2) by (auto simp: reallocbufs_def Let_def max_def min_def)
  have n: "2 \<le> ?n" "?n \<le> 32" by simp_all
  have z: "readn d ! s = 0" "readidx d ! s = 0" if "s < nat ?n" for s
    using that n assms(3,4) by (simp_all add: d fill_0_nth)
  show "r = 0" "blocksize d = bsize" "numbufs d = ?n" by (fact d)+
  have "rx_slot_ok d s" if "s < nat ?n" for s
    using z [OF that] assms(2) that by (simp add: rx_slot_ok_def d(2,6))
  moreover have "0 < ?n" "nat ?n \<le> 32" by auto
  ultimately have ok: "rx_ok d"
    using assms(2-4) by (simp add: rx_ok_def ring_inv_def d del: max_less_iff_conj nat_le_iff)
  then show "rx_inv d" using z [of 0] assms(2) by (simp add: rx_inv_def rx_idx_def d(2,4))
  show "rx_frames d = []" using d by (simp add: rx_frames_def)
  show "rx_partial d = []" using z [of 0] by (simp add: rx_partial_def rx_idx_def d(4))
qed

section \<open>Properties\<close>

lemma rx_overrun_flag_sel:
  "rx_abs (rx_overrun_flag b c) = rx_abs c" "rx_inv (rx_overrun_flag b c) = rx_inv c"
  "numbufs (rx_overrun_flag b c) = numbufs c" "blocksize (rx_overrun_flag b c) = blocksize c"
  "inreadbuf (rx_overrun_flag b c) = inreadbuf c"
  "insert FLAG_RXOVERRUN (chan_flags (rx_overrun_flag b c)) = insert FLAG_RXOVERRUN (chan_flags c)"
  "FLAG_RXOVERRUN \<in> chan_flags (rx_overrun_flag b c) \<longleftrightarrow> b"
  by (auto simp: rx_overrun_flag_def chan_defs rx_abs_def rx_inv_def rx_ok_def rx_slot_ok_def rx_frames_def
      rx_partial_def rx_idx_def)

lemma putbuf_chunk_ok:
  assumes "rx_inv c" and "FLAG_MTP2 \<notin> chan_flags c" and "length rxb < fuel"
  obtains d where "putbuf_chunk ppp_fcs fuel nostd alarms rxb c = Some d" and "rx_inv d"
    and "rx_abs d = fold (rx_octet ppp_fcs nostd c) rxb (rx_abs c)"
    and "numbufs d = numbufs c" and "blocksize d = blocksize c"
    and "insert FLAG_RXOVERRUN (chan_flags d) = insert FLAG_RXOVERRUN (chan_flags c)"
    and "FLAG_RXOVERRUN \<in> chan_flags d \<Longrightarrow> int (length (rx_frames d)) = numbufs d"
proof -
  obtain rest d where d: "rx_loop ppp_fcs fuel nostd alarms rxb c = Some (rest, d)" "rx_inv d" "rx_cfg c d"
      "rx_abs d = fold (rx_octet ppp_fcs nostd c) rxb (rx_abs c)" "rest \<noteq> [] \<longrightarrow> inreadbuf d < 0"
    using rx_loop_ok [OF assms, of ppp_fcs nostd alarms] by blast
  let ?d = "rx_overrun_flag (rest \<noteq> []) d"
  note sel = rx_overrun_flag_sel [of "rest \<noteq> []" d]
  have "int (length (rx_frames ?d)) = numbufs ?d" if "FLAG_RXOVERRUN \<in> chan_flags ?d"
  proof -
    have "inreadbuf ?d < 0" "rx_ok ?d" using that d(2,5) sel by (auto simp: rx_inv_def)
    then show ?thesis using rx_room by blast
  qed
  moreover have "putbuf_chunk ppp_fcs fuel nostd alarms rxb c = Some ?d" using d(1) by (simp add: putbuf_chunk_def)
  moreover have "rx_inv ?d" "rx_abs ?d = fold (rx_octet ppp_fcs nostd c) rxb (rx_abs c)" "numbufs ?d = numbufs c"
      "blocksize ?d = blocksize c" "insert FLAG_RXOVERRUN (chan_flags ?d) = insert FLAG_RXOVERRUN (chan_flags c)"
    unfolding sel using d(2-4) by (simp_all add: rx_cfg_def)
  ultimately show ?thesis using that by blast
qed

text \<open>C23. Receiving a chunk refines the reference receiver: whatever the state of the ring and the
  length of the chunk, \<open>__putbuf_chunk\<close> ends, and the frames in the ring, the frame being received,
  the de-framer and the check sequence are those of the receiver that handles the octets one by
  one. The overrun flag stays set only if the ring is full.\<close>

theorem putbuf_chunk_refines:
  assumes "rx_inv c" and "FLAG_MTP2 \<notin> chan_flags c" and "length rxb < fuel"
  shows "\<exists>d. putbuf_chunk ppp_fcs fuel nostd alarms rxb c = Some d \<and> rx_inv d \<and>
    rx_abs d = fold (rx_octet ppp_fcs nostd c) rxb (rx_abs c) \<and>
    numbufs d = numbufs c \<and> blocksize d = blocksize c \<and>
    insert FLAG_RXOVERRUN (chan_flags d) = insert FLAG_RXOVERRUN (chan_flags c) \<and>
    (FLAG_RXOVERRUN \<in> chan_flags d \<longrightarrow> int (length (fst (snd (rx_abs d)))) = numbufs d)"
  by (rule putbuf_chunk_ok [OF assms, of ppp_fcs nostd alarms]) (simp add: rx_abs_def del: length_rx_frames)

text \<open>A channel that is not de-framed carries a stream of octets, cut into blocks.\<close>

fun rx_stream_of :: "rx_state \<Rightarrow> u8 list" where
  "rx_stream_of (h, fs, p, fcs) = concat fs @ p"

fun rx_free :: "int \<Rightarrow> int \<Rightarrow> rx_state \<Rightarrow> int" where
  "rx_free n b (h, fs, p, fcs) = (n - int (length fs)) * b - int (length p)"

lemma raw_octets:
  assumes "FLAG_HDLC \<notin> chan_flags c" and "0 < blocksize c"
  shows "int (length p) < blocksize c \<Longrightarrow> int (length fs) \<le> numbufs c \<Longrightarrow>
    int (length xs) \<le> rx_free (numbufs c) (blocksize c) (h, fs, p, fcs) \<Longrightarrow>
    \<exists>gs q fcs'. fold (rx_octet ppp_fcs False c) xs (h, fs, p, fcs) = (h, fs @ gs, q, fcs') \<and>
      concat gs @ q = p @ xs \<and> (\<forall>g \<in> set gs. int (length g) = blocksize c) \<and> int (length q) < blocksize c"
proof (induction xs arbitrary: fs p fcs)
  case Nil
  then show ?case by (intro exI [of _ "[]"] exI [of _ p] exI [of _ fcs]) simp
next
  case (Cons x xs)
  have room: "int (length fs) \<noteq> numbufs c" using Cons.prems(3) by auto
  show ?case
  proof (cases "int (length p) + 1 < blocksize c")
    case True
    then have "rx_octet ppp_fcs False c x (h, fs, p, fcs) = (h, fs, p @ [x], fcs)"
      using room assms by (simp add: rx_octet_def rx_block_def)
    with Cons.IH [of "p @ [x]" fs fcs] Cons.prems True show ?thesis by auto
  next
    case False
    then have full: "int (length p) + 1 = blocksize c" using Cons.prems(1) by simp
    have step: "rx_octet ppp_fcs False c x (h, fs, p, fcs) = (h, fs @ [p @ [x]], [], PPP_INITFCS)"
      using room assms False by (simp add: rx_octet_def rx_block_def)
    have "int (length xs) \<le> rx_free (numbufs c) (blocksize c) (h, fs @ [p @ [x]], [], PPP_INITFCS)"
      using Cons.prems(3) full by (simp add: algebra_simps)
    then obtain gs q fcs' where g: "fold (rx_octet ppp_fcs False c) xs (h, fs @ [p @ [x]], [], PPP_INITFCS)
        = (h, (fs @ [p @ [x]]) @ gs, q, fcs')" "concat gs @ q = xs" "\<forall>g \<in> set gs. int (length g) = blocksize c"
        "int (length q) < blocksize c"
      using Cons.IH [of "[]" "fs @ [p @ [x]]" PPP_INITFCS] Cons.prems(2) room assms(2) by auto
    show ?thesis
      using step g full by (intro exI [of _ "(p @ [x]) # gs"] exI [of _ q] exI [of _ fcs']) simp
  qed
qed

definition rx_chunks :: "(int \<Rightarrow> u8 \<Rightarrow> int) \<Rightarrow> bool \<Rightarrow> u8 list list \<Rightarrow> 'a chan_buf_scheme \<Rightarrow> 'a chan_buf_scheme option" where
  "rx_chunks ppp_fcs alarms cks c =
     foldl (\<lambda>s rxb. Option.bind s (putbuf_chunk ppp_fcs (Suc (length rxb)) False alarms rxb)) (Some c) cks"

lemma rx_octet_overrun: "insert FLAG_RXOVERRUN (chan_flags d) = insert FLAG_RXOVERRUN (chan_flags c) \<Longrightarrow>
    numbufs d = numbufs c \<Longrightarrow> blocksize d = blocksize c \<Longrightarrow>
    rx_octet ppp_fcs nostd d = rx_octet ppp_fcs nostd c \<and>
    (FLAG_MTP2 \<in> chan_flags d \<longleftrightarrow> FLAG_MTP2 \<in> chan_flags c) \<and> (FLAG_HDLC \<in> chan_flags d \<longleftrightarrow> FLAG_HDLC \<in> chan_flags c) \<and>
    (FLAG_FCS \<in> chan_flags d \<longleftrightarrow> FLAG_FCS \<in> chan_flags c)"
proof -
  assume a: "insert FLAG_RXOVERRUN (chan_flags d) = insert FLAG_RXOVERRUN (chan_flags c)"
    and b: "numbufs d = numbufs c" "blocksize d = blocksize c"
  have "(f \<in> chan_flags d) = (f \<in> chan_flags c)" if "f \<noteq> FLAG_RXOVERRUN" for f
    using a that by blast
  then show ?thesis using b by (simp add: rx_octet_def fun_eq_iff)
qed

lemma rx_chunks_refines:
  "rx_inv c \<Longrightarrow> FLAG_MTP2 \<notin> chan_flags c \<Longrightarrow>
   \<exists>d. rx_chunks ppp_fcs alarms cks c = Some d \<and> rx_inv d \<and> blocksize d = blocksize c \<and> numbufs d = numbufs c \<and>
     rx_abs d = fold (rx_octet ppp_fcs False c) (concat cks) (rx_abs c)"
proof (induction cks arbitrary: c)
  case Nil
  then show ?case by (simp add: rx_chunks_def)
next
  case (Cons rxb cks)
  obtain d where d: "putbuf_chunk ppp_fcs (Suc (length rxb)) False alarms rxb c = Some d" "rx_inv d"
      "rx_abs d = fold (rx_octet ppp_fcs False c) rxb (rx_abs c)" "numbufs d = numbufs c" "blocksize d = blocksize c"
      "insert FLAG_RXOVERRUN (chan_flags d) = insert FLAG_RXOVERRUN (chan_flags c)"
    using putbuf_chunk_ok [OF Cons.prems, of rxb "Suc (length rxb)" ppp_fcs False alarms] by auto
  note same = rx_octet_overrun [OF d(6,4,5), of ppp_fcs False]
  have "rx_chunks ppp_fcs alarms (rxb # cks) c = rx_chunks ppp_fcs alarms cks d"
    using d(1) by (simp add: rx_chunks_def)
  with Cons.IH [OF d(2)] Cons.prems(2) same d(3-5) show ?case by simp
qed

text \<open>C28. A channel without framing is a stream: while there is room, the octets of the chunks
  received follow, in order and without loss, those in the buffers, whatever the lengths of the
  chunks, and every buffer given to the reader is a full block.\<close>

theorem raw_receive_stream:
  assumes "rx_inv c" and "FLAG_HDLC \<notin> chan_flags c" and "FLAG_MTP2 \<notin> chan_flags c"
    and "int (length (concat cks)) \<le> (numbufs c - int (length (rx_frames c))) * blocksize c - int (length (rx_partial c))"
  shows "\<exists>d gs. rx_chunks ppp_fcs alarms cks c = Some d \<and> rx_frames d = rx_frames c @ gs \<and>
    concat gs @ rx_partial d = rx_partial c @ concat cks \<and> (\<forall>g \<in> set gs. int (length g) = blocksize c)"
proof -
  obtain d where d: "rx_chunks ppp_fcs alarms cks c = Some d" "rx_inv d"
      "rx_abs d = fold (rx_octet ppp_fcs False c) (concat cks) (rx_abs c)"
    using rx_chunks_refines [OF assms(1,3)] by blast
  have ok: "rx_ok c" "0 < blocksize c" using assms(1) by (simp_all add: rx_inv_def rx_ok_def)
  have "int (length (rx_partial c)) < blocksize c"
    using assms(1) length_rx_partial [OF ok(1)] ok(2)
    by (cases "inreadbuf c < 0") (simp_all add: rx_inv_def rx_partial_def)
  moreover have "int (length (rx_frames c)) \<le> numbufs c"
    using ring_used_le [OF rx_ok_ring [OF ok(1)]] rx_ok_ring [OF ok(1)] by (simp add: ring_inv_def le_nat_iff)
  ultimately obtain gs q fcs' where "rx_abs d = (rxhdlc c, rx_frames c @ gs, q, fcs')" "concat gs @ q = rx_partial c @ concat cks"
      "\<forall>g \<in> set gs. int (length g) = blocksize c"
    using raw_octets [OF assms(2) ok(2), of "rx_partial c" "rx_frames c" "concat cks" "rxhdlc c" "infcs c" ppp_fcs]
      assms(4) d(3) by (auto simp: rx_abs_def simp del: length_rx_frames)
  with d(1) show ?thesis by (intro exI [of _ d] exI [of _ gs]) (simp add: rx_abs_def)
qed

section \<open>Check sequences\<close>

text \<open>The invariant of a channel that checks frames, and the events that can befall it.\<close>

fun rx_checked :: "(int \<Rightarrow> u8 \<Rightarrow> int) \<Rightarrow> rx_state \<Rightarrow> bool" where
  "rx_checked ppp_fcs (h, fs, p, fcs) \<longleftrightarrow> fcs = fcs_of ppp_fcs p \<and> (\<forall>f \<in> set fs. f \<noteq> [] \<and> fcs_of ppp_fcs f = PPP_GOODFCS)"

lemma rx_octet_checked:
  "FLAG_HDLC \<in> chan_flags c \<Longrightarrow> FLAG_FCS \<in> chan_flags c \<Longrightarrow> rx_checked ppp_fcs s \<Longrightarrow>
   rx_checked ppp_fcs (rx_octet ppp_fcs nostd c x s)"
  by (cases s) (auto simp: rx_octet_def rx_deframe_def fcs_of_def split: prod.splits)

lemma rx_octets_checked:
  "FLAG_HDLC \<in> chan_flags c \<Longrightarrow> FLAG_FCS \<in> chan_flags c \<Longrightarrow> rx_checked ppp_fcs s \<Longrightarrow>
   rx_checked ppp_fcs (fold (rx_octet ppp_fcs nostd c) xs s)"
  by (induction xs arbitrary: s) (simp_all add: rx_octet_checked)

inductive rx_step :: "(int \<Rightarrow> u8 \<Rightarrow> int) \<Rightarrow> 'a chan_buf_scheme \<Rightarrow> 'a chan_buf_scheme \<Rightarrow> bool" for ppp_fcs where
  chunk: "putbuf_chunk ppp_fcs (Suc (length rxb)) nostd alarms rxb c = Some d \<Longrightarrow> rx_step ppp_fcs c d"
| read: "chan_read uok nonblock count c = Some (r, d) \<Longrightarrow> rx_step ppp_fcs c d"
| event: "rx_step ppp_fcs c (qevent c e)"
| getevent: "rx_step ppp_fcs c (snd (getevent c))"
| flush: "i AND 1 = 0 \<Longrightarrow> rx_step ppp_fcs c (ioctl_flush i c)"

inductive_cases rx_stepE: "rx_step ppp_fcs c d"

definition rx_fcs_inv :: "(int \<Rightarrow> u8 \<Rightarrow> int) \<Rightarrow> 'a chan_buf_scheme \<Rightarrow> bool" where
  "rx_fcs_inv ppp_fcs c \<longleftrightarrow> rx_inv c \<and> {FLAG_HDLC, FLAG_FCS} \<subseteq> chan_flags c \<and> FLAG_MTP2 \<notin> chan_flags c \<and>
     FLAG_LINEAR \<notin> chan_flags c \<and> rx_checked ppp_fcs (rx_abs c)"

lemma rx_fcs_inv_same:
  assumes "rx_fcs_inv ppp_fcs c" and "rx_abs d = rx_abs c" and "rx_inv d" and "chan_flags d = chan_flags c"
  shows "rx_fcs_inv ppp_fcs d"
  using assms by (simp add: rx_fcs_inv_def)

lemma chan_read_cases:
  assumes "chan_read uok nonblock count c = Some (r, d)"
  shows "d = c \<or> (0 \<le> outreadbuf c \<and> d = read_advance (outreadbuf c) c)"
  using assms by (auto simp: chan_read_def Let_def split: if_splits option.splits)

lemma getevent_rx [simp]:
  "rx_inv (snd (getevent c)) = rx_inv c" "rx_abs (snd (getevent c)) = rx_abs c"
  "chan_flags (snd (getevent c)) = chan_flags c"
  by (simp_all add: getevent_def Let_def rx_abs_def rx_inv_def rx_ok_def rx_slot_ok_def rx_frames_def
      rx_partial_def rx_idx_def)

lemma flush_rx [simp]:
  "i AND 1 = 0 \<Longrightarrow> rx_inv (ioctl_flush i c) = rx_inv c" "i AND 1 = 0 \<Longrightarrow> rx_abs (ioctl_flush i c) = rx_abs c"
  "chan_flags (ioctl_flush i c) = chan_flags c" "blocksize (ioctl_flush i c) = blocksize c"
  by (simp_all add: ioctl_flush_def flush_events_def Let_def rx_abs_def rx_inv_def rx_ok_def rx_slot_ok_def
      rx_frames_def rx_partial_def rx_idx_def)

lemma rx_step_fcs: "rx_step ppp_fcs c d \<Longrightarrow> rx_fcs_inv ppp_fcs c \<Longrightarrow> rx_fcs_inv ppp_fcs d"
proof (induction rule: rx_step.induct)
  case (chunk rxb nostd alarms c d)
  then have c: "rx_inv c" "FLAG_MTP2 \<notin> chan_flags c" by (simp_all add: rx_fcs_inv_def)
  obtain d' where "putbuf_chunk ppp_fcs (Suc (length rxb)) nostd alarms rxb c = Some d'" "rx_inv d'"
      "rx_abs d' = fold (rx_octet ppp_fcs nostd c) rxb (rx_abs c)"
      "insert FLAG_RXOVERRUN (chan_flags d') = insert FLAG_RXOVERRUN (chan_flags c)"
    using putbuf_chunk_ok [OF c, of rxb "Suc (length rxb)" ppp_fcs nostd alarms] by auto
  with chunk.hyps have d: "rx_inv d" "rx_abs d = fold (rx_octet ppp_fcs nostd c) rxb (rx_abs c)"
      "insert FLAG_RXOVERRUN (chan_flags d) = insert FLAG_RXOVERRUN (chan_flags c)"
    by simp_all
  have fl: "(f \<in> chan_flags d) = (f \<in> chan_flags c)" if "f \<noteq> FLAG_RXOVERRUN" for f
    using d(3) that by blast
  with d chunk.prems rx_octets_checked [of c ppp_fcs "rx_abs c" nostd rxb] show ?case
    by (simp add: rx_fcs_inv_def)
next
  case (read uok nonblock count c r d)
  from chan_read_cases [OF read.hyps] show ?case
  proof
    assume "0 \<le> outreadbuf c \<and> d = read_advance (outreadbuf c) c"
    with read_advance_ok [of c] read.prems show ?thesis
      by (auto simp: rx_fcs_inv_def rx_abs_def rx_cfg_def)
  qed (use read.prems in simp)
next
  case (event c e)
  then show ?case by (simp add: rx_fcs_inv_def rx_abs_def)
next
  case (getevent c)
  then show ?case by (simp add: rx_fcs_inv_def)
next
  case (flush i c)
  then show ?case by (simp add: rx_fcs_inv_def)
qed

lemma rx_steps_fcs: "(rx_step ppp_fcs)\<^sup>*\<^sup>* c d \<Longrightarrow> rx_fcs_inv ppp_fcs c \<Longrightarrow> rx_fcs_inv ppp_fcs d"
  by (induction rule: rtranclp_induct) (auto intro: rx_step_fcs)

text \<open>C24. A read never returns octets whose check sequence is bad: on a channel that checks frames, from freshly
  allocated buffers on, through any interleaving of received chunks, reads, events and flushes of the write side and of the
  event queue, a read that asks for at least a block reports an error, or returns octets that end in a good check sequence of
  their own. A flush of the read side is left out, since \<open>flush_truncates_frame\<close> shows that it can leave the
  rest of a frame to be read; so is a read that asks for less than a block, which gets what it asks for and drops the rest.\<close>

theorem read_frames_checked:
  assumes "reallocbufs True bsize nbufs c0 = (r, c)" and "0 < bsize" and "32 \<le> length (readn c0)"
    and "32 \<le> length (readidx c0)" and "{FLAG_HDLC, FLAG_FCS} \<subseteq> chan_flags c0"
    and "FLAG_MTP2 \<notin> chan_flags c0" and "FLAG_LINEAR \<notin> chan_flags c0" and "infcs c0 = PPP_INITFCS"
    and "(rx_step ppp_fcs)\<^sup>*\<^sup>* c d" and "chan_read True nonblock count d = Some (Ret n ds, d')"
    and "blocksize d \<le> count" and "count < 65536"
  shows "n < 0 \<and> ds = [] \<or> n = int (length ds) \<and> ds \<noteq> [] \<and> fcs_of ppp_fcs ds = PPP_GOODFCS"
proof -
  have c: "chan_flags c = chan_flags c0" "infcs c = infcs c0"
    using assms(1) by (auto simp: reallocbufs_def Let_def split: if_splits)
  have "rx_fcs_inv ppp_fcs c"
    using reallocbufs_rx [OF assms(1-4)] assms(5-8) c
    by (simp add: rx_fcs_inv_def rx_abs_def fcs_of_def del: length_rx_frames)
  with assms(9) have inv: "rx_fcs_inv ppp_fcs d" by (rule rx_steps_fcs)
  then have ok: "rx_inv d" "FLAG_LINEAR \<notin> chan_flags d" "0 < blocksize d"
    by (simp_all add: rx_fcs_inv_def rx_inv_def rx_ok_def)
  show ?thesis
  proof (cases "eventinidx d = eventoutidx d \<and> rx_frames d \<noteq> []")
    case True
    then obtain f fs where f: "rx_frames d = f # fs" by (cases "rx_frames d") auto
    have len: "int (length f) \<le> blocksize d"
    proof -
      have ok': "rx_ok d" using ok(1) by (simp add: rx_inv_def)
      from f obtain s where s: "s \<in> set (rx_slots d)" "f = take (nat (readn d ! s)) (rx_bufs d ! s)"
        using list.set_intros(1) [of f fs] unfolding f [symmetric] by (auto simp: rx_frames_def)
      with rx_ok_slot [OF ok', of s] slots_lt [OF rx_ok_ring [OF ok']] show ?thesis
        by (auto simp: rx_slot_ok_def)
    qed
    obtain e where "chan_read True nonblock count d = Some (Ret (min count (int (length f))) (take (nat count) f), e)"
      using chan_read_frame [OF ok(1) _ ok(2) f, of count nonblock] True assms(11,12) ok(3) by (metis less_le_trans)
    with assms(10,11) len inv f show ?thesis by (auto simp: rx_fcs_inv_def rx_abs_def)
  next
    case False
    with assms(10-12) ok rx_frames_Nil [of d] show ?thesis
      by (auto simp: chan_read_def Let_def rx_inv_def split: if_splits)
  qed
qed

text \<open>A flush in the middle of a frame keeps the check sequence of the octets it discards, so that the
  rest of the frame is then delivered as a frame with a good check sequence.\<close>

lemma flush_truncates_frame:
  assumes "rx_ok c" and "0 \<le> inreadbuf c" and "1 < blocksize c"
  shows "infcs (ioctl_flush 1 c) = infcs c \<and> rx_partial (ioctl_flush 1 c) = []"
proof -
  have "0 < nat (numbufs c)" "0 < length (readidx c)" using assms(1) by (auto simp: rx_ok_def ring_inv_def)
  then show ?thesis by (simp add: ioctl_flush_def rx_partial_def rx_idx_def fill_0_nth)
qed

section \<open>Boards that deliver frames\<close>

text \<open>A frame handed over by the board, and a read of everything there is.\<close>

definition board_frame :: "bool \<Rightarrow> u8 list \<Rightarrow> 'a chan_buf_scheme \<Rightarrow> 'a chan_buf_scheme option" where
  "board_frame alarms f c = map_option hdlc_finish (hdlc_putbuf alarms f c)"

definition read_frame :: "'a chan_buf_scheme \<Rightarrow> u8 list option \<times> 'a chan_buf_scheme" where
  "read_frame c = (case chan_read True True 65535 c of
     Some (Ret n ds, d) \<Rightarrow> (if n < 0 then None else Some ds, d) | _ \<Rightarrow> (None, c))"

definition rxq_inv :: "int \<Rightarrow> int \<Rightarrow> 'a chan_buf_scheme \<Rightarrow> bool" where
  "rxq_inv n b c \<longleftrightarrow> rx_inv c \<and> numbufs c = n \<and> blocksize c = b \<and> b < 65536 \<and> rx_partial c = [] \<and>
     eventinidx c = eventoutidx c \<and> FLAG_LINEAR \<notin> chan_flags c"

definition rxq_item :: "int \<Rightarrow> u8 list \<Rightarrow> bool" where
  "rxq_item b f \<longleftrightarrow> f \<noteq> [] \<and> int (length f) \<le> b"

lemma board_frame_full: "inreadbuf c < 0 \<Longrightarrow> board_frame alarms f c = Some c"
  by (simp add: board_frame_def hdlc_putbuf_def hdlc_finish_def)

lemma store_octets_other: "store_octets ds c = Some d \<Longrightarrow> eventinidx d = eventinidx c \<and> eventoutidx d = eventoutidx c"
  by (auto simp: store_octets_def set_rx_idx_def Let_def split: option.splits if_splits)

lemma rx_advance_other [simp]: "eventinidx (rx_advance c) = eventinidx c" "eventoutidx (rx_advance c) = eventoutidx c"
  by (simp_all add: rx_advance_def Let_def)

lemma board_frame_room:
  assumes inv: "rxq_inv n b c" and i: "0 \<le> inreadbuf c" and f: "rxq_item b f"
  obtains d where "board_frame alarms f c = Some d" and "rxq_inv n b d" and "rx_frames d = rx_frames c @ [f]"
proof -
  have ok: "rx_ok c" and p: "rx_partial c = []" and ev: "eventinidx c = eventoutidx c"
    using inv by (simp_all add: rxq_inv_def rx_inv_def)
  have z: "rx_idx c = 0" using rx_partial_Nil [OF ok i] p by simp
  have fits: "rx_idx c + int (length f) \<le> blocksize c" using inv f z by (simp add: rxq_inv_def rxq_item_def)
  obtain d where st: "store_octets f c = Some d" "rx_ok d" "rx_frames d = rx_frames c"
    "rx_partial d = rx_partial c @ f" "rx_idx d = rx_idx c + int (length f)" "inreadbuf d = inreadbuf c"
    "rxhdlc d = rxhdlc c" "infcs d = infcs c" "rx_cfg c d"
    by (rule store_octets_ok [OF ok i fits])
  define e where "e = rx_advance (d\<lparr>readn := (readn d)[nat (inreadbuf d) := rx_idx d]\<rparr>)"
  have i': "0 \<le> inreadbuf d" using st(6) i by simp
  note k = rx_complete [OF st(2) i', folded e_def]
  have left: "min (blocksize c - rx_idx c) (int (length f)) = int (length f)" "f \<noteq> []"
    using fits f by (simp_all add: rxq_item_def)
  have "hdlc_putbuf alarms f c = Some d"
    using i left st(1) by (simp add: hdlc_putbuf_def)
  moreover have "hdlc_finish d = e"
    using i' st(5) z left(2) by (simp add: hdlc_finish_def e_def)
  ultimately have "board_frame alarms f c = Some e" by (simp add: board_frame_def)
  moreover have "eventinidx e = eventoutidx e"
    using store_octets_other [OF st(1)] ev by (simp add: e_def)
  then have "rxq_inv n b e"
    using inv k rx_cfg_trans [OF st(9) k(6)] by (simp add: rxq_inv_def rx_cfg_def)
  moreover have "rx_frames e = rx_frames c @ [f]" using k(2) st(3,4) p by simp
  ultimately show ?thesis using that by blast
qed

lemma rxq_length: "rxq_inv n b c \<Longrightarrow> f \<in> set (rx_frames c) \<Longrightarrow> int (length f) \<le> b"
  using slots_lt [OF rx_ok_ring, of c] rx_ok_slot [of c]
  by (fastforce simp: rxq_inv_def rx_inv_def rx_frames_def rx_slot_ok_def)

lemma read_frame_ok:
  assumes inv: "rxq_inv n b c"
  shows "rxq_inv n b (snd (read_frame c)) \<and> rx_frames (snd (read_frame c)) = tl (rx_frames c) \<and>
    fst (read_frame c) = (case rx_frames c of [] \<Rightarrow> None | f # _ \<Rightarrow> Some f)"
proof (cases "rx_frames c")
  case Nil
  with inv chan_read_empty [of c 65535] show ?thesis by (simp add: rxq_inv_def read_frame_def)
next
  case (Cons f fs)
  have len: "int (length f) \<le> b" using rxq_length [OF inv, of f] Cons by simp
  obtain d where d: "chan_read True True 65535 c = Some (Ret (min 65535 (int (length f))) (take (nat 65535) f), d)"
    "rx_inv d" "rx_cfg c d" "rx_frames d = fs" "rx_partial d = rx_partial c" "rxhdlc d = rxhdlc c"
    "infcs d = infcs c" "eventinidx d = eventoutidx d"
    using chan_read_frame [of c f fs 65535 True] inv Cons unfolding rxq_inv_def by auto
  with inv Cons len show ?thesis by (simp add: rxq_inv_def read_frame_def rx_cfg_def)
qed

interpretation rxq: bounded_fifo "rxq_inv n b" rx_frames "nat n"
    "\<lambda>f c. the (board_frame False f c)" read_frame "rxq_item b"
proof (unfold_locales, goal_cases)
  case (1 c f)
  then show ?case
    by (cases "inreadbuf c < 0") (auto simp: board_frame_full elim: board_frame_room [of n b c f False])
next
  case (2 c f)
  have room: "(length (rx_frames c) < nat n) = (0 \<le> inreadbuf c)"
    using ring_room_iff [OF rx_ok_ring, of c] 2(1) by (auto simp: rxq_inv_def rx_inv_def)
  with 2 show ?case
    by (cases "inreadbuf c < 0")
      (auto simp: board_frame_full simp del: length_rx_frames elim: board_frame_room [of n b c f False])
next
  case (3 c)
  then show ?case using read_frame_ok by blast
next
  case (4 c)
  then show ?case using read_frame_ok by blast
next
  case (5 c)
  then show ?case using read_frame_ok by blast
next
  case (6 c)
  then show ?case using ring_used_le [OF rx_ok_ring, of c] by (simp add: rxq_inv_def rx_inv_def)
qed

definition board_frames :: "u8 list list \<Rightarrow> 'a chan_buf_scheme \<Rightarrow> 'a chan_buf_scheme" where
  "board_frames fs c = foldl (\<lambda>c f. the (board_frame False f c)) c fs"

fun read_frames :: "nat \<Rightarrow> 'a chan_buf_scheme \<Rightarrow> u8 list list" where
  "read_frames 0 c = []"
| "read_frames (Suc k) c = (case read_frame c of (None, d) \<Rightarrow> [] | (Some f, d) \<Rightarrow> f # read_frames k d)"

lemma read_frames_deq_n: "read_frames k c = fst (rxq.deq_n k c)"
  by (induction k c rule: read_frames.induct) (auto split: prod.splits option.splits simp: Let_def)

text \<open>C27. Frames that a board with its own HDLC controller delivers are read in the order of their
  arrival, each one whole and none twice; those that arrive while every buffer is full are lost.\<close>

theorem frames_read_in_order:
  assumes "rxq_inv n b c" and "rx_frames c = []" and "\<forall>f \<in> set fs. rxq_item b f"
  shows "read_frames k (board_frames fs c) = take k (take (nat n) fs)"
proof -
  have "board_frames fs c = rxq.enq_all fs c"
    by (simp add: board_frames_def rxq.enq_all_def foldl_conv_fold)
  with rxq.enq_all_refines [OF assms(1,3)] rxq.deq_n_refines [of n b "rxq.enq_all fs c" k] assms(2) show ?thesis
    by (simp add: read_frames_deq_n)
qed

section \<open>Examples\<close>

definition buf_demo_chan :: "dahdi_flag set \<Rightarrow> chan_buf" where
  "buf_demo_chan fl = (chan_tone.extend (tone_demo_chan DIGIT_MODE_DTMF)
     \<lparr>readchunk = replicate 8 0, writechunk = replicate 8 0, readbuf = None, inreadbuf = -1, outreadbuf = -1,
      writebuf = None, inwritebuf = -1, outwritebuf = -1, blocksize = 0, readn = replicate 32 0,
      readidx = replicate 32 0, writen = replicate 32 0, writeidx = replicate 32 0, numbufs = 2,
      txbufpolicy = POLICY_IMMEDIATE, txdisable = False,
      txhdlc = fasthdlc_init (fasthdlc_state.make 0 0 0 0 FASTHDLC_MODE_64 0) FASTHDLC_MODE_64,
      rxhdlc = fasthdlc_init (fasthdlc_state.make 0 0 0 0 FASTHDLC_MODE_64 0) FASTHDLC_MODE_64,
      infcs = PPP_INITFCS\<rparr>)\<lparr>chan_flags := fl\<rparr>"

definition rx_demo :: "dahdi_flag set \<Rightarrow> chan_buf" where
  "rx_demo fl = snd (reallocbufs True 16 2 (buf_demo_chan fl))"

lemma rx_demo_ok:
  "rx_inv (rx_demo fl) \<and> rx_frames (rx_demo fl) = [] \<and> rx_partial (rx_demo fl) = [] \<and> numbufs (rx_demo fl) = 2 \<and>
   blocksize (rx_demo fl) = 16 \<and> chan_flags (rx_demo fl) = fl \<and> eventinidx (rx_demo fl) = eventoutidx (rx_demo fl)"
proof -
  have b: "32 \<le> length (readn (buf_demo_chan fl))" "32 \<le> length (readidx (buf_demo_chan fl))"
    by (simp_all add: buf_demo_chan_def chan_tone.extend_def)
  obtain r where r: "reallocbufs True 16 2 (buf_demo_chan fl) = (r, rx_demo fl)"
    by (metis rx_demo_def surjective_pairing)
  have "chan_flags (rx_demo fl) = fl" "eventinidx (rx_demo fl) = eventoutidx (rx_demo fl)"
    by (simp_all add: rx_demo_def reallocbufs_def buf_demo_chan_def chan_tone.extend_def tone_demo_chan_def
        chan_rbs.extend_def rbs_demo_chan_def Let_def)
  with reallocbufs_rx [OF r _ b] show ?thesis by simp
qed

theorem putbuf_chunk_refines_witness:
  "\<exists>d. putbuf_chunk (\<lambda>f x. f) 9 False False [1, 2, 3, 4, 5, 6, 7, 8] (rx_demo {}) = Some d \<and>
     rx_abs d = (rxhdlc d, [], [1, 2, 3, 4, 5, 6, 7, 8], infcs d)"
proof -
  obtain d where d: "putbuf_chunk (\<lambda>f x. f) 9 False False [1, 2, 3, 4, 5, 6, 7, 8] (rx_demo {}) = Some d"
      "rx_abs d = fold (rx_octet (\<lambda>f x. f) False (rx_demo {})) [1, 2, 3, 4, 5, 6, 7, 8] (rx_abs (rx_demo {}))"
    using putbuf_chunk_refines [of "rx_demo {}" "[1, 2, 3, 4, 5, 6, 7, 8]" 9 "\<lambda>f x. f" False False]
      rx_demo_ok [of "{}"] by auto
  then show ?thesis using rx_demo_ok [of "{}"]
    by (simp add: rx_octet_def rx_block_def rx_abs_def del: length_rx_frames)
qed

theorem raw_receive_stream_witness:
  "\<exists>d gs. rx_chunks (\<lambda>f x. f) False [replicate 8 1, replicate 8 2, replicate 8 3] (rx_demo {}) = Some d \<and>
     rx_frames d = gs \<and> concat gs @ rx_partial d = replicate 8 1 @ replicate 8 2 @ replicate 8 3 \<and>
     (\<forall>g \<in> set gs. length g = 16)"
  using raw_receive_stream [of "rx_demo {}" "[replicate 8 1, replicate 8 2, replicate 8 3]" "\<lambda>f x. f" False]
    rx_demo_ok [of "{}"] by (simp del: length_rx_frames)

text \<open>The octets of a flag, of the octet 1 and of two flags, as the de-framer sees them.\<close>

abbreviation (input) deframing :: "int \<Rightarrow> u32 \<Rightarrow> int \<Rightarrow> fasthdlc_state" where
  "deframing s d n \<equiv> \<lparr>fh_state = s, fh_data = d, fh_bits = n, fh_ones = 0, fh_mode = FASTHDLC_MODE_64, fh_minbits = 8\<rparr>"

lemma deframe_windows:
  "hdlc_frame_precalc 0 0x201 = 0x8801" "hdlc_frame_precalc 0 0x1F9 = 0x0801" "hdlc_search_precalc 0x7e = 0x18"
  by code_simp+

lemmas deframe_defs = fasthdlc_rx_run_def fasthdlc_rx_loop.simps fasthdlc_rx_load_nocheck_def rx_minbits_def
  next_consumed_def next_state_def next_ones_def Let_def

lemma deframe_demo:
  "fasthdlc_rx_run (fst (fasthdlc_rx_load_nocheck (deframing 0 0 0) 0x7e)) = (deframing 1 0 0, 0x4000)"
  "fasthdlc_rx_run (fst (fasthdlc_rx_load_nocheck (deframing 1 0 0) 0x80)) = (deframing 1 0x80000000 8, 0x4000)"
  "fasthdlc_rx_run (fst (fasthdlc_rx_load_nocheck (deframing 1 0x80000000 8) 0x7e)) = (deframing 1 0x7E000000 8, 1)"
  "fasthdlc_rx_run (fst (fasthdlc_rx_load_nocheck (deframing 1 0x7E000000 8) 0x7e)) = (deframing 1 0x7E000000 8, 0x1000)"
  by (simp_all add: deframe_windows deframe_defs)

theorem read_frames_checked_witness:
  "\<exists>d e. (rx_step (\<lambda>f x. PPP_GOODFCS))\<^sup>*\<^sup>* (rx_demo {FLAG_HDLC, FLAG_FCS}) d \<and>
     chan_read True True 4096 d = Some (Ret 1 [1], e) \<and> fcs_of (\<lambda>f x. PPP_GOODFCS) [1] = PPP_GOODFCS"
proof -
  let ?c = "rx_demo {FLAG_HDLC, FLAG_FCS}" and ?fcs = "\<lambda>f x. PPP_GOODFCS" and ?rxb = "[0x7e, 0x80, 0x7e, 0x7e] :: u8 list"
  note k = rx_demo_ok [of "{FLAG_HDLC, FLAG_FCS}"]
  obtain d0 where d: "putbuf_chunk ?fcs (Suc (length ?rxb)) False False ?rxb ?c = Some d0" "rx_inv d0"
      "rx_abs d0 = fold (rx_octet ?fcs False ?c) ?rxb (rx_abs ?c)" "blocksize d0 = blocksize ?c"
      "insert FLAG_RXOVERRUN (chan_flags d0) = insert FLAG_RXOVERRUN (chan_flags ?c)"
    by (rule putbuf_chunk_ok [of ?c ?rxb "Suc (length ?rxb)" ?fcs False False]) (use k in auto)
  define d where "d = ioctl_flush 4 d0"
  have h: "rxhdlc ?c = deframing 0 0 0"
    by (simp add: rx_demo_def reallocbufs_def buf_demo_chan_def chan_tone.extend_def fasthdlc_init_def
        fasthdlc_state.make_def Let_def)
  have "rx_abs d0 = (deframing 1 0x7E000000 8, [[1]], [], PPP_INITFCS)"
    using d(3) k deframe_demo
    by (simp add: rx_octet_def rx_abs_def rx_deframe_def h Let_def del: length_rx_frames)
  then have "rx_abs d = (deframing 1 0x7E000000 8, [[1]], [], PPP_INITFCS)" by (simp add: d_def)
  then have "rx_frames d = [[1]]" by (simp add: rx_abs_def)
  moreover have "FLAG_LINEAR \<notin> chan_flags d" "rx_inv d" using d(2,5) k by (auto simp: d_def)
  moreover have "eventinidx d = eventoutidx d" by (simp add: d_def ioctl_flush_def flush_events_def)
  ultimately obtain e where e: "chan_read True True 4096 d = Some (Ret 1 [1], e)"
    using chan_read_frame [of d "[1]" "[]" 4096 True] by auto
  obtain r0 where al: "reallocbufs True 16 2 (buf_demo_chan {FLAG_HDLC, FLAG_FCS}) = (r0, ?c)"
    by (metis rx_demo_def surjective_pairing)
  have s: "(rx_step ?fcs)\<^sup>*\<^sup>* ?c d"
    using rx_step.chunk [OF d(1)] rx_step.flush [of 4 ?fcs d0] by (simp add: d_def)
  have "1 < (0::int) \<and> [1::u8] = [] \<or> 1 = int (length [1::u8]) \<and> [1::u8] \<noteq> [] \<and> fcs_of ?fcs [1] = PPP_GOODFCS"
    by (rule read_frames_checked [OF al _ _ _ _ _ _ _ s e])
      (use k d(4) in \<open>simp_all add: buf_demo_chan_def chan_tone.extend_def d_def\<close>)
  with s e show ?thesis by blast
qed

theorem frames_read_in_order_witness:
  "read_frames 5 (board_frames [[1], [2, 3], [4]] (rx_demo {})) = [[1], [2, 3]]"
  using frames_read_in_order [of 2 16 "rx_demo {}" "[[1], [2, 3], [4]]" 5] rx_demo_ok [of "{}"]
  by (simp add: rxq_inv_def rxq_item_def)

end
