(* ===== verification/Transmit.thy ===== *)
theory Transmit
  imports Receive
begin

text \<open>
  The transmit side of \<open>Buffers\<close>: the invariant of the write ring and its abstraction to the
  frames that wait to be sent, what a write adds and a chunk takes, and the check sequence that
  \<open>calc_fcs\<close> stores. On a channel without framing the ring is a queue of octets; the frames of
  an HDLC channel go through the encoder (the last section).
\<close>

section \<open>The write ring\<close>

abbreviation tx_bufs :: "'a chan_buf_scheme \<Rightarrow> u8 list list" where
  "tx_bufs c \<equiv> the (writebuf c)"

abbreviation tx_slots :: "'a chan_buf_scheme \<Rightarrow> nat list" where
  "tx_slots c \<equiv> slots (numbufs c) (inwritebuf c) (outwritebuf c)"

definition tx_slot_ok :: "'a chan_buf_scheme \<Rightarrow> nat \<Rightarrow> bool" where
  "tx_slot_ok c s \<longleftrightarrow> length (tx_bufs c ! s) = nat (blocksize c) \<and>
     0 \<le> writeidx c ! s \<and> writeidx c ! s \<le> writen c ! s \<and> writen c ! s \<le> blocksize c"

definition tx_ok :: "'a chan_buf_scheme \<Rightarrow> bool" where
  "tx_ok c \<longleftrightarrow> 0 < blocksize c \<and> ring_inv (numbufs c) (inwritebuf c) (outwritebuf c) \<and>
     writebuf c \<noteq> None \<and> length (tx_bufs c) = nat (numbufs c) \<and>
     nat (numbufs c) \<le> length (writen c) \<and> nat (numbufs c) \<le> length (writeidx c) \<and>
     (\<forall>s < nat (numbufs c). tx_slot_ok c s)"

text \<open>What is left of each frame, the first to be sent first.\<close>

definition tx_rest :: "'a chan_buf_scheme \<Rightarrow> nat \<Rightarrow> u8 list" where
  "tx_rest c s = drop (nat (writeidx c ! s)) (take (nat (writen c ! s)) (tx_bufs c ! s))"

definition tx_frames :: "'a chan_buf_scheme \<Rightarrow> u8 list list" where
  "tx_frames c = map (tx_rest c) (tx_slots c)"

lemma tx_ok_ring: "tx_ok c \<Longrightarrow> ring_inv (numbufs c) (inwritebuf c) (outwritebuf c)"
  by (simp add: tx_ok_def)

lemma tx_ok_in: "tx_ok c \<Longrightarrow> 0 \<le> inwritebuf c \<Longrightarrow> nat (inwritebuf c) < nat (numbufs c)"
  by (auto simp: tx_ok_def ring_inv_def split: if_splits)

lemma tx_ok_out: "tx_ok c \<Longrightarrow> 0 \<le> outwritebuf c \<Longrightarrow> nat (outwritebuf c) < nat (numbufs c)"
  by (auto simp: tx_ok_def ring_inv_def split: if_splits)

lemma tx_ok_slot: "tx_ok c \<Longrightarrow> s < nat (numbufs c) \<Longrightarrow> tx_slot_ok c s"
  by (simp add: tx_ok_def)

lemma tx_ok_lengths: "tx_ok c \<Longrightarrow> s < nat (numbufs c) \<Longrightarrow>
    s < length (tx_bufs c) \<and> s < length (writen c) \<and> s < length (writeidx c)"
  by (simp add: tx_ok_def)

lemma length_tx_frames [simp]: "length (tx_frames c) = ring_used (numbufs c) (inwritebuf c) (outwritebuf c)"
  by (simp add: tx_frames_def)

lemma tx_frames_Nil: "tx_ok c \<Longrightarrow> (tx_frames c = []) = (outwritebuf c < 0)"
  using ring_used_0_iff [OF tx_ok_ring, of c] by (simp add: tx_frames_def flip: length_0_conv)

lemma tx_room: "tx_ok c \<Longrightarrow> (length (tx_frames c) < nat (numbufs c)) = (0 \<le> inwritebuf c)"
  using ring_room_iff [OF tx_ok_ring, of c] by simp

lemma tx_fresh: "tx_ok c \<Longrightarrow> 0 \<le> inwritebuf c \<Longrightarrow> s \<in> set (tx_slots c) \<Longrightarrow> nat (inwritebuf c) \<noteq> s"
  using tx_ok_ring ring_fresh_slot by blast

definition tx_cfg :: "'a chan_buf_scheme \<Rightarrow> 'a chan_buf_scheme \<Rightarrow> bool" where
  "tx_cfg c d \<longleftrightarrow> numbufs d = numbufs c \<and> blocksize d = blocksize c \<and> chan_flags d = chan_flags c \<and>
     curtone d = curtone c \<and> xlaw d = xlaw c \<and> chan_span d = chan_span c"

lemma tx_cfg_trans: "tx_cfg c d \<Longrightarrow> tx_cfg d e \<Longrightarrow> tx_cfg c e"
  by (simp add: tx_cfg_def)

lemma tx_cfg_refl [simp]: "tx_cfg c c"
  by (simp add: tx_cfg_def)

lemma tx_unrelated [simp]:
  "tx_ok (c\<lparr>txhdlc := h\<rparr>) = tx_ok c" "tx_ok (c\<lparr>txdisable := b\<rparr>) = tx_ok c" "tx_ok (qevent c e) = tx_ok c"
  "tx_frames (c\<lparr>txhdlc := h\<rparr>) = tx_frames c" "tx_frames (c\<lparr>txdisable := b\<rparr>) = tx_frames c"
  "tx_frames (qevent c e) = tx_frames c" "tx_ok (c\<lparr>drv_calls := l\<rparr>) = tx_ok c"
  "tx_frames (c\<lparr>drv_calls := l\<rparr>) = tx_frames c"
  by (simp_all add: tx_ok_def tx_slot_ok_def tx_frames_def tx_rest_def fun_eq_iff)

section \<open>Writing\<close>

lemma write_advance_other [simp]:
  "eventinidx (write_advance r c) = eventinidx c" "eventoutidx (write_advance r c) = eventoutidx c"
  by (simp_all add: write_advance_def Let_def)

lemma write_advance_ring:
  assumes "ring_inv (numbufs c) (inwritebuf c) (outwritebuf c)" and "0 \<le> inwritebuf c"
    and "ring_push (numbufs c) (inwritebuf c) (outwritebuf c) = (i, j)"
  obtains b where "write_advance (inwritebuf c) c = c\<lparr>inwritebuf := i, outwritebuf := j, txdisable := b\<rparr>"
    and "\<not> txdisable c \<Longrightarrow> \<not> b"
proof -
  let ?d = "write_advance (inwritebuf c) c"
  have n: "0 \<le> (inwritebuf c + 1) mod numbufs c" using assms(1) by (simp add: ring_inv_def)
  have "?d = c\<lparr>inwritebuf := i, outwritebuf := j, txdisable := txdisable ?d\<rparr> \<and> (\<not> txdisable c \<longrightarrow> \<not> txdisable ?d)"
    using assms(2,3) n
    by (cases "outwritebuf c < 0"; cases "(inwritebuf c + 1) mod numbufs c = outwritebuf c")
      (simp_all add: write_advance_def ring_push_def Let_def)
  with that show ?thesis by blast
qed

text \<open>A frame enters the ring at the slot \<open>inwritebuf\<close>.\<close>

lemma write_frame_ok:
  assumes ok: "tx_ok c" and i: "0 \<le> inwritebuf c" and n: "n = int (length f)" "n \<le> blocksize c"
    and buf: "length buf = nat (blocksize c)" "take (length f) buf = f"
  defines "d \<equiv> write_advance (inwritebuf c) (c\<lparr>writebuf := Some ((tx_bufs c)[nat (inwritebuf c) := buf]),
      writen := (writen c)[nat (inwritebuf c) := n], writeidx := (writeidx c)[nat (inwritebuf c) := 0]\<rparr>)"
  shows "tx_ok d" and "tx_frames d = tx_frames c @ [f]" and "tx_cfg c d" and "txhdlc d = txhdlc c"
    and "\<not> txdisable c \<Longrightarrow> \<not> txdisable d"
proof -
  let ?i = "nat (inwritebuf c)"
  let ?c = "c\<lparr>writebuf := Some ((tx_bufs c)[?i := buf]), writen := (writen c)[?i := n],
      writeidx := (writeidx c)[?i := 0]\<rparr>"
  note ring = tx_ok_ring [OF ok]
  obtain i' j' where p: "ring_push (numbufs c) (inwritebuf c) (outwritebuf c) = (i', j')" by fastforce
  obtain b where d: "d = ?c\<lparr>inwritebuf := i', outwritebuf := j', txdisable := b\<rparr>" and b: "\<not> txdisable c \<Longrightarrow> \<not> b"
    using write_advance_ring [of ?c i' j'] ring i p unfolding d_def by auto
  note sl = ring_push_slots [OF ring i p] and il = tx_ok_in [OF ok i] and ring' = ring_push_inv [OF ring i p]
  note len = tx_ok_lengths [OF ok il]
  have slot: "tx_slot_ok d s" if "s < nat (numbufs c)" for s
    using tx_ok_slot [OF ok that] len buf n by (cases "s = ?i") (simp_all add: tx_slot_ok_def d)
  show "tx_ok d" using ok ring' slot by (simp add: tx_ok_def d)
  have "tx_rest d s = tx_rest c s" if "s \<in> set (tx_slots c)" for s
    using tx_fresh [OF ok i that] by (simp add: tx_rest_def d)
  moreover have "tx_rest d ?i = f" using len buf n by (simp add: tx_rest_def d)
  ultimately show "tx_frames d = tx_frames c @ [f]" by (simp add: tx_frames_def d sl cong: map_cong)
  show "tx_cfg c d" "txhdlc d = txhdlc c" by (simp_all add: d tx_cfg_def)
  show "\<not> txdisable d" if "\<not> txdisable c" using b [OF that] by (simp add: d)
qed

section \<open>Taking octets\<close>

text \<open>The octets of the first frame are used up to \<open>idx\<close>.\<close>

lemma tx_use_ok:
  assumes ok: "tx_ok c" and j: "0 \<le> outwritebuf c" and fr: "tx_frames c = f # fs"
    and k: "k \<le> length f"
  shows "tx_ok (set_tx_idx (tx_idx c + int k) c)"
    and "tx_frames (set_tx_idx (tx_idx c + int k) c) = drop k f # fs"
    and "tx_cfg c (set_tx_idx (tx_idx c + int k) c)"
    and "take k f = take k (drop (nat (tx_idx c)) (tx_bufs c ! nat (outwritebuf c)))"
    and "int (length f) = tx_len c - tx_idx c" and "0 \<le> tx_idx c"
proof -
  let ?j = "nat (outwritebuf c)" and ?d = "set_tx_idx (tx_idx c + int k) c"
  note jn = tx_ok_out [OF ok j]
  note so = tx_ok_slot [OF ok jn, unfolded tx_slot_ok_def] and len = tx_ok_lengths [OF ok jn]
  obtain rest where sl: "tx_slots c = ?j # rest"
    using ring_pull_slots [OF tx_ok_ring [OF ok] j] by (metis surj_pair)
  have f: "f = tx_rest c ?j" "fs = map (tx_rest c) rest" using fr sl by (simp_all add: tx_frames_def)
  have dis: "?j \<notin> set rest" using distinct_slots [OF tx_ok_ring [OF ok]] sl by simp
  show lf: "int (length f) = tx_len c - tx_idx c"
    using so by (auto simp: f(1) tx_rest_def tx_len_def tx_idx_def of_nat_diff nat_mono)
  show z: "0 \<le> tx_idx c" using so by (simp add: tx_idx_def)
  have slot: "tx_slot_ok ?d s" if "s < nat (numbufs c)" for s
    using tx_ok_slot [OF ok that] len so lf k
    by (cases "s = ?j") (simp_all add: tx_slot_ok_def set_tx_idx_def tx_idx_def tx_len_def)
  show "tx_ok ?d" using ok slot by (simp add: tx_ok_def set_tx_idx_def)
  have "tx_rest ?d ?j = drop k f"
    using len so by (simp add: tx_rest_def set_tx_idx_def f(1) tx_idx_def nat_add_distrib add.commute)
  moreover have "tx_rest ?d s = tx_rest c s" if "s \<in> set rest" for s
  proof -
    have "?j \<noteq> s" using that dis by blast
    then show ?thesis by (simp add: tx_rest_def set_tx_idx_def)
  qed
  ultimately show "tx_frames ?d = drop k f # fs"
    by (simp add: tx_frames_def f(2) set_tx_idx_def sl cong: map_cong)
  show "tx_cfg c ?d" by (simp add: tx_cfg_def set_tx_idx_def)
  show "take k f = take k (drop (nat (tx_idx c)) (tx_bufs c ! ?j))"
  proof -
    have "k + nat (tx_idx c) \<le> nat (tx_len c)" using k lf z by linarith
    then show ?thesis by (simp add: f(1) tx_rest_def tx_idx_def tx_len_def take_drop min_absorb1)
  qed
qed

text \<open>The first frame is done.\<close>

lemma disable_when_empty_alt:
  "disable_when_empty c = c\<lparr>txdisable := (txbufpolicy c = POLICY_WHEN_FULL \<or> txbufpolicy c = POLICY_HALF_FULL \<or> txdisable c)\<rparr>"
  by (simp add: disable_when_empty_def)

lemma tx_advance_flags [simp]: "chan_flags (tx_advance c) = chan_flags c"
  by (simp add: tx_advance_def set_tx_idx_def disable_when_empty_alt Let_def)

lemma tx_advance_ok:
  assumes ok: "tx_ok c" and j: "0 \<le> outwritebuf c" and fr: "tx_frames c = f # fs"
    and m: "FLAG_MTP2 \<notin> chan_flags c"
  shows "tx_ok (tx_advance c)" and "tx_frames (tx_advance c) = fs" and "tx_cfg c (tx_advance c)"
    and "txhdlc (tx_advance c) = txhdlc c" and "\<not> txdisable c \<Longrightarrow> fs \<noteq> [] \<Longrightarrow> \<not> txdisable (tx_advance c)"
    and "readchunk (tx_advance c) = readchunk c"
proof -
  let ?j = "nat (outwritebuf c)" and ?d = "tx_advance c"
  note ring = tx_ok_ring [OF ok]
  obtain i' j' where p: "ring_pull (numbufs c) (inwritebuf c) (outwritebuf c) = (i', j')" by fastforce
  note sl = ring_pull_slots [OF ring j p] and ring' = ring_pull_inv [OF ring j p]
  note jn = tx_ok_out [OF ok j]
  note so = tx_ok_slot [OF ok jn, unfolded tx_slot_ok_def] and len = tx_ok_lengths [OF ok jn]
  have nn: "0 \<le> (outwritebuf c + 1) mod numbufs c" using ring by (simp add: ring_inv_def)
  define b where "b = txdisable ?d"
  have "?d = c\<lparr>writeidx := (writeidx c)[?j := 0], writen := (writen c)[?j := 0],
      inwritebuf := i', outwritebuf := j', txdisable := b\<rparr> \<and> (\<not> txdisable c \<longrightarrow> 0 \<le> j' \<longrightarrow> \<not> b)"
    using m p nn j unfolding b_def
    by (cases "inwritebuf c < 0"; cases "(outwritebuf c + 1) mod numbufs c = inwritebuf c")
      (simp_all add: tx_advance_def ring_pull_def set_tx_idx_def disable_when_empty_alt Let_def)
  then have d: "?d = c\<lparr>writeidx := (writeidx c)[?j := 0], writen := (writen c)[?j := 0],
      inwritebuf := i', outwritebuf := j', txdisable := b\<rparr>" and b: "\<not> txdisable c \<longrightarrow> 0 \<le> j' \<longrightarrow> \<not> b" by blast+
  have slot: "tx_slot_ok ?d s" if "s < nat (numbufs c)" for s
    using tx_ok_slot [OF ok that] len ok by (cases "s = ?j") (simp_all add: tx_slot_ok_def d tx_ok_def)
  show ok': "tx_ok ?d" using ok ring' slot by (simp add: tx_ok_def d)
  have dis: "?j \<notin> set (slots (numbufs c) i' j')" using distinct_slots [OF ring] sl by simp
  have "tx_rest ?d s = tx_rest c s" if "s \<in> set (slots (numbufs c) i' j')" for s
  proof -
    have "?j \<noteq> s" using that dis by blast
    then show ?thesis by (simp add: tx_rest_def d)
  qed
  then show fs: "tx_frames ?d = fs" using fr by (simp add: tx_frames_def sl d cong: map_cong)
  show "tx_cfg c ?d" "txhdlc ?d = txhdlc c" "readchunk ?d = readchunk c" by (simp_all add: d tx_cfg_def)
  show "\<not> txdisable ?d" if "\<not> txdisable c" "fs \<noteq> []"
    using that b tx_frames_Nil [OF ok'] fs by (simp add: d)
qed

section \<open>A chunk sent\<close>

lemma tx_buffer_raw:
  assumes ok: "tx_ok c" and fr: "tx_frames c = f # fs" and fl: "FLAG_HDLC \<notin> chan_flags c" "FLAG_MTP2 \<notin> chan_flags c"
    and dis: "\<not> txdisable c" and n: "0 < n"
  obtains d where "tx_buffer (int n) c = Some (take n f, d)" and "tx_ok d" and "tx_cfg c d"
    and "tx_frames d = (if length f \<le> n then fs else drop n f # fs)" and "tx_frames d \<noteq> [] \<Longrightarrow> \<not> txdisable d"
proof -
  have j: "0 \<le> outwritebuf c" using tx_frames_Nil [OF ok] fr by simp
  obtain bufs where b: "writebuf c = Some bufs" using ok by (auto simp: tx_ok_def)
  let ?k = "min (length f) n"
  have kl: "?k \<le> length f" by simp
  note u = tx_use_ok [OF ok j fr kl]
  let ?c = "set_tx_idx (tx_idx c + int ?k) c"
  have left: "min (tx_len c - tx_idx c) (int n) = int ?k" using u(5) by simp
  have idx: "tx_idx ?c = tx_idx c + int ?k" "tx_len ?c = tx_len c" "outwritebuf ?c = outwritebuf c"
    using tx_ok_lengths [OF ok tx_ok_out [OF ok j]] by (simp_all add: tx_idx_def tx_len_def set_tx_idx_def)
  have fin: "(tx_idx ?c \<ge> tx_len ?c) = (length f \<le> n)"
    unfolding idx using u(5) by (auto simp: min_def)
  have out: "take (nat (min (tx_len c - tx_idx c) (int n))) (drop (nat (tx_idx c)) (bufs ! nat (outwritebuf c))) = take n f"
    unfolding left nat_int using u(4) b by (simp add: min_def split: if_splits)
  have eq: "tx_buffer (int n) c = Some (take n f, if length f \<le> n then tx_advance ?c else ?c)"
    unfolding tx_buffer_def using b fl out left fin by (simp add: Let_def set_tx_idx_def)
  show ?thesis
  proof (cases "length f \<le> n")
    case True
    have c: "tx_ok ?c" "0 \<le> outwritebuf ?c" "tx_frames ?c = drop ?k f # fs" "FLAG_MTP2 \<notin> chan_flags ?c" "\<not> txdisable ?c"
      using u(1,2) j fl dis by (simp_all add: set_tx_idx_def)
    from tx_advance_ok [OF c(1-4)] c(5) tx_cfg_trans [OF u(3)] True show ?thesis
      by (intro that [of "tx_advance ?c"]) (simp_all add: eq)
  next
    case False
    with u(1-3) dis show ?thesis by (intro that [of ?c]) (simp_all add: eq min_def set_tx_idx_def)
  qed
qed

definition tx_silence :: "'a chan_buf_scheme \<Rightarrow> u8" where
  "tx_silence c = (if FLAG_CLEAR \<in> chan_flags c \<and> FLAG_AUDIO \<notin> chan_flags c then 0xff else DAHDI_LIN2X 0 (xlaw c))"

lemma tx_silence_cfg: "tx_cfg c d \<Longrightarrow> tx_silence d = tx_silence c \<and> tone_of d = tone_of c"
  by (simp add: tx_silence_def tx_cfg_def tone_of_def is_pseudo_chan_def)

lemma tx_loop_raw:
  "tx_ok c \<Longrightarrow> {FLAG_HDLC, FLAG_MTP2, FLAG_LOOPED} \<inter> chan_flags c = {} \<Longrightarrow> tone_of c = None \<Longrightarrow>
   (tx_frames c \<noteq> [] \<Longrightarrow> \<not> txdisable c) \<Longrightarrow> length (tx_frames c) < fuel' \<Longrightarrow> fuel = Suc fuel' \<Longrightarrow>
   \<exists>d. tx_loop fuel e (int n) c = Some (take n (concat (tx_frames c)) @ replicate (n - length (concat (tx_frames c))) (tx_silence c),
        length (concat (tx_frames c)) < n, d) \<and> tx_ok d \<and> tx_cfg c d \<and>
     concat (tx_frames d) = drop n (concat (tx_frames c)) \<and> (tx_frames d \<noteq> [] \<longrightarrow> \<not> txdisable d)"
proof (induction fuel' arbitrary: fuel n c)
  case 0
  then show ?case by simp
next
  case (Suc fuel')
  note fuel = Suc.prems(6)
  show ?case
  proof (cases "n = 0")
    case True
    with Suc.prems show ?thesis by (simp add: fuel)
  next
    case n: False
    show ?thesis
    proof (cases "tx_frames c")
      case Nil
      then have j: "outwritebuf c < 0" using tx_frames_Nil [OF Suc.prems(1)] by simp
      have "tx_idle (int n) c = (replicate n (tx_silence c), True, c)"
        using Suc.prems(2) by (simp add: tx_idle_def tx_silence_def)
      with Nil n j Suc.prems show ?thesis by (simp add: fuel)
    next
      case (Cons f fs)
      have dis: "\<not> txdisable c" and j: "0 \<le> outwritebuf c"
        using Suc.prems(4) Cons tx_frames_Nil [OF Suc.prems(1)] by auto
      obtain d where d: "tx_buffer (int n) c = Some (take n f, d)" "tx_ok d" "tx_cfg c d"
          "tx_frames d = (if length f \<le> n then fs else drop n f # fs)" "tx_frames d \<noteq> [] \<Longrightarrow> \<not> txdisable d"
        using tx_buffer_raw [OF Suc.prems(1) Cons _ _ dis, of n] Suc.prems(2) n by auto
      note sc = tx_silence_cfg [OF d(3)]
      show ?thesis
      proof (cases "length f \<le> n")
        case True
        have "length (tx_frames d) < fuel'" using Suc.prems(5) Cons d(4) True by simp
        then obtain d' where d': "tx_loop (Suc fuel') e (int (n - length f)) d = Some (take (n - length f) (concat fs) @
            replicate (n - length f - length (concat fs)) (tx_silence c), length (concat fs) < n - length f, d')"
            "tx_ok d'" "tx_cfg d d'" "concat (tx_frames d') = drop (n - length f) (concat fs)"
            "tx_frames d' \<noteq> [] \<longrightarrow> \<not> txdisable d'"
          using Suc.IH [OF d(2) _ _ d(5) _ refl, of "n - length f"] Suc.prems(2,3) d(3,4) sc True
          by (auto simp: tx_cfg_def)
        have step: "tx_loop fuel e (int n) c = map_option (\<lambda>(out', ur, c). (take n f @ out', ur, c))
            (tx_loop (Suc fuel') e (int n - int (length (take n f))) d)"
          unfolding fuel tx_loop.simps(2) [of "Suc fuel'" e "int n" c]
          using d(1) j dis n by (simp del: tx_loop.simps)
        have "int n - int (length (take n f)) = int (n - length f)" using True by simp
        with step d' True Cons tx_cfg_trans [OF d(3) d'(3)] show ?thesis by auto
      next
        case False
        have step: "tx_loop fuel e (int n) c = map_option (\<lambda>(out', ur, c). (take n f @ out', ur, c))
            (tx_loop (Suc fuel') e (int n - int (length (take n f))) d)"
          unfolding fuel tx_loop.simps(2) [of "Suc fuel'" e "int n" c]
          using d(1) j dis n by (simp del: tx_loop.simps)
        with d False Cons show ?thesis by simp
      qed
    qed
  qed
qed

definition tx_same :: "'a chan_buf_scheme \<Rightarrow> 'a chan_buf_scheme \<Rightarrow> bool" where
  "tx_same c d \<longleftrightarrow> numbufs d = numbufs c \<and> blocksize d = blocksize c \<and>
     insert FLAG_TXUNDERRUN (chan_flags d) = insert FLAG_TXUNDERRUN (chan_flags c) \<and>
     (curtone d = curtone c \<or> curtone d = None) \<and> xlaw d = xlaw c \<and> chan_span d = chan_span c"

lemma tx_same_refl [simp]: "tx_same c c"
  by (simp add: tx_same_def)

lemma tx_same_trans: "tx_same c d \<Longrightarrow> tx_same d e \<Longrightarrow> tx_same c e"
  unfolding tx_same_def by (elim conjE, intro conjI) (simp_all, metis)

lemma tx_cfg_same: "tx_cfg c d \<Longrightarrow> tx_same c d"
  by (simp add: tx_same_def tx_cfg_def)

lemma tx_same_flag: "tx_same c d \<Longrightarrow> f \<noteq> FLAG_TXUNDERRUN \<Longrightarrow> (f \<in> chan_flags d) = (f \<in> chan_flags c)"
  unfolding tx_same_def by blast

lemma tx_same_views:
  assumes "tx_same c d"
  shows "tx_silence d = tx_silence c" and "tone_of c = None \<Longrightarrow> tone_of d = None"
    and "{FLAG_HDLC, FLAG_MTP2, FLAG_LOOPED} \<inter> chan_flags c = {} \<Longrightarrow> {FLAG_HDLC, FLAG_MTP2, FLAG_LOOPED} \<inter> chan_flags d = {}"
proof -
  note fl = tx_same_flag [OF assms]
  show "tx_silence d = tx_silence c" using assms by (simp add: tx_silence_def fl tx_same_def)
  show "{FLAG_HDLC, FLAG_MTP2, FLAG_LOOPED} \<inter> chan_flags d = {}"
    if "{FLAG_HDLC, FLAG_MTP2, FLAG_LOOPED} \<inter> chan_flags c = {}" using that by (simp add: fl)
  have "is_pseudo_chan d = is_pseudo_chan c" using assms by (simp add: is_pseudo_chan_def tx_same_def)
  then show "tone_of d = None" if "tone_of c = None"
    using that assms by (auto simp: tone_of_def tx_same_def split: if_splits)
qed

lemma qevent_law [simp]: "xlaw (qevent c e) = xlaw c"
  by (simp add: qevent_def Let_def)

lemma tx_underrun_flag_sel:
  "tx_ok (tx_underrun_flag b c) = tx_ok c" "tx_frames (tx_underrun_flag b c) = tx_frames c"
  "txdisable (tx_underrun_flag b c) = txdisable c" "tx_same c (tx_underrun_flag b c)"
  "FLAG_TXUNDERRUN \<in> chan_flags (tx_underrun_flag b c) \<longleftrightarrow> b" "txhdlc (tx_underrun_flag b c) = txhdlc c"
  by (auto simp: tx_underrun_flag_def chan_defs tx_ok_def tx_slot_ok_def tx_frames_def tx_rest_def tx_same_def fun_eq_iff)

lemma getbuf_chunk_raw:
  assumes "tx_ok c" and "{FLAG_HDLC, FLAG_MTP2, FLAG_LOOPED} \<inter> chan_flags c = {}" and "tone_of c = None"
    and "tx_frames c \<noteq> [] \<Longrightarrow> \<not> txdisable c" and "length (tx_frames c) + 1 < fuel"
  obtains d where "getbuf_chunk fuel e c = Some (take 8 (concat (tx_frames c)) @
      replicate (8 - length (concat (tx_frames c))) (tx_silence c), d)"
    and "tx_ok d" and "tx_same c d" and "concat (tx_frames d) = drop 8 (concat (tx_frames c))"
    and "tx_frames d \<noteq> [] \<Longrightarrow> \<not> txdisable d"
    and "FLAG_TXUNDERRUN \<in> chan_flags d \<longleftrightarrow> length (concat (tx_frames c)) < 8"
proof -
  obtain m where m: "fuel = Suc m" "length (tx_frames c) < m" using assms(5) by (cases fuel) auto
  obtain d where d: "tx_loop fuel e (int 8) c = Some (take 8 (concat (tx_frames c)) @
      replicate (8 - length (concat (tx_frames c))) (tx_silence c), length (concat (tx_frames c)) < 8, d)"
      "tx_ok d" "tx_cfg c d" "concat (tx_frames d) = drop 8 (concat (tx_frames c))" "tx_frames d \<noteq> [] \<longrightarrow> \<not> txdisable d"
    using tx_loop_raw [OF assms(1-4) m(2,1), of e 8] by blast
  note f = tx_underrun_flag_sel [where b = "length (concat (tx_frames c)) < 8" and c = d]
  show ?thesis
    by (rule that [of "tx_underrun_flag (length (concat (tx_frames c)) < 8) d"])
      (use d f tx_same_trans [OF tx_cfg_same [OF d(3)] f(4)] in \<open>simp_all add: getbuf_chunk_def\<close>)
qed


section \<open>A write\<close>

lemma calc_fcs_length [simp]: "length (calc_fcs ppp_fcs n xs) = length xs"
  by (simp add: calc_fcs_def Let_def)

lemma take_calc_fcs: "n \<le> length xs \<Longrightarrow> take n (calc_fcs ppp_fcs (int n) xs) = calc_fcs ppp_fcs (int n) (take n xs)"
  by (auto simp: calc_fcs_def Let_def take_update_swap min_def)

lemma chan_write_ok:
  assumes ok: "tx_ok c" and room: "0 \<le> inwritebuf c" and ev: "eventinidx c = eventoutidx c"
    and lin: "FLAG_LINEAR \<notin> chan_flags c" and n: "0 < n" "n < 65536" "n \<le> length usr"
  defines "k \<equiv> min n (nat (blocksize c))"
  obtains d where "chan_write ppp_fcs True nb (int n) usr c = Some (Ret (int k) [], d)"
    and "tx_ok d" and "tx_same c d" and "eventinidx d = eventoutidx d" and "txhdlc d = txhdlc c"
    and "tx_frames d = tx_frames c @ [if FLAG_FCS \<in> chan_flags c then calc_fcs ppp_fcs (int k) (take k usr) else take k usr]"
    and "\<not> txdisable c \<Longrightarrow> \<not> txdisable d"
proof -
  define c1 where "c1 = write_stops_tone c"
  have c1: "tx_ok c1" "tx_frames c1 = tx_frames c" "inwritebuf c1 = inwritebuf c" "blocksize c1 = blocksize c"
      "chan_flags c1 = chan_flags c" "eventinidx c1 = eventoutidx c1" "txhdlc c1 = txhdlc c" "tx_same c c1"
      "txdisable c1 = txdisable c" "writebuf c1 = writebuf c"
    using ok ev by (simp_all add: c1_def write_stops_tone_def tx_ok_def tx_slot_ok_def tx_frames_def tx_rest_def
        tx_same_def fun_eq_iff)
  obtain bufs where b: "writebuf c1 = Some bufs" using c1(1) by (auto simp: tx_ok_def)
  let ?i = "nat (inwritebuf c1)"
  let ?data = "take k usr"
  let ?raw = "copy_at 0 ?data (bufs ! ?i)"
  let ?buf = "if FLAG_FCS \<in> chan_flags c1 then calc_fcs ppp_fcs (int k) ?raw else ?raw"
  let ?f = "if FLAG_FCS \<in> chan_flags c1 then calc_fcs ppp_fcs (int k) ?data else ?data"
  have bs: "0 < blocksize c" using ok by (simp add: tx_ok_def)
  have k: "0 < k" "k \<le> length usr" "int k \<le> blocksize c1" "k \<le> n" using n bs c1(4) by (auto simp: k_def)
  have bl: "length (bufs ! ?i) = nat (blocksize c1)"
    using tx_ok_slot [OF c1(1) tx_ok_in [OF c1(1)]] room c1(3) b by (simp add: tx_slot_ok_def)
  have buf0: "length ?raw = nat (blocksize c1)" "take k ?raw = ?data"
    using k bl by (simp_all add: copy_at_def min_def)
  have len: "int k = int (length ?f)" using k by (simp add: min_def)
  have "k \<le> length ?raw" using k buf0(1) by simp
  from take_calc_fcs [OF this, of ppp_fcs] buf0(2) k(2)
  have tk: "take (length ?f) ?buf = ?f" by (simp add: min_absorb2 del: take_all)
  have bl2: "length ?buf = nat (blocksize c1)" using buf0 by simp
  define d where "d = write_advance (inwritebuf c1) (c1\<lparr>writebuf := Some ((tx_bufs c1)[?i := ?buf]),
      writen := (writen c1)[?i := int k], writeidx := (writeidx c1)[?i := 0]\<rparr>)"
  have i1: "0 \<le> inwritebuf c1" using room c1(3) by simp
  note w = write_frame_ok [OF c1(1) i1 len k(3) bl2 tk, folded d_def]
  have amnt: "(if int n > blocksize c then blocksize c else int n) = int k"
    using bs by (auto simp: k_def)
  have wb: "write_buffer ppp_fcs (inwritebuf c1) (int k) usr c1 = Some d"
    using lin c1(5) k b by (simp add: write_buffer_def d_def Let_def min_def)
  have res: "chan_write ppp_fcs True nb (int n) usr c = Some (Ret (int k) [], hard_xmit d)"
  proof -
    have "int n mod 65536 = int n" using n by simp
    then show ?thesis
      unfolding chan_write_def Let_def using n lin c1 room amnt wb k
      by (cases "blocksize c < int n") (simp_all flip: c1_def)
  qed
  have ev2: "eventinidx d = eventoutidx d"
    unfolding d_def write_advance_other using c1(6) by simp
  have hx: "hard_xmit d = d\<lparr>drv_calls := drv_calls (hard_xmit d)\<rparr>" by (simp add: hard_xmit_def)
  show ?thesis
  proof (rule that [OF res])
    show "tx_ok (hard_xmit d)" by (subst hx) (simp add: w)
    show "tx_same c (hard_xmit d)"
      using tx_same_trans [OF c1(8) tx_cfg_same [OF w(3)]] by (simp add: hard_xmit_def tx_same_def)
    show "eventinidx (hard_xmit d) = eventoutidx (hard_xmit d)" "txhdlc (hard_xmit d) = txhdlc c"
      using ev2 w(4) c1(7) by (simp_all add: hard_xmit_def)
    show "tx_frames (hard_xmit d) = tx_frames c @ [if FLAG_FCS \<in> chan_flags c then calc_fcs ppp_fcs (int k) ?data else ?data]"
      by (subst hx) (simp add: w c1)
    show "\<not> txdisable c \<Longrightarrow> \<not> txdisable (hard_xmit d)" using w(5) c1(9) by (simp add: hard_xmit_def)
  qed
qed

lemma chan_write_full:
  "inwritebuf c < 0 \<Longrightarrow> eventinidx c = eventoutidx c \<Longrightarrow> 0 < n \<Longrightarrow> n < 65536 \<Longrightarrow>
   chan_write ppp_fcs uok True n usr c = Some (Ret (- EAGAIN) [], write_stops_tone c)"
  by (simp add: chan_write_def write_stops_tone_def Let_def)

text \<open>A sequence of writes, and a sequence of chunks sent with enough fuel for the buffers there are.\<close>

definition write_all :: "(int \<Rightarrow> u8 \<Rightarrow> int) \<Rightarrow> u8 list list \<Rightarrow> 'a chan_buf_scheme \<Rightarrow> 'a chan_buf_scheme option" where
  "write_all ppp_fcs ds c = foldl (\<lambda>s d. Option.bind s
     (\<lambda>c. map_option snd (chan_write ppp_fcs True True (int (length d)) d c))) (Some c) ds"

fun send_chunks :: "nat \<Rightarrow> tone_env \<Rightarrow> 'a chan_buf_scheme \<Rightarrow> (u8 list \<times> 'a chan_buf_scheme) option" where
  "send_chunks 0 e c = Some ([], c)"
| "send_chunks (Suc k) e c = Option.bind (getbuf_chunk (nat (numbufs c) + 10) e c)
     (\<lambda>(out, c). map_option (\<lambda>(out', c). (out @ out', c)) (send_chunks k e c))"

lemma write_all_ok:
  "tx_ok c \<Longrightarrow> eventinidx c = eventoutidx c \<Longrightarrow> FLAG_LINEAR \<notin> chan_flags c \<Longrightarrow>
   \<forall>d \<in> set ds. d \<noteq> [] \<and> int (length d) \<le> blocksize c \<and> length d < 65536 \<Longrightarrow>
   length (tx_frames c) + length ds \<le> nat (numbufs c) \<Longrightarrow> \<not> txdisable c \<Longrightarrow>
   \<exists>d. write_all ppp_fcs ds c = Some d \<and> tx_ok d \<and> tx_same c d \<and> txhdlc d = txhdlc c \<and> \<not> txdisable d \<and>
     tx_frames d = tx_frames c @ map (\<lambda>x. if FLAG_FCS \<in> chan_flags c then calc_fcs ppp_fcs (int (length x)) x else x) ds"
proof (induction ds arbitrary: c)
  case Nil
  then show ?case by (simp add: write_all_def)
next
  case (Cons x ds)
  have room: "0 \<le> inwritebuf c" using tx_room [OF Cons.prems(1)] Cons.prems(5) by simp
  have x: "0 < length x" "length x < 65536" "min (length x) (nat (blocksize c)) = length x" using Cons.prems(4) by auto
  obtain d where d: "chan_write ppp_fcs True True (int (length x)) x c = Some (Ret (int (length x)) [], d)"
      "tx_ok d" "tx_same c d" "eventinidx d = eventoutidx d" "txhdlc d = txhdlc c"
      "tx_frames d = tx_frames c @ [if FLAG_FCS \<in> chan_flags c then calc_fcs ppp_fcs (int (length x)) x else x]"
      "\<not> txdisable d"
    by (rule chan_write_ok [OF Cons.prems(1) room Cons.prems(2,3) x(1,2) order.refl, of ppp_fcs True,
          unfolded x(3) take_all [OF order.refl]]) (use Cons.prems(6) in blast)
  have same: "blocksize d = blocksize c" "numbufs d = numbufs c" "FLAG_LINEAR \<notin> chan_flags d"
      "(FLAG_FCS \<in> chan_flags d) = (FLAG_FCS \<in> chan_flags c)"
    using d(3) Cons.prems(3) tx_same_flag [OF d(3)] by (simp_all add: tx_same_def)
  have len: "length (tx_frames d) + length ds \<le> nat (numbufs d)" "\<forall>x \<in> set ds. x \<noteq> [] \<and> int (length x) \<le> blocksize d \<and> length x < 65536"
    using Cons.prems(4,5) d(6) same by (simp_all add: flip: length_tx_frames)
  obtain d' where "write_all ppp_fcs ds d = Some d'" "tx_ok d'" "tx_same d d'" "txhdlc d' = txhdlc d" "\<not> txdisable d'"
      "tx_frames d' = tx_frames d @ map (\<lambda>x. if FLAG_FCS \<in> chan_flags d then calc_fcs ppp_fcs (int (length x)) x else x) ds"
    using Cons.IH [OF d(2,4) same(3) len(2,1) d(7)] by blast
  moreover have "write_all ppp_fcs (x # ds) c = write_all ppp_fcs ds d"
    using d(1) by (simp add: write_all_def)
  ultimately show ?case using d(5,6) same(4) tx_same_trans [OF d(3)] by auto
qed

lemma send_chunks_raw:
  "tx_ok c \<Longrightarrow> {FLAG_HDLC, FLAG_MTP2, FLAG_LOOPED} \<inter> chan_flags c = {} \<Longrightarrow> tone_of c = None \<Longrightarrow>
   (tx_frames c \<noteq> [] \<Longrightarrow> \<not> txdisable c) \<Longrightarrow>
   \<exists>d. send_chunks k e c = Some (take (8 * k) (concat (tx_frames c) @ replicate (8 * k) (tx_silence c)), d)"
proof (induction k arbitrary: c)
  case 0
  then show ?case by simp
next
  case (Suc k)
  have fuel: "length (tx_frames c) + 1 < nat (numbufs c) + 10"
    using ring_used_le [OF tx_ok_ring [OF Suc.prems(1)]] by simp
  let ?s = "concat (tx_frames c)"
  obtain d where d: "getbuf_chunk (nat (numbufs c) + 10) e c = Some (take 8 ?s @ replicate (8 - length ?s) (tx_silence c), d)"
      "tx_ok d" "tx_same c d" "concat (tx_frames d) = drop 8 ?s" "tx_frames d \<noteq> [] \<Longrightarrow> \<not> txdisable d"
    using getbuf_chunk_raw [OF Suc.prems(1-4) fuel, of e] by blast
  note v = tx_same_views [OF d(3)]
  obtain d' where d': "send_chunks k e d = Some (take (8 * k) (drop 8 ?s @ replicate (8 * k) (tx_silence c)), d')"
    using Suc.IH [OF d(2) v(3) [OF Suc.prems(2)] v(2) [OF Suc.prems(3)] d(5)] d(4) v(1) by auto
  have "take 8 ?s @ replicate (8 - length ?s) (tx_silence c) @ take (8 * k) (drop 8 ?s @ replicate (8 * k) (tx_silence c))
      = take (8 * Suc k) (?s @ replicate (8 * Suc k) (tx_silence c))"
  proof (cases "8 \<le> length ?s")
    case True
    then have "8 * k + 8 - length ?s \<le> 8 * k" by simp
    with True take_add [of 8 "8 * k" ?s] show ?thesis by (simp add: min_absorb1 add.commute)
  next
    case False
    then have "8 * Suc k - length ?s = (8 - length ?s) + 8 * k" by simp
    then have "replicate (8 * Suc k - length ?s) (tx_silence c) = replicate (8 - length ?s) (tx_silence c) @ replicate (8 * k) (tx_silence c)"
      by (simp only: replicate_add)
    with False show ?thesis by (simp add: min_absorb1)
  qed
  with d(1) d' show ?case by simp
qed

lemma reallocbufs_tx:
  assumes "reallocbufs True bsize nbufs c = (r, d)" and "0 < bsize" and "32 \<le> length (writen c)"
    and "32 \<le> length (writeidx c)"
  shows "tx_ok d" and "tx_frames d = []" and "blocksize d = bsize" and "numbufs d = max 2 (min 32 nbufs)"
proof -
  let ?n = "max 2 (min 32 nbufs)"
  have d: "blocksize d = bsize" "numbufs d = ?n" "inwritebuf d = 0" "outwritebuf d = -1"
      "writebuf d = Some (replicate (nat ?n) (replicate (nat bsize) 0))"
      "writen d = fill_0 ?n (writen c)" "writeidx d = fill_0 ?n (writeidx c)"
    using assms(1,2) by (auto simp: reallocbufs_def Let_def max_def min_def)
  have n: "0 < ?n" "nat ?n \<le> 32" by auto
  show "blocksize d = bsize" "numbufs d = ?n" by (fact d)+
  have "tx_slot_ok d s" if "s < nat ?n" for s
    using that n assms(2-4) by (simp add: tx_slot_ok_def d fill_0_nth)
  then show "tx_ok d" using assms(2-4) n by (simp add: tx_ok_def ring_inv_def d)
  show "tx_frames d = []" by (simp add: tx_frames_def d)
qed

text \<open>C25. What is written is sent: on a channel without framing, the octets of successive writes leave
  in order, each once, without gaps between them, and after them the channel sends silence.\<close>

theorem written_octets_are_sent:
  assumes "reallocbufs True bsize nbufs c0 = (r, c)" and "0 < bsize" and "32 \<le> length (writen c0)"
    and "32 \<le> length (writeidx c0)" and "txbufpolicy c0 = POLICY_IMMEDIATE"
    and "{FLAG_HDLC, FLAG_MTP2, FLAG_LOOPED, FLAG_LINEAR, FLAG_FCS} \<inter> chan_flags c0 = {}" and "curtone c0 = None"
    and "eventinidx c0 = eventoutidx c0"
    and "\<forall>d \<in> set ds. d \<noteq> [] \<and> int (length d) \<le> bsize \<and> length d < 65536"
    and "length ds \<le> nat (max 2 (min 32 nbufs))"
  shows "\<exists>d d'. write_all ppp_fcs ds c = Some d \<and>
    send_chunks k e d = Some (take (8 * k) (concat ds @ replicate (8 * k) (tx_silence c0)), d')"
proof -
  note r = reallocbufs_tx [OF assms(1-4)]
  have c: "chan_flags c = chan_flags c0" "curtone c = None" "eventinidx c = eventoutidx c" "\<not> txdisable c" "tx_silence c = tx_silence c0"
    using assms(1,5,7,8) by (auto simp: reallocbufs_def Let_def tx_silence_def split: if_splits)
  obtain d where d: "write_all ppp_fcs ds c = Some d" "tx_ok d" "tx_same c d" "\<not> txdisable d"
      "tx_frames d = map (\<lambda>x. if FLAG_FCS \<in> chan_flags c then calc_fcs ppp_fcs (int (length x)) x else x) ds"
    using write_all_ok [OF r(1) c(3) _ _ _ c(4), of ds ppp_fcs] r(2-4) c(1) assms(6,9,10)
    by (auto simp flip: length_tx_frames)
  have dd: "tx_frames d = ds" using d(5) c(1) assms(6) by simp
  have fl: "{FLAG_HDLC, FLAG_MTP2, FLAG_LOOPED} \<inter> chan_flags c = {}" using c(1) assms(6) by auto
  note v = tx_same_views [OF d(3)]
  have "tone_of c = None" using c(2) by (simp add: tone_of_def)
  from send_chunks_raw [OF d(2) v(3) [OF fl] v(2) [OF this], of k e] d(1,4) v(1) c(5) dd show ?thesis by auto
qed

section \<open>Check sequences\<close>

text \<open>
  What the code relies on in the kernel's step function: a check sequence has 16 bits, and running
  the complement of a check sequence through it, low octet first, gives the documented constant.
\<close>

definition ppp_fcs_law :: "(int \<Rightarrow> u8 \<Rightarrow> int) \<Rightarrow> bool" where
  "ppp_fcs_law ppp_fcs \<longleftrightarrow> (\<forall>f x. f \<in> {0..<65536} \<longrightarrow> ppp_fcs f x \<in> {0..<65536}) \<and>
     (\<forall>f. f \<in> {0..<65536} \<longrightarrow> ppp_fcs (ppp_fcs f (word_of_int (f XOR 0xffff))) (word_of_int ((f XOR 0xffff) div 256)) = PPP_GOODFCS)"

lemma fcs_of_range: "ppp_fcs_law ppp_fcs \<Longrightarrow> fcs_of ppp_fcs ds \<in> {0..<65536}"
  by (induction ds rule: rev_induct) (simp_all add: fcs_of_def ppp_fcs_law_def)

lemma word_of_int_and_255: "word_of_int (x AND 0xff) = (word_of_int x :: u8)"
proof -
  have "x AND 0xff = take_bit 8 x" by (simp add: take_bit_eq_mask mask_eq_exp_minus_1)
  then show ?thesis by (simp add: word_of_int_eq_iff)
qed

lemma calc_fcs_good:
  assumes "ppp_fcs_law ppp_fcs" and "2 \<le> length ds"
  shows "fcs_of ppp_fcs (calc_fcs ppp_fcs (int (length ds)) ds) = PPP_GOODFCS"
proof -
  obtain m where m: "length ds = Suc (Suc m)" using assms(2) by (metis add_2_eq_Suc le_Suc_ex)
  let ?f = "fcs_of ppp_fcs (take m ds)"
  have ds: "ds = take m ds @ [ds ! m, ds ! Suc m]"
    using m take_Suc_conv_app_nth [of m ds] take_Suc_conv_app_nth [of "Suc m" ds] by simp
  have up: "(xs @ [a, b])[m := p, Suc m := q] = xs @ [p, q]" if "length xs = m" for xs :: "u8 list" and a b p q
    using that by (auto simp: list_update_append)
  have "ds[m := p, Suc m := q] = take m ds @ [p, q]" for p q
    using up [of "take m ds" "ds ! m" "ds ! Suc m"] ds m by (metis length_take min_absorb2 le_SucI order.refl)
  moreover have "nat (int (length ds) - 2) = m" "nat (int (length ds) - 1) = Suc m" using m by simp_all
  ultimately have "calc_fcs ppp_fcs (int (length ds)) ds = take m ds @ [word_of_int (?f XOR 0xffff), word_of_int ((?f XOR 0xffff) div 256)]"
    using m by (simp add: calc_fcs_def Let_def word_of_int_and_255)
  moreover have "fcs_of ppp_fcs (xs @ ys) = foldl ppp_fcs (fcs_of ppp_fcs xs) ys" for xs ys
    by (simp add: fcs_of_def)
  ultimately show ?thesis using assms(1) fcs_of_range [OF assms(1), of "take m ds"]
    by (simp add: ppp_fcs_law_def)
qed

text \<open>The reflected CRC of the X.25 standard, bit by bit, keeps the law.\<close>

definition crc_entry :: "u8 \<Rightarrow> u16" where
  "crc_entry b = foldl (\<lambda>v i. if bit v 0 then drop_bit 1 v XOR 0x8408 else drop_bit 1 v) (ucast b) [0..<8]"

definition crc_word :: "u16 \<Rightarrow> u8 \<Rightarrow> u16" where
  "crc_word w x = drop_bit 8 w XOR crc_entry (ucast w XOR x)"

definition crc_step :: "int \<Rightarrow> u8 \<Rightarrow> int" where
  "crc_step f x = uint (crc_word (word_of_int f) x)"

lemma crc_entries: "crc_entry 0xff = 0x0f78" "crc_entry 0x87 = 0xf0b7"
  by code_simp+

lemma ucast_xor_not: "(ucast w :: u8) XOR ucast (w XOR (0xffff :: u16)) = 0xff"
  by (rule bit_word_eqI) (auto simp: bit_simps bit_numeral_rec numeral_eq_Suc dest!: less_Suc_eq [THEN iffD1])

lemma crc_word_residue: "crc_word (crc_word w (ucast (w XOR 0xffff))) (ucast (drop_bit 8 (w XOR 0xffff))) = 0xf0b8"
proof -
  have one: "crc_word w (ucast (w XOR 0xffff)) = drop_bit 8 w XOR 0x0f78"
    by (simp add: crc_word_def ucast_xor_not crc_entries)
  have idx: "(ucast (drop_bit 8 w XOR (0x0f78 :: u16)) :: u8) XOR ucast (drop_bit 8 w XOR 0xff) = 0x87"
    by (rule bit_word_eqI) (auto simp: bit_simps bit_numeral_rec numeral_eq_Suc dest!: less_Suc_eq [THEN iffD1])
  have high: "drop_bit 8 (drop_bit 8 w XOR (0x0f78 :: u16)) = 0x0f"
    by (rule bit_word_eqI) (auto simp: bit_simps bit_numeral_rec numeral_eq_Suc dest!: less_Suc_eq [THEN iffD1])
  show ?thesis unfolding one by (simp add: crc_word_def idx high crc_entries)
qed

lemma crc_step_law: "ppp_fcs_law crc_step"
proof -
  have "crc_step (crc_step f (word_of_int (f XOR 0xffff))) (word_of_int ((f XOR 0xffff) div 256)) = PPP_GOODFCS"
    if "f \<in> {0..<65536}" for f
  proof -
    let ?w = "word_of_int f :: u16"
    have f: "uint ?w = f" using that by (simp add: uint_word_of_int)
    have x: "f XOR 0xffff = uint (?w XOR 0xffff)" by (simp add: unsigned_xor_eq f)
    have lo: "(word_of_int (f XOR 0xffff) :: u8) = ucast (?w XOR 0xffff)"
      unfolding x by simp
    have hi: "(word_of_int ((f XOR 0xffff) div 256) :: u8) = ucast (drop_bit 8 (?w XOR 0xffff))"
      unfolding x by (simp add: drop_bit_eq_div ucast_eq uint_div)
    show ?thesis using crc_word_residue [of ?w] by (simp add: crc_step_def lo hi)
  qed
  moreover have "crc_step f x \<in> {0..<65536}" for f x
    using uint_lt2p [of "crc_word (word_of_int f) x"] by (simp add: crc_step_def)
  ultimately show ?thesis by (simp add: ppp_fcs_law_def)
qed

text \<open>C29. The check sequence that a write stores is one that the receiver accepts: the frame with the
  sequence over all but its last two octets in place of these leaves the documented good value.\<close>

theorem written_fcs_is_good:
  assumes "ppp_fcs_law ppp_fcs" and "2 \<le> length ds"
  shows "fcs_of ppp_fcs (calc_fcs ppp_fcs (int (length ds)) ds) = PPP_GOODFCS \<and>
    take (length ds - 2) (calc_fcs ppp_fcs (int (length ds)) ds) = take (length ds - 2) ds"
  using calc_fcs_good [OF assms] assms(2) by (auto simp: calc_fcs_def Let_def)

theorem written_fcs_is_good_witness:
  "fcs_of crc_step (calc_fcs crc_step 4 [1, 2, 0, 0]) = PPP_GOODFCS"
  using written_fcs_is_good [OF crc_step_law, of "[1, 2, 0, 0]"] by simp


theorem written_octets_are_sent_witness:
  "\<exists>d d'. write_all crc_step [[1, 2, 3], [4, 5]] (rx_demo {}) = Some d \<and>
     send_chunks 1 no_zones d = Some ([1, 2, 3, 4, 5] @ replicate 3 (tx_silence (buf_demo_chan {})), d')"
proof -
  obtain r where r: "reallocbufs True 16 2 (buf_demo_chan {}) = (r, rx_demo {})"
    by (metis rx_demo_def surjective_pairing)
  have "\<exists>d d'. write_all crc_step [[1, 2, 3], [4, 5]] (rx_demo {}) = Some d \<and> send_chunks 1 no_zones d =
      Some (take (8 * 1) (concat [[1, 2, 3], [4, 5]] @ replicate (8 * 1) (tx_silence (buf_demo_chan {}))), d')"
    by (rule written_octets_are_sent [OF r])
      (simp_all add: buf_demo_chan_def chan_tone.extend_def tone_demo_chan_def chan_rbs.extend_def rbs_demo_chan_def)
  then show ?thesis by (simp add: numeral_eq_Suc)
qed

end
