(* ===== verification/HdlcStream.thy ===== *)
theory HdlcStream
  imports FastHdlc
begin

text \<open>
  What the HDLC engine of \<^verbatim>\<open>fasthdlc.h\<close> does, on bit streams: zero stuffing as a
  function on bit strings, the 32-bit register as a queue of bits, and the refinement
  of every transmit and receive operation to appending to and taking from that queue.
  The round trip from transmitter to receiver is the last section.
\<close>

section \<open>Zero stuffing as a function on bit strings\<close>

fun stuff :: "nat \<Rightarrow> bool list \<Rightarrow> bool list" where
  "stuff n [] = []"
| "stuff n (b # bs) =
     (if b then (if n = 4 then True # False # stuff 0 bs else True # stuff (n + 1) bs)
      else False # stuff 0 bs)"

fun ones_after :: "nat \<Rightarrow> bool list \<Rightarrow> nat" where
  "ones_after n [] = n"
| "ones_after n (b # bs) = ones_after (if b then (if n = 4 then 0 else n + 1) else 0) bs"

lemma stuff_append: "stuff n (xs @ ys) = stuff n xs @ stuff (ones_after n xs) ys"
  by (induction n xs rule: stuff.induct) auto

lemma ones_after_append: "ones_after n (xs @ ys) = ones_after (ones_after n xs) ys"
  by (induction n xs rule: ones_after.induct) auto

lemma ones_after_le: "n \<le> 4 \<Longrightarrow> ones_after n bs \<le> 4"
  by (induction n bs rule: ones_after.induct) auto

lemma length_stuff: "n \<le> 4 \<Longrightarrow> 5 * length (stuff n bs) \<le> 6 * length bs + n"
proof (induction n bs rule: stuff.induct)
  case (2 n b bs)
  then show ?case by (cases "n = 4"; cases b) auto
qed simp

lemma length_stuff_ge: "length bs \<le> length (stuff n bs)"
  by (induction n bs rule: stuff.induct) auto

lemma length_stuff_octet: "n \<le> 4 \<Longrightarrow> length bs = 8 \<Longrightarrow> length (stuff n bs) \<le> 10"
  using length_stuff [of n bs] by simp

section \<open>The encoder table stuffs\<close>

definition encode_final :: "nat \<times> nat \<times> u16 \<Rightarrow> nat \<times> nat \<times> u16" where
  "encode_final = (\<lambda>(ones, bits, data).
     if ones = 5 then (0, bits + 1, push_bit 1 data) else (ones, bits, data))"

lemma lsb_bits_Suc: "lsb_bits (Suc z) y = bit y 0 # lsb_bits z (drop_bit 1 y)"
  by (rule nth_equalityI) (auto simp: lsb_bits_def bit_simps nth_Cons' simp del: upt_Suc)

lemma and_1_iff: "(y AND 1 \<noteq> (0::u8)) = bit y 0"
  by (simp add: and_one_eq bit_0 odd_iff_mod_2_eq_one)

lemma encode_loop_stuffs:
  "n \<le> 5 \<Longrightarrow> encode_final (hdlc_encode_loop z y n bits data) =
     (let bs = lsb_bits z y; n' = (if n = 5 then 0 else n);
          out = (if n = 5 then [False] else []) @ stuff n' bs
      in (ones_after n' bs, bits + length out, shift_in data out))"
proof (induction z arbitrary: y n bits data)
  case 0
  then show ?case by (auto simp: encode_final_def lsb_bits_def)
next
  case (Suc z)
  show ?case
  proof (cases "bit y 0")
    case True
    then show ?thesis using Suc.prems
      by (auto simp: Suc.IH lsb_bits_Suc and_1_iff Let_def)
  next
    case False
    then show ?thesis using Suc.prems
      by (auto simp: Suc.IH lsb_bits_Suc and_1_iff Let_def)
  qed
qed

lemma encode_precalc_eq:
  assumes "n \<le> 4" and "out = stuff n (lsb_bits 8 y)"
  shows "hdlc_encode_precalc n y =
    push_bit 22 (ucast (push_bit (10 - length out) (shift_in 0 out) :: u16)) OR
    push_bit 8 (of_nat (ones_after n (lsb_bits 8 y))) OR of_nat (length out)"
proof -
  have "hdlc_encode_precalc n y =
     (let (ones, bits, data) = encode_final (hdlc_encode_loop 8 y n 0 0);
          data = push_bit (10 - bits) data
      in push_bit 22 (ucast data) OR push_bit 8 (of_nat ones) OR of_nat bits)"
    by (simp add: hdlc_encode_precalc_def encode_final_def Let_def split: prod.splits)
  with assms show ?thesis
    by (simp add: encode_loop_stuffs Let_def)
qed

lemma nat_bit_small:
  assumes "(a::nat) < 16" "4 \<le> i" shows "\<not> bit a i"
proof -
  have "(2::nat) ^ 4 \<le> 2 ^ i" using assms(2) by (rule power_increasing) simp
  with assms(1) have "a div 2 ^ i = 0" by simp
  then show ?thesis by (simp only: bit_iff_odd) simp
qed

lemma bit_hi10_mask: "bit (0xffc00000::u32) i \<longleftrightarrow> 22 \<le> i \<and> i < 32"
proof -
  have eq: "(0xffc00000::u32) = push_bit 22 (mask 10)"
    by (simp add: mask_eq_exp_minus_1)
  show ?thesis unfolding eq by (auto simp: bit_simps)
qed

lemma encode_precalc_bits:
  assumes n: "n \<le> 4" and out: "out = stuff n (lsb_bits 8 y)" and i: "i < 32"
  shows "bit (hdlc_encode_precalc n y AND 0xffc00000) i \<longleftrightarrow>
    32 - length out \<le> i \<and> out ! (31 - i)"
proof -
  have len: "length out \<le> 10" using n out by (simp add: length_stuff_octet)
  then have len16: "length out < 16" by simp
  have o: "ones_after n (lsb_bits 8 y) < 16"
    using ones_after_le [OF n, of "lsb_bits 8 y"] by simp
  show ?thesis
  proof (cases "22 \<le> i")
    case True
    have "bit (hdlc_encode_precalc n y AND 0xffc00000) i = bit (hdlc_encode_precalc n y) i"
      using True i by (simp only: bit_and_iff bit_hi10_mask) simp
    then show ?thesis using True i len
      by (auto simp: encode_precalc_eq [OF n out] bit_simps bit_shift_in
          nat_bit_small [OF o] nat_bit_small [OF len16])
  next
    case False
    then have "\<not> bit (hdlc_encode_precalc n y AND 0xffc00000) i"
      by (simp only: bit_and_iff bit_hi10_mask) simp
    with False len show ?thesis by auto
  qed
qed

lemma encode_precalc_fields:
  assumes n: "n \<le> 4" and out: "out = stuff n (lsb_bits 8 y)"
  shows "uint (drop_bit 8 (hdlc_encode_precalc n y AND 0xf00)) = int (ones_after n (lsb_bits 8 y))"
    and "uint (hdlc_encode_precalc n y AND 0xf) = int (length out)"
proof -
  have len: "length out < 16" using n out length_stuff_octet [of n "lsb_bits 8 y"] by simp
  have o: "ones_after n (lsb_bits 8 y) < 16"
    using ones_after_le [OF n, of "lsb_bits 8 y"] by simp
  have m1: "(0xf00::u32) = push_bit 8 (mask 4)" and m2: "(0xf::u32) = mask 4"
    by (simp_all add: mask_eq_exp_minus_1)
  note small = nat_bit_small [OF o] nat_bit_small [OF len]
  have "drop_bit 8 (hdlc_encode_precalc n y AND 0xf00) = of_nat (ones_after n (lsb_bits 8 y))"
  proof (rule bit_word_eqI)
    fix i assume "i < LENGTH(32)"
    then show "bit (drop_bit 8 (hdlc_encode_precalc n y AND 0xf00)) i =
        bit (of_nat (ones_after n (lsb_bits 8 y)) :: u32) i"
      by (cases "i < 4") (auto simp: encode_precalc_eq [OF n out] bit_simps m1 small not_less)
  qed
  then show "uint (drop_bit 8 (hdlc_encode_precalc n y AND 0xf00)) = int (ones_after n (lsb_bits 8 y))"
    using o by (simp add: unsigned_of_nat take_bit_nat_eq_self)
  have "hdlc_encode_precalc n y AND 0xf = of_nat (length out)"
  proof (rule bit_word_eqI)
    fix i assume "i < LENGTH(32)"
    then show "bit (hdlc_encode_precalc n y AND 0xf) i = bit (of_nat (length out) :: u32) i"
      by (cases "i < 4") (auto simp: encode_precalc_eq [OF n out] bit_simps m2 small not_less)
  qed
  then show "uint (hdlc_encode_precalc n y AND 0xf) = int (length out)"
    using len by (simp add: unsigned_of_nat take_bit_nat_eq_self)
qed
section \<open>The register as a queue of bits\<close>

definition hq :: "fasthdlc_state \<Rightarrow> bool list" where
  "hq h = topbits (fh_data h) (nat (fh_bits h))"

definition mode_width :: "fasthdlc_mode \<Rightarrow> nat" where
  "mode_width m = (case m of FASTHDLC_MODE_64 \<Rightarrow> 8 | FASTHDLC_MODE_56 \<Rightarrow> 7
                           | FASTHDLC_MODE_16 \<Rightarrow> 2)"

text \<open>The bits of the line an octet carries: its top 8, 7 or 2 bits.\<close>

definition octet_bits :: "fasthdlc_mode \<Rightarrow> u8 \<Rightarrow> bool list" where
  "octet_bits m b = map (\<lambda>i. bit b (7 - i)) [0..<mode_width m]"

definition hdlc_inv :: "fasthdlc_state \<Rightarrow> bool" where
  "hdlc_inv h \<longleftrightarrow> 0 \<le> fh_bits h \<and> fh_bits h \<le> 32 \<and> 0 \<le> fh_ones h \<and> fh_ones h \<le> 4
     \<and> (fh_state h = FRAME_SEARCH \<or> fh_state h = PROCESS_FRAME)
     \<and> (\<forall>i < 32 - nat (fh_bits h). \<not> bit (fh_data h) i)
     \<and> fh_minbits h = int (mode_width (fh_mode h))"

definition flag_bits :: "bool list" where
  "flag_bits = [False, True, True, True, True, True, True, False]"

lemma hdlc_inv_init: "hdlc_inv (fasthdlc_init h m)"
  by (cases m) (auto simp: hdlc_inv_def fasthdlc_init_def mode_width_def)

lemma hq_init [simp]: "hq (fasthdlc_init h m) = []"
  by (simp add: hq_def fasthdlc_init_def)

lemma length_hq: "length (hq h) = nat (fh_bits h)"
  by (simp add: hq_def)

text \<open>One lemma carries every operation that appends: or in a top-aligned value.\<close>

lemma queue_append:
  assumes inv: "hdlc_inv h" and k: "fh_bits h + int k \<le> 32"
    and v: "\<And>i. i < 32 - k \<Longrightarrow> \<not> bit v i"
    and h': "fh_data h' = fh_data h OR drop_bit (nat (fh_bits h)) v"
      "fh_bits h' = fh_bits h + int k"
  shows "hq h' = hq h @ topbits v k"
    and "\<forall>i < 32 - nat (fh_bits h'). \<not> bit (fh_data h') i"
proof -
  have b: "0 \<le> fh_bits h" "\<And>i. i < 32 - nat (fh_bits h) \<Longrightarrow> \<not> bit (fh_data h) i"
    using inv by (auto simp: hdlc_inv_def)
  have n: "nat (fh_bits h') = nat (fh_bits h) + k" using b(1) h'(2) by simp
  show "hq h' = hq h @ topbits v k"
    unfolding hq_def n h'(1) by (rule topbits_append) (use b k in auto)
  show "\<forall>i < 32 - nat (fh_bits h'). \<not> bit (fh_data h') i"
    using b v by (auto simp: n h'(1) bit_simps)
qed

text \<open>And one carries every operation that takes bits from the front.\<close>

lemma queue_pop:
  assumes inv: "hdlc_inv h" and k: "int k \<le> fh_bits h"
    and h': "fh_data h' = push_bit k (fh_data h)" "fh_bits h' = fh_bits h - int k"
  shows "hq h' = drop k (hq h)"
    and "\<forall>i < 32 - nat (fh_bits h'). \<not> bit (fh_data h') i"
proof -
  have b: "0 \<le> fh_bits h" "fh_bits h \<le> 32" "\<And>i. i < 32 - nat (fh_bits h) \<Longrightarrow> \<not> bit (fh_data h) i"
    using inv by (auto simp: hdlc_inv_def)
  have n: "nat (fh_bits h') = nat (fh_bits h) - k" using b(1) h'(2) by simp
  show "hq h' = drop k (hq h)"
    unfolding hq_def n h'(1) by (rule topbits_push_bit) (use b k in auto)
  show "\<forall>i < 32 - nat (fh_bits h'). \<not> bit (fh_data h') i"
    using b k by (auto simp: n h'(1) bit_simps)
qed

section \<open>Transmit operations\<close>

lemma tx_load_refines:
  assumes inv: "hdlc_inv h" and room: "fh_bits h \<le> 22"
    and load: "fasthdlc_tx_load h c = (h', r)"
  shows "r = 0" "hdlc_inv h'" "fh_mode h' = fh_mode h"
    "hq h' = hq h @ stuff (nat (fh_ones h)) (lsb_bits 8 c)"
    "nat (fh_ones h') = ones_after (nat (fh_ones h)) (lsb_bits 8 c)"
proof -
  define n where "n = nat (fh_ones h)"
  define out where "out = stuff n (lsb_bits 8 c)"
  define res where "res = hdlc_encode_precalc n c"
  have n: "n \<le> 4" "0 \<le> fh_ones h" using inv by (auto simp: hdlc_inv_def n_def)
  have len: "length out \<le> 10" using n by (simp add: out_def length_stuff_octet)
  have tab: "hdlc_encode ! nat (fh_ones h) ! unat c = res"
    using n unsigned_less [where 'a = nat and w = c] by (simp add: n_def res_def)
  note fields = encode_precalc_fields [OF n(1) out_def, folded res_def]
  have h': "h' = h\<lparr>fh_ones := int (ones_after n (lsb_bits 8 c)),
      fh_data := fh_data h OR drop_bit (nat (fh_bits h)) (res AND 0xffc00000),
      fh_bits := fh_bits h + int (length out)\<rparr>" and "r = 0"
    using load room tab fields
    by (auto simp: fasthdlc_tx_load_def fasthdlc_tx_load_nocheck_def Let_def)
  have v: "\<And>i. i < 32 - length out \<Longrightarrow> \<not> bit (res AND 0xffc00000) i"
    using encode_precalc_bits [OF n(1) out_def, folded res_def] len by simp
  have top: "topbits (res AND 0xffc00000) (length out) = out"
    by (rule nth_equalityI)
      (use encode_precalc_bits [OF n(1) out_def, folded res_def] len in auto)
  note q = queue_append [OF inv _ v, where h' = h']
  show "r = 0" by fact
  show "hq h' = hq h @ stuff (nat (fh_ones h)) (lsb_bits 8 c)"
    using q(1) room len top by (simp add: h' out_def n_def)
  show "nat (fh_ones h') = ones_after (nat (fh_ones h)) (lsb_bits 8 c)"
    by (simp add: h' n_def)
  show "hdlc_inv h'"
    using inv q(2) room len ones_after_le [OF n(1), of "lsb_bits 8 c"]
    by (simp add: h' hdlc_inv_def)
  show "fh_mode h' = fh_mode h" by (simp add: h')
qed

lemma topbits_flag: "topbits 0x7e000000 8 = flag_bits"
  by (simp add: topbits_def flag_bits_def upt_rec)

lemma low_flag: "i < 24 \<Longrightarrow> \<not> bit (0x7e000000 :: u32) i"
proof -
  have eq: "(0x7e000000::u32) = push_bit 25 (mask 6)" by (simp add: mask_eq_exp_minus_1)
  show "i < 24 \<Longrightarrow> ?thesis" unfolding eq by (simp add: bit_simps)
qed

lemma tx_frame_refines:
  assumes inv: "hdlc_inv h" and room: "fh_bits h \<le> 24"
    and frame: "fasthdlc_tx_frame h = (h', r)"
  shows "r = 0" "hdlc_inv h'" "fh_mode h' = fh_mode h" "hq h' = hq h @ flag_bits" "fh_ones h' = 0"
proof -
  have h': "h' = h\<lparr>fh_ones := 0,
      fh_data := fh_data h OR drop_bit (nat (fh_bits h)) 0x7e000000,
      fh_bits := fh_bits h + 8\<rparr>" and "r = 0"
    using frame room by (auto simp: fasthdlc_tx_frame_def fasthdlc_tx_frame_nocheck_def)
  note q = queue_append [OF inv _ low_flag, where h' = h' and k = 8]
  show "r = 0" by fact
  show "hq h' = hq h @ flag_bits" using q(1) room by (simp add: h' topbits_flag)
  show "hdlc_inv h'" using inv q(2) room by (simp add: h' hdlc_inv_def)
  show "fh_mode h' = fh_mode h" "fh_ones h' = 0" by (simp_all add: h')
qed

lemma tx_run_refines:
  assumes inv: "hdlc_inv h" and avail: "int (mode_width (fh_mode h)) \<le> fh_bits h"
    and run: "fasthdlc_tx_run h = (h', r)"
  shows "hdlc_inv h'" "fh_mode h' = fh_mode h" "fh_ones h' = fh_ones h"
    "hq h = octet_bits (fh_mode h) (word_of_int r) @ hq h'"
    "0 \<le> r" "r < 256"
proof -
  define k where "k = mode_width (fh_mode h)"
  have not_short: "\<not> fh_bits h < fh_minbits h" using inv avail by (simp add: hdlc_inv_def)
  have d: "fh_data h' = push_bit k (fh_data h)" "fh_bits h' = fh_bits h - int k"
    and same: "fh_mode h' = fh_mode h" "fh_ones h' = fh_ones h" "fh_state h' = fh_state h"
      "fh_minbits h' = fh_minbits h"
    using run not_short
    by (auto simp: fasthdlc_tx_run_def fasthdlc_tx_run_nocheck_def Let_def k_def mode_width_def
        split: fasthdlc_mode.splits)
  note q = queue_pop [OF inv _ d]
  have k: "k \<le> nat (fh_bits h)" "k \<le> 8" using avail by (auto simp: k_def mode_width_def split: fasthdlc_mode.splits)
  have hq': "hq h' = drop k (hq h)" using q(1) avail by (simp add: k_def)
  have "octet_bits (fh_mode h) (word_of_int r) = take k (hq h)"
  proof (rule nth_equalityI)
    show "length (octet_bits (fh_mode h) (word_of_int r)) = length (take k (hq h))"
      using k by (simp add: octet_bits_def hq_def k_def)
    fix i assume "i < length (octet_bits (fh_mode h) (word_of_int r))"
    then have i: "i < k" by (simp add: octet_bits_def k_def)
    have m3: "(3::u8) = mask 2" and m7f: "(0x7f::u8) = mask 7" by (simp_all add: mask_eq_exp_minus_1)
    have "bit (word_of_int r :: u8) (7 - i) = bit (fh_data h) (31 - i)"
      using run not_short i
      by (auto simp: fasthdlc_tx_run_def fasthdlc_tx_run_nocheck_def Let_def k_def mode_width_def
          bit_simps m3 m7f split: fasthdlc_mode.splits simp del: push_bit_Suc)
    with i k show "octet_bits (fh_mode h) (word_of_int r) ! i = take k (hq h) ! i"
      by (simp add: octet_bits_def hq_def k_def)
  qed
  with hq' show "hq h = octet_bits (fh_mode h) (word_of_int r) @ hq h'" by simp
  show "hdlc_inv h'" using inv q(2) avail d(2) same by (auto simp: hdlc_inv_def k_def)
  show "0 \<le> r" "r < 256"
    using run not_short
    by (auto simp: fasthdlc_tx_run_def fasthdlc_tx_run_nocheck_def Let_def uint_lt2p
        split: fasthdlc_mode.splits intro: order_less_le_trans [OF uint_lt2p])
qed (use run in \<open>auto simp: fasthdlc_tx_run_def fasthdlc_tx_run_nocheck_def Let_def
      split: if_splits fasthdlc_mode.splits\<close>)

section \<open>Receive operations\<close>

lemma rx_load_refines:
  assumes inv: "hdlc_inv h" and room: "fh_bits h \<le> 24"
    and load: "fasthdlc_rx_load h b = (h', r)"
  shows "r = 0" "hdlc_inv h'" "fh_mode h' = fh_mode h" "fh_ones h' = fh_ones h"
    "fh_state h' = fh_state h" "hq h' = hq h @ octet_bits (fh_mode h) b"
proof -
  define k where "k = mode_width (fh_mode h)"
  define v :: u32 where "v = push_bit (32 - k) (ucast (drop_bit (8 - k) b))"
  have b0: "0 \<le> fh_bits h" using inv by (simp add: hdlc_inv_def)
  have k: "k \<le> 8" "0 < k" by (auto simp: k_def mode_width_def split: fasthdlc_mode.splits)
  have vl: "i < 32 - k \<Longrightarrow> \<not> bit v i" for i by (simp add: v_def bit_simps)
  have "push_bit (32 - k - nat (fh_bits h)) (ucast (drop_bit (8 - k) b) :: u32) =
      drop_bit (nat (fh_bits h)) v"
    by (rule bit_word_eqI) (use room b0 k in \<open>auto simp: v_def bit_simps add.commute dest: bit_imp_le_length\<close>)
  then have d: "fh_data h' = fh_data h OR drop_bit (nat (fh_bits h)) v"
      "fh_bits h' = fh_bits h + int k"
    and same: "fh_mode h' = fh_mode h" "fh_ones h' = fh_ones h" "fh_state h' = fh_state h"
      "fh_minbits h' = fh_minbits h" "r = 0"
    using load room b0
    by (auto simp: fasthdlc_rx_load_def fasthdlc_rx_load_nocheck_def k_def mode_width_def nat_diff_distrib
        split: fasthdlc_mode.splits)
  have top: "topbits v k = octet_bits (fh_mode h) b"
    by (rule nth_equalityI) (use k in \<open>auto simp: octet_bits_def k_def [symmetric] v_def bit_simps\<close>)
  note q = queue_append [OF inv _ vl d]
  show "hq h' = hq h @ octet_bits (fh_mode h) b" using q(1) top room k by simp
  show "hdlc_inv h'" using inv q(2) room k d(2) same by (auto simp: hdlc_inv_def)
qed (use load room in \<open>auto simp: fasthdlc_rx_load_def fasthdlc_rx_load_nocheck_def
      split: if_splits fasthdlc_mode.splits\<close>)

section \<open>What the frame table contains\<close>

lemma and_200_iff: "(c AND 0x0200 \<noteq> (0::u16)) = bit c 9"
  and and_100_iff: "(c AND 0x0100 = (0::u16)) = (\<not> bit c 8)"
proof -
  have e: "(0x0200::u16) = push_bit 9 1" "(0x0100::u16) = push_bit 8 1" by simp_all
  show "(c AND 0x0200 \<noteq> (0::u16)) = bit c 9" "(c AND 0x0100 = (0::u16)) = (\<not> bit c 8)"
    unfolding e by (simp_all only: bit_iff_and_push_bit_not_eq_0 not_not)
qed

lemma nat_bit_small3: assumes "(a::nat) < 8" "3 \<le> i" shows "\<not> bit a i"
proof -
  have "(2::nat) ^ 3 \<le> 2 ^ i" using assms(2) by (rule power_increasing) simp
  with assms(1) have "a div 2 ^ i = 0" by simp
  then show ?thesis by (simp only: bit_iff_odd) simp
qed

text \<open>Reading back the fields \<^verbatim>\<open>HFP\<close> packs.\<close>

lemma HFP_masks:
  "(0x0f00::u16) = push_bit 8 (mask 4)" "ONES_MASK = push_bit 12 (mask 3)"
  "STATE_MASK = push_bit 15 (mask 1)" "DATA_MASK = mask 8"
  by (simp_all add: mask_eq_exp_minus_1)

lemma bit_8000: "bit (0x8000::int) i = (i = 15)"
proof -
  have e: "(0x8000::int) = push_bit 15 1" by simp
  show ?thesis unfolding e by (simp only: bit_push_bit_iff bit_1_iff) auto
qed

lemma HFP_valid_bits:
  assumes "o' < 8" "k < 16" "i < 16"
  shows "bit (HFP STATUS_VALID o' k (ucast (d::u8))) i =
    (i = 15 \<or> 12 \<le> i \<and> i < 15 \<and> bit o' (i - 12) \<or> 8 \<le> i \<and> i < 12 \<and> bit k (i - 8) \<or> i < 8 \<and> bit d i)"
proof -
  show ?thesis
    unfolding HFP_def
    using assms nat_bit_small3 [OF assms(1), of "i - 12"] nat_bit_small [OF assms(2), of "i - 8"]
    by (cases "i < 8"; cases "i < 12"; cases "i < 15")
      (auto simp: bit_simps bit_of_nat_iff bit_8000 dest: bit_imp_le_length)
qed

lemma HFP_valid_fields:
  fixes d :: u8
  assumes "o' < 8" "k < 16"
  defines "r \<equiv> HFP STATUS_VALID o' k (ucast d)"
  shows "r AND STATUS_MASK = STATUS_MASK"
    "uint (next_consumed r) = int k"
    "unat (next_consumed r) = k"
    "uint (next_ones r) = int o'" "unat (next_ones r) = o'"
    "uint (next_state r) = 1"
    "uint (r AND DATA_MASK) = uint d"
proof -
  have b: "bit r i = (i = 15 \<or> 12 \<le> i \<and> i < 15 \<and> bit o' (i - 12) \<or>
      8 \<le> i \<and> i < 12 \<and> bit k (i - 8) \<or> i < 8 \<and> bit d i)" for i
    using HFP_valid_bits [OF assms(1,2), of i d, folded r_def] bit_imp_le_length [of r i]
    by (cases "i < 16") auto
  have n3: "bit o' i \<Longrightarrow> i < 3" for i using nat_bit_small3 [OF assms(1)] by (meson not_le)
  have n4: "bit k i \<Longrightarrow> i < 4" for i using nat_bit_small [OF assms(2)] by (meson not_le)
  show "r AND STATUS_MASK = STATUS_MASK"
    by (rule bit_word_eqI) (auto simp: bit_and_iff b bit_8000)
  have k: "drop_bit 8 (r AND 0x0f00) = of_nat k"
    unfolding HFP_masks
    by (rule bit_word_eqI) (auto simp: bit_and_iff bit_push_bit_iff bit_drop_bit_eq bit_mask_iff b
        bit_of_nat_iff dest: n4)
  show "uint (next_consumed r) = int k" "unat (next_consumed r) = k"
    unfolding next_consumed_def k using assms(2) by (simp_all add: unsigned_of_nat take_bit_nat_eq_self)
  have "drop_bit 12 (r AND ONES_MASK) = of_nat o'"
    unfolding HFP_masks
    by (rule bit_word_eqI) (auto simp: bit_and_iff bit_push_bit_iff bit_drop_bit_eq bit_mask_iff b
        bit_of_nat_iff dest: n3)
  then show "uint (next_ones r) = int o'" "unat (next_ones r) = o'"
    unfolding next_ones_def using assms(1) by (simp_all add: unsigned_of_nat take_bit_nat_eq_self)
  have "drop_bit 15 (r AND STATE_MASK) = 1"
    unfolding HFP_masks
    by (rule bit_word_eqI) (auto simp: bit_and_iff bit_push_bit_iff bit_drop_bit_eq bit_mask_iff b bit_1_iff)
  then show "uint (next_state r) = 1" unfolding next_state_def by simp
  have "r AND DATA_MASK = ucast d"
    unfolding HFP_masks
    by (rule bit_word_eqI) (auto simp: bit_and_iff bit_mask_iff b bit_ucast_iff dest: bit_imp_le_length)
  then show "uint (r AND DATA_MASK) = uint d"
    using uint_lt2p [of d] by (simp add: unsigned_ucast_eq take_bit_int_eq_self)
qed

lemma HFP_control_fields:
  fixes ctl :: u16
  assumes "k < 16" "ctl = CONTROL_COMPLETE \<or> ctl = CONTROL_ABORT"
  defines "r \<equiv> HFP 0 0 k ctl"
  shows "r AND STATUS_MASK = 0"
    "uint (next_consumed r) = int k"
    "unat (next_consumed r) = k"
    "uint (next_ones r) = 0" "unat (next_ones r) = 0"
    "uint (next_state r) = 0"
    "(r AND CONTROL_COMPLETE \<noteq> 0) = (ctl = CONTROL_COMPLETE)"
proof -
  have "k = 0 \<or> k = 1 \<or> k = 2 \<or> k = 3 \<or> k = 4 \<or> k = 5 \<or> k = 6 \<or> k = 7 \<or> k = 8 \<or> k = 9 \<or>
    k = 10 \<or> k = 11 \<or> k = 12 \<or> k = 13 \<or> k = 14 \<or> k = 15" using assms(1) by presburger
  then show "r AND STATUS_MASK = 0" "uint (next_consumed r) = int k"
    "unat (next_consumed r) = k"
    "uint (next_ones r) = 0" "unat (next_ones r) = 0"
    "uint (next_state r) = 0"
    "(r AND CONTROL_COMPLETE \<noteq> 0) = (ctl = CONTROL_COMPLETE)"
    using assms(2) by (auto simp: r_def HFP_def next_consumed_def next_ones_def next_state_def)
qed

text \<open>
  The shape of every entry in rows 0 to 4: a complete flag of 8 bits, an abort of 2 to
  10 bits, or an octet of 8 to 10 bits. The invariant counts the skipped zeros.
\<close>

lemma frame_loop_shape:
  assumes "n0 \<le> 4" "consumed = bits + skips" "5 * skips + ones \<le> bits + n0" "bits \<le> 8" "ones \<le> 5"
  shows "hdlc_frame_loop ones data bits consumed c = HFP 0 0 8 CONTROL_COMPLETE \<or>
    (\<exists>k. 2 \<le> k \<and> k \<le> 10 \<and> hdlc_frame_loop ones data bits consumed c = HFP 0 0 k CONTROL_ABORT) \<or>
    (\<exists>o' k d. o' \<le> 4 \<and> 8 \<le> k \<and> k \<le> 10 \<and>
       hdlc_frame_loop ones data bits consumed c = HFP STATUS_VALID o' k (ucast (d::u8)))"
  using assms(2-)
proof (induction ones data bits consumed c arbitrary: skips rule: hdlc_frame_loop.induct)
  case (1 ones data bits consumed c)
  show ?case
  proof (cases "bits < 8")
    case False
    then have "hdlc_frame_loop ones data bits consumed c =
      HFP STATUS_VALID (if ones = 5 then 0 else ones)
        (if ones = 5 then consumed + 1 else consumed) (ucast data)"
      by (simp add: hdlc_frame_loop.simps [of ones data bits consumed c])
    moreover have "(if ones = 5 then 0 else ones) \<le> 4"
      "8 \<le> (if ones = 5 then consumed + 1 else consumed)"
      "(if ones = 5 then consumed + 1 else consumed) \<le> 10"
      using False "1.prems" assms(1) by auto
    ultimately show ?thesis by blast
  next
    case bits: True
    note unf = hdlc_frame_loop.simps [of ones data bits consumed c]
    consider (skip) "ones = 5" "c AND 0x0200 = 0" | (flag) "ones = 5" "c AND 0x0200 \<noteq> 0" 
      | (one) "ones \<noteq> 5" "c AND 0x0200 \<noteq> 0" | (zero) "ones \<noteq> 5" "c AND 0x0200 = 0" by blast
    then show ?thesis
    proof cases
      case skip
      have "hdlc_frame_loop ones data bits consumed c =
        hdlc_frame_loop 0 (push_bit 1 (drop_bit 1 data)) bits (consumed + 1) (push_bit 1 c)"
        by (subst unf) (simp add: skip bits Let_def)
      moreover note "1.IH"(1) [OF bits refl refl skip(1) _ , of "Suc skips"]
      ultimately show ?thesis using skip bits "1.prems" by simp
    next
      case flag
      with bits "1.prems" assms(1) have "consumed + 2 \<le> 10" by simp
      moreover have "hdlc_frame_loop ones data bits consumed c =
        (if c AND 0x0100 = 0 \<and> bits = 6 then HFP 0 0 8 CONTROL_COMPLETE
         else HFP 0 0 (consumed + 2) CONTROL_ABORT)"
        by (subst unf) (use flag bits in \<open>simp add: Let_def\<close>)
      ultimately show ?thesis by (metis le_add2)
    next
      case one
      have "hdlc_frame_loop ones data bits consumed c =
        hdlc_frame_loop (ones + 1) (drop_bit 1 data OR 0x80) (bits + 1) (consumed + 1) (push_bit 1 c)"
        by (subst unf) (use one bits in \<open>simp add: Let_def\<close>)
      moreover note "1.IH"(2) [OF bits refl refl one, of skips]
      ultimately show ?thesis using one bits "1.prems" by simp
    next
      case zero
      have "hdlc_frame_loop ones data bits consumed c =
        hdlc_frame_loop 0 (drop_bit 1 data) (bits + 1) (consumed + 1) (push_bit 1 c)"
        by (subst unf) (use zero bits in \<open>simp add: Let_def\<close>)
      moreover note "1.IH"(3) [OF bits refl refl zero(1) _, of skips]
      ultimately show ?thesis using zero bits "1.prems" by simp
    qed
  qed
qed

lemma frame_precalc_cases:
  assumes "n \<le> 4"
  obtains (complete) "hdlc_frame_precalc n c = HFP 0 0 8 CONTROL_COMPLETE"
  | (abort) k where "2 \<le> k" "k \<le> 10" "hdlc_frame_precalc n c = HFP 0 0 k CONTROL_ABORT"
  | (valid) o' k d where "o' \<le> 4" "8 \<le> k" "k \<le> 10"
      "hdlc_frame_precalc n c = HFP STATUS_VALID o' k (ucast (d::u8))"
  using frame_loop_shape [OF assms, of 0 0 0 n 0 c] assms
  unfolding hdlc_frame_precalc_def by auto

section \<open>The frame table undoes stuffing\<close>

text \<open>The ten-bit window: bit 9 of \<open>c\<close> is the next bit of the stream.\<close>

definition window :: "u16 \<Rightarrow> bool list \<Rightarrow> bool" where
  "window c bs \<longleftrightarrow> length bs \<le> 10 \<and> (\<forall>i < length bs. bit c (9 - i) = bs ! i)"

lemma window_Cons: "window c (b # bs) \<Longrightarrow> bit c 9 = b \<and> window (push_bit 1 c) bs"
proof -
  assume w: "window c (b # bs)"
  then have "bit c 9 = b" by (auto simp: window_def)
  moreover have "bit (push_bit 1 c) (9 - i) = bs ! i" if i: "i < length bs" for i
  proof -
    have "bit c (9 - Suc i) = bs ! i" and "Suc i \<le> 9" using w i by (auto simp: window_def)
    then show ?thesis by (auto simp: bit_simps simp del: push_bit_Suc)
  qed
  ultimately show ?thesis using w by (simp add: window_def)
qed

lemma window_append: "window c (xs @ ys) \<Longrightarrow> window c xs"
  by (auto simp: window_def nth_append)

definition collect :: "u8 \<Rightarrow> bool list \<Rightarrow> u8" where
  "collect d bs = foldl (\<lambda>d b. drop_bit 1 d OR (if b then 0x80 else 0)) d bs"

lemma collect_simps [simp]: "collect d [] = d"
  "collect d (b # bs) = collect (drop_bit 1 d OR (if b then 0x80 else 0)) bs"
  by (simp_all add: collect_def)

lemma bit_80: "bit (0x80::int) i = (i = 7)"
proof -
  have e: "(0x80::int) = push_bit 7 1" by simp
  show ?thesis unfolding e by (simp only: bit_push_bit_iff bit_1_iff) auto
qed

lemma bit_collect:
  "length bs \<le> 8 \<Longrightarrow> i < 8 \<Longrightarrow> bit (collect d bs) i =
    (if i < 8 - length bs then bit d (i + length bs) else bs ! (i + length bs - 8))"
proof (induction bs arbitrary: d)
  case Nil
  then show ?case by simp
next
  case (Cons b bs)
  then have "bit (collect d (b # bs)) i = (if i < 8 - length bs
     then bit (drop_bit 1 d OR (if b then 0x80 else 0)) (i + length bs)
     else bs ! (i + length bs - 8))" by simp
  also have "\<dots> = (if i < 8 - length (b # bs) then bit d (i + length (b # bs))
     else (b # bs) ! (i + length (b # bs) - 8))"
    using Cons.prems
    by (cases b) (auto simp: bit_simps bit_80 nth_Cons' dest: bit_imp_le_length)
  finally show ?case .
qed

lemma collect_lsb_bits: "collect 0 (lsb_bits 8 y) = y"
  by (rule bit_word_eqI) (simp add: bit_collect lsb_bits_def)

text \<open>One turn of the loop, in terms of the window.\<close>

lemma frame_loop_collect:
  assumes "window c (b # bs)" "n \<noteq> 5" "bits < 8"
  shows "hdlc_frame_loop n d bits consumed c =
    hdlc_frame_loop (if b then n + 1 else 0) (drop_bit 1 d OR (if b then 0x80 else 0))
      (bits + 1) (consumed + 1) (push_bit 1 c)"
proof -
  have "(c AND 0x0200 \<noteq> 0) = b" using window_Cons [OF assms(1)] by (simp add: and_200_iff)
  then show ?thesis
    by (subst hdlc_frame_loop.simps) (use assms in \<open>simp add: Let_def\<close>)
qed

lemma frame_loop_skip:
  assumes "window c (False # bs)" "bits < 8" "\<not> bit d 0"
  shows "hdlc_frame_loop 5 d bits consumed c = hdlc_frame_loop 0 d bits (consumed + 1) (push_bit 1 c)"
proof -
  have "c AND 0x0200 = 0" using window_Cons [OF assms(1)] by (metis and_200_iff)
  moreover have "push_bit 1 (drop_bit 1 d) = d"
  proof (rule bit_word_eqI)
    fix i assume "i < LENGTH(8)"
    then show "bit (push_bit 1 (drop_bit 1 d)) i = bit d i"
      using assms(3) by (cases i) (auto simp: bit_push_bit_iff bit_drop_bit_eq simp del: push_bit_Suc)
  qed
  ultimately show ?thesis
    by (subst hdlc_frame_loop.simps) (use assms in \<open>simp add: Let_def\<close>)
qed

lemma frame_loop_octet:
  assumes "length ys = 8 - bits" "bits \<le> 8" "n \<le> 5"
    "window c ((if n = 5 then [False] else []) @ stuff (if n = 5 then 0 else n) ys)"
    "\<forall>i < 8 - bits. \<not> bit d i"
  shows "hdlc_frame_loop n d bits consumed c =
    HFP STATUS_VALID (ones_after (if n = 5 then 0 else n) ys)
      (consumed + (if n = 5 then 1 else 0) + length (stuff (if n = 5 then 0 else n) ys))
      (ucast (collect d ys))"
  using assms
proof (induction ys arbitrary: n d bits consumed c)
  case Nil
  then show ?case by (subst hdlc_frame_loop.simps) auto
next
  case (Cons y ys)
  have main: "hdlc_frame_loop m d bits consumed c =
      HFP STATUS_VALID (ones_after m (y # ys)) (consumed + length (stuff m (y # ys)))
       (ucast (collect d (y # ys)))"
    if m: "m \<le> 4" and w: "window c (stuff m (y # ys))" for m consumed c
  proof -
    let ?m' = "if y then m + 1 else 0" and ?d' = "drop_bit 1 d OR (if y then 0x80 else 0) :: u8"
    have w': "window c (y # (if ?m' = 5 then [False] else []) @ stuff (if ?m' = 5 then 0 else ?m') ys)"
      using w by (auto split: if_splits)
    have "hdlc_frame_loop m d bits consumed c =
        hdlc_frame_loop ?m' ?d' (bits + 1) (consumed + 1) (push_bit 1 c)"
      by (rule frame_loop_collect [OF w']) (use m Cons.prems in auto)
    also have "\<dots> = HFP STATUS_VALID (ones_after (if ?m' = 5 then 0 else ?m') ys)
      (consumed + 1 + (if ?m' = 5 then 1 else 0) + length (stuff (if ?m' = 5 then 0 else ?m') ys))
      (ucast (collect ?d' ys))"
    proof (rule Cons.IH)
      show "\<forall>i<8 - (bits + 1). \<not> bit ?d' i"
        using Cons.prems by (auto simp: bit_simps bit_80)
    qed (use m Cons.prems window_Cons [OF w'] in auto)
    finally show ?thesis by (auto split: if_splits)
  qed
  show ?case
  proof (cases "n = 5")
    case True
    have "hdlc_frame_loop 5 d bits consumed c = hdlc_frame_loop 0 d bits (consumed + 1) (push_bit 1 c)"
      by (rule frame_loop_skip) (use True Cons.prems in auto)
    with main [of 0 "push_bit 1 c" "consumed + 1"] True Cons.prems
      window_Cons [of c False "stuff 0 (y # ys)"]
    show ?thesis by auto
  next
    case False
    with main [of n c consumed] Cons.prems show ?thesis by auto
  qed
qed

text \<open>Decoding the stuffed form of an octet gives the octet back.\<close>

lemma frame_precalc_octet:
  assumes "n \<le> 4" "window c (stuff n (lsb_bits 8 y))"
  shows "hdlc_frame_precalc n c =
    HFP STATUS_VALID (ones_after n (lsb_bits 8 y)) (length (stuff n (lsb_bits 8 y))) (ucast y)"
  using frame_loop_octet [of "lsb_bits 8 y" 0 n c 0 0] assms
  by (auto simp: hdlc_frame_precalc_def collect_lsb_bits)

text \<open>A flag on an octet boundary is a complete frame.\<close>

lemma frame_loop_ones:
  "window c (replicate k True @ bs) \<Longrightarrow> n + k \<le> 5 \<Longrightarrow> bits + k \<le> 8 \<Longrightarrow>
   \<exists>d' c'. hdlc_frame_loop n d bits consumed c = hdlc_frame_loop (n + k) d' (bits + k) (consumed + k) c'
      \<and> window c' bs"
proof (induction k arbitrary: n d bits consumed c)
  case 0
  then show ?case by auto
next
  case (Suc k)
  from Suc.prems(1) have w: "window c (True # replicate k True @ bs)" by simp
  from Suc.IH [of "push_bit 1 c" "n + 1" "bits + 1" "drop_bit 1 d OR 0x80" "consumed + 1"] Suc.prems window_Cons [OF w]
  show ?case by (auto simp: frame_loop_collect [OF w])
qed

lemma frame_precalc_flag:
  assumes n: "n \<le> 4" and w: "window c flag_bits"
  shows "hdlc_frame_precalc n c = HFP 0 0 8 CONTROL_COMPLETE"
proof -
  have w1: "window c (False # replicate 5 True @ [True, False])"
    using w by (simp add: flag_bits_def numeral_eq_Suc)
  have "hdlc_frame_precalc n c = hdlc_frame_loop 0 (drop_bit 1 0 OR (if False then 0x80 else 0)) 1 1 (push_bit 1 c)"
    unfolding hdlc_frame_precalc_def
    by (subst frame_loop_collect [OF w1]) (use n in auto)
  moreover obtain d' c' where "hdlc_frame_loop 0 (drop_bit 1 0 OR (if False then 0x80 else 0)) 1 1 (push_bit 1 c)
      = hdlc_frame_loop (0 + 5) d' (1 + 5) (1 + 5) c'" and w2: "window c' [True, False]"
    using frame_loop_ones [of "push_bit 1 c" 5 "[True, False]" 0 1
        "drop_bit 1 0 OR (if False then 0x80 else 0)" 1] window_Cons [OF w1] by auto
  moreover have "hdlc_frame_loop (0 + 5) d' (1 + 5) (1 + 5) c' = HFP 0 0 8 CONTROL_COMPLETE"
  proof -
    have "bit c' 9" "\<not> bit c' 8" using w2 by (auto simp: window_def dest: spec [of _ 0] spec [of _ 1])
    then have "c' AND 0x0200 \<noteq> 0" "c' AND 0x0100 = 0" by (metis and_200_iff, metis and_100_iff)
    then show ?thesis by (subst hdlc_frame_loop.simps) (simp add: Let_def)
  qed
  ultimately show ?thesis by simp
qed

section \<open>The decoder on bit strings\<close>

text \<open>
  \<open>rx_stream\<close> reads the tables over a bit string of any length instead of the 32-bit
  register, and lists every result. The receiver refines it (\<open>rx_run_refines\<close>).
\<close>

function rx_stream :: "int \<Rightarrow> nat \<Rightarrow> bool list \<Rightarrow> int list" where
  "rx_stream st ones bs =
     (if st = FRAME_SEARCH then
        (if length bs < 8 then []
         else (let nxt = (ucast (hdlc_search_precalc (shift_in 0 (take 8 bs))) :: u16) in
               rx_stream (uint (drop_bit 4 nxt)) 0 (drop (unat (nxt AND 0x0f)) bs)))
      else if length bs < 10 \<or> 4 < ones then []
      else (let nxt = hdlc_frame_precalc ones (shift_in 0 (take 10 bs));
                ones' = unat (next_ones nxt);
                bs' = drop (unat (next_consumed nxt)) bs in
            if nxt AND STATUS_MASK = 0 then
              (if nxt AND CONTROL_COMPLETE \<noteq> 0
               then RETURN_COMPLETE_FLAG # rx_stream PROCESS_FRAME ones' bs'
               else RETURN_DISCARD_FLAG # rx_stream (uint (next_state nxt)) ones' bs')
            else uint (nxt AND DATA_MASK) # rx_stream (uint (next_state nxt)) ones' bs'))"
  by pat_completeness auto

lemma frame_step_advances:
  "n \<le> 4 \<Longrightarrow> 0 < unat (next_consumed (hdlc_frame_precalc n c))"
  by (erule frame_precalc_cases [of n c]) (auto simp: HFP_control_fields HFP_valid_fields)

termination rx_stream
proof (relation "measure (\<lambda>(st, ones, bs). length bs)", goal_cases)
  case (2 st ones bs nxt)
  obtain k where "1 \<le> k" "unat ((ucast (hdlc_search_precalc (shift_in 0 (take 8 bs))) :: u16) AND 0x0f) = k"
    by (rule hdlc_search_step [of "shift_in 0 (take 8 bs)"])
  with 2 show ?case by simp
next
  case (3 st ones bs nxt)
  then show ?case using frame_step_advances [of ones "shift_in 0 (take 10 bs)"]
    by (auto intro!: diff_less)
next
  case (4 st ones bs nxt)
  then show ?case using frame_step_advances [of ones "shift_in 0 (take 10 bs)"]
    by (auto intro!: diff_less)
next
  case (5 st ones bs nxt)
  then show ?case using frame_step_advances [of ones "shift_in 0 (take 10 bs)"]
    by (auto intro!: diff_less)
qed simp

declare rx_stream.simps [simp del]

lemma rx_stream_short:
  "st = FRAME_SEARCH \<Longrightarrow> length bs < 8 \<Longrightarrow> rx_stream st ones bs = []"
  "st = PROCESS_FRAME \<Longrightarrow> length bs < 10 \<Longrightarrow> rx_stream st ones bs = []"
  by (subst rx_stream.simps; simp)+

lemma window_shift_in: "length bs = 10 \<Longrightarrow> window (shift_in 0 bs) bs"
  by (auto simp: window_def bit_shift_in)

lemma window_take: "window (shift_in 0 (take 10 bs)) xs" if "10 \<le> length bs" "take (length xs) bs = xs" "length xs \<le> 10"
proof -
  have "bs = xs @ drop (length xs) bs" using that(2) by (metis append_take_drop_id)
  then have "take 10 bs = xs @ take (10 - length xs) (drop (length xs) bs)"
    using that(3) by (metis take_append take_all)
  then show ?thesis using window_shift_in [of "take 10 bs"] that(1) window_append by (metis length_take min.absorb2)
qed

lemma rx_stream_flag_search:
  "rx_stream FRAME_SEARCH n (flag_bits @ bs) = rx_stream PROCESS_FRAME 0 bs"
proof -
  define q where "q = flag_bits @ bs"
  have q: "take 8 q = flag_bits" "drop 8 q = bs" "\<not> length q < 8"
    by (simp_all add: q_def flag_bits_def)
  have "shift_in 0 flag_bits = (0x7e :: u8)" by (simp add: flag_bits_def shift_in_def)
  then have "rx_stream FRAME_SEARCH n q = rx_stream PROCESS_FRAME 0 bs"
    by (subst rx_stream.simps) (simp add: q hdlc_search_precalc_def)
  then show ?thesis by (simp add: q_def)
qed

lemma rx_stream_octet:
  assumes n: "n \<le> 4" and len: "10 \<le> length (stuff n (lsb_bits 8 y) @ bs)"
  shows "rx_stream PROCESS_FRAME n (stuff n (lsb_bits 8 y) @ bs) =
    uint y # rx_stream PROCESS_FRAME (ones_after n (lsb_bits 8 y)) bs"
proof -
  define k where "k = length (stuff n (lsb_bits 8 y))"
  have k: "k \<le> 10" using n by (simp add: k_def length_stuff_octet)
  have o: "ones_after n (lsb_bits 8 y) < 8" using ones_after_le [OF n, of "lsb_bits 8 y"] by simp
  have "window (shift_in 0 (take 10 (stuff n (lsb_bits 8 y) @ bs))) (stuff n (lsb_bits 8 y))"
    by (rule window_take) (use len k in \<open>auto simp: k_def\<close>)
  then have "hdlc_frame_precalc n (shift_in 0 (take 10 (stuff n (lsb_bits 8 y) @ bs))) =
    HFP STATUS_VALID (ones_after n (lsb_bits 8 y)) k (ucast y)"
    unfolding k_def by (rule frame_precalc_octet [OF n])
  moreover note f = HFP_valid_fields [OF o, where k = k and d = y]
  moreover have "drop k (stuff n (lsb_bits 8 y) @ bs) = bs" by (simp add: k_def)
  ultimately show ?thesis
    using n len k by (subst rx_stream.simps) (simp add: Let_def del: drop_append length_append)
qed

lemma rx_stream_flag:
  assumes n: "n \<le> 4" and len: "2 \<le> length bs"
  shows "rx_stream PROCESS_FRAME n (flag_bits @ bs) = RETURN_COMPLETE_FLAG # rx_stream PROCESS_FRAME 0 bs"
proof -
  have "window (shift_in 0 (take 10 (flag_bits @ bs))) flag_bits"
    by (rule window_take) (use len in \<open>auto simp: flag_bits_def\<close>)
  then have e: "hdlc_frame_precalc n (shift_in 0 (take 10 (flag_bits @ bs))) = HFP 0 0 8 CONTROL_COMPLETE"
    by (rule frame_precalc_flag [OF n])
  have "drop 8 (flag_bits @ bs) = bs" "length flag_bits = 8" by (simp_all add: flag_bits_def)
  then show ?thesis
    using n len e HFP_control_fields [where k = 8 and ctl = CONTROL_COMPLETE]
    by (subst rx_stream.simps) (simp add: Let_def del: drop_append)
qed

text \<open>A whole frame: its octets, then the closing flag.\<close>

definition frame_bits :: "u8 list \<Rightarrow> bool list" where
  "frame_bits ys = concat (map (lsb_bits 8) ys)"

lemma rx_stream_frame:
  assumes "n \<le> 4" "2 \<le> length bs"
  shows "rx_stream PROCESS_FRAME n (stuff n (frame_bits ys) @ flag_bits @ bs) =
    map uint ys @ RETURN_COMPLETE_FLAG # rx_stream PROCESS_FRAME 0 bs"
  using assms(1)
proof (induction ys arbitrary: n)
  case Nil
  with assms(2) show ?case by (simp add: frame_bits_def rx_stream_flag)
next
  case (Cons y ys)
  have "stuff n (frame_bits (y # ys)) =
    stuff n (lsb_bits 8 y) @ stuff (ones_after n (lsb_bits 8 y)) (frame_bits ys)"
    by (simp add: frame_bits_def stuff_append)
  moreover have "8 \<le> length (stuff n (lsb_bits 8 y))"
    using length_stuff_ge [of "lsb_bits 8 y" n] by simp
  ultimately show ?case
    using Cons assms(2) by (simp add: rx_stream_octet ones_after_le flag_bits_def)
qed

section \<open>The receiver refines the decoder on bit strings\<close>

lemma search_index:
  assumes "8 \<le> fh_bits h"
  shows "(of_nat (unat (drop_bit 24 (fh_data h))) :: u8) = shift_in 0 (take 8 (hq h @ fut))"
proof (rule bit_word_eqI)
  fix i assume i: "i < LENGTH(8)"
  have "(of_nat (unat (drop_bit 24 (fh_data h))) :: u8) = ucast (drop_bit 24 (fh_data h))" by simp
  moreover have "take 8 (hq h @ fut) = topbits (fh_data h) 8"
    using assms by (simp add: hq_def take_topbits)
  moreover have "31 - (7 - i) = 24 + i" using i by simp
  ultimately show "bit (of_nat (unat (drop_bit 24 (fh_data h))) :: u8) i =
      bit (shift_in 0 (take 8 (hq h @ fut)) :: u8) i"
    using i by (simp add: bit_shift_in bit_simps)
qed

lemma frame_index:
  assumes "10 \<le> fh_bits h"
  shows "(of_nat (unat (drop_bit 22 (fh_data h))) :: u16) = shift_in 0 (take 10 (hq h @ fut))"
proof (rule bit_word_eqI)
  fix i assume i: "i < LENGTH(16)"
  have "(of_nat (unat (drop_bit 22 (fh_data h))) :: u16) = ucast (drop_bit 22 (fh_data h))" by simp
  moreover have "take 10 (hq h @ fut) = topbits (fh_data h) 10"
    using assms by (simp add: hq_def take_topbits)
  moreover have "i < 10 \<Longrightarrow> 31 - (9 - i) = 22 + i" by simp
  moreover have "\<not> i < 10 \<Longrightarrow> \<not> bit (fh_data h) (22 + i)"
    by (auto dest: bit_imp_le_length)
  ultimately show "bit (of_nat (unat (drop_bit 22 (fh_data h))) :: u16) i =
      bit (shift_in 0 (take 10 (hq h @ fut)) :: u16) i"
    using i by (auto simp: bit_shift_in bit_simps)
qed

lemma rx_search_step:
  assumes inv: "hdlc_inv h" and st: "fh_state h = FRAME_SEARCH" and b: "8 \<le> fh_bits h"
  obtains h' where "fasthdlc_rx_loop h RETURN_EMPTY_FLAG = fasthdlc_rx_loop h' RETURN_EMPTY_FLAG"
    "hdlc_inv h'" "fh_mode h' = fh_mode h" "fh_ones h' = 0" "fh_bits h' < fh_bits h"
    "fh_state h' = PROCESS_FRAME \<longrightarrow> fh_bits h' = fh_bits h - 8"
    "\<And>fut. rx_stream FRAME_SEARCH (nat (fh_ones h)) (hq h @ fut) =
       rx_stream (fh_state h') 0 (hq h' @ fut)"
proof -
  define c :: u8 where "c = of_nat (unat (drop_bit 24 (fh_data h)))"
  define nxt where "nxt = (ucast (hdlc_search_precalc c) :: u16)"
  obtain k :: nat and s where k: "1 \<le> k" "k \<le> 8" "s = 0 \<or> s = 1"
    "uint (nxt AND 0x0f) = int k" "unat (nxt AND 0x0f) = k" "uint (drop_bit 4 nxt) = s" "s = 1 \<longleftrightarrow> c = 0x7e"
    unfolding nxt_def by (rule hdlc_search_step [of c])
  have tab: "hdlc_search ! unat (drop_bit 24 (fh_data h)) = hdlc_search_precalc c"
    using unat_drop24 by (simp add: c_def)
  define h' where "h' = h\<lparr>fh_bits := fh_bits h - int k, fh_data := push_bit k (fh_data h),
    fh_state := s, fh_ones := 0\<rparr>"
  have loop: "fasthdlc_rx_loop h RETURN_EMPTY_FLAG = fasthdlc_rx_loop h' RETURN_EMPTY_FLAG"
    by (subst fasthdlc_rx_loop.simps)
      (simp add: st b rx_minbits_def tab Let_def nxt_def [symmetric] k(4-6) h'_def)
  have d: "fh_data h' = push_bit k (fh_data h)" "fh_bits h' = fh_bits h - int k" by (simp_all add: h'_def)
  note q = queue_pop [OF inv _ d]
  have kb: "int k \<le> fh_bits h" using b k(2) by simp
  have "hdlc_inv h'"
    using inv q(2) kb k(3) by (auto simp: h'_def hdlc_inv_def)
  moreover have "rx_stream FRAME_SEARCH (nat (fh_ones h)) (hq h @ fut) =
       rx_stream (fh_state h') 0 (hq h' @ fut)" for fut
  proof -
    have "\<not> length (hq h @ fut) < 8" using b by (simp add: length_hq)
    moreover have "drop k (hq h @ fut) = hq h' @ fut"
      using q(1) kb by (simp add: length_hq)
    moreover have "(ucast (hdlc_search_precalc (shift_in 0 (take 8 (hq h @ fut)))) :: u16) = nxt"
      unfolding nxt_def c_def search_index [OF b, of fut] ..
    moreover have "fh_state h' = s" by (simp add: h'_def)
    ultimately show ?thesis
      by (subst rx_stream.simps)
        (simp add: k(5,6) del: append_assoc drop_append take_append length_append)
  qed
  moreover have "s = 1 \<Longrightarrow> k = 8"
    using k(4,7) by (simp add: nxt_def hdlc_search_precalc_def)
  ultimately show thesis
    using that [OF loop] k(1) by (simp add: h'_def)
qed

lemma rx_frame_step:
  assumes inv: "hdlc_inv h" and st: "fh_state h = PROCESS_FRAME" and b: "10 \<le> fh_bits h"
  obtains h' r where "fasthdlc_rx_loop h RETURN_EMPTY_FLAG = (h', r)"
    "hdlc_inv h'" "fh_mode h' = fh_mode h"
    "r = RETURN_DISCARD_FLAG \<and> fh_state h' = FRAME_SEARCH \<and> fh_bits h' \<le> fh_bits h - 2 \<or>
     (r = RETURN_COMPLETE_FLAG \<or> 0 \<le> r \<and> r < 256) \<and> fh_state h' = PROCESS_FRAME
       \<and> fh_bits h' \<le> fh_bits h - 8"
    "\<And>fut. rx_stream PROCESS_FRAME (nat (fh_ones h)) (hq h @ fut) =
       r # rx_stream (fh_state h') (nat (fh_ones h')) (hq h' @ fut)"
proof -
  define n where "n = nat (fh_ones h)"
  define c :: u16 where "c = of_nat (unat (drop_bit 22 (fh_data h)))"
  define nxt where "nxt = hdlc_frame_precalc n c"
  have n: "n \<le> 4" "0 \<le> fh_ones h" using inv by (auto simp: hdlc_inv_def n_def)
  have tab: "hdlc_frame ! nat (fh_ones h) ! unat (drop_bit 22 (fh_data h)) = nxt"
    using unat_drop22 n by (simp add: c_def nxt_def n_def)
  obtain k :: nat and o' s r where
    f: "uint (next_consumed nxt) = int k" "unat (next_consumed nxt) = k"
      "uint (next_ones nxt) = int o'" "unat (next_ones nxt) = o'" "o' \<le> 4" "2 \<le> k" "k \<le> 10"
    and loop: "(if nxt AND STATUS_MASK = 0 then
         (if nxt AND CONTROL_COMPLETE \<noteq> 0 then (RETURN_COMPLETE_FLAG, 1)
          else (RETURN_DISCARD_FLAG, uint (next_state nxt)))
        else (uint (nxt AND DATA_MASK), uint (next_state nxt))) = (r, s)"
    and cases: "r = RETURN_DISCARD_FLAG \<and> s = FRAME_SEARCH \<or>
      (r = RETURN_COMPLETE_FLAG \<or> 0 \<le> r \<and> r < 256) \<and> s = PROCESS_FRAME \<and> 8 \<le> k"
    using n(1)
  proof (rule frame_precalc_cases [of n c, folded nxt_def])
    assume "nxt = HFP 0 0 8 CONTROL_COMPLETE"
    then show thesis
      by (intro that [of 8 0 RETURN_COMPLETE_FLAG 1]) (simp_all add: HFP_control_fields)
  next
    fix k assume "nxt = HFP 0 0 k CONTROL_ABORT" "2 \<le> k" "k \<le> 10"
    then show thesis
      by (intro that [of k 0 RETURN_DISCARD_FLAG 0]) (simp_all add: HFP_control_fields)
  next
    fix o' k and d :: u8 assume "nxt = HFP STATUS_VALID o' k (ucast d)" "o' \<le> 4" "8 \<le> k" "k \<le> 10"
    then show thesis
      using uint_lt2p [of d]
      by (intro that [of k o' "uint d" 1]) (simp_all add: HFP_valid_fields)
  qed
  define h' where "h' = h\<lparr>fh_bits := fh_bits h - int k, fh_data := push_bit k (fh_data h),
    fh_state := s, fh_ones := int o'\<rparr>"
  have stop: "r' \<noteq> RETURN_EMPTY_FLAG \<Longrightarrow> fasthdlc_rx_loop g r' = (g, r')" for g r'
    by (subst fasthdlc_rx_loop.simps) simp
  have nr: "r \<noteq> RETURN_EMPTY_FLAG" using cases by auto
  have run: "fasthdlc_rx_loop h RETURN_EMPTY_FLAG = (h', r)"
    by (subst fasthdlc_rx_loop.simps)
      (use loop nr in \<open>auto simp: st b rx_minbits_def tab Let_def f(1-3) h'_def stop split: if_splits\<close>)
  have d: "fh_data h' = push_bit k (fh_data h)" "fh_bits h' = fh_bits h - int k" by (simp_all add: h'_def)
  note q = queue_pop [OF inv _ d]
  have kb: "int k \<le> fh_bits h" using b f(7) by simp
  have "hdlc_inv h'"
    using inv q(2) kb cases f(5) by (auto simp: h'_def hdlc_inv_def)
  moreover have "rx_stream PROCESS_FRAME (nat (fh_ones h)) (hq h @ fut) =
       r # rx_stream (fh_state h') (nat (fh_ones h')) (hq h' @ fut)" for fut
  proof -
    have "\<not> length (hq h @ fut) < 10" using b by (simp add: length_hq)
    moreover have "drop k (hq h @ fut) = hq h' @ fut"
      using q(1) kb by (simp add: length_hq)
    moreover have "hdlc_frame_precalc n (shift_in 0 (take 10 (hq h @ fut))) = nxt"
      unfolding nxt_def c_def frame_index [OF b, of fut] ..
    moreover have "fh_state h' = s" "nat (fh_ones h') = o'" by (simp_all add: h'_def)
    ultimately show ?thesis
      using loop n(1)
      by (subst rx_stream.simps)
        (auto simp: n_def [symmetric] f(2,4) Let_def simp del: append_assoc drop_append take_append length_append split: if_splits)
  qed
  ultimately show thesis
    using that [OF run] cases f(6) by (auto simp: h'_def)
qed

text \<open>
  One call of \<open>fasthdlc_rx_run\<close>: it takes the next result off the decoded stream, or
  there is none yet and too few bits are left to find one.
\<close>

lemma rx_loop_refines:
  assumes "hdlc_inv h" "fasthdlc_rx_loop h RETURN_EMPTY_FLAG = (h', r)"
  shows "hdlc_inv h' \<and> fh_mode h' = fh_mode h \<and>
    (r = RETURN_EMPTY_FLAG \<and> (fh_state h' = FRAME_SEARCH \<longrightarrow> fh_bits h' < 8)
        \<and> (fh_state h' = PROCESS_FRAME \<longrightarrow> fh_bits h' < 10) \<or>
     r = RETURN_DISCARD_FLAG \<and> fh_state h' = FRAME_SEARCH
        \<and> fh_bits h' \<le> fh_bits h - (if fh_state h = FRAME_SEARCH then 10 else 2) \<or>
     (r = RETURN_COMPLETE_FLAG \<or> 0 \<le> r \<and> r < 256) \<and> fh_state h' = PROCESS_FRAME
        \<and> fh_bits h' \<le> fh_bits h - (if fh_state h = FRAME_SEARCH then 16 else 8)) \<and>
    (\<forall>fut. rx_stream (fh_state h) (nat (fh_ones h)) (hq h @ fut) =
       (if r = RETURN_EMPTY_FLAG then [] else [r]) @
       rx_stream (fh_state h') (nat (fh_ones h')) (hq h' @ fut))"
  using assms
proof (induction "nat (fh_bits h)" arbitrary: h rule: less_induct)
  case less
  consider (s) "fh_state h = FRAME_SEARCH" "8 \<le> fh_bits h" | (p) "fh_state h = PROCESS_FRAME" "10 \<le> fh_bits h"
    | (short) "fh_state h = FRAME_SEARCH" "fh_bits h < 8"
    | (short') "fh_state h = PROCESS_FRAME" "fh_bits h < 10"
    using less.prems(1) by (fastforce simp: hdlc_inv_def)
  then show ?case
  proof cases
    case s
    obtain h1 where h1: "fasthdlc_rx_loop h RETURN_EMPTY_FLAG = fasthdlc_rx_loop h1 RETURN_EMPTY_FLAG"
      "hdlc_inv h1" "fh_mode h1 = fh_mode h" "fh_ones h1 = 0" "fh_bits h1 < fh_bits h"
      "fh_state h1 = PROCESS_FRAME \<longrightarrow> fh_bits h1 = fh_bits h - 8"
      "\<And>fut. rx_stream FRAME_SEARCH (nat (fh_ones h)) (hq h @ fut) = rx_stream (fh_state h1) 0 (hq h1 @ fut)"
      by (rule rx_search_step [OF less.prems(1) s]) blast
    have "nat (fh_bits h1) < nat (fh_bits h)" using h1(5) s(2) by simp
    from less.hyps [OF this h1(2)] h1 less.prems(2) s h1(2) show ?thesis
      by (auto simp: hdlc_inv_def split: if_splits)
  next
    case p
    then show ?thesis
      using less.prems(2)
      by (rule_tac rx_frame_step [OF less.prems(1) p]) auto
  next
    case short
    then have "(h', r) = (h, RETURN_EMPTY_FLAG)"
      using less.prems(2) by (subst (asm) fasthdlc_rx_loop.simps) (simp add: rx_minbits_def)
    with short less.prems(1) show ?thesis by simp
  next
    case short'
    then have "(h', r) = (h, RETURN_EMPTY_FLAG)"
      using less.prems(2) by (subst (asm) fasthdlc_rx_loop.simps) (simp add: rx_minbits_def)
    with short' less.prems(1) show ?thesis by simp
  qed
qed

section \<open>Bit queues: the interface between the engine and its callers\<close>

text \<open>
  A caller of the transmitter pushes items whose encoding depends on a context (how many
  ones went before) and takes octets out. The laws say that pushing appends an encoding
  and taking removes what the octet carries; the consequence, proved once, is that no
  interleaving of calls loses, duplicates or reorders a bit of the line.
\<close>

fun fifo_run :: "('s \<Rightarrow> 'a \<Rightarrow> 's option) \<Rightarrow> ('s \<Rightarrow> ('s \<times> 'o) option) \<Rightarrow> 's \<Rightarrow> 'a option list
    \<Rightarrow> ('s \<times> 'o list) option" where
  "fifo_run put get s [] = Some (s, [])"
| "fifo_run put get s (Some a # ops) =
     (case put s a of None \<Rightarrow> None | Some s' \<Rightarrow> fifo_run put get s' ops)"
| "fifo_run put get s (None # ops) =
     (case get s of None \<Rightarrow> None
      | Some (s', b) \<Rightarrow> map_option (\<lambda>(t, out). (t, b # out)) (fifo_run put get s' ops))"

fun encode_all :: "('c \<Rightarrow> 'a \<Rightarrow> bool list) \<Rightarrow> ('c \<Rightarrow> 'a \<Rightarrow> 'c) \<Rightarrow> 'c \<Rightarrow> 'a option list \<Rightarrow> bool list" where
  "encode_all enc nx c [] = []"
| "encode_all enc nx c (Some a # ops) = enc c a @ encode_all enc nx (nx c a) ops"
| "encode_all enc nx c (None # ops) = encode_all enc nx c ops"

locale bit_fifo =
  fixes inv :: "'s \<Rightarrow> bool" and queue :: "'s \<Rightarrow> bool list" and ctx :: "'s \<Rightarrow> 'c"
    and put :: "'s \<Rightarrow> 'a \<Rightarrow> 's option" and get :: "'s \<Rightarrow> ('s \<times> 'o) option"
    and enc :: "'c \<Rightarrow> 'a \<Rightarrow> bool list" and nx :: "'c \<Rightarrow> 'a \<Rightarrow> 'c" and line :: "'o \<Rightarrow> bool list"
  assumes put_law: "inv s \<Longrightarrow> put s a = Some s' \<Longrightarrow>
      inv s' \<and> queue s' = queue s @ enc (ctx s) a \<and> ctx s' = nx (ctx s) a"
    and get_law: "inv s \<Longrightarrow> get s = Some (s', b) \<Longrightarrow>
      inv s' \<and> queue s = line b @ queue s' \<and> ctx s' = ctx s"
begin

lemma run_in_order:
  "inv s \<Longrightarrow> fifo_run put get s ops = Some (t, out) \<Longrightarrow>
   inv t \<and> queue s @ encode_all enc nx (ctx s) ops = concat (map line out) @ queue t"
proof (induction ops arbitrary: s out)
  case Nil
  then show ?case by simp
next
  case (Cons op ops)
  show ?case
  proof (cases op)
    case None
    with Cons.prems obtain s1 b out1 where "get s = Some (s1, b)" "out = b # out1"
      "fifo_run put get s1 ops = Some (t, out1)" by (auto split: option.splits)
    with Cons.IH [of s1 out1] get_law [of s s1 b] Cons.prems(1) None show ?thesis by auto
  next
    case (Some a)
    with Cons.prems obtain s1 where "put s a = Some s1" "fifo_run put get s1 ops = Some (t, out)"
      by (auto split: option.splits)
    with Cons.IH [of s1 out] put_law [of s a s1] Cons.prems(1) Some show ?thesis by auto
  qed
qed

end

text \<open>The transmitter provides the interface: flags and octets go in, octets of the line come out.\<close>

datatype tx_item = Flag | Octet u8

definition hdlc_put :: "fasthdlc_state \<Rightarrow> tx_item \<Rightarrow> fasthdlc_state option" where
  "hdlc_put h a =
     (let (h', r) = (case a of Flag \<Rightarrow> fasthdlc_tx_frame h | Octet c \<Rightarrow> fasthdlc_tx_load h c)
      in if r = -1 then None else Some h')"

definition hdlc_get :: "fasthdlc_state \<Rightarrow> (fasthdlc_state \<times> u8) option" where
  "hdlc_get h = (let (h', r) = fasthdlc_tx_run h in if r = -1 then None else Some (h', word_of_int r))"

definition item_bits :: "nat \<Rightarrow> tx_item \<Rightarrow> bool list" where
  "item_bits n a = (case a of Flag \<Rightarrow> flag_bits | Octet c \<Rightarrow> stuff n (lsb_bits 8 c))"

definition item_ones :: "nat \<Rightarrow> tx_item \<Rightarrow> nat" where
  "item_ones n a = (case a of Flag \<Rightarrow> 0 | Octet c \<Rightarrow> ones_after n (lsb_bits 8 c))"

interpretation tx: bit_fifo "\<lambda>h. hdlc_inv h \<and> fh_mode h = m" hq "\<lambda>h. nat (fh_ones h)"
  hdlc_put hdlc_get item_bits item_ones "octet_bits m" for m
proof (unfold_locales, goal_cases)
  case (1 h a h')
  show ?case
  proof (cases a)
    case Flag
    obtain h1 r where run: "fasthdlc_tx_frame h = (h1, r)" by fastforce
    with 1 Flag have "h1 = h'" "r \<noteq> -1" by (auto simp: hdlc_put_def split: if_splits)
    moreover from this run have "fh_bits h \<le> 24"
      by (auto simp: fasthdlc_tx_frame_def split: if_splits)
    ultimately show ?thesis using tx_frame_refines [OF _ _ run] 1 Flag
      by (simp add: item_bits_def item_ones_def)
  next
    case (Octet c)
    obtain h1 r where run: "fasthdlc_tx_load h c = (h1, r)" by fastforce
    with 1 Octet have "h1 = h'" "r \<noteq> -1" by (auto simp: hdlc_put_def split: if_splits)
    moreover from this run have "fh_bits h \<le> 22"
      by (auto simp: fasthdlc_tx_load_def split: if_splits)
    ultimately show ?thesis using tx_load_refines [OF _ _ run] 1 Octet
      by (simp add: item_bits_def item_ones_def)
  qed
next
  case (2 h h' b)
  obtain r where run: "fasthdlc_tx_run h = (h', r)" "r \<noteq> -1" "b = word_of_int r"
    using 2 by (auto simp: hdlc_get_def split: prod.splits if_splits)
  then have "int (mode_width (fh_mode h)) \<le> fh_bits h"
    using 2 by (auto simp: fasthdlc_tx_run_def hdlc_inv_def split: if_splits)
  with tx_run_refines [OF _ _ run(1)] 2 run(3) show ?case by simp
qed

section \<open>From transmitter to receiver\<close>

text \<open>The receiving loop of the driver: one octet in, one call of \<open>fasthdlc_rx_run\<close>.\<close>

fun hdlc_receive :: "fasthdlc_state \<Rightarrow> u8 list \<Rightarrow> (fasthdlc_state \<times> int list) option" where
  "hdlc_receive h [] = Some (h, [])"
| "hdlc_receive h (b # bs) =
     (case fasthdlc_rx_load h b of (h1, ok) \<Rightarrow>
        if ok = -1 then None
        else (case fasthdlc_rx_run h1 of (h2, r) \<Rightarrow>
          map_option (\<lambda>(h3, rs). (h3, (if r = RETURN_EMPTY_FLAG then [] else [r]) @ rs))
            (hdlc_receive h2 bs)))"

definition rx_ready :: "fasthdlc_state \<Rightarrow> bool" where
  "rx_ready h \<longleftrightarrow> hdlc_inv h \<and> (fh_state h = FRAME_SEARCH \<longrightarrow> fh_bits h \<le> 15)
     \<and> (fh_state h = PROCESS_FRAME \<longrightarrow> fh_bits h \<le> 9)"

lemma rx_ready_init: "rx_ready (fasthdlc_init h m)"
  using hdlc_inv_init [of h m] by (simp add: rx_ready_def fasthdlc_init_def)

lemma rx_octet:
  assumes ready: "rx_ready h"
  obtains h1 h2 r where "fasthdlc_rx_load h b = (h1, 0)" "fasthdlc_rx_run h1 = (h2, r)"
    "rx_ready h2" "fh_mode h2 = fh_mode h"
    "r \<noteq> RETURN_DISCARD_FLAG \<Longrightarrow> fh_state h2 = FRAME_SEARCH \<Longrightarrow> fh_bits h2 < 8"
    "\<And>fut. rx_stream (fh_state h) (nat (fh_ones h)) (hq h @ octet_bits (fh_mode h) b @ fut) =
       (if r = RETURN_EMPTY_FLAG then [] else [r]) @ rx_stream (fh_state h2) (nat (fh_ones h2)) (hq h2 @ fut)"
proof -
  have inv: "hdlc_inv h" and room: "fh_bits h \<le> 24"
    using ready by (auto simp: rx_ready_def hdlc_inv_def)
  obtain h1 ok where load: "fasthdlc_rx_load h b = (h1, ok)" by fastforce
  obtain h2 r where run: "fasthdlc_rx_run h1 = (h2, r)" by fastforce
  note l = rx_load_refines [OF inv room load]
  have w: "mode_width (fh_mode h) \<le> 8" by (simp add: mode_width_def split: fasthdlc_mode.splits)
  have "length (hq h1) = length (hq h) + mode_width (fh_mode h)" using l(6) by (simp add: octet_bits_def)
  moreover have "0 \<le> fh_bits h" "0 \<le> fh_bits h1" using inv l(2) by (auto simp: hdlc_inv_def)
  ultimately have b1: "fh_bits h1 \<le> fh_bits h + 8"
    using w by (simp add: length_hq)
  note u = rx_loop_refines [OF l(2) run [unfolded fasthdlc_rx_run_def]]
  show thesis
  proof (rule that [OF _ run])
    show "fasthdlc_rx_load h b = (h1, 0)" using load l(1) by simp
    show "rx_ready h2"
      using u b1 ready l(5) inv
      by (cases "fh_state h = FRAME_SEARCH") (auto simp: rx_ready_def hdlc_inv_def)
    show "fh_mode h2 = fh_mode h" using u l(3) by simp
    show "r \<noteq> RETURN_DISCARD_FLAG \<Longrightarrow> fh_state h2 = FRAME_SEARCH \<Longrightarrow> fh_bits h2 < 8"
      using u by auto
    fix fut
    show "rx_stream (fh_state h) (nat (fh_ones h)) (hq h @ octet_bits (fh_mode h) b @ fut) =
       (if r = RETURN_EMPTY_FLAG then [] else [r]) @ rx_stream (fh_state h2) (nat (fh_ones h2)) (hq h2 @ fut)"
      using u l(4-6) by simp
  qed
qed

lemma hdlc_receive_decodes:
  assumes "rx_ready h"
  shows "\<exists>h' rs. hdlc_receive h bs = Some (h', rs) \<and> rx_ready h' \<and> fh_mode h' = fh_mode h \<and>
    (RETURN_DISCARD_FLAG \<notin> set rs \<longrightarrow> (fh_state h = FRAME_SEARCH \<longrightarrow> fh_bits h < 8) \<longrightarrow>
       fh_state h' = FRAME_SEARCH \<longrightarrow> fh_bits h' < 8) \<and>
    (\<forall>fut. rx_stream (fh_state h) (nat (fh_ones h)) (hq h @ concat (map (octet_bits (fh_mode h)) bs) @ fut)
       = rs @ rx_stream (fh_state h') (nat (fh_ones h')) (hq h' @ fut))"
  using assms
proof (induction bs arbitrary: h)
  case Nil
  then show ?case by simp
next
  case (Cons b bs)
  obtain h1 h2 r where s: "fasthdlc_rx_load h b = (h1, 0)" "fasthdlc_rx_run h1 = (h2, r)"
    "rx_ready h2" "fh_mode h2 = fh_mode h"
    "r \<noteq> RETURN_DISCARD_FLAG \<Longrightarrow> fh_state h2 = FRAME_SEARCH \<Longrightarrow> fh_bits h2 < 8"
    "\<And>fut. rx_stream (fh_state h) (nat (fh_ones h)) (hq h @ octet_bits (fh_mode h) b @ fut) =
       (if r = RETURN_EMPTY_FLAG then [] else [r]) @ rx_stream (fh_state h2) (nat (fh_ones h2)) (hq h2 @ fut)"
    by (rule rx_octet [OF Cons.prems, of b]) blast
  obtain h' rs where i: "hdlc_receive h2 bs = Some (h', rs)" "rx_ready h'" "fh_mode h' = fh_mode h"
    "RETURN_DISCARD_FLAG \<notin> set rs \<longrightarrow> (fh_state h2 = FRAME_SEARCH \<longrightarrow> fh_bits h2 < 8) \<longrightarrow>
       fh_state h' = FRAME_SEARCH \<longrightarrow> fh_bits h' < 8"
    "\<And>fut. rx_stream (fh_state h2) (nat (fh_ones h2)) (hq h2 @ concat (map (octet_bits (fh_mode h)) bs) @ fut)
       = rs @ rx_stream (fh_state h') (nat (fh_ones h')) (hq h' @ fut)"
    using Cons.IH [OF s(3)] s(4) by auto
  show ?case
    using s i by (auto split: if_splits)
qed


text \<open>C5. The receiver's queue never overflows: fed octet by octet, with one call of
  \<open>fasthdlc_rx_run\<close> after each as the driver does, no \<open>fasthdlc_rx_load\<close> is ever refused,
  whatever the line carries, and at most 15 bits wait between octets.\<close>

theorem hdlc_receiver_never_overflows:
  "\<exists>h rs. hdlc_receive (fasthdlc_init g m) bs = Some (h, rs) \<and> 0 \<le> fh_bits h \<and> fh_bits h \<le> 15"
proof -
  obtain h rs where "hdlc_receive (fasthdlc_init g m) bs = Some (h, rs)" "rx_ready h"
    using hdlc_receive_decodes [OF rx_ready_init [of g m], of bs] by blast
  then show ?thesis by (auto simp: rx_ready_def hdlc_inv_def)
qed

lemma encode_all_items:
  "encode_all item_bits item_ones n ops =
   encode_all item_bits item_ones n (map Some (concat (map (\<lambda>x. case x of None \<Rightarrow> [] | Some a \<Rightarrow> [a]) ops)))"
  by (induction item_bits item_ones n ops rule: encode_all.induct) auto

lemma encode_octets:
  "encode_all item_bits item_ones n (map Some (map Octet ys @ rest)) =
   stuff n (frame_bits ys) @ encode_all item_bits item_ones (ones_after n (frame_bits ys)) (map Some rest)"
  by (induction ys arbitrary: n)
    (simp_all add: frame_bits_def item_bits_def item_ones_def stuff_append ones_after_append)

definition items :: "tx_item option list \<Rightarrow> tx_item list" where
  "items ops = concat (map (\<lambda>x. case x of None \<Rightarrow> [] | Some a \<Rightarrow> [a]) ops)"

text \<open>C4. What the transmitter sends the receiver recovers: a flag, any octets and two
  flags, pushed in any legal interleaving with octets taken off, in each of the three
  modes, make the receiver return exactly those octets and one complete frame, with no
  abort, no loss and no reordering. Six bits may still wait in the transmitter.\<close>

theorem hdlc_round_trip:
  assumes "fifo_run hdlc_put hdlc_get (fasthdlc_init g m) ops = Some (t, out)"
    and "items ops = Flag # map Octet ys @ [Flag, Flag]" and "fh_bits t \<le> 6"
  shows "\<exists>h. hdlc_receive (fasthdlc_init g' m) out = Some (h, map uint ys @ [RETURN_COMPLETE_FLAG])"
proof -
  let ?tx = "fasthdlc_init g m" and ?rx = "fasthdlc_init g' m"
  have ini: "fh_mode ?tx = m" "fh_ones ?tx = 0" "fh_mode ?rx = m" "fh_state ?rx = 0" "fh_ones ?rx = 0"
    "fh_bits ?rx = 0" by (simp_all add: fasthdlc_init_def)
  have order: "hdlc_inv t \<and> encode_all item_bits item_ones 0 ops = concat (map (octet_bits m) out) @ hq t"
    using tx.run_in_order [of ?tx m ops t out] assms(1) hdlc_inv_init [of g m] ini by simp
  have "encode_all item_bits item_ones 0 ops = flag_bits @ stuff 0 (frame_bits ys) @ flag_bits @ flag_bits"
    using encode_all_items [of 0 ops] assms(2) [unfolded items_def]
      encode_octets [of 0 ys "[Flag, Flag]"]
    by (simp add: item_bits_def item_ones_def)
  with order have line: "concat (map (octet_bits m) out) @ hq t =
      (flag_bits @ stuff 0 (frame_bits ys) @ flag_bits) @ flag_bits" and "length (hq t) \<le> 6"
    using assms(3) by (simp_all add: length_hq hdlc_inv_def)
  then obtain pad where pad: "concat (map (octet_bits m) out) =
      flag_bits @ stuff 0 (frame_bits ys) @ flag_bits @ pad" "2 \<le> length pad" "length pad \<le> 8"
    by (auto simp: append_eq_append_conv2 flag_bits_def append_eq_Cons_conv Cons_eq_append_conv)
  obtain h rs where rx: "hdlc_receive ?rx out = Some (h, rs)" "rx_ready h"
    "RETURN_DISCARD_FLAG \<notin> set rs \<longrightarrow> fh_state h = FRAME_SEARCH \<longrightarrow> fh_bits h < 8"
    and dec: "rx_stream FRAME_SEARCH 0 (concat (map (octet_bits m) out)) =
      rs @ rx_stream (fh_state h) (nat (fh_ones h)) (hq h)"
    using hdlc_receive_decodes [OF rx_ready_init [of g' m], of out] ini
    by (auto dest: spec [of _ "[]"])
  have all: "rs @ rx_stream (fh_state h) (nat (fh_ones h)) (hq h) = map uint ys @ [RETURN_COMPLETE_FLAG]"
    using dec pad rx_stream_frame [of 0 pad ys]
    by (simp add: rx_stream_flag_search rx_stream_short)
  have "RETURN_DISCARD_FLAG \<notin> set (map uint ys @ [RETURN_COMPLETE_FLAG])"
  proof -
    have "uint x \<noteq> RETURN_DISCARD_FLAG" for x :: u8 using uint_lt2p [of x] by auto
    then show ?thesis by (auto dest: sym)
  qed
  then have "RETURN_DISCARD_FLAG \<notin> set rs" using all by (metis Un_iff set_append)
  then have "rx_stream (fh_state h) (nat (fh_ones h)) (hq h) = []"
    using rx(2,3) by (auto simp: rx_ready_def hdlc_inv_def length_hq rx_stream_short)
  with all rx(1) show ?thesis by simp
qed


text \<open>The round trip at work: octet \<open>0xff\<close>, whose eight ones need a stuffed zero.\<close>

theorem hdlc_round_trip_witness:
  "\<exists>t out h. fifo_run hdlc_put hdlc_get (fasthdlc_init (fasthdlc_state.make 0 0 0 0 FASTHDLC_MODE_64 0) FASTHDLC_MODE_64)
      [Some Flag, None, Some (Octet 0xff), None, Some Flag, None, Some Flag, None] = Some (t, out)
    \<and> hdlc_receive (fasthdlc_init (fasthdlc_state.make 0 0 0 0 FASTHDLC_MODE_64 0) FASTHDLC_MODE_64) out
      = Some (h, [255, RETURN_COMPLETE_FLAG])"
proof -
  let ?g = "fasthdlc_state.make 0 0 0 0 FASTHDLC_MODE_64 0"
  let ?ops = "[Some Flag, None, Some (Octet 0xff), None, Some Flag, None, Some Flag, None]"
  have enc: "hdlc_encode_precalc 0 0xff = 0xFB800309"
    by code_simp
  obtain t out where run: "fifo_run hdlc_put hdlc_get (fasthdlc_init ?g FASTHDLC_MODE_64) ?ops = Some (t, out)"
    and bits: "fh_bits t \<le> 6"
    by (simp add: hdlc_put_def hdlc_get_def fasthdlc_init_def fasthdlc_tx_frame_def
        fasthdlc_tx_frame_nocheck_def fasthdlc_tx_load_def fasthdlc_tx_load_nocheck_def
        fasthdlc_tx_run_def fasthdlc_tx_run_nocheck_def fasthdlc_state.make_def enc)
  have "items ?ops = Flag # map Octet [0xff] @ [Flag, Flag]"
    by (simp add: items_def)
  from hdlc_round_trip [OF run this bits, of ?g] run show ?thesis by auto
qed
end
