(* ===== verification/Link.thy ===== *)
theory Link
  imports Transmit HdlcStream
begin

text \<open>
  HDLC channels from end to end: what \<open>__dahdi_getbuf_chunk\<close> puts on the line is the encoding
  of the frames written, with flags between them and while there is nothing to send, and what
  \<open>__putbuf_chunk\<close> makes of it at the other end are the same frames. The theory joins the bit
  level of \<open>HdlcStream\<close> with the buffer rings of \<open>Receive\<close> and \<open>Transmit\<close>.
\<close>

section \<open>Items and their bits\<close>

definition enc :: "nat \<Rightarrow> tx_item list \<Rightarrow> bool list" where
  "enc n its = encode_all item_bits item_ones n (map Some its)"

lemma enc_simps [simp]: "enc n [] = []" "enc n (a # its) = item_bits n a @ enc (item_ones n a) its"
  by (simp_all add: enc_def)

definition enc_ones :: "nat \<Rightarrow> tx_item list \<Rightarrow> nat" where
  "enc_ones n its = foldl item_ones n its"

lemma enc_ones_simps [simp]:
  "enc_ones n [] = n" "enc_ones n (a # its) = enc_ones (item_ones n a) its"
  "enc_ones n (xs @ ys) = enc_ones (enc_ones n xs) ys"
  by (simp_all add: enc_ones_def)

lemma enc_append [simp]: "enc n (xs @ ys) = enc n xs @ enc (enc_ones n xs) ys"
  by (induction xs arbitrary: n) simp_all

lemma item_ones_le: "n \<le> 4 \<Longrightarrow> item_ones n a \<le> 4"
  by (auto simp: item_ones_def ones_after_le split: tx_item.splits)

lemma enc_ones_le: "n \<le> 4 \<Longrightarrow> enc_ones n its \<le> 4"
  by (induction its arbitrary: n) (simp_all add: item_ones_le)

fun item_room :: "tx_item \<Rightarrow> nat" where
  "item_room Flag = 8"
| "item_room (Octet y) = 10"

lemma item_bits_length: "n \<le> 4 \<Longrightarrow> length (item_bits n a) \<le> item_room a"
  by (cases a) (simp_all add: item_bits_def flag_bits_def length_stuff_octet)

lemma enc_length: "n \<le> 4 \<Longrightarrow> length (enc n its) \<le> sum_list (map item_room its)"
proof (induction its arbitrary: n)
  case (Cons a its)
  from Cons.IH [OF item_ones_le [OF Cons.prems], of a] item_bits_length [OF Cons.prems, of a] show ?case by simp
qed simp

section \<open>The transmitter\<close>

text \<open>Between two octets at most 17 bits wait.\<close>

definition tx_eng :: "fasthdlc_state \<Rightarrow> bool" where
  "tx_eng h \<longleftrightarrow> hdlc_inv h \<and> fh_bits h \<le> 17"

abbreviation line :: "fasthdlc_mode \<Rightarrow> u8 list \<Rightarrow> bool list" where
  "line m out \<equiv> concat (map (octet_bits m) out)"

lemma length_line: "length (line m out) = mode_width m * length out"
  by (induction out) (simp_all add: octet_bits_def)

text \<open>What a run of the encoder does, as one predicate: from \<open>h\<close> to \<open>h'\<close>, the items \<open>its\<close> went in and the octets \<open>out\<close> came out.\<close>

definition encodes :: "fasthdlc_state \<Rightarrow> tx_item list \<Rightarrow> u8 list \<Rightarrow> fasthdlc_state \<Rightarrow> bool" where
  "encodes h its out h' \<longleftrightarrow> hdlc_inv h' \<and> fh_mode h' = fh_mode h \<and>
     hq h @ enc (nat (fh_ones h)) its = line (fh_mode h) out @ hq h' \<and>
     nat (fh_ones h') = enc_ones (nat (fh_ones h)) its"

lemma encodes_refl: "hdlc_inv h \<Longrightarrow> encodes h [] [] h"
  by (simp add: encodes_def)

lemma encodes_trans:
  "encodes h its out h1 \<Longrightarrow> encodes h1 its' out' h2 \<Longrightarrow> encodes h (its @ its') (out @ out') h2"
  by (simp add: encodes_def) (metis append_assoc)

lemma encodes_octet:
  assumes "hdlc_inv h" and "fh_bits h < int (mode_width (fh_mode h))"
  shows "encodes h [Octet y] [] (fst (fasthdlc_tx_load_nocheck h y))"
    and "int (mode_width (fh_mode h)) \<le> fh_bits (fst (fasthdlc_tx_load_nocheck h y))"
    and "fh_bits (fst (fasthdlc_tx_load_nocheck h y)) < int (mode_width (fh_mode h)) + 10"
proof -
  have w: "mode_width (fh_mode h) \<le> 8" by (cases "fh_mode h") (simp_all add: mode_width_def)
  obtain h' r where l: "fasthdlc_tx_load_nocheck h y = (h', r)" by fastforce
  have load: "fasthdlc_tx_load h y = (h', r)" using assms(2) w l by (simp add: fasthdlc_tx_load_def)
  have room: "fh_bits h \<le> 22" using assms(2) w by simp
  note t = tx_load_refines [OF assms(1) room load]
  show "encodes h [Octet y] [] (fst (fasthdlc_tx_load_nocheck h y))"
    using t by (simp add: encodes_def l item_bits_def item_ones_def)
  have n: "nat (fh_ones h) \<le> 4" using assms(1) unfolding hdlc_inv_def by linarith
  have len: "length (hq h') = length (hq h) + length (stuff (nat (fh_ones h)) (lsb_bits 8 y))" using t(4) by simp
  have b: "int (length (hq h')) = fh_bits h'" "int (length (hq h)) = fh_bits h"
    using t(2) assms(1) by (simp_all add: length_hq hdlc_inv_def)
  show "int (mode_width (fh_mode h)) \<le> fh_bits (fst (fasthdlc_tx_load_nocheck h y))"
    using len b w length_stuff_ge [of "lsb_bits 8 y" "nat (fh_ones h)"] by (simp add: l)
  show "fh_bits (fst (fasthdlc_tx_load_nocheck h y)) < int (mode_width (fh_mode h)) + 10"
    using len b assms(2) length_stuff_octet [OF n, of "lsb_bits 8 y"] by (simp add: l)
qed

lemma encodes_flag:
  assumes "hdlc_inv h" and "fh_bits h \<le> 24"
  shows "encodes h [Flag] [] (fst (fasthdlc_tx_frame_nocheck h))"
    and "fh_bits (fst (fasthdlc_tx_frame_nocheck h)) = fh_bits h + 8"
proof -
  obtain h' r where l: "fasthdlc_tx_frame_nocheck h = (h', r)" by fastforce
  have frame: "fasthdlc_tx_frame h = (h', r)" using assms(2) l by (simp add: fasthdlc_tx_frame_def)
  note t = tx_frame_refines [OF assms frame]
  show "encodes h [Flag] [] (fst (fasthdlc_tx_frame_nocheck h))"
    using t by (simp add: encodes_def l item_bits_def item_ones_def)
  have "length (hq h') = length (hq h) + 8" using t(4) by (simp add: flag_bits_def)
  then show "fh_bits (fst (fasthdlc_tx_frame_nocheck h)) = fh_bits h + 8"
    using t(2) assms(1) unfolding l length_hq hdlc_inv_def by simp linarith
qed

lemma encodes_run:
  assumes "hdlc_inv h" and "int (mode_width (fh_mode h)) \<le> fh_bits h" and "fasthdlc_tx_run_nocheck h = (h', r)"
  shows "encodes h [] [word_of_int r] h'" and "fh_bits h' = fh_bits h - int (mode_width (fh_mode h))"
proof -
  have run: "fasthdlc_tx_run h = (h', r)"
    using assms by (simp add: fasthdlc_tx_run_def hdlc_inv_def)
  note t = tx_run_refines [OF assms(1,2) run]
  show "encodes h [] [word_of_int r] h'" using t by (simp add: encodes_def)
  have "length (hq h) = mode_width (fh_mode h) + length (hq h')" using t(4) by (simp add: octet_bits_def)
  then show "fh_bits h' = fh_bits h - int (mode_width (fh_mode h))"
    using t(1) assms(1) unfolding length_hq hdlc_inv_def by linarith
qed

lemma tx_need_data_iff: "hdlc_inv h \<Longrightarrow> fasthdlc_tx_need_data h = (fh_bits h < int (mode_width (fh_mode h)))"
  by (cases "fh_mode h") (simp_all add: fasthdlc_tx_need_data_def mode_width_def)

lemma mode_width_range: "2 \<le> mode_width m \<and> mode_width m \<le> 8"
  by (cases m) (simp_all add: mode_width_def)

text \<open>Octets of a frame leave: each step takes at most one from the buffer.\<close>

lemma tx_hdlc_encodes:
  "tx_eng h \<Longrightarrow> 0 \<le> i \<Longrightarrow> nat i + n \<le> length buf \<Longrightarrow> tx_hdlc n buf i h = (out, i', h') \<Longrightarrow>
   \<exists>k \<le> n. i' = i + int k \<and> length out = n \<and> encodes h (map Octet (take k (drop (nat i) buf))) out h' \<and>
     tx_eng h' \<and> (k = n \<longrightarrow> 0 < n \<longrightarrow> fh_bits h' \<le> 9)"
proof (induction n arbitrary: i h out)
  case 0
  then show ?case by (auto simp: tx_eng_def encodes_refl)
next
  case (Suc n)
  let ?w = "int (mode_width (fh_mode h))"
  define need where "need = fasthdlc_tx_need_data h"
  define h1 where "h1 = (if need then fst (fasthdlc_tx_load_nocheck h (buf ! nat i)) else h)"
  define its where "its = (if need then [Octet (buf ! nat i)] else [])"
  define j where "j = (if need then 1 else 0 :: nat)"
  obtain h2 r where run: "fasthdlc_tx_run_nocheck h1 = (h2, r)" by fastforce
  obtain out2 i2 h3 where rec: "tx_hdlc n buf (i + int j) h2 = (out2, i2, h3)" by (metis prod_cases3)
  have res: "out = word_of_int r # out2" "i' = i2" "h' = h3"
    using Suc.prems(4) run rec by (auto simp: need_def h1_def j_def Let_def split: if_splits)
  have inv: "hdlc_inv h" "fh_bits h \<le> 17" using Suc.prems(1) by (simp_all add: tx_eng_def)
  have nd: "need \<longleftrightarrow> fh_bits h < ?w" using tx_need_data_iff [OF inv(1)] by (simp add: need_def)
  have e1: "encodes h its [] h1 \<and> int (mode_width (fh_mode h1)) \<le> fh_bits h1 \<and>
      fh_bits h1 - ?w \<le> (if need then 9 else 15)"
  proof (cases need)
    case True
    note o = encodes_octet [OF inv(1) True [unfolded nd], of "buf ! nat i"]
    have "fh_mode h1 = fh_mode h" using o(1) True by (simp add: h1_def encodes_def)
    with o True show ?thesis by (simp add: h1_def its_def)
  next
    case False
    with inv nd mode_width_range [of "fh_mode h"] show ?thesis by (simp add: h1_def its_def encodes_refl)
  qed
  then have m1: "fh_mode h1 = fh_mode h" "hdlc_inv h1" by (simp_all add: encodes_def)
  note e2 = encodes_run [OF m1(2) _ run]
  have e12: "encodes h its [word_of_int r] h2" "fh_bits h2 \<le> (if need then 9 else 15)"
    using encodes_trans [of h its "[]" h1 "[]" "[word_of_int r]" h2] e1 e2 m1(1) by simp_all
  then have eng2: "tx_eng h2" by (auto simp: tx_eng_def encodes_def split: if_splits)
  have "0 \<le> i + int j" "nat (i + int j) + n \<le> length buf" using Suc.prems(2,3) by (auto simp: j_def)
  note rec = rec [folded res(2,3)]
  from Suc.IH [OF eng2 \<open>0 \<le> i + int j\<close> \<open>nat (i + int j) + n \<le> length buf\<close> rec] obtain k where k: "k \<le> n" "i' = i + int j + int k" "length out2 = n"
      "encodes h2 (map Octet (take k (drop (nat (i + int j)) buf))) out2 h'" "tx_eng h'"
      "k = n \<longrightarrow> 0 < n \<longrightarrow> fh_bits h' \<le> 9" by blast
  have il: "nat i < length buf" using Suc.prems(2,3) by linarith
  have "its @ map Octet (take k (drop (nat (i + int j)) buf)) = map Octet (take (j + k) (drop (nat i) buf))"
    using il Suc.prems(2) by (simp add: its_def j_def nat_add_distrib flip: Cons_nth_drop_Suc)
  then have enc: "encodes h (map Octet (take (j + k) (drop (nat i) buf))) out h'"
    using encodes_trans [OF e12(1) k(4)] by (simp add: res(1))
  have "j + k = Suc n \<longrightarrow> fh_bits h' \<le> 9"
    using k(1,6) e12(2) rec by (auto simp: j_def)
  then show ?case
    using k enc res(1) by (intro exI [of _ "j + k"]) (auto simp: j_def)
qed

lemma tx_flags_encodes:
  "tx_eng h \<Longrightarrow> tx_flags n h = (out, h') \<Longrightarrow>
   \<exists>j. length out = n \<and> encodes h (replicate j Flag) out h' \<and> tx_eng h'"
proof (induction n arbitrary: h out)
  case 0
  then show ?case by (auto simp: tx_eng_def encodes_refl intro!: exI [of _ 0])
next
  case (Suc n)
  let ?w = "int (mode_width (fh_mode h))"
  define need where "need = fasthdlc_tx_need_data h"
  define h1 where "h1 = (if need then fst (fasthdlc_tx_frame_nocheck h) else h)"
  define j where "j = (if need then 1 else 0 :: nat)"
  obtain h2 r where run: "fasthdlc_tx_run_nocheck h1 = (h2, r)" by fastforce
  obtain out2 h3 where rec: "tx_flags n h2 = (out2, h3)" by fastforce
  have res: "out = word_of_int r # out2" "h' = h3"
    using Suc.prems(2) run rec by (auto simp: need_def h1_def Let_def split: if_splits)
  have inv: "hdlc_inv h" "fh_bits h \<le> 17" "0 \<le> fh_bits h"
    using Suc.prems(1) by (simp_all add: tx_eng_def hdlc_inv_def)
  have nd: "need \<longleftrightarrow> fh_bits h < ?w" using tx_need_data_iff [OF inv(1)] by (simp add: need_def)
  note w = mode_width_range [of "fh_mode h"]
  have e1: "encodes h (replicate j Flag) [] h1 \<and> int (mode_width (fh_mode h)) \<le> fh_bits h1 \<and> fh_bits h1 - ?w \<le> 15"
  proof (cases need)
    case True
    then have "fh_bits h \<le> 24" using inv by simp
    with encodes_flag [OF inv(1) this] True nd w inv show ?thesis by (simp add: h1_def j_def)
  next
    case False
    with inv nd w show ?thesis by (simp add: h1_def j_def encodes_refl)
  qed
  then have m1: "fh_mode h1 = fh_mode h" "hdlc_inv h1" by (simp_all add: encodes_def)
  note e2 = encodes_run [OF m1(2) _ run]
  have e12: "encodes h (replicate j Flag) [word_of_int r] h2" "fh_bits h2 \<le> 15"
    using encodes_trans [of h "replicate j Flag" "[]" h1 "[]" "[word_of_int r]" h2] e1 e2 m1(1) by simp_all
  then have "tx_eng h2" by (auto simp: tx_eng_def encodes_def)
  from Suc.IH [OF this rec [folded res(2)]] obtain k
    where k: "length out2 = n" "encodes h2 (replicate k Flag) out2 h'" "tx_eng h'" by blast
  from encodes_trans [OF e12(1) k(2)] k(1,3) show ?case
    by (intro exI [of _ "j + k"]) (simp add: res(1) replicate_add)
qed

text \<open>The items still to be sent: each frame, or the rest of it, and its closing flag.\<close>

definition frame_items :: "u8 list list \<Rightarrow> tx_item list" where
  "frame_items fs = concat (map (\<lambda>f. map Octet f @ [Flag]) fs)"

lemma frame_items_simps [simp]:
  "frame_items [] = []" "frame_items (f # fs) = map Octet f @ Flag # frame_items fs"
  by (simp_all add: frame_items_def)

definition tx_hdlc_inv :: "'a chan_buf_scheme \<Rightarrow> bool" where
  "tx_hdlc_inv c \<longleftrightarrow> tx_ok c \<and> tx_eng (txhdlc c) \<and> FLAG_HDLC \<in> chan_flags c \<and>
     {FLAG_MTP2, FLAG_LOOPED} \<inter> chan_flags c = {} \<and> tone_of c = None \<and> [] \<notin> set (tx_frames c) \<and>
     (tx_frames c \<noteq> [] \<longrightarrow> \<not> txdisable c)"

lemma tx_buffer_hdlc:
  assumes inv: "tx_hdlc_inv c" and fr: "tx_frames c = f # fs" and n: "0 < n"
  obtains d out its where "tx_buffer (int n) c = Some (out, d)" and "tx_hdlc_inv d" and "tx_cfg c d"
    and "0 < length out" and "length out \<le> n" and "encodes (txhdlc c) its out (txhdlc d)"
    and "frame_items (tx_frames c) = its @ frame_items (tx_frames d)"
proof -
  have ok: "tx_ok c" and eng: "tx_eng (txhdlc c)" and fl: "FLAG_HDLC \<in> chan_flags c" "FLAG_MTP2 \<notin> chan_flags c"
    and f: "f \<noteq> []" "[] \<notin> set fs" and dis: "\<not> txdisable c"
    using inv fr by (auto simp: tx_hdlc_inv_def)
  have j: "0 \<le> outwritebuf c" using tx_frames_Nil [OF ok] fr by simp
  obtain bufs where b: "writebuf c = Some bufs" using ok by (auto simp: tx_ok_def)
  let ?buf = "bufs ! nat (outwritebuf c)" and ?left = "min (length f) n"
  note u = tx_use_ok [OF ok j fr]
  have left: "min (tx_len c - tx_idx c) (int n) = int ?left" using u(5) [of 0] by simp
  note so = tx_ok_slot [OF ok tx_ok_out [OF ok j], unfolded tx_slot_ok_def]
  have "length ?buf = nat (blocksize c)" "tx_idx c + int (length f) \<le> blocksize c"
    using so u(5) [of 0] b by (simp_all add: tx_len_def tx_idx_def)
  then have room: "0 \<le> tx_idx c" "nat (tx_idx c) + ?left \<le> length ?buf"
    using u(6) [of 0] min.cobounded1 [of "length f" n] by linarith+
  obtain out i' h' where run: "tx_hdlc ?left ?buf (tx_idx c) (txhdlc c) = (out, i', h')" by (metis prod_cases3)
  obtain k where k: "k \<le> ?left" "i' = tx_idx c + int k" "length out = ?left"
      "encodes (txhdlc c) (map Octet (take k (drop (nat (tx_idx c)) ?buf))) out h'" "tx_eng h'"
      "k = ?left \<longrightarrow> 0 < ?left \<longrightarrow> fh_bits h' \<le> 9"
    using tx_hdlc_encodes [OF eng room run] by (elim exE conjE) (rule that; assumption)
  have kf: "k \<le> length f" using k(1) by simp
  note u = u [OF kf]
  have tk: "take k (drop (nat (tx_idx c)) ?buf) = take k f" using u(4) b by simp
  let ?c = "set_tx_idx (tx_idx c + int k) (c\<lparr>txhdlc := h'\<rparr>)"
  have c1: "?c = (set_tx_idx (tx_idx c + int k) c)\<lparr>txhdlc := h'\<rparr>" by (simp add: set_tx_idx_def)
  have idx: "tx_idx ?c = tx_idx c + int k" "tx_len ?c = tx_len c" "outwritebuf ?c = outwritebuf c"
    using tx_ok_lengths [OF ok tx_ok_out [OF ok j]] by (simp_all add: tx_idx_def tx_len_def set_tx_idx_def)
  have fin: "(tx_idx ?c \<ge> tx_len ?c) = (k = length f)" unfolding idx using u(5) kf by auto
  let ?a = "tx_advance ?c"
  let ?d = "if k = length f then ?a\<lparr>txhdlc := fst (fasthdlc_tx_frame_nocheck (txhdlc ?a))\<rparr> else ?c"
  have eq: "tx_buffer (int n) c = Some (out, ?d)"
    unfolding tx_buffer_def Let_def left nat_int using b fl run k(2) fin by (simp add: set_tx_idx_def)
  have ok1: "tx_ok ?c" "tx_frames ?c = drop k f # fs" "tx_cfg c ?c" "txhdlc ?c = h'"
    unfolding c1 using u(1-3) by (simp_all add: tx_cfg_def)
  have tone: "tone_of d = None" if "tx_cfg c d" for d
    using inv tx_silence_cfg [OF that] by (simp add: tx_hdlc_inv_def)
  have fl': "FLAG_HDLC \<in> chan_flags d \<and> {FLAG_MTP2, FLAG_LOOPED} \<inter> chan_flags d = {}" if "tx_cfg c d" for d
    using inv that by (simp add: tx_hdlc_inv_def tx_cfg_def)
  have out: "0 < length out" "length out \<le> n" using k(3) n f by auto
  show ?thesis
  proof (cases "k = length f")
    case True
    have c2: "0 \<le> outwritebuf ?c" "FLAG_MTP2 \<notin> chan_flags ?c" "\<not> txdisable ?c"
      using j fl dis by (simp_all add: set_tx_idx_def)
    note a = tx_advance_ok [OF ok1(1) c2(1) ok1(2) c2(2)]
    have bits: "fh_bits h' \<le> 9" using k(1,6) True f n by auto
    have "hdlc_inv h'" "fh_bits h' \<le> 24" using k(5) bits by (simp_all add: tx_eng_def)
    note e = encodes_flag [OF this]
    let ?h = "fst (fasthdlc_tx_frame_nocheck h')"
    have d: "?d = ?a\<lparr>txhdlc := ?h\<rparr>" using True a(4) ok1(4) by simp
    have cfg: "tx_cfg c ?d" unfolding d using tx_cfg_trans [OF ok1(3) a(3)] by (simp add: tx_cfg_def)
    have "tx_eng ?h" using e bits by (simp add: tx_eng_def encodes_def)
    then have "tx_hdlc_inv ?d"
      using tone [OF cfg] fl' [OF cfg] a(1,2,5) c2(3) f(2) unfolding tx_hdlc_inv_def d by simp
    moreover have "encodes (txhdlc c) (map Octet f @ [Flag]) out (txhdlc ?d)"
    proof -
      have "txhdlc ?d = ?h" unfolding d by simp
      with encodes_trans [OF k(4) [unfolded tk] e(1)] show ?thesis by (simp only: True take_all append_Nil2)
    qed
    moreover have "frame_items (tx_frames c) = (map Octet f @ [Flag]) @ frame_items (tx_frames ?d)"
      unfolding d using a(2) by (simp add: fr)
    ultimately show ?thesis using eq cfg out that by blast
  next
    case False
    then have d: "?d = ?c" by simp
    have "tx_hdlc_inv ?c"
      using tone [OF ok1(3)] fl' [OF ok1(3)] ok1 k(5) f(2) dis kf False
      by (auto simp: tx_hdlc_inv_def set_tx_idx_def)
    moreover have "frame_items (tx_frames c) = map Octet (take k f) @ frame_items (tx_frames ?c)"
      unfolding ok1(2) fr by (simp flip: append_assoc map_append)
    moreover have "encodes (txhdlc c) (map Octet (take k f)) out (txhdlc ?c)"
      using k(4) unfolding tk ok1(4) .
    ultimately show ?thesis using eq ok1(3) out that [of out ?c "map Octet (take k f)"] unfolding d by blast
  qed
qed

lemma tx_loop_hdlc:
  "tx_hdlc_inv c \<Longrightarrow> n + 1 < fuel \<Longrightarrow>
   \<exists>d out its j. tx_loop fuel e (int n) c = Some (out, False, d) \<and> length out = n \<and> tx_hdlc_inv d \<and> tx_cfg c d \<and>
     encodes (txhdlc c) (its @ replicate j Flag) out (txhdlc d) \<and>
     frame_items (tx_frames c) = its @ frame_items (tx_frames d) \<and> (0 < j \<longrightarrow> tx_frames d = [])"
proof (induction fuel arbitrary: n c)
  case 0
  then show ?case by simp
next
  case (Suc fuel)
  have eng: "tx_eng (txhdlc c)" and ok: "tx_ok c" using Suc.prems(1) by (simp_all add: tx_hdlc_inv_def)
  show ?case
  proof (cases "n = 0")
    case True
    with Suc.prems eng show ?thesis
      by (intro exI [of _ c] exI [of _ "[]"] exI [of _ 0]) (simp add: tx_eng_def encodes_refl)
  next
    case n: False
    show ?thesis
    proof (cases "tx_frames c")
      case Nil
      then have j: "outwritebuf c < 0" using tx_frames_Nil [OF ok] by simp
      obtain out h where fl: "tx_flags n (txhdlc c) = (out, h)" by fastforce
      obtain j where r: "length out = n" "encodes (txhdlc c) (replicate j Flag) out h" "tx_eng h"
        using tx_flags_encodes [OF eng fl] by blast
      have "tx_loop (Suc fuel) e (int n) c = Some (out, False, c\<lparr>txhdlc := h\<rparr>)"
        using Suc.prems(1) n j fl by (simp add: tx_hdlc_inv_def tx_idle_def)
      moreover have "tone_of (c\<lparr>txhdlc := h\<rparr>) = tone_of c" by (simp add: tone_of_def is_pseudo_chan_def)
      then have "tx_hdlc_inv (c\<lparr>txhdlc := h\<rparr>)" using Suc.prems(1) r(3) by (simp add: tx_hdlc_inv_def)
      moreover have "tx_cfg c (c\<lparr>txhdlc := h\<rparr>)" by (simp add: tx_cfg_def)
      ultimately show ?thesis using r Nil
        by (intro exI [of _ "c\<lparr>txhdlc := h\<rparr>"] exI [of _ out] exI [of _ "[]"] exI [of _ j]) simp
    next
      case (Cons f fs)
      obtain d out its where d: "tx_buffer (int n) c = Some (out, d)" "tx_hdlc_inv d" "tx_cfg c d" "0 < length out"
          "length out \<le> n" "encodes (txhdlc c) its out (txhdlc d)" "frame_items (tx_frames c) = its @ frame_items (tx_frames d)"
        using tx_buffer_hdlc [OF Suc.prems(1) Cons] n by blast
      have "n - length out + 1 < fuel" using Suc.prems(2) d(4,5) by linarith
      from Suc.IH [OF d(2) this] obtain d' out' its' j where d': "tx_loop fuel e (int (n - length out)) d = Some (out', False, d')"
          "length out' = n - length out" "tx_hdlc_inv d'" "tx_cfg d d'"
          "encodes (txhdlc d) (its' @ replicate j Flag) out' (txhdlc d')"
          "frame_items (tx_frames d) = its' @ frame_items (tx_frames d')" "0 < j \<longrightarrow> tx_frames d' = []" by blast
      have len: "int n - int (length out) = int (n - length out)" using d(5) by simp
      have j: "0 \<le> outwritebuf c" "\<not> txdisable c"
        using tx_frames_Nil [OF ok] Cons Suc.prems(1) by (auto simp: tx_hdlc_inv_def)
      have "tx_loop (Suc fuel) e (int n) c = map_option (\<lambda>(out', ur, c). (out @ out', ur, c))
          (tx_loop fuel e (int n - int (length out)) d)"
        unfolding tx_loop.simps(2) [of fuel e "int n" c] using d(1) j n by (simp del: tx_loop.simps)
      then have "tx_loop (Suc fuel) e (int n) c = Some (out @ out', False, d')"
        unfolding len d'(1) by simp
      moreover have "frame_items (tx_frames c) = (its @ its') @ frame_items (tx_frames d')"
        using d(7) d'(6) by simp
      moreover have "encodes (txhdlc c) ((its @ its') @ replicate j Flag) (out @ out') (txhdlc d')"
        using encodes_trans [OF d(6) d'(5)] by simp
      moreover have "length (out @ out') = n" using d(5) d'(2) by simp
      ultimately show ?thesis using d'(3,7) tx_cfg_trans [OF d(3) d'(4)] by blast
    qed
  qed
qed

lemma getbuf_chunk_hdlc:
  assumes "tx_hdlc_inv c" and "9 < fuel"
  obtains d out its j where "getbuf_chunk fuel e c = Some (out, d)" and "length out = 8" and "tx_hdlc_inv d" and "tx_same c d"
    and "encodes (txhdlc c) (its @ replicate j Flag) out (txhdlc d)"
    and "frame_items (tx_frames c) = its @ frame_items (tx_frames d)" and "0 < j \<longrightarrow> tx_frames d = []"
proof -
  have "8 + 1 < fuel" using assms(2) by simp
  from tx_loop_hdlc [OF assms(1) this, of e]
  obtain d out its j where d: "tx_loop fuel e (int 8) c = Some (out, False, d)" "length out = 8" "tx_hdlc_inv d" "tx_cfg c d"
     "encodes (txhdlc c) (its @ replicate j Flag) out (txhdlc d)"
     "frame_items (tx_frames c) = its @ frame_items (tx_frames d)" "0 < j \<longrightarrow> tx_frames d = []" by blast
  let ?d = "tx_underrun_flag False d"
  note f = tx_underrun_flag_sel [where b = False and c = d]
  have "tone_of d = None" using d(3) by (simp add: tx_hdlc_inv_def)
  note v = tx_same_views(2) [OF f(4) this]
  have "tx_hdlc_inv ?d" using d(3) v tx_same_flag [OF f(4)] f(1-3,6) by (auto simp: tx_hdlc_inv_def)
  moreover have "getbuf_chunk fuel e c = Some (out, ?d)" using d(1) by (simp add: getbuf_chunk_def)
  moreover have "tx_same c ?d" by (rule tx_same_trans [OF tx_cfg_same [OF d(4)] f(4)])
  ultimately show ?thesis using that [of out ?d its j] d(2,5-7) f(2,6) by simp
qed

text \<open>Chunk after chunk: the items waiting, then flags once nothing is left.\<close>

lemma send_chunks_hdlc:
  "tx_hdlc_inv c \<Longrightarrow> \<exists>d out its j. send_chunks k e c = Some (out, d) \<and> length out = 8 * k \<and> tx_hdlc_inv d \<and> tx_same c d \<and>
     encodes (txhdlc c) (its @ replicate j Flag) out (txhdlc d) \<and>
     frame_items (tx_frames c) = its @ frame_items (tx_frames d) \<and> (0 < j \<longrightarrow> tx_frames d = [])"
proof (induction k arbitrary: c)
  case 0
  then show ?case
    by (intro exI [of _ c] exI [of _ "[]"] exI [of _ 0]) (simp add: tx_hdlc_inv_def tx_eng_def encodes_refl)
next
  case (Suc k)
  have fuel: "9 < nat (numbufs c) + 10" by simp
  obtain d out its j where d:
      "getbuf_chunk (nat (numbufs c) + 10) e c = Some (out, d)" "length out = 8" "tx_hdlc_inv d" "tx_same c d"
      "encodes (txhdlc c) (its @ replicate j Flag) out (txhdlc d)"
      "frame_items (tx_frames c) = its @ frame_items (tx_frames d)" "0 < j \<longrightarrow> tx_frames d = []"
    by (rule getbuf_chunk_hdlc [OF Suc.prems fuel, of e]) (rule that; assumption)
  from Suc.IH [OF d(3)] obtain d' out' its' j' where d': "send_chunks k e d = Some (out', d')" "length out' = 8 * k"
      "tx_hdlc_inv d'" "tx_same d d'" "encodes (txhdlc d) (its' @ replicate j' Flag) out' (txhdlc d')"
      "frame_items (tx_frames d) = its' @ frame_items (tx_frames d')" "0 < j' \<longrightarrow> tx_frames d' = []" by blast
  have items: "(its @ replicate j Flag) @ its' @ replicate j' Flag = (its @ its') @ replicate (j + j') Flag"
    using d(7) d'(6) by (cases "j = 0") (simp_all add: replicate_add)
  have fin: "0 < j + j' \<longrightarrow> tx_frames d' = []"
    using d(7) d'(6,7) by (cases "tx_frames d'") auto
  have "send_chunks (Suc k) e c = Some (out @ out', d')" using d(1) d'(1) by simp
  moreover have "length (out @ out') = 8 * Suc k" using d(2) d'(2) by simp
  moreover have "encodes (txhdlc c) ((its @ its') @ replicate (j + j') Flag) (out @ out') (txhdlc d')"
    using encodes_trans [OF d(5) d'(5)] unfolding items .
  moreover have "frame_items (tx_frames c) = (its @ its') @ frame_items (tx_frames d')" using d(6) d'(6) by simp
  ultimately show ?case using d'(3) tx_same_trans [OF d(4) d'(4)] fin
    by (intro exI [of _ d'] exI [of _ "out @ out'"] exI [of _ "its @ its'"] exI [of _ "j + j'"] conjI)
qed

section \<open>The receiver\<close>

fun item_result :: "tx_item \<Rightarrow> int" where
  "item_result Flag = RETURN_COMPLETE_FLAG"
| "item_result (Octet y) = uint y"

lemma rx_stream_items:
  "n \<le> 4 \<Longrightarrow> 2 \<le> length bs \<Longrightarrow> rx_stream PROCESS_FRAME n (enc n its @ bs) =
   map item_result its @ rx_stream PROCESS_FRAME (enc_ones n its) bs"
proof (induction its arbitrary: n)
  case Nil
  then show ?case by simp
next
  case (Cons a its)
  have IH: "rx_stream PROCESS_FRAME (item_ones n a) (enc (item_ones n a) its @ bs) =
      map item_result its @ rx_stream PROCESS_FRAME (enc_ones (item_ones n a) its) bs"
    using Cons.IH [OF item_ones_le [OF Cons.prems(1)] Cons.prems(2), of a] .
  show ?case
  proof (cases a)
    case Flag
    have len: "2 \<le> length (enc 0 its @ bs)" using Cons.prems(2) by simp
    have "rx_stream PROCESS_FRAME n (enc n (a # its) @ bs) =
        RETURN_COMPLETE_FLAG # rx_stream PROCESS_FRAME 0 (enc 0 its @ bs)"
      using rx_stream_flag [OF Cons.prems(1) len] Flag by (simp add: item_bits_def item_ones_def)
    with IH Flag show ?thesis by (simp add: item_ones_def)
  next
    case (Octet y)
    have len: "10 \<le> length (stuff n (lsb_bits 8 y) @ enc (ones_after n (lsb_bits 8 y)) its @ bs)"
      using length_stuff_ge [of "lsb_bits 8 y" n] Cons.prems(2) by simp
    have "rx_stream PROCESS_FRAME n (enc n (a # its) @ bs) =
        uint y # rx_stream PROCESS_FRAME (ones_after n (lsb_bits 8 y)) (enc (ones_after n (lsb_bits 8 y)) its @ bs)"
      using rx_stream_octet [OF Cons.prems(1) len] Octet by (simp add: item_bits_def item_ones_def)
    with IH Octet show ?thesis by (simp add: item_ones_def)
  qed
qed

text \<open>Idle flags, cut off anywhere, only complete empty frames.\<close>

lemma rx_stream_idle:
  "length bs \<le> 8 * j \<Longrightarrow> bs = take (length bs) (concat (replicate j flag_bits)) \<Longrightarrow>
   \<exists>q. rx_stream PROCESS_FRAME 0 bs = replicate q RETURN_COMPLETE_FLAG"
proof (induction j arbitrary: bs)
  case 0
  then show ?case by (intro exI [of _ 0]) (simp add: rx_stream_short)
next
  case (Suc j)
  show ?case
  proof (cases "length bs < 10")
    case True
    then show ?thesis by (intro exI [of _ 0]) (simp add: rx_stream_short)
  next
    case False
    have fl: "length flag_bits = 8" by (simp add: flag_bits_def)
    define cs where "cs = take (length bs - 8) (concat (replicate j flag_bits))"
    have bs: "bs = flag_bits @ cs" using Suc.prems(2) False fl by (simp add: cs_def)
    have len: "length cs = length bs - 8" using arg_cong [OF bs, of length] fl by simp
    have "length cs \<le> 8 * j" "cs = take (length cs) (concat (replicate j flag_bits))"
      using Suc.prems(1) len by (simp_all add: cs_def)
    from Suc.IH [OF this] obtain q where q: "rx_stream PROCESS_FRAME 0 cs = replicate q RETURN_COMPLETE_FLAG" by blast
    have "2 \<le> length cs" using len False by simp
    from rx_stream_flag [of 0, OF _ this] q show ?thesis by (intro exI [of _ "Suc q"]) (simp add: bs)
  qed
qed

text \<open>What the buffers make of the results of the de-framer, as long as there is room.\<close>

type_synonym rx_part = "u8 list list \<times> u8 list \<times> int"

definition rx_result :: "(int \<Rightarrow> u8 \<Rightarrow> int) \<Rightarrow> int \<Rightarrow> rx_part \<Rightarrow> rx_part" where
  "rx_result ppp_fcs r = (\<lambda>(fs, p, fcs).
     if r = RETURN_COMPLETE_FLAG then
       (if p = [] then (fs, p, fcs) else (if fcs = PPP_GOODFCS then fs @ [p] else fs, [], PPP_INITFCS))
     else (fs, p @ [word_of_int r], ppp_fcs fcs (word_of_int r)))"

definition rx_fits1 :: "int \<Rightarrow> int \<Rightarrow> int \<Rightarrow> rx_part \<Rightarrow> bool" where
  "rx_fits1 n b r = (\<lambda>(fs, p, fcs). int (length fs) < n \<and>
     (r = RETURN_COMPLETE_FLAG \<or> 0 \<le> r \<and> r < 256 \<and> int (length p) + 1 < b))"

fun rx_fits :: "(int \<Rightarrow> u8 \<Rightarrow> int) \<Rightarrow> int \<Rightarrow> int \<Rightarrow> int list \<Rightarrow> rx_part \<Rightarrow> bool" where
  "rx_fits ppp_fcs n b [] s = (int (length (fst s)) < n)"
| "rx_fits ppp_fcs n b (r # rs) s = (rx_fits1 n b r s \<and> rx_fits ppp_fcs n b rs (rx_result ppp_fcs r s))"

lemma octet_no_flag:
  fixes r :: int
  assumes "0 \<le> r" and "r < 256"
  shows "r AND 0x1000 = 0" and "r AND 0x2000 = 0" and "r AND 0x4000 = 0"
proof -
  have "take_bit 8 r = r" using assms by (simp add: take_bit_int_eq_self)
  then have "\<not> bit r k" if "8 \<le> k" for k using that bit_take_bit_iff [of 8 r k] by simp
  then have "r AND 2 ^ k = 0" if "8 \<le> k" for k using that by (simp add: and_exp_eq_0_iff_not_bit)
  from this [of 12] this [of 13] this [of 14]
  show "r AND 0x1000 = 0" "r AND 0x2000 = 0" "r AND 0x4000 = 0" by simp_all
qed

lemma rx_deframe_result:
  assumes "rx_fits1 n b r (fs, p, fcs)"
  shows "rx_deframe ppp_fcs True b r (h, fs, p, fcs) = (h, rx_result ppp_fcs r (fs, p, fcs))"
proof (cases "r = RETURN_COMPLETE_FLAG")
  case True
  then show ?thesis by (simp add: rx_deframe_def rx_result_def)
next
  case False
  with assms have "0 \<le> r" "r < 256" "int (length p) + 1 < b" by (simp_all add: rx_fits1_def)
  with octet_no_flag [of r] False show ?thesis by (simp add: rx_deframe_def rx_result_def)
qed

lemma rx_fold_results:
  assumes "{FLAG_HDLC, FLAG_FCS} \<subseteq> chan_flags c"
  shows "hdlc_receive h out = Some (h', rs) \<Longrightarrow> rx_fits ppp_fcs (numbufs c) (blocksize c) rs (fs, p, fcs) \<Longrightarrow>
    fold (rx_octet ppp_fcs nostd c) out (h, fs, p, fcs) = (h', fold (rx_result ppp_fcs) rs (fs, p, fcs))"
proof (induction out arbitrary: h rs fs p fcs)
  case Nil
  then show ?case by simp
next
  case (Cons x out)
  obtain h1 ok where l: "fasthdlc_rx_load h x = (h1, ok)" by fastforce
  obtain h2 r where run: "fasthdlc_rx_run h1 = (h2, r)" by fastforce
  from Cons.prems(1) l run obtain rs2 where rs2: "ok \<noteq> -1" "hdlc_receive h2 out = Some (h', rs2)"
      "rs = (if r = RETURN_EMPTY_FLAG then [] else [r]) @ rs2"
    by (auto split: if_splits option.splits)
  have load: "fst (fasthdlc_rx_load_nocheck h x) = h1"
    using l rs2(1) by (auto simp: fasthdlc_rx_load_def split: if_splits)
  have room: "int (length fs) \<noteq> numbufs c"
    using Cons.prems(2) by (cases rs) (auto simp: rx_fits1_def)
  have oct: "rx_octet ppp_fcs nostd c x (h, fs, p, fcs) = rx_deframe ppp_fcs True (blocksize c) r (h2, fs, p, fcs)"
    using assms room load run by (simp add: rx_octet_def)
  show ?case
  proof (cases "r = RETURN_EMPTY_FLAG")
    case True
    then have "rx_octet ppp_fcs nostd c x (h, fs, p, fcs) = (h2, fs, p, fcs)" by (simp add: oct rx_deframe_def)
    with Cons.IH [OF rs2(2), of fs p fcs] Cons.prems(2) rs2(3) True show ?thesis by simp
  next
    case False
    obtain fs' p' fcs' where s: "rx_result ppp_fcs r (fs, p, fcs) = (fs', p', fcs')" by (metis prod_cases3)
    have "rx_octet ppp_fcs nostd c x (h, fs, p, fcs) = (h2, fs', p', fcs')"
      using rx_deframe_result [of "numbufs c" "blocksize c" r fs p fcs] Cons.prems(2) rs2(3) False oct s by simp
    with Cons.IH [OF rs2(2), of fs' p' fcs'] Cons.prems(2) rs2(3) False s show ?thesis by simp
  qed
qed

text \<open>The results of whole frames.\<close>

definition good_frame :: "(int \<Rightarrow> u8 \<Rightarrow> int) \<Rightarrow> int \<Rightarrow> u8 list \<Rightarrow> bool" where
  "good_frame ppp_fcs b f \<longleftrightarrow> f \<noteq> [] \<and> int (length f) < b \<and> fcs_of ppp_fcs f = PPP_GOODFCS"

lemma rx_result_octet [simp]: "rx_result ppp_fcs (uint (y :: u8)) (fs, p, fcs) = (fs, p @ [y], ppp_fcs fcs y)"
  using uint_lt2p [of y] by (simp add: rx_result_def)

lemma rx_fits1_octet: "rx_fits1 n b (uint (y :: u8)) (fs, p, fcs) \<longleftrightarrow> int (length fs) < n \<and> int (length p) + 1 < b"
  using uint_lt2p [of y] by (auto simp: rx_fits1_def)

lemma rx_result_flag:
  "p \<noteq> [] \<Longrightarrow> rx_result ppp_fcs RETURN_COMPLETE_FLAG (fs, p, PPP_GOODFCS) = (fs @ [p], [], PPP_INITFCS)"
  by (simp add: rx_result_def)

lemma rx_fits1_flag: "rx_fits1 n b RETURN_COMPLETE_FLAG (fs, p, fcs) \<longleftrightarrow> int (length fs) < n"
  by (simp add: rx_fits1_def)

lemma rx_octets_result:
  "int (length fs) < n \<Longrightarrow> int (length p + length f) < b \<Longrightarrow>
   fold (rx_result ppp_fcs) (map uint f) (fs, p, fcs) = (fs, p @ f, foldl ppp_fcs fcs f) \<and>
   rx_fits ppp_fcs n b (map uint f @ rs) (fs, p, fcs) = rx_fits ppp_fcs n b rs (fs, p @ f, foldl ppp_fcs fcs f)"
  by (induction f arbitrary: p fcs) (simp_all add: rx_fits1_octet)

lemma rx_flags_result:
  "int (length fs) < n \<Longrightarrow> fold (rx_result ppp_fcs) (replicate q RETURN_COMPLETE_FLAG) (fs, [], fcs) = (fs, [], fcs) \<and>
   rx_fits ppp_fcs n b (replicate q RETURN_COMPLETE_FLAG @ rs) (fs, [], fcs) = rx_fits ppp_fcs n b rs (fs, [], fcs)"
  by (induction q) (simp_all add: rx_fits1_def rx_result_def)

lemma rx_frames_result:
  "int (length fs + length gs) < n \<Longrightarrow> \<forall>g \<in> set gs. good_frame ppp_fcs b g \<Longrightarrow>
   fold (rx_result ppp_fcs) (map item_result (frame_items gs)) (fs, [], PPP_INITFCS) = (fs @ gs, [], PPP_INITFCS) \<and>
   rx_fits ppp_fcs n b (map item_result (frame_items gs) @ rs) (fs, [], PPP_INITFCS)
     = rx_fits ppp_fcs n b rs (fs @ gs, [], PPP_INITFCS)"
proof (induction gs arbitrary: fs)
  case Nil
  then show ?case by simp
next
  case (Cons g gs)
  have g: "g \<noteq> []" "int (length g) < b" "foldl ppp_fcs PPP_INITFCS g = PPP_GOODFCS"
    using Cons.prems(2) by (simp_all add: good_frame_def fcs_of_def)
  have n: "int (length fs) < n" using Cons.prems(1) by simp
  have m: "map item_result (map Octet g) = map uint g" by simp
  note o = rx_octets_result [OF n, of "[]" g b ppp_fcs PPP_INITFCS]
  from Cons.IH [of "fs @ [g]"] Cons.prems o g n show ?case
    by (simp add: rx_result_flag rx_fits1_flag comp_def)
qed

section \<open>From one end to the other\<close>

text \<open>An idle transmitter sends flags and changes nothing else that matters to a write.\<close>

definition tx_quiet :: "'a chan_buf_scheme \<Rightarrow> 'a chan_buf_scheme \<Rightarrow> bool" where
  "tx_quiet c d \<longleftrightarrow> eventinidx d = eventinidx c \<and> eventoutidx d = eventoutidx c \<and> txdisable d = txdisable c \<and>
     tx_frames d = tx_frames c"

lemma getbuf_chunk_quiet:
  assumes "tx_hdlc_inv c" and "tx_frames c = []" and "0 < fuel" and "getbuf_chunk fuel e c = Some (out, d)"
  shows "tx_quiet c d"
proof -
  obtain m where m: "fuel = Suc m" using assms(3) by (cases fuel) auto
  have j: "outwritebuf c < 0" using tx_frames_Nil assms(1,2) by (auto simp: tx_hdlc_inv_def)
  obtain o2 h where fl: "tx_flags 8 (txhdlc c) = (o2, h)" by fastforce
  have "tx_loop fuel e 8 c = Some (o2, False, c\<lparr>txhdlc := h\<rparr>)"
    using assms(1) j fl by (simp add: m tx_hdlc_inv_def tx_idle_def)
  then have d: "d = tx_underrun_flag False (c\<lparr>txhdlc := h\<rparr>)" using assms(4) by (simp add: getbuf_chunk_def)
  show ?thesis
    unfolding d tx_quiet_def tx_underrun_flag_sel by (simp add: tx_underrun_flag_def chan_defs)
qed

lemma send_chunks_quiet:
  "tx_hdlc_inv c \<Longrightarrow> tx_frames c = [] \<Longrightarrow> send_chunks k e c = Some (out, d) \<Longrightarrow> tx_quiet c d"
proof (induction k arbitrary: c out)
  case 0
  then show ?case by (simp add: tx_quiet_def)
next
  case (Suc k)
  have fuel: "9 < nat (numbufs c) + 10" by simp
  obtain c1 out1 where c1: "getbuf_chunk (nat (numbufs c) + 10) e c = Some (out1, c1)" "tx_hdlc_inv c1"
    by (rule getbuf_chunk_hdlc [OF Suc.prems(1) fuel, of e]) (rule that; assumption)
  have q: "tx_quiet c c1" using getbuf_chunk_quiet [OF Suc.prems(1,2) _ c1(1)] by simp
  then have "tx_frames c1 = []" using Suc.prems(2) by (simp add: tx_quiet_def)
  moreover obtain out2 where "send_chunks k e c1 = Some (out2, d)" using Suc.prems(3) c1(1) by auto
  ultimately have "tx_quiet c1 d" by (rule Suc.IH [OF c1(2)])
  with q show ?case by (simp add: tx_quiet_def)
qed

text \<open>The octets that carry flags, the frames \<open>fs\<close> and flags again, with two bits to spare, decode to \<open>fs\<close>.\<close>

lemma enc_flags: "enc n (replicate j Flag) = concat (replicate j flag_bits)"
  by (induction j arbitrary: n) (simp_all add: item_bits_def item_ones_def)

lemma enc_ones_flag: "enc_ones n (Flag # its) = enc_ones 0 its"
  by (simp add: item_ones_def)

lemma enc_ones_flags: "0 < a \<Longrightarrow> enc_ones n (replicate a Flag) = 0"
  by (induction a arbitrary: n) (simp_all add: item_ones_def enc_ones_def del: enc_ones_simps, metis foldl_Nil gr_zeroI replicate_0)

lemma enc_ones_frames: "enc_ones 0 (frame_items fs) = 0"
  by (induction fs) (simp_all add: item_ones_def)

lemma no_discard: "RETURN_DISCARD_FLAG \<notin> item_result ` A"
proof -
  have "item_result a \<noteq> RETURN_DISCARD_FLAG" for a
  proof (cases a)
    case (Octet y)
    then show ?thesis using uint_lt2p [of y] by auto
  qed simp
  then show ?thesis by force
qed

lemma frames_decode:
  assumes l: "line m out @ q = enc 0 (replicate (Suc a) Flag @ frame_items fs @ replicate j Flag)"
    and q: "length q + 2 \<le> 8 * j"
  shows "\<exists>h b. hdlc_receive (fasthdlc_init g m) out =
    Some (h, map item_result (replicate a Flag @ frame_items fs @ replicate b Flag))"
proof -
  let ?its = "replicate a Flag @ frame_items fs" and ?rx = "fasthdlc_init g m"
  have ini: "fh_mode ?rx = m" "fh_state ?rx = 0" "fh_ones ?rx = 0" "fh_bits ?rx = 0"
    by (simp_all add: fasthdlc_init_def)
  define pad where "pad = take (8 * j - length q) (concat (replicate j flag_bits))"
  have fl: "length flag_bits = 8" by (simp add: flag_bits_def)
  have lj: "length (concat (replicate j flag_bits)) = 8 * j" using fl by (induction j) simp_all
  have e: "enc 0 (replicate (Suc a) Flag @ frame_items fs @ replicate j Flag)
      = (flag_bits @ enc 0 ?its) @ concat (replicate j flag_bits)"
    by (simp add: item_bits_def item_ones_def enc_flags)
  have len: "length (line m out) = length (flag_bits @ enc 0 ?its) + (8 * j - length q)"
    using arg_cong [OF l [unfolded e], of length] lj q by simp
  have lo: "line m out = flag_bits @ enc 0 ?its @ pad"
  proof -
    have "line m out = take (length (line m out)) (line m out @ q)" by simp
    also have "\<dots> = flag_bits @ enc 0 ?its @ pad" unfolding l e len pad_def by simp
    finally show ?thesis .
  qed
  have pad: "length pad = 8 * j - length q" "2 \<le> length pad" "length pad \<le> 8 * j"
    using lj q by (simp_all add: pad_def)
  have o0: "enc_ones 0 ?its = 0"
    using enc_ones_flags [of a 0] by (cases "a = 0") (simp_all add: enc_ones_frames)
  obtain b where b: "rx_stream PROCESS_FRAME 0 pad = replicate b RETURN_COMPLETE_FLAG"
    using rx_stream_idle [of pad j] pad(1,3) by (auto simp: pad_def)
  let ?rs = "map item_result (replicate a Flag @ frame_items fs @ replicate b Flag)"
  have all: "rx_stream FRAME_SEARCH 0 (line m out) = ?rs"
    using rx_stream_items [of 0 pad ?its] pad(2) o0 b by (simp add: lo rx_stream_flag_search)
  obtain h rs where rx: "hdlc_receive ?rx out = Some (h, rs)" "rx_ready h"
      "RETURN_DISCARD_FLAG \<notin> set rs \<longrightarrow> fh_state h = FRAME_SEARCH \<longrightarrow> fh_bits h < 8"
      "rx_stream FRAME_SEARCH 0 (line m out) = rs @ rx_stream (fh_state h) (nat (fh_ones h)) (hq h)"
    using hdlc_receive_decodes [OF rx_ready_init [of g m], of out] ini by (auto dest: spec [of _ "[]"])
  have dec: "rs @ rx_stream (fh_state h) (nat (fh_ones h)) (hq h) = ?rs" using all rx(4) by simp
  have "RETURN_DISCARD_FLAG \<notin> set ?rs" using no_discard by simp
  then have "RETURN_DISCARD_FLAG \<notin> set rs" unfolding dec [symmetric] by simp
  then have "rx_stream (fh_state h) (nat (fh_ones h)) (hq h) = []"
    using rx(2,3) by (auto simp: rx_ready_def hdlc_inv_def length_hq rx_stream_short)
  with dec rx(1) show ?thesis by auto
qed

definition frame_room :: "u8 list list \<Rightarrow> nat" where
  "frame_room ds = sum_list (map (\<lambda>d. 10 * length d + 8) ds)"

lemma frame_items_room: "sum_list (map item_room (frame_items fs)) = frame_room fs"
proof -
  have "sum_list (map item_room (map Octet f)) = 10 * length f" for f by (induction f) simp_all
  then show ?thesis by (induction fs) (simp_all add: frame_room_def)
qed

text \<open>The sender's half: idle chunks, the writes, and enough chunks after them.\<close>

lemma link_line:
  assumes inv: "tx_hdlc_inv s" and empty: "tx_frames s = []" "\<not> txdisable s" and ev: "eventinidx s = eventoutidx s"
    and fl: "FLAG_FCS \<in> chan_flags s" "FLAG_LINEAR \<notin> chan_flags s" and h: "txhdlc s = fasthdlc_init g m"
    and ds: "\<forall>d \<in> set ds. d \<noteq> [] \<and> int (length d) \<le> blocksize s \<and> length d < 65536" "length ds \<le> nat (numbufs s)"
    and k: "0 < k0" "frame_room ds + 34 \<le> 8 * k * mode_width m"
  shows "\<exists>out0 s1 s2 out1 s3 a q j. send_chunks k0 e s = Some (out0, s1) \<and> write_all ppp_fcs ds s1 = Some s2 \<and>
     send_chunks k e s2 = Some (out1, s3) \<and> length q + 2 \<le> 8 * j \<and>
     line m (out0 @ out1) @ q = enc 0 (replicate (Suc a) Flag @
       frame_items (map (\<lambda>d. calc_fcs ppp_fcs (int (length d)) d) ds) @ replicate j Flag)"
proof -
  let ?fs = "map (\<lambda>d. calc_fcs ppp_fcs (int (length d)) d) ds"
  have h0: "hq (txhdlc s) = []" "nat (fh_ones (txhdlc s)) = 0" "fh_mode (txhdlc s) = m"
    unfolding h by (simp_all add: fasthdlc_init_def hq_def topbits_def)
  obtain s1 out0 its0 a0 where s1: "send_chunks k0 e s = Some (out0, s1)" "length out0 = 8 * k0" "tx_hdlc_inv s1"
      "tx_same s s1" "encodes (txhdlc s) (its0 @ replicate a0 Flag) out0 (txhdlc s1)"
      "frame_items (tx_frames s) = its0 @ frame_items (tx_frames s1)"
    using send_chunks_hdlc [OF inv, of k0 e] by (elim exE conjE) (rule that; assumption)
  have its0: "its0 = []" using s1(6) empty by simp
  have quiet: "tx_quiet s s1" by (rule send_chunks_quiet [OF inv empty(1) s1(1)])
  note w0 = mode_width_range [of m]
  have l0: "enc 0 (replicate a0 Flag) = line m out0 @ hq (txhdlc s1)"
    using s1(5) h0 by (simp add: encodes_def its0)
  have a0: "0 < a0"
  proof (rule ccontr)
    assume "\<not> 0 < a0"
    with l0 have "length (line m out0) = 0" by simp
    then show False using length_line [of m out0] s1(2) k(1) w0 by simp
  qed
  have ok1: "tx_ok s1" using s1(3) by (simp add: tx_hdlc_inv_def)
  note f1 = tx_same_flag [OF s1(4)]
  have bn: "blocksize s1 = blocksize s" "numbufs s1 = numbufs s" using s1(4) by (simp_all add: tx_same_def)
  have q1: "eventinidx s1 = eventoutidx s1" "\<not> txdisable s1" "tx_frames s1 = []"
    using quiet empty ev by (simp_all add: tx_quiet_def)
  have len1: "length (tx_frames s1) + length ds \<le> nat (numbufs s1)" unfolding q1(3) bn using ds(2) by simp
  have lin1: "FLAG_LINEAR \<notin> chan_flags s1" and fcs1: "FLAG_FCS \<in> chan_flags s1"
    using f1 [of FLAG_LINEAR] f1 [of FLAG_FCS] fl by simp_all
  obtain s2 where s2: "write_all ppp_fcs ds s1 = Some s2" "tx_ok s2" "tx_same s1 s2" "txhdlc s2 = txhdlc s1"
      "\<not> txdisable s2" "tx_frames s2 = ?fs"
    using write_all_ok [OF ok1 q1(1) lin1 ds(1) [folded bn(1)] len1 q1(2), of ppp_fcs]
    unfolding q1(3) if_P [OF fcs1] append_Nil by (elim exE conjE) (rule that; assumption)
  note f2 = tx_same_flag [OF s2(3)]
  have "calc_fcs ppp_fcs (int (length d)) d \<noteq> []" if "d \<noteq> []" for d
    using that calc_fcs_length [of ppp_fcs "int (length d)" d] by (metis length_0_conv)
  then have "[] \<notin> set ?fs" using ds(1) by fastforce
  then have inv2: "tx_hdlc_inv s2"
    using s1(3) s2 f2 tx_same_views(2) [OF s2(3)] by (simp add: tx_hdlc_inv_def)
  obtain s3 out1 its j where s3: "send_chunks k e s2 = Some (out1, s3)" "length out1 = 8 * k" "tx_hdlc_inv s3"
      "encodes (txhdlc s2) (its @ replicate j Flag) out1 (txhdlc s3)"
      "frame_items (tx_frames s2) = its @ frame_items (tx_frames s3)" "0 < j \<longrightarrow> tx_frames s3 = []"
    using send_chunks_hdlc [OF inv2, of k e] by (elim exE conjE) (rule that; assumption)
  have modes: "fh_mode (txhdlc s1) = m" "fh_mode (txhdlc s2) = m"
    using s1(5) s2(4) h0(3) by (simp_all add: encodes_def)
  have e1: "tx_eng (txhdlc s1)" "tx_eng (txhdlc s3)" using s1(3) s3(3) by (simp_all add: tx_hdlc_inv_def)
  have ql: "length (hq (txhdlc s1)) \<le> 17" using e1(1) unfolding length_hq tx_eng_def by linarith
  have o1: "nat (fh_ones (txhdlc s1)) = 0" using s1(5) h0(2) enc_ones_flags [OF a0, of 0] by (simp add: encodes_def its0)
  have l1: "hq (txhdlc s1) @ enc 0 (its @ replicate j Flag) = line m out1 @ hq (txhdlc s3)"
    using s3(4) modes o1 s2(4) by (simp add: encodes_def)
  have room: "sum_list (map item_room its) \<le> frame_room ds"
  proof -
    have "frame_room ?fs = frame_room ds" by (simp add: frame_room_def comp_def)
    with frame_items_room [of ?fs] show ?thesis using s3(5) s2(6) by simp
  qed
  have el: "length (enc 0 its) \<le> frame_room ds" using enc_length [of 0 its] room by simp
  have fl8: "length (enc n (replicate j Flag)) = 8 * j" for n
    unfolding enc_flags by (induction j) (simp_all add: flag_bits_def)
  have ll: "length (hq (txhdlc s1)) + length (enc 0 its) + 8 * j = 8 * k * mode_width m + length (hq (txhdlc s3))"
    using arg_cong [OF l1, of length] length_line [of m out1] s3(2) fl8 by (simp add: mult.commute)
  then have j: "length (hq (txhdlc s3)) + 2 \<le> 8 * j" using el k(2) ql by linarith
  then have "tx_frames s3 = []" using s3(6) by (cases j) auto
  then have its: "its = frame_items ?fs" using s3(5) s2(6) by simp
  obtain a where a: "a0 = Suc a" using a0 by (cases a0) auto
  have "line m (out0 @ out1) @ hq (txhdlc s3) = line m out0 @ hq (txhdlc s1) @ enc 0 (its @ replicate j Flag)"
    using l1 by simp
  also have "\<dots> = enc 0 (replicate a0 Flag) @ enc 0 (its @ replicate j Flag)" by (simp add: l0)
  also have "\<dots> = enc 0 (replicate a0 Flag @ its @ replicate j Flag)"
    using enc_append [of 0 "replicate a0 Flag" "its @ replicate j Flag"] enc_ones_flags [OF a0, of 0] by (simp del: enc_append)
  finally have "line m (out0 @ out1) @ hq (txhdlc s3) = enc 0 (replicate (Suc a) Flag @ frame_items ?fs @ replicate j Flag)"
    unfolding a its .
  with s1(1) s2(1) s3(1) j show ?thesis by blast
qed

text \<open>C1. The link delivers: a channel that sends idle chunks, is written the frames \<open>ds\<close> (each with two
  octets of room for the check sequence) and goes on sending until their bits are out, and a channel
  in the same mode that receives these octets in chunks of any length, starting from nothing: the
  reader's buffers then hold exactly the frames written, in order, whole, with the check sequence
  that \<open>calc_fcs\<close> stores in their last two octets. No frame is lost, duplicated or split.\<close>

theorem link_delivers_frames:
  assumes "tx_hdlc_inv s" and "tx_frames s = []" and "\<not> txdisable s" and "eventinidx s = eventoutidx s"
    and "FLAG_FCS \<in> chan_flags s" and "FLAG_LINEAR \<notin> chan_flags s" and "txhdlc s = fasthdlc_init g m"
    and "rx_inv r" and "rx_frames r = []" and "rx_partial r = []"
    and "{FLAG_HDLC, FLAG_FCS} \<subseteq> chan_flags r" and "FLAG_MTP2 \<notin> chan_flags r"
    and "rxhdlc r = fasthdlc_init g' m" and "infcs r = PPP_INITFCS" and "ppp_fcs_law ppp_fcs"
    and "\<forall>d \<in> set ds. 2 \<le> length d \<and> length d < 65536 \<and> int (length d) \<le> blocksize s \<and> int (length d) < blocksize r"
    and "length ds \<le> nat (numbufs s)" and "int (length ds) < numbufs r"
    and "0 < k0" and "frame_room ds + 34 \<le> 8 * k * mode_width m"
  shows "\<exists>out0 s1 s2 out1 s3. send_chunks k0 e s = Some (out0, s1) \<and> write_all ppp_fcs ds s1 = Some s2 \<and>
     send_chunks k e s2 = Some (out1, s3) \<and>
     (\<forall>cks. concat cks = out0 @ out1 \<longrightarrow> (\<exists>r'. rx_chunks ppp_fcs alarms cks r = Some r' \<and>
        rx_frames r' = map (\<lambda>d. calc_fcs ppp_fcs (int (length d)) d) ds \<and> rx_partial r' = []))"
proof -
  let ?fs = "map (\<lambda>d. calc_fcs ppp_fcs (int (length d)) d) ds"
  have ds: "\<forall>d \<in> set ds. d \<noteq> [] \<and> int (length d) \<le> blocksize s \<and> length d < 65536" using assms(16) by auto
  obtain out0 s1 s2 out1 s3 a q j where s: "send_chunks k0 e s = Some (out0, s1)" "write_all ppp_fcs ds s1 = Some s2"
      "send_chunks k e s2 = Some (out1, s3)" "length q + 2 \<le> 8 * j"
      "line m (out0 @ out1) @ q = enc 0 (replicate (Suc a) Flag @ frame_items ?fs @ replicate j Flag)"
    using link_line [OF assms(1-7) ds assms(17,19,20), of e ppp_fcs] by (elim exE conjE) (rule that; assumption)
  obtain h b where rx: "hdlc_receive (fasthdlc_init g' m) (out0 @ out1) =
      Some (h, map item_result (replicate a Flag @ frame_items ?fs @ replicate b Flag))"
    using frames_decode [OF s(5,4), of g'] by blast
  let ?n = "numbufs r" and ?b = "blocksize r"
  have rs: "map item_result (replicate a Flag @ frame_items ?fs @ replicate b Flag) =
      replicate a RETURN_COMPLETE_FLAG @ map item_result (frame_items ?fs) @ replicate b RETURN_COMPLETE_FLAG" by simp
  have good: "\<forall>g \<in> set ?fs. good_frame ppp_fcs ?b g"
  proof
    fix g assume "g \<in> set ?fs"
    then obtain d where d: "d \<in> set ds" "g = calc_fcs ppp_fcs (int (length d)) d" by auto
    then have l: "2 \<le> length d" "int (length d) < blocksize r" using assms(16) by auto
    have "length g = length d" using d(2) by simp
    with l(1) have "g \<noteq> []" by auto
    with l d(2) calc_fcs_good [OF assms(15) l(1)] show "good_frame ppp_fcs ?b g" by (simp add: good_frame_def)
  qed
  have n0: "int (length ([] :: u8 list list)) < ?n" "int (length ([] :: u8 list list) + length ?fs) < ?n"
    "int (length ?fs) < ?n" using assms(18) by simp_all
  note f1 = rx_flags_result [OF n0(1), of ppp_fcs _ PPP_INITFCS ?b]
  note f2 = rx_frames_result [OF n0(2) good, unfolded append_Nil]
  note f3 = rx_flags_result [OF n0(3), of ppp_fcs b PPP_INITFCS ?b "[]"]
  have fits: "rx_fits ppp_fcs ?n ?b (map item_result (replicate a Flag @ frame_items ?fs @ replicate b Flag)) ([], [], PPP_INITFCS)"
    unfolding rs using f1 f2 f3 n0(3) by (simp del: length_map)
  have fold: "fold (rx_result ppp_fcs) (map item_result (replicate a Flag @ frame_items ?fs @ replicate b Flag)) ([], [], PPP_INITFCS)
      = (?fs, [], PPP_INITFCS)"
    unfolding rs using f1 f2 f3 by simp
  have abs: "rx_abs r = (fasthdlc_init g' m, [], [], PPP_INITFCS)"
    using assms(9,10,13,14) by (simp add: rx_abs_def)
  have "\<exists>r'. rx_chunks ppp_fcs alarms cks r = Some r' \<and> rx_frames r' = ?fs \<and> rx_partial r' = []"
    if ck: "concat cks = out0 @ out1" for cks
  proof -
    obtain r' where r': "rx_chunks ppp_fcs alarms cks r = Some r'"
        "rx_abs r' = fold (rx_octet ppp_fcs False r) (out0 @ out1) (rx_abs r)"
      using rx_chunks_refines [OF assms(8,12), of ppp_fcs alarms cks] unfolding ck
      by (elim exE conjE) (rule that; assumption)
    have "rx_abs r' = (h, ?fs, [], PPP_INITFCS)"
      unfolding r'(2) abs rx_fold_results [OF assms(11) rx fits, of False] fold ..
    then have "rx_frames r' = ?fs" "rx_partial r' = []" by (simp_all only: rx_abs_def prod.inject)
    with r'(1) show ?thesis by blast
  qed
  with s(1-3) show ?thesis by blast
qed

theorem link_delivers_frames_witness:
  "\<exists>out0 s1 s2 out1 s3 r'. send_chunks 1 no_zones (rx_demo {FLAG_HDLC, FLAG_FCS}) = Some (out0, s1) \<and>
     write_all crc_step [[1, 2, 0, 0]] s1 = Some s2 \<and> send_chunks 2 no_zones s2 = Some (out1, s3) \<and>
     rx_chunks crc_step False [out0, out1] (rx_demo {FLAG_HDLC, FLAG_FCS}) = Some r' \<and>
     rx_frames r' = [calc_fcs crc_step 4 [1, 2, 0, 0]]"
proof -
  let ?c = "rx_demo {FLAG_HDLC, FLAG_FCS}" and ?g = "fasthdlc_state.make 0 0 0 0 FASTHDLC_MODE_64 0"
  obtain r where r: "reallocbufs True 16 2 (buf_demo_chan {FLAG_HDLC, FLAG_FCS}) = (r, ?c)"
    by (metis rx_demo_def surjective_pairing)
  note k = rx_demo_ok [of "{FLAG_HDLC, FLAG_FCS}"]
  have t: "tx_ok ?c" "tx_frames ?c = []"
    using reallocbufs_tx [OF r] by (simp_all add: buf_demo_chan_def chan_tone.extend_def)
  have h: "txhdlc ?c = fasthdlc_init ?g FASTHDLC_MODE_64" "rxhdlc ?c = fasthdlc_init ?g FASTHDLC_MODE_64"
      "infcs ?c = PPP_INITFCS" "\<not> txdisable ?c" "tone_of ?c = None"
    by (simp_all add: rx_demo_def reallocbufs_def buf_demo_chan_def chan_tone.extend_def tone_of_def
        tone_demo_chan_def chan_rbs.extend_def rbs_demo_chan_def Let_def)
  have eng: "tx_eng (txhdlc ?c)" unfolding h tx_eng_def by (intro conjI hdlc_inv_init) (simp add: fasthdlc_init_def)
  have inv: "tx_hdlc_inv ?c" using t eng h(4,5) k by (simp add: tx_hdlc_inv_def)
  have "\<exists>out0 s1 s2 out1 s3. send_chunks 1 no_zones ?c = Some (out0, s1) \<and>
      write_all crc_step [[1, 2, 0, 0]] s1 = Some s2 \<and> send_chunks 2 no_zones s2 = Some (out1, s3) \<and>
     (\<forall>cks. concat cks = out0 @ out1 \<longrightarrow> (\<exists>r'. rx_chunks crc_step False cks ?c = Some r' \<and>
        rx_frames r' = map (\<lambda>d. calc_fcs crc_step (int (length d)) d) [[1, 2, 0, 0]] \<and> rx_partial r' = []))"
    by (rule link_delivers_frames [OF inv t(2) h(4) _ _ _ h(1) _ _ _ _ _ h(2,3) crc_step_law])
      (use k in \<open>simp_all add: frame_room_def mode_width_def del: length_rx_frames\<close>)
  then obtain out0 s1 s2 out1 s3 where s: "send_chunks 1 no_zones ?c = Some (out0, s1)"
      "write_all crc_step [[1, 2, 0, 0]] s1 = Some s2" "send_chunks 2 no_zones s2 = Some (out1, s3)"
      "\<forall>cks. concat cks = out0 @ out1 \<longrightarrow> (\<exists>r'. rx_chunks crc_step False cks ?c = Some r' \<and>
        rx_frames r' = map (\<lambda>d. calc_fcs crc_step (int (length d)) d) [[1, 2, 0, 0]] \<and> rx_partial r' = [])"
    by (elim exE conjE) (rule that; assumption)
  have "concat [out0, out1] = out0 @ out1" by simp
  with s(4) obtain r' where "rx_chunks crc_step False [out0, out1] ?c = Some r'"
      "rx_frames r' = map (\<lambda>d. calc_fcs crc_step (int (length d)) d) [[1, 2, 0, 0]]" by blast
  with s(1-3) show ?thesis by auto
qed

end
