(* ===== verification/Echo.thy ===== *)
theory Echo
  imports Transmit
begin

text \<open>
  Echo cancellation as \<^verbatim>\<open>dahdi-base.c\<close> drives it: attaching and creating a canceller
  (\<open>dahdi_ioctl_attach_echocan\<close>, \<open>ioctl_echocancel\<close>), training it, switching it between voice and
  fax (\<open>set_echocan_fax_mode\<close>), the chunk handler \<open>__dahdi_ec_chunk\<close>, and the detector of the
  2100 Hz tone (\<^verbatim>\<open>ecdis.h\<close>, \<^verbatim>\<open>biquad.h\<close>) that the core runs for cancellers without one.
  The cancellers themselves are modules behind function pointers: each of their operations is a
  parameter that sees the calls made on the instance so far.
\<close>

section \<open>The tone detector\<close>

record biquad2_state =
  bq_gain :: int
  bq_a1 :: int
  bq_a2 :: int
  bq_b1 :: int
  bq_b2 :: int
  bq_z1 :: int
  bq_z2 :: int

record echo_can_disable_detector =
  det_notch :: biquad2_state
  notch_level :: int
  channel_level :: int
  tone_present :: bool
  tone_cycle_duration :: int
  good_cycles :: int
  det_hit :: bool

definition biquad2_init :: "int \<Rightarrow> int \<Rightarrow> int \<Rightarrow> int \<Rightarrow> int \<Rightarrow> biquad2_state" where
  "biquad2_init gain a1 a2 b1 b2 = \<lparr>bq_gain = gain, bq_a1 = a1, bq_a2 = a2, bq_b1 = b1, bq_b2 = b2, bq_z1 = 0, bq_z2 = 0\<rparr>"

text \<open>Sums and products are of 32-bit integers; \<open>>> 15\<close> rounds down.\<close>

definition biquad2 :: "biquad2_state \<Rightarrow> int \<Rightarrow> int \<times> biquad2_state" where
  "biquad2 bq sample =
     (let z0 = i32 (i32 (i32 (sample * bq_gain bq) + i32 (bq_z1 bq * bq_a1 bq)) + i32 (bq_z2 bq * bq_a2 bq));
          y = i32 (i32 (z0 + i32 (bq_z1 bq * bq_b1 bq)) + i32 (bq_z2 bq * bq_b2 bq))
      in (short (y div 32768), bq\<lparr>bq_z2 := bq_z1 bq, bq_z1 := z0 div 32768\<rparr>))"

text \<open>The coefficients are \<open>-0.76\<close>, \<open>-0.1183852\<close>, \<open>-0.5104039\<close>, \<open>0.1567596\<close> and \<open>1\<close>, scaled by 32768 and truncated.\<close>

definition echo_can_disable_detector_init :: echo_can_disable_detector where
  "echo_can_disable_detector_init = \<lparr>det_notch = biquad2_init (-24903) (-3879) (-16724) 5136 32768, notch_level = 0,
     channel_level = 0, tone_present = False, tone_cycle_duration = 0, good_cycles = 0, det_hit = False\<rparr>"

definition echo_can_disable_detector_update :: "echo_can_disable_detector \<Rightarrow> int \<Rightarrow> bool \<times> echo_can_disable_detector" where
  "echo_can_disable_detector_update det amp =
     (let (notched, bq) = biquad2 (det_notch det) amp;
          det = det\<lparr>det_notch := bq, channel_level := channel_level det + (\<bar>amp\<bar> - channel_level det) div 32,
                    notch_level := notch_level det + (\<bar>notched\<bar> - notch_level det) div 16\<rparr>;
          det =
            (if channel_level det \<ge> 70 then
               (if notch_level det * 6 < channel_level det then
                  (let det = det\<lparr>tone_cycle_duration := i32 (tone_cycle_duration det + 1)\<rparr> in
                   if \<not> tone_present det then
                     (let det = (if tone_cycle_duration det \<ge> 425 * 8 \<and> tone_cycle_duration det \<le> 475 * 8 then
                                   (let det = det\<lparr>good_cycles := i32 (good_cycles det + 1)\<rparr>
                                    in if good_cycles det > 2 then det\<lparr>det_hit := True\<rparr> else det)
                                 else det)
                      in det\<lparr>tone_cycle_duration := 0, tone_present := True\<rparr>)
                   else if tone_cycle_duration det \<ge> 600 * 8 then det\<lparr>det_hit := True\<rparr>
                   else det)
                else det\<lparr>tone_present := False\<rparr>)
             else det\<lparr>tone_present := False, tone_cycle_duration := 0, good_cycles := 0\<rparr>)
      in (det_hit det, det))"

section \<open>Cancellers\<close>

datatype echocan_mode =
    ECHO_MODE_IDLE | ECHO_MODE_PRETRAINING | ECHO_MODE_STARTTRAINING | ECHO_MODE_AWAITINGECHO
  | ECHO_MODE_TRAINING | ECHO_MODE_ACTIVE | ECHO_MODE_FAX

text \<open>The bit \<open>__ECHO_MODE_MUTE\<close>.\<close>

definition mode_mute :: "echocan_mode \<Rightarrow> bool" where
  "mode_mute m \<longleftrightarrow> m \<in> {ECHO_MODE_PRETRAINING, ECHO_MODE_STARTTRAINING, ECHO_MODE_AWAITINGECHO, ECHO_MODE_TRAINING}"

record echocan_features =
  CED_tx_detect :: bool
  CED_rx_detect :: bool
  NLP_toggle :: bool
  NLP_automatic :: bool

datatype echocan_event =
    CED_tx_detected | CED_rx_detected | CNG_tx_detected | CNG_rx_detected | NLP_auto_disabled | NLP_auto_enabled

datatype ec_call =
    Ec_process "int list" "int list" | Ec_events | Ec_traintap int int | Ec_NLP_toggle bool

record echocan_ops =
  ops_process :: "(ec_call list \<Rightarrow> int list \<Rightarrow> int list \<Rightarrow> int list \<times> echocan_event set) option"
  ops_events :: "(ec_call list \<Rightarrow> echocan_event set) option"
  ops_traintap :: "(ec_call list \<Rightarrow> int \<Rightarrow> int \<Rightarrow> int) option"

record echocan_state =
  ec_ops :: echocan_ops
  ec_calls :: "ec_call list"
  txecdis :: echo_can_disable_detector
  rxecdis :: echo_can_disable_detector
  ec_features :: echocan_features
  ec_mode :: echocan_mode
  last_train_tap :: int
  pretrain_timer :: int
  ec_events :: "echocan_event set"

text \<open>
  A factory is named by a number; \<open>preec\<close> is the memory that \<open>readchunkpreec\<close> points to while that
  is not null.
\<close>

record chan_echo = chan_buf +
  ec_state :: "echocan_state option"
  ec_current :: "nat option"
  ec_factory :: "nat option"
  preec :: "int list"

abbreviation (input) EVENT_TX_CED_DETECTED :: int where "EVENT_TX_CED_DETECTED \<equiv> 23"
abbreviation (input) EVENT_RX_CED_DETECTED :: int where "EVENT_RX_CED_DETECTED \<equiv> 24"
abbreviation (input) EVENT_TX_CNG_DETECTED :: int where "EVENT_TX_CNG_DETECTED \<equiv> 25"
abbreviation (input) EVENT_RX_CNG_DETECTED :: int where "EVENT_RX_CNG_DETECTED \<equiv> 26"
abbreviation (input) EVENT_EC_NLP_DISABLED :: int where "EVENT_EC_NLP_DISABLED \<equiv> 27"
abbreviation (input) EVENT_EC_NLP_ENABLED :: int where "EVENT_EC_NLP_ENABLED \<equiv> 28"

definition set_ec_mode :: "echocan_mode \<Rightarrow> 'a chan_echo_scheme \<Rightarrow> 'a chan_echo_scheme" where
  "set_ec_mode m c = c\<lparr>ec_state := map_option (ec_mode_update (\<lambda>_. m)) (ec_state c)\<rparr>"

definition log_ec :: "ec_call \<Rightarrow> 'a chan_echo_scheme \<Rightarrow> 'a chan_echo_scheme" where
  "log_ec call c = c\<lparr>ec_state := map_option (ec_calls_update (\<lambda>l. l @ [call])) (ec_state c)\<rparr>"

section \<open>Voice and fax\<close>

definition set_echocan_fax_mode :: "bool \<Rightarrow> 'a chan_echo_scheme \<Rightarrow> 'a chan_echo_scheme" where
  "set_echocan_fax_mode enable c = (case ec_state c of
     None \<Rightarrow> c
   | Some ec \<Rightarrow>
      (if enable then
         (if ec_mode ec = ECHO_MODE_FAX then c
          else if ec_mode ec \<noteq> ECHO_MODE_ACTIVE then c
          else if NLP_automatic (ec_features ec) then set_ec_mode ECHO_MODE_FAX c
          else if NLP_toggle (ec_features ec) then
            set_ec_mode ECHO_MODE_FAX (log_ec (Ec_NLP_toggle False) (qevent c EVENT_EC_NLP_DISABLED))
          else set_ec_mode ECHO_MODE_IDLE c)
       else
         (if ec_mode ec = ECHO_MODE_ACTIVE then c
          else if ec_mode ec \<noteq> ECHO_MODE_FAX \<and> ec_mode ec \<noteq> ECHO_MODE_IDLE then c
          else if NLP_automatic (ec_features ec) then set_ec_mode ECHO_MODE_ACTIVE c
          else if NLP_toggle (ec_features ec) then
            set_ec_mode ECHO_MODE_ACTIVE (log_ec (Ec_NLP_toggle True) (qevent c EVENT_EC_NLP_ENABLED))
          else set_ec_mode ECHO_MODE_ACTIVE c)))"

text \<open>\<open>events\<close> is the copy taken at the start; \<open>ec_state\<close> is not null.\<close>

definition ec_ced :: "int \<Rightarrow> 'a chan_echo_scheme \<Rightarrow> 'a chan_echo_scheme" where
  "ec_ced event c =
     (let c = qevent c event
      in case ec_state c of None \<Rightarrow> c
         | Some ec \<Rightarrow> if ec_mode ec = ECHO_MODE_ACTIVE then set_echocan_fax_mode True c else c)"

definition process_echocan_events :: "echocan_event set \<Rightarrow> 'a chan_echo_scheme \<Rightarrow> 'a chan_echo_scheme" where
  "process_echocan_events events c =
     (let c = (if CED_tx_detected \<in> events then ec_ced EVENT_TX_CED_DETECTED c else c);
          c = (if CED_rx_detected \<in> events then ec_ced EVENT_RX_CED_DETECTED c else c);
          c = (if CNG_tx_detected \<in> events then qevent c EVENT_TX_CNG_DETECTED else c);
          c = (if CNG_rx_detected \<in> events then qevent c EVENT_RX_CNG_DETECTED else c);
          c = (if NLP_auto_disabled \<in> events then set_ec_mode ECHO_MODE_FAX (qevent c EVENT_EC_NLP_DISABLED) else c)
      in if NLP_auto_enabled \<in> events then set_ec_mode ECHO_MODE_ACTIVE (qevent c EVENT_EC_NLP_ENABLED) else c)"

section \<open>A chunk\<close>

text \<open>One sample of the training stage: the counters are 32-bit unsigned.\<close>

definition train_sample :: "int \<Rightarrow> echocan_state \<Rightarrow> echocan_state" where
  "train_sample rxlin ec =
     (let ec = (if ec_mode ec = ECHO_MODE_PRETRAINING then
                  (let ec = ec\<lparr>pretrain_timer := (pretrain_timer ec - 1) mod 2 ^ 32\<rparr>
                   in if pretrain_timer ec \<le> 0 then ec\<lparr>pretrain_timer := 0, ec_mode := ECHO_MODE_STARTTRAINING\<rparr> else ec)
                else ec);
          ec = (if ec_mode ec = ECHO_MODE_AWAITINGECHO then ec\<lparr>last_train_tap := 0, ec_mode := ECHO_MODE_TRAINING\<rparr> else ec)
      in case ops_traintap (ec_ops ec) of
           None \<Rightarrow> ec
         | Some f \<Rightarrow>
             if ec_mode ec = ECHO_MODE_TRAINING then
               (let r = f (ec_calls ec) (last_train_tap ec) rxlin;
                    ec = ec\<lparr>ec_calls := ec_calls ec @ [Ec_traintap (last_train_tap ec) rxlin],
                            last_train_tap := (last_train_tap ec + 1) mod 2 ^ 32\<rparr>
                in if r \<noteq> 0 then ec\<lparr>ec_mode := ECHO_MODE_ACTIVE\<rparr> else ec)
             else ec)"

definition linear :: "'a chan_law_scheme \<Rightarrow> u8 list \<Rightarrow> int list" where
  "linear c xs = map (\<lambda>x. DAHDI_XLAW x (xlaw c)) xs"

definition companded :: "'a chan_law_scheme \<Rightarrow> int list \<Rightarrow> u8 list" where
  "companded c xs = map (\<lambda>x. DAHDI_LIN2X x (xlaw c)) xs"

text \<open>The canceller works on the chunk, or tells what its hardware saw.\<close>

definition ec_process :: "u8 list \<Rightarrow> u8 list \<Rightarrow> u8 list \<Rightarrow> echocan_state \<Rightarrow> 'a chan_echo_scheme \<Rightarrow>
    u8 list \<times> echocan_event set \<times> 'a chan_echo_scheme" where
  "ec_process rxchunk preecchunk txchunk ec c = (case ops_process (ec_ops ec) of
     Some f \<Rightarrow>
       (let rxlins = linear c preecchunk; txlins = linear c txchunk; (out, evs) = f (ec_calls ec) rxlins txlins
        in (companded c out, evs, log_ec (Ec_process rxlins txlins) c))
   | None \<Rightarrow> (case ops_events (ec_ops ec) of
       Some f \<Rightarrow> (rxchunk, f (ec_calls ec), log_ec Ec_events c)
     | None \<Rightarrow> (rxchunk, {}, c)))"

definition ec_chunk :: "u8 list \<Rightarrow> u8 list \<Rightarrow> u8 list \<Rightarrow> 'a chan_echo_scheme \<Rightarrow> u8 list \<times> 'a chan_echo_scheme" where
  "ec_chunk rxchunk preecchunk txchunk c =
     (let c = (if readchunkpreec c then c\<lparr>preec := linear c preecchunk\<rparr> else c)
      in case ec_state c of
           None \<Rightarrow> (rxchunk, c)
         | Some ec \<Rightarrow>
            (if mode_mute (ec_mode ec) then
               (companded c (map (\<lambda>_. 0) preecchunk), c\<lparr>ec_state := Some (fold train_sample (linear c preecchunk) ec)\<rparr>)
             else if ec_mode ec \<noteq> ECHO_MODE_IDLE then
               (let c = c\<lparr>ec_state := Some (ec\<lparr>ec_events := {}\<rparr>)\<rparr>;
                    (out, evs, c) = ec_process rxchunk preecchunk txchunk ec c;
                    c = c\<lparr>ec_state := map_option (ec_events_update (\<lambda>_. evs)) (ec_state c)\<rparr>
                in (out, if evs \<noteq> {} then process_echocan_events evs c else c))
             else (rxchunk, c)))"

text \<open>\<open>_dahdi_ec_span\<close> on one channel of the span.\<close>

definition ec_span_chan :: "'a chan_echo_scheme \<Rightarrow> 'a chan_echo_scheme" where
  "ec_span_chan c =
     (if ec_current c = None then c
      else (let (out, c) = ec_chunk (readchunk c) (readchunk c) (writechunk c) c in c\<lparr>readchunk := out\<rparr>))"

definition ec_span :: "'a chan_echo_scheme list \<Rightarrow> 'a chan_echo_scheme list" where
  "ec_span = map ec_span_chan"

section \<open>Factories\<close>

text \<open>
  \<open>fac_list\<close> is the list of registered factories. The code of the modules is a parameter: the
  name a factory gives itself on a channel (or without one), whether its module can be referenced,
  what it creates, and what the list is once the kernel has been asked for a module. \<open>mod_refs\<close>
  counts the references taken on the module of each factory.
\<close>

record echocan_env =
  fac_list :: "nat list"
  fac_name :: "nat \<Rightarrow> int option \<Rightarrow> string option"
  fac_alive :: "nat \<Rightarrow> bool"
  fac_create :: "nat \<Rightarrow> int \<Rightarrow> (int \<times> int) list \<Rightarrow> int \<times> echocan_state option"
  fac_request :: "string \<Rightarrow> nat list \<Rightarrow> nat list"
  mod_refs :: "nat \<Rightarrow> int"

definition register_echocan_factory :: "bool \<Rightarrow> nat \<Rightarrow> echocan_env \<Rightarrow> int \<times> echocan_env" where
  "register_echocan_factory alloc f e =
     (if \<not> alloc then (- ENOMEM, e)
      else if f \<in> set (fac_list e) then (- EPERM, e)
      else (0, e\<lparr>fac_list := fac_list e @ [f]\<rparr>))"

definition unregister_echocan_factory :: "nat \<Rightarrow> echocan_env \<Rightarrow> echocan_env" where
  "unregister_echocan_factory f e = e\<lparr>fac_list := remove1 f (fac_list e)\<rparr>"

definition module_get :: "nat \<Rightarrow> echocan_env \<Rightarrow> bool \<times> echocan_env" where
  "module_get f e = (if fac_alive e f then (True, e\<lparr>mod_refs := (mod_refs e)(f := mod_refs e f + 1)\<rparr>) else (False, e))"

definition release_echocan :: "nat option \<Rightarrow> echocan_env \<Rightarrow> echocan_env" where
  "release_echocan fo e = (case fo of None \<Rightarrow> e | Some f \<Rightarrow> e\<lparr>mod_refs := (mod_refs e)(f := mod_refs e f - 1)\<rparr>)"

text \<open>Names are ASCII.\<close>

definition char_upper :: "char \<Rightarrow> char" where
  "char_upper ch = (if 97 \<le> (of_char ch :: nat) \<and> (of_char ch :: nat) \<le> 122 then char_of ((of_char ch :: nat) - 32) else ch)"

definition char_lower :: "char \<Rightarrow> char" where
  "char_lower ch = (if 65 \<le> (of_char ch :: nat) \<and> (of_char ch :: nat) \<le> 90 then char_of ((of_char ch :: nat) + 32) else ch)"

definition find_in_list :: "string \<Rightarrow> echocan_env \<Rightarrow> nat option" where
  "find_in_list name e = find (\<lambda>f. fac_name e f None = Some name) (fac_list e)"

definition found_echocan :: "nat \<Rightarrow> echocan_env \<Rightarrow> nat option \<times> echocan_env" where
  "found_echocan f e = (case module_get f e of (ok, e) \<Rightarrow> (if ok then Some f else None, e))"

definition find_echocan :: "bool \<Rightarrow> string \<Rightarrow> echocan_env \<Rightarrow> nat option \<times> echocan_env" where
  "find_echocan alloc name e =
     (let name_upper = map char_upper name in
      if \<not> alloc then (None, e)
      else case find_in_list name_upper e of
        Some f \<Rightarrow> found_echocan f e
      | None \<Rightarrow>
         (let e = e\<lparr>fac_list := fac_request e (''dahdi_echocan_'' @ map char_lower name) (fac_list e)\<rparr>
          in case find_in_list name_upper e of Some f \<Rightarrow> found_echocan f e | None \<Rightarrow> (None, e)))"

text \<open>The factory of the boards with a canceller of their own, on a channel.\<close>

definition hwec_get_name :: "(int \<Rightarrow> string option) option \<Rightarrow> int option \<Rightarrow> string option" where
  "hwec_get_name echocan_name chan = (case (chan, echocan_name) of
     (Some n, Some f) \<Rightarrow> f n
   | _ \<Rightarrow> Some ''HWEC'')"

definition is_hwec_available :: "(int \<Rightarrow> string option) option \<Rightarrow> 'a dahdi_chan_scheme \<Rightarrow> bool" where
  "is_hwec_available echocan_name c \<longleftrightarrow>
     chan_span c \<noteq> None \<and> echocan_name \<noteq> None \<and> hwec_get_name echocan_name (Some (channo c)) \<noteq> None"

text \<open>\<open>DAHDI_ATTACH_ECHOCAN\<close> on the channel found; \<open>overrides\<close> is the module parameter \<open>hwec_overrides_swec\<close>.\<close>

definition swap_factory :: "nat option \<Rightarrow> 'a chan_echo_scheme \<Rightarrow> echocan_env \<Rightarrow> int \<times> 'a chan_echo_scheme \<times> echocan_env" where
  "swap_factory new c e = (0, c\<lparr>ec_factory := new\<rparr>, release_echocan (ec_factory c) e)"

definition attach_echocan :: "bool \<Rightarrow> bool \<Rightarrow> (int \<Rightarrow> string option) option \<Rightarrow> string \<Rightarrow> 'a chan_echo_scheme \<Rightarrow>
    echocan_env \<Rightarrow> int \<times> 'a chan_echo_scheme \<times> echocan_env" where
  "attach_echocan alloc overrides echocan_name name c e =
     (let name = (if is_hwec_available echocan_name c \<and> overrides then ''HWEC'' else name)
      in if name = [] then swap_factory None c e
         else case find_echocan alloc name e of
           (None, e) \<Rightarrow> (- EINVAL, c, e)
         | (Some f, e) \<Rightarrow>
            (if fac_name e f (Some (channo c)) = None then (- EINVAL, c, release_echocan (Some f) e)
             else swap_factory (Some f) c e))"

section \<open>Turning echo cancellation on and off\<close>

abbreviation (input) E2BIG :: int where "E2BIG \<equiv> 7"
abbreviation (input) MAX_ECHOCANPARAMS :: int where "MAX_ECHOCANPARAMS \<equiv> 8"
abbreviation (input) MAX_PRETRAINING :: int where "MAX_PRETRAINING \<equiv> 1000"

text \<open>The instance on the channel goes, and the reference that came with it; the module frees it.\<close>

definition drop_echocan :: "'a chan_echo_scheme \<Rightarrow> echocan_env \<Rightarrow> 'a chan_echo_scheme \<times> echocan_env" where
  "drop_echocan c e =
     (c\<lparr>ec_state := None, ec_current := None\<rparr>,
      if ec_state c \<noteq> None then release_echocan (ec_current c) e else e)"

definition echo_taps :: "int \<Rightarrow> int \<Rightarrow> int" where
  "echo_taps deftaps n = (if n \<in> {32, 64, 128, 256, 512, 1024} then n else deftaps)"

definition start_echocan :: "nat option \<Rightarrow> echocan_state \<Rightarrow> 'a chan_echo_scheme \<Rightarrow> 'a chan_echo_scheme" where
  "start_echocan fac ec c =
     (let ec = ec\<lparr>ec_mode := ECHO_MODE_ACTIVE\<rparr>;
          ec = (if \<not> CED_tx_detect (ec_features ec) then ec\<lparr>txecdis := echo_can_disable_detector_init\<rparr> else ec);
          ec = (if \<not> CED_rx_detect (ec_features ec) then ec\<lparr>rxecdis := echo_can_disable_detector_init\<rparr> else ec)
      in c\<lparr>ec_current := fac, ec_state := Some ec\<rparr>)"

definition create_echocan :: "int \<Rightarrow> (int \<times> int) list \<Rightarrow> nat \<Rightarrow> 'a chan_echo_scheme \<Rightarrow> echocan_env \<Rightarrow>
    int \<times> 'a chan_echo_scheme \<times> echocan_env" where
  "create_echocan taps params f c e =
     (case module_get f e of
        (False, e) \<Rightarrow> (0, c, e)
      | (True, e) \<Rightarrow>
         (case fac_create e f taps params of
            (ret, ec) \<Rightarrow>
              if ret \<noteq> 0 then (ret, c, release_echocan (Some f) e)
              else (case ec of
                      None \<Rightarrow> (- EFAULT, c, e)
                    | Some ec \<Rightarrow> (0, start_echocan (Some f) ec c, e))))"

text \<open>\<open>arg\<close> is the array of parameters behind the request, \<open>None\<close> when it cannot be read.\<close>

definition ioctl_echocancel :: "bool \<Rightarrow> int \<Rightarrow> int \<Rightarrow> int \<Rightarrow> (int \<times> int) list option \<Rightarrow> 'a chan_echo_scheme \<Rightarrow> echocan_env \<Rightarrow>
    int \<times> 'a chan_echo_scheme \<times> echocan_env" where
  "ioctl_echocancel alloc deftaps tap_length param_count arg c e =
     (if param_count > MAX_ECHOCANPARAMS then (- E2BIG, c, e)
      else if tap_length = 0 then (let (c, e) = drop_echocan c e in (0, c, e))
      else if \<not> alloc then (- ENOMEM, c, e)
      else case arg of None \<Rightarrow> (- EFAULT, c, e)
      | Some params \<Rightarrow>
         (let (c, e) = drop_echocan c e in
          case ec_factory c of
            None \<Rightarrow> (0, c, e)
          | Some f \<Rightarrow> create_echocan (echo_taps deftaps tap_length) params f c e))"

definition ioctl_echotrain :: "int \<Rightarrow> 'a chan_echo_scheme \<Rightarrow> int \<times> 'a chan_echo_scheme" where
  "ioctl_echotrain j c =
     (if j < 0 \<or> j \<ge> MAX_PRETRAINING then (- EINVAL, c)
      else case ec_state c of
        None \<Rightarrow> (- EINVAL, c)
      | Some ec \<Rightarrow>
         (0, if ops_traintap (ec_ops ec) \<noteq> None
             then c\<lparr>ec_state := Some (ec\<lparr>ec_mode := ECHO_MODE_PRETRAINING, pretrain_timer := j * 8\<rparr>)\<rparr> else c))"

definition ioctl_fax_mode :: "int \<Rightarrow> 'a chan_echo_scheme \<Rightarrow> int \<times> 'a chan_echo_scheme" where
  "ioctl_fax_mode j c = (if ec_state c = None then (- EINVAL, c) else (0, set_echocan_fax_mode (j \<noteq> 0) c))"

section \<open>Training\<close>

text \<open>The stage before training: it lasts as many samples as the timer says, at least one.\<close>

lemma pretrain_counts:
  "ec_mode ec = ECHO_MODE_PRETRAINING \<Longrightarrow> pretrain_timer ec = int t \<Longrightarrow> t < 2 ^ 32 \<Longrightarrow> length xs \<le> t \<Longrightarrow>
   fold train_sample xs ec = ec\<lparr>pretrain_timer := int (t - length xs),
     ec_mode := (if xs \<noteq> [] \<and> length xs = t then ECHO_MODE_STARTTRAINING else ECHO_MODE_PRETRAINING)\<rparr>"
proof (induction xs arbitrary: ec t)
  case Nil
  then show ?case by simp
next
  case (Cons x xs)
  have t: "0 < t" using Cons.prems(4) by simp
  have m: "(int t - 1) mod 2 ^ 32 = int (t - 1)" using t Cons.prems(3) by simp
  show ?case
  proof (cases "t = 1")
    case True
    with Cons.prems m show ?thesis by (simp add: train_sample_def Let_def split: option.split)
  next
    case False
    have s: "train_sample x ec = ec\<lparr>pretrain_timer := int (t - 1)\<rparr>"
      using False t Cons.prems(1,2) m by (simp add: train_sample_def Let_def split: option.split)
    have "fold train_sample xs (train_sample x ec) = (train_sample x ec)\<lparr>pretrain_timer := int (t - 1 - length xs),
      ec_mode := (if xs \<noteq> [] \<and> length xs = t - 1 then ECHO_MODE_STARTTRAINING else ECHO_MODE_PRETRAINING)\<rparr>"
      by (rule Cons.IH) (use Cons.prems s in auto)
    then show ?thesis using False t by (auto simp: s)
  qed
qed

text \<open>A timer of zero is decremented to the largest 32-bit value first.\<close>

lemma pretrain_zero_wraps:
  assumes "ec_mode ec = ECHO_MODE_PRETRAINING" and "pretrain_timer ec = 0" and "length xs < 2 ^ 32"
  shows "ec_mode (fold train_sample xs ec) = ECHO_MODE_PRETRAINING"
proof (cases xs)
  case Nil
  with assms(1) show ?thesis by simp
next
  case (Cons x ys)
  have s: "train_sample x ec = ec\<lparr>pretrain_timer := int (2 ^ 32 - 1)\<rparr>"
    using assms(1,2) by (simp add: train_sample_def Let_def split: option.split)
  have "fold train_sample ys (train_sample x ec) = (train_sample x ec)\<lparr>pretrain_timer := int (2 ^ 32 - 1 - length ys),
      ec_mode := (if ys \<noteq> [] \<and> length ys = 2 ^ 32 - 1 then ECHO_MODE_STARTTRAINING else ECHO_MODE_PRETRAINING)\<rparr>"
    by (rule pretrain_counts) (use assms Cons s in auto)
  then show ?thesis using assms(3) Cons by simp
qed

lemma train_idle: "ec_mode ec \<notin> {ECHO_MODE_PRETRAINING, ECHO_MODE_AWAITINGECHO, ECHO_MODE_TRAINING} \<Longrightarrow> train_sample x ec = ec"
  by (simp add: train_sample_def Let_def split: option.split)

lemma fold_train_idle: "ec_mode ec \<notin> {ECHO_MODE_PRETRAINING, ECHO_MODE_AWAITINGECHO, ECHO_MODE_TRAINING} \<Longrightarrow>
    fold train_sample xs ec = ec"
  by (induction xs) (simp_all add: train_idle)

text \<open>The calls of a training run from tap \<open>k\<close> on, and whether the canceller goes on after all of them.\<close>

definition tap_calls :: "nat \<Rightarrow> int list \<Rightarrow> ec_call list" where
  "tap_calls k xs = map (\<lambda>i. Ec_traintap (int (k + i)) (xs ! i)) [0..<length xs]"

lemma tap_calls_Cons: "tap_calls k (x # xs) = Ec_traintap (int k) x # tap_calls (Suc k) xs"
proof -
  have "[0..<length (x # xs)] = 0 # map Suc [0..<length xs]" by (simp add: map_Suc_upt upt_conv_Cons del: upt_Suc)
  then show ?thesis unfolding tap_calls_def by (simp add: comp_def)
qed

lemma tap_calls_Nil [simp]: "tap_calls k [] = []"
  by (simp add: tap_calls_def)

lemma length_tap_calls [simp]: "length (tap_calls k xs) = length xs"
  by (simp add: tap_calls_def)

definition taps_needed :: "(ec_call list \<Rightarrow> int \<Rightarrow> int \<Rightarrow> int) \<Rightarrow> ec_call list \<Rightarrow> nat \<Rightarrow> int list \<Rightarrow> bool" where
  "taps_needed f log k xs \<longleftrightarrow> (\<forall>i < length xs. f (log @ take i (tap_calls k xs)) (int (k + i)) (xs ! i) = 0)"

lemma taps_needed_Cons: "taps_needed f log k (x # xs) \<longleftrightarrow> f log (int k) x = 0 \<and> taps_needed f (log @ [Ec_traintap (int k) x]) (Suc k) xs"
  unfolding taps_needed_def tap_calls_Cons by (simp add: All_less_Suc2 add_ac)

lemma train_goes_on:
  "ec_mode ec = ECHO_MODE_TRAINING \<Longrightarrow> ops_traintap (ec_ops ec) = Some f \<Longrightarrow> last_train_tap ec = int k \<Longrightarrow>
   k + length xs < 2 ^ 32 \<Longrightarrow> taps_needed f (ec_calls ec) k xs \<Longrightarrow>
   fold train_sample xs ec = ec\<lparr>ec_calls := ec_calls ec @ tap_calls k xs, last_train_tap := int (k + length xs)\<rparr>"
proof (induction xs arbitrary: ec k)
  case Nil
  then show ?case by simp
next
  case (Cons x xs)
  have m: "(int k + 1) mod 2 ^ 32 = int (Suc k)" using Cons.prems(4) by simp
  have f0: "f (ec_calls ec) (int k) x = 0" and rest: "taps_needed f (ec_calls ec @ [Ec_traintap (int k) x]) (Suc k) xs"
    using Cons.prems(5) by (simp_all add: taps_needed_Cons)
  have s: "train_sample x ec = ec\<lparr>ec_calls := ec_calls ec @ [Ec_traintap (int k) x], last_train_tap := int (Suc k)\<rparr>"
    using Cons.prems(1-3) m f0 by (simp add: train_sample_def Let_def)
  have "fold train_sample xs (train_sample x ec) = (train_sample x ec)\<lparr>
      ec_calls := ec_calls (train_sample x ec) @ tap_calls (Suc k) xs, last_train_tap := int (Suc k + length xs)\<rparr>"
    by (rule Cons.IH) (use Cons.prems rest s in auto)
  then show ?case by (simp add: s tap_calls_Cons)
qed

lemma train_ends:
  assumes "ec_mode ec = ECHO_MODE_TRAINING" and "ops_traintap (ec_ops ec) = Some f" and "last_train_tap ec = int k"
    and "k + length xs + 1 < 2 ^ 32" and "taps_needed f (ec_calls ec) k xs"
    and "f (ec_calls ec @ tap_calls k xs) (int (k + length xs)) x \<noteq> 0"
  shows "fold train_sample (xs @ x # ys) ec = ec\<lparr>ec_calls := ec_calls ec @ tap_calls k xs @ [Ec_traintap (int (k + length xs)) x],
     last_train_tap := int (k + length xs + 1), ec_mode := ECHO_MODE_ACTIVE\<rparr>"
proof -
  let ?e = "ec\<lparr>ec_calls := ec_calls ec @ tap_calls k xs, last_train_tap := int (k + length xs)\<rparr>"
  have e: "fold train_sample xs ec = ?e"
    by (rule train_goes_on [OF assms(1-3) _ assms(5)]) (use assms(4) in simp)
  have m: "(int k + int (length xs) + 1) mod 2 ^ 32 = int (k + length xs + 1)" using assms(4) by simp
  let ?a = "?e\<lparr>ec_calls := ec_calls ec @ tap_calls k xs @ [Ec_traintap (int (k + length xs)) x],
     last_train_tap := int (k + length xs + 1), ec_mode := ECHO_MODE_ACTIVE\<rparr>"
  have s: "train_sample x ?e = ?a" using assms(1,2,6) m by (simp add: train_sample_def Let_def)
  have "fold train_sample ys ?a = ?a" by (rule fold_train_idle) simp
  with e s show ?thesis by simp
qed

lemma train_awaiting:
  "ec_mode ec = ECHO_MODE_AWAITINGECHO \<Longrightarrow> xs \<noteq> [] \<Longrightarrow>
   fold train_sample xs ec = fold train_sample xs (ec\<lparr>last_train_tap := 0, ec_mode := ECHO_MODE_TRAINING\<rparr>)"
  by (cases xs) (simp_all add: train_sample_def Let_def split: option.split)

text \<open>Chunks received one after the other; the reference chunks are those being sent.\<close>

fun ec_chunks :: "(u8 list \<times> u8 list) list \<Rightarrow> 'a chan_echo_scheme \<Rightarrow> u8 list \<times> 'a chan_echo_scheme" where
  "ec_chunks [] c = ([], c)"
| "ec_chunks ((rx, tx) # cks) c = (let (out, c) = ec_chunk rx rx tx c; (out', c) = ec_chunks cks c in (out @ out', c))"

lemma ec_chunk_mute:
  assumes "ec_state c = Some ec" and "mode_mute (ec_mode ec)"
  obtains d where "ec_chunk rx rx tx c = (replicate (length rx) (DAHDI_LIN2X 0 (xlaw c)), d)"
    and "ec_state d = Some (fold train_sample (linear c rx) ec)" and "xlaw d = xlaw c"
proof -
  let ?c = "if readchunkpreec c then c\<lparr>preec := linear c rx\<rparr> else c"
  let ?d = "?c\<lparr>ec_state := Some (fold train_sample (linear c rx) ec)\<rparr>"
  have "linear ?c rx = linear c rx" "ec_state ?c = Some ec" by (simp_all add: linear_def assms(1))
  then have "ec_chunk rx rx tx c = (replicate (length rx) (DAHDI_LIN2X 0 (xlaw c)), ?d)"
    using assms(2) by (simp add: ec_chunk_def Let_def companded_def map_replicate_const comp_def)
  then show ?thesis by (rule that) simp_all
qed

lemma mute_kept:
  "mode_mute (ec_mode (fold train_sample (xs @ ys) ec)) \<Longrightarrow> mode_mute (ec_mode (fold train_sample xs ec))"
  using fold_train_idle [of "fold train_sample xs ec" ys]
  by (cases "ec_mode (fold train_sample xs ec)") (auto simp: mode_mute_def)

lemma ec_chunks_mute:
  "ec_state c = Some ec \<Longrightarrow> cks \<noteq> [] \<longrightarrow> mode_mute (ec_mode (fold train_sample (linear c (concat (map fst (butlast cks)))) ec)) \<Longrightarrow>
   \<exists>d. ec_chunks cks c = (replicate (length (concat (map fst cks))) (DAHDI_LIN2X 0 (xlaw c)), d) \<and> xlaw d = xlaw c \<and>
     ec_state d = Some (fold train_sample (linear c (concat (map fst cks))) ec)"
proof (induction cks arbitrary: c ec)
  case Nil
  then show ?case by (simp add: linear_def)
next
  case (Cons ck cks)
  obtain rx tx where ck: "ck = (rx, tx)" by fastforce
  have m0: "mode_mute (ec_mode (fold train_sample (linear c (concat (map fst (butlast (ck # cks))))) ec))" using Cons.prems(2) by simp
  have "mode_mute (ec_mode ec)" using mute_kept [of "[]" _ ec] m0 by simp
  then obtain d where d: "ec_chunk rx rx tx c = (replicate (length rx) (DAHDI_LIN2X 0 (xlaw c)), d)"
      "ec_state d = Some (fold train_sample (linear c rx) ec)" "xlaw d = xlaw c"
    using ec_chunk_mute [OF Cons.prems(1), of rx tx] by blast
  have l: "linear d xs = linear c xs" for xs using d(3) by (simp add: linear_def)
  have "cks \<noteq> [] \<longrightarrow> mode_mute (ec_mode (fold train_sample (linear d (concat (map fst (butlast cks)))) (fold train_sample (linear c rx) ec)))"
    using m0 by (auto simp: ck linear_def d(3))
  from Cons.IH [OF d(2) this] obtain d' where d': "ec_chunks cks d = (replicate (length (concat (map fst cks))) (DAHDI_LIN2X 0 (xlaw d)), d')"
      "xlaw d' = xlaw d" "ec_state d' = Some (fold train_sample (linear d (concat (map fst cks))) (fold train_sample (linear c rx) ec))"
    by blast
  then show ?case using d(1,3) by (simp add: ck linear_def replicate_add)
qed

text \<open>C30. Training: the canceller is fed the samples received after the impulse one by one, tap after
  tap from zero, until it says that it has enough; then it is active. What the user receives in the
  meantime, to the end of the chunk in which training ends, is silence, and the samples that follow
  in that chunk are not fed.\<close>

theorem echo_training_feeds_taps:
  assumes "ec_state c = Some ec" and "ec_mode ec = ECHO_MODE_AWAITINGECHO" and "ops_traintap (ec_ops ec) = Some f"
    and "linear c (concat (map fst cks)) = xs @ x # ys" and "length (concat (map fst (butlast cks))) \<le> length xs"
    and "length xs + 1 < 2 ^ 32" and "taps_needed f (ec_calls ec) 0 xs"
    and "f (ec_calls ec @ tap_calls 0 xs) (int (length xs)) x \<noteq> 0"
  shows "\<exists>d ec'. ec_chunks cks c = (replicate (length (concat (map fst cks))) (DAHDI_LIN2X 0 (xlaw c)), d) \<and>
     ec_state d = Some ec' \<and> ec_mode ec' = ECHO_MODE_ACTIVE \<and> ec_calls ec' = ec_calls ec @ tap_calls 0 (xs @ [x])"
proof -
  let ?n = "length (concat (map fst (butlast cks)))"
  let ?t = "ec\<lparr>last_train_tap := 0, ec_mode := ECHO_MODE_TRAINING\<rparr>"
  have ne: "cks \<noteq> []" using assms(4) by (auto simp: linear_def)
  have first: "linear c (concat (map fst (butlast cks))) = take ?n xs"
  proof -
    have "concat (map fst (butlast cks @ [last cks])) = concat (map fst (butlast cks)) @ fst (last cks)" by simp
    then have "concat (map fst cks) = concat (map fst (butlast cks)) @ fst (last cks)"
      unfolding append_butlast_last_id [OF ne] .
    then have "linear c (concat (map fst (butlast cks))) = take ?n (linear c (concat (map fst cks)))" by (simp add: linear_def)
    then show ?thesis using assms(4,5) by simp
  qed
  have ndt: "taps_needed f (ec_calls ?t) 0 (take ?n xs)"
  proof -
    have "take i (tap_calls 0 (take ?n xs)) = take i (tap_calls 0 xs)" if "i < ?n" for i
      using that assms(5) by (simp add: tap_calls_def take_map)
    then show ?thesis using assms(5,7) by (simp add: taps_needed_def)
  qed
  have "mode_mute (ec_mode (fold train_sample (take ?n xs) ec))"
  proof (cases "take ?n xs = []")
    case True
    show ?thesis unfolding True using assms(2) by (simp add: mode_mute_def)
  next
    case False
    have "fold train_sample (take ?n xs) ?t = ?t\<lparr>ec_calls := ec_calls ?t @ tap_calls 0 (take ?n xs), last_train_tap := int (0 + length (take ?n xs))\<rparr>"
      by (rule train_goes_on [OF _ _ _ _ ndt]) (use assms(3,5,6) in simp_all)
    then show ?thesis using train_awaiting [OF assms(2) False] by (simp add: mode_mute_def)
  qed
  then have "cks \<noteq> [] \<longrightarrow> mode_mute (ec_mode (fold train_sample (linear c (concat (map fst (butlast cks)))) ec))"
    unfolding first by simp
  from ec_chunks_mute [OF assms(1) this] obtain d where d:
      "ec_chunks cks c = (replicate (length (concat (map fst cks))) (DAHDI_LIN2X 0 (xlaw c)), d)"
      "ec_state d = Some (fold train_sample (xs @ x # ys) ec)"
    unfolding assms(4) by (elim exE conjE) (rule that; assumption)
  have "fold train_sample (xs @ x # ys) ?t = ?t\<lparr>ec_calls := ec_calls ?t @ tap_calls 0 xs @ [Ec_traintap (int (0 + length xs)) x],
     last_train_tap := int (0 + length xs + 1), ec_mode := ECHO_MODE_ACTIVE\<rparr>"
    by (rule train_ends) (use assms(3,6-8) in simp_all)
  moreover have "tap_calls 0 (xs @ [x]) = tap_calls 0 xs @ [Ec_traintap (int (length xs)) x]"
    by (simp add: tap_calls_def nth_append cong: map_cong)
  ultimately show ?thesis using d train_awaiting [OF assms(2), of "xs @ x # ys"] by simp
qed

section \<open>References on the modules\<close>

text \<open>
  A channel holds a reference on the module of its factory, and another one on the module of the
  instance it runs. The requests that can change them, with a canceller that keeps the rule that a
  successful creation gives an instance.
\<close>

definition ec_ok :: "'a chan_echo_scheme \<Rightarrow> bool" where
  "ec_ok c \<longleftrightarrow> (ec_current c = None \<longleftrightarrow> ec_state c = None)"

definition ec_holds :: "nat \<Rightarrow> 'a chan_echo_scheme \<Rightarrow> int" where
  "ec_holds f c = of_bool (ec_factory c = Some f) + of_bool (ec_current c = Some f)"

definition creates :: "echocan_env \<Rightarrow> bool" where
  "creates e \<longleftrightarrow> (\<forall>f taps params. fst (fac_create e f taps params) = 0 \<longrightarrow> snd (fac_create e f taps params) \<noteq> None)"

inductive ec_request :: "'a chan_echo_scheme \<times> echocan_env \<Rightarrow> 'a chan_echo_scheme \<times> echocan_env \<Rightarrow> bool" where
  attach: "attach_echocan alloc overrides echocan_name name c e = (r, d, e') \<Longrightarrow> ec_request (c, e) (d, e')"
| cancel: "ioctl_echocancel alloc deftaps taps n arg c e = (r, d, e') \<Longrightarrow> ec_request (c, e) (d, e')"
| train: "ioctl_echotrain j c = (r, d) \<Longrightarrow> ec_request (c, e) (d, e)"
| fax: "ioctl_fax_mode j c = (r, d) \<Longrightarrow> ec_request (c, e) (d, e)"
| chunk: "ec_chunk rx preecchunk tx c = (out, d) \<Longrightarrow> ec_request (c, e) (d, e)"

text \<open>What the requests that only work on the instance leave alone.\<close>

definition ec_frame :: "'a chan_echo_scheme \<Rightarrow> 'a chan_echo_scheme \<Rightarrow> bool" where
  "ec_frame c d \<longleftrightarrow> ec_factory d = ec_factory c \<and> ec_current d = ec_current c \<and> (ec_state d = None \<longleftrightarrow> ec_state c = None)"

lemma ec_frame_refl [simp]: "ec_frame c c"
  by (simp add: ec_frame_def)

lemma ec_frame_trans: "ec_frame c d \<Longrightarrow> ec_frame d e \<Longrightarrow> ec_frame c e"
  by (simp add: ec_frame_def)

lemma qevent_echo [simp]:
  "ec_state (qevent c e) = ec_state c" "ec_factory (qevent c e) = ec_factory c" "ec_current (qevent c e) = ec_current c"
  by (simp_all add: qevent_def Let_def)

lemma set_ec_mode_frame: "ec_frame c (set_ec_mode m (qevent c e))" "ec_frame c (set_ec_mode m c)" "ec_frame c (log_ec k c)"
  "ec_frame c (qevent c e)" "ec_frame c (set_ec_mode m (log_ec k (qevent c e)))"
  by (simp_all add: ec_frame_def set_ec_mode_def log_ec_def)

lemma fax_mode_frame: "ec_frame c (set_echocan_fax_mode b c)"
  by (cases "ec_state c") (simp_all add: set_echocan_fax_mode_def set_ec_mode_frame)

lemma ec_ced_frame: "ec_frame c (ec_ced e c)"
  using ec_frame_trans [OF set_ec_mode_frame(4) fax_mode_frame, of c True e]
  by (cases "ec_state c") (simp_all add: ec_ced_def Let_def set_ec_mode_frame)

lemma process_events_frame: "ec_frame c (process_echocan_events evs c)"
proof -
  have s: "ec_frame c d \<Longrightarrow> ec_frame c (if b then f d else d)" if "\<And>d. ec_frame d (f d)" for b f and d :: "'a chan_echo_scheme"
    using that ec_frame_trans by auto
  show ?thesis unfolding process_echocan_events_def Let_def
    by (intro s ec_ced_frame set_ec_mode_frame ec_frame_refl)
qed

lemma ec_process_frame: "ec_process rx pre tx ec c = (out, evs, d) \<Longrightarrow> ec_frame c d"
  by (auto simp: ec_process_def set_ec_mode_frame Let_def split: option.splits prod.splits)

lemma ec_chunk_frame:
  assumes "ec_chunk rx pre tx c = (out, d)"
  shows "ec_frame c d"
proof -
  define c1 where "c1 = (if readchunkpreec c then c\<lparr>preec := linear c pre\<rparr> else c)"
  have f1: "ec_frame c c1" by (simp add: c1_def ec_frame_def)
  show ?thesis
  proof (cases "ec_state c1")
    case None
    with assms f1 show ?thesis by (simp add: ec_chunk_def c1_def [symmetric])
  next
    case (Some ec)
    let ?c2 = "c1\<lparr>ec_state := Some (ec\<lparr>ec_events := {}\<rparr>)\<rparr>"
    obtain o3 evs c3 where p: "ec_process rx pre tx ec ?c2 = (o3, evs, c3)" by (metis prod_cases3)
    let ?c4 = "c3\<lparr>ec_state := map_option (ec_events_update (\<lambda>_. evs)) (ec_state c3)\<rparr>"
    have "ec_frame c ?c2" using f1 Some by (simp add: ec_frame_def)
    moreover have "ec_frame c3 ?c4" by (simp add: ec_frame_def)
    ultimately have f4: "ec_frame c ?c4" using ec_frame_trans ec_process_frame [OF p] by blast
    have "d = c1\<lparr>ec_state := Some (fold train_sample (linear c pre) ec)\<rparr> \<or> d = c1 \<or> d = ?c4 \<or> d = process_echocan_events evs ?c4"
      using assms Some p unfolding ec_chunk_def c1_def [symmetric] Let_def
      by (auto simp: linear_def c1_def split: if_splits)
    moreover have "ec_frame c (c1\<lparr>ec_state := Some (fold train_sample (linear c pre) ec)\<rparr>)"
      using f1 Some by (simp add: ec_frame_def)
    ultimately show ?thesis using f1 f4 ec_frame_trans [OF f4 process_events_frame] by blast
  qed
qed

definition ec_balanced :: "'a chan_echo_scheme \<times> echocan_env \<Rightarrow> 'a chan_echo_scheme \<times> echocan_env \<Rightarrow> bool" where
  "ec_balanced = (\<lambda>(c, e) (d, e'). fac_create e' = fac_create e \<and> (ec_ok c \<longrightarrow> ec_ok d) \<and>
     (\<forall>f. mod_refs e' f - ec_holds f d = mod_refs e f - ec_holds f c))"

lemma ec_balanced_trans: "ec_balanced s t \<Longrightarrow> ec_balanced t u \<Longrightarrow> ec_balanced s u"
  by (auto simp: ec_balanced_def split: prod.splits)

lemma frame_balanced: "ec_frame c d \<Longrightarrow> ec_balanced (c, e) (d, e)"
  by (simp add: ec_balanced_def ec_frame_def ec_ok_def ec_holds_def)

lemma module_get_refs:
  "module_get f e = (b, e') \<Longrightarrow> fac_create e' = fac_create e \<and> fac_name e' = fac_name e \<and>
   mod_refs e' = (if b then (mod_refs e)(f := mod_refs e f + 1) else mod_refs e)"
  by (auto simp: module_get_def split: if_splits)

lemma release_refs:
  "fac_create (release_echocan fo e) = fac_create e"
  "mod_refs (release_echocan fo e) g = mod_refs e g - of_bool (fo = Some g)"
  by (auto simp: release_echocan_def split: option.splits)

lemma find_echocan_refs:
  "find_echocan alloc name e = (fo, e') \<Longrightarrow>
   fac_create e' = fac_create e \<and> (\<forall>g. mod_refs e' g = mod_refs e g + of_bool (fo = Some g))"
  by (auto simp: find_echocan_def found_echocan_def module_get_def Let_def split: if_splits option.splits)

lemma attach_balanced:
  assumes "attach_echocan alloc ov en name c e = (r, d, e')"
  shows "ec_balanced (c, e) (d, e')"
proof -
  define nm where "nm = (if is_hwec_available en c \<and> ov then ''HWEC'' else name)"
  note d = assms [unfolded attach_echocan_def Let_def, folded nm_def]
  show ?thesis
  proof (cases "nm = []")
    case True
    with d show ?thesis
      by (auto simp: swap_factory_def ec_balanced_def ec_ok_def ec_holds_def release_refs)
  next
    case False
    obtain fo e1 where f: "find_echocan alloc nm e = (fo, e1)" by fastforce
    note r = find_echocan_refs [OF f]
    show ?thesis
    proof (cases fo)
      case None
      with d f False r show ?thesis by (simp add: ec_balanced_def)
    next
      case (Some g)
      with d f False r show ?thesis
        by (auto simp: swap_factory_def ec_balanced_def ec_ok_def ec_holds_def release_refs split: if_splits)
    qed
  qed
qed

lemma drop_balanced: "ec_ok c \<Longrightarrow> drop_echocan c e = (d, e') \<Longrightarrow> ec_balanced (c, e) (d, e') \<and> ec_state d = None \<and> ec_current d = None"
  by (auto simp: drop_echocan_def ec_balanced_def ec_ok_def ec_holds_def release_refs)

lemma create_balanced:
  assumes "create_echocan taps params f c e = (r, d, e')" and "ec_ok c" and "ec_state c = None" and "creates e"
  shows "ec_balanced (c, e) (d, e')"
proof -
  have cur: "ec_current c = None" using assms(2,3) by (simp add: ec_ok_def)
  obtain b e1 where m: "module_get f e = (b, e1)" by fastforce
  note mr = module_get_refs [OF m]
  show ?thesis
  proof (cases b)
    case False
    with assms(1) m mr show ?thesis by (simp add: create_echocan_def ec_balanced_def)
  next
    case True
    obtain ret ec where cr: "fac_create e1 f taps params = (ret, ec)" by fastforce
    show ?thesis
    proof (cases "ret = 0")
      case False
      with assms(1) m cr True mr show ?thesis by (auto simp: create_echocan_def ec_balanced_def release_refs)
    next
      case r0: True
      have "fst (fac_create e f taps params) = 0" "snd (fac_create e f taps params) = ec" using cr mr r0 by simp_all
      then obtain i where i: "ec = Some i" using assms(4) unfolding creates_def by blast
      with assms(1) m cr True mr cur r0 show ?thesis
        by (auto simp: create_echocan_def start_echocan_def ec_balanced_def ec_ok_def ec_holds_def Let_def)
    qed
  qed
qed

lemma echocancel_balanced:
  assumes "ioctl_echocancel alloc dt taps n arg c e = (r, d, e')" and "ec_ok c" and "creates e"
  shows "ec_balanced (c, e) (d, e')"
proof -
  obtain c1 e1 where dr: "drop_echocan c e = (c1, e1)" by fastforce
  note db = drop_balanced [OF assms(2) dr]
  have cr: "creates e1" "ec_ok c1" using db assms(2,3) by (simp_all add: ec_balanced_def creates_def)
  have "(d = c \<and> e' = e) \<or> (d = c1 \<and> e' = e1) \<or>
      (\<exists>params f. create_echocan (echo_taps dt taps) params f c1 e1 = (r, d, e'))"
    using assms(1) dr unfolding ioctl_echocancel_def by (auto split: if_splits option.splits)
  then consider "d = c" "e' = e" | "d = c1" "e' = e1"
    | params f where "create_echocan (echo_taps dt taps) params f c1 e1 = (r, d, e')" by blast
  then show ?thesis
  proof cases
    case 1
    then show ?thesis using frame_balanced [OF ec_frame_refl] by blast
  next
    case 2
    with db show ?thesis by blast
  next
    case 3
    have "ec_balanced (c1, e1) (d, e')" using create_balanced [OF 3 cr(2) _ cr(1)] db by simp
    with conjunct1 [OF db] show ?thesis by (rule ec_balanced_trans)
  qed
qed

lemma request_balanced: "ec_request s t \<Longrightarrow> ec_ok (fst s) \<Longrightarrow> creates (snd s) \<Longrightarrow> ec_balanced s t"
proof (induction rule: ec_request.induct)
  case (attach alloc ov en name c e r d e')
  then show ?case by (simp add: attach_balanced)
next
  case (cancel alloc dt taps n arg c e r d e')
  then show ?case by (simp add: echocancel_balanced)
next
  case (train j c r d e)
  then have "ec_frame c d" by (auto simp: ioctl_echotrain_def ec_frame_def split: if_splits option.splits)
  then show ?case by (rule frame_balanced)
next
  case (fax j c r d e)
  then have "ec_frame c d" using fax_mode_frame [of c "j \<noteq> 0"] by (auto simp: ioctl_fax_mode_def split: if_splits)
  then show ?case by (rule frame_balanced)
next
  case (chunk rx pre tx c out d e)
  then show ?case by (intro frame_balanced ec_chunk_frame)
qed

text \<open>C31. The modules of echo cancellers stay referenced exactly while they are in use: through any
  sequence of requests and chunks on a channel, the references on a module change by what the channel
  gains or loses, so a module whose count is zero serves no channel, and none is held for ever.\<close>

theorem echocan_references_balanced:
  assumes "ec_request\<^sup>*\<^sup>* (c, e) (d, e')" and "ec_ok c" and "creates e"
  shows "ec_ok d \<and> mod_refs e' f = mod_refs e f + ec_holds f d - ec_holds f c"
proof -
  have "ec_balanced (c, e) t \<and> ec_ok (fst t) \<and> creates (snd t)" if "ec_request\<^sup>*\<^sup>* (c, e) t" for t
    using that
  proof (induction rule: rtranclp_induct)
    case base
    with assms(2,3) frame_balanced [OF ec_frame_refl] show ?case by (metis fst_conv snd_conv)
  next
    case (step t u)
    then have b: "ec_balanced t u" using request_balanced by blast
    then have "ec_ok (fst u)" "creates (snd u)"
      using step.IH by (auto simp: ec_balanced_def creates_def split: prod.splits)
    with b step.IH ec_balanced_trans show ?case by blast
  qed
  from this [OF assms(1)] have b: "ec_balanced (c, e) (d, e')" "ec_ok d" by simp_all
  then have "mod_refs e' f - ec_holds f d = mod_refs e f - ec_holds f c" by (simp add: ec_balanced_def)
  with b(2) show ?thesis by linarith
qed

text \<open>A creation that reports success without an instance keeps its reference for ever.\<close>

lemma create_nothing_leaks:
  assumes "module_get f e = (True, e1)" and "fac_create e f taps params = (0, None)"
  shows "create_echocan taps params f c e = (- EFAULT, c, e1) \<and> mod_refs e1 f = mod_refs e f + 1"
proof -
  note m = module_get_refs [OF assms(1)]
  then have "fac_create e1 f taps params = (0, None)" using assms(2) by simp
  with assms(1) m show ?thesis by (simp add: create_echocan_def)
qed

text \<open>A module that cannot be referenced is reported as a success.\<close>

lemma create_dead_module_succeeds:
  "\<not> fac_alive e f \<Longrightarrow> create_echocan taps params f c e = (0, c, e)"
  by (simp add: create_echocan_def module_get_def)

text \<open>The detector never forgets: once it has hit it hits on every sample, so a canceller that is
  switched back to voice goes to fax mode again at once.\<close>

lemma detector_never_forgets: "det_hit det \<Longrightarrow> fst (echo_can_disable_detector_update det amp)"
  by (simp add: echo_can_disable_detector_update_def Let_def split: prod.split)

section \<open>Examples\<close>

definition echo_demo_ec :: "echocan_mode \<Rightarrow> echocan_state" where
  "echo_demo_ec m = \<lparr>ec_ops = \<lparr>ops_process = None, ops_events = None, ops_traintap = Some (\<lambda>log pos v. of_bool (2 \<le> pos))\<rparr>,
     ec_calls = [], txecdis = echo_can_disable_detector_init, rxecdis = echo_can_disable_detector_init,
     ec_features = \<lparr>CED_tx_detect = True, CED_rx_detect = True, NLP_toggle = False, NLP_automatic = False\<rparr>,
     ec_mode = m, last_train_tap = 0, pretrain_timer = 0, ec_events = {}\<rparr>"

definition echo_demo_chan :: "echocan_state option \<Rightarrow> chan_echo" where
  "echo_demo_chan ec = chan_buf.extend (buf_demo_chan {FLAG_AUDIO})
     \<lparr>ec_state = ec, ec_current = None, ec_factory = None, preec = replicate 8 0\<rparr>"

definition echo_demo_env :: echocan_env where
  "echo_demo_env = \<lparr>fac_list = [1], fac_name = \<lambda>f n. Some ''MG2'', fac_alive = \<lambda>f. True,
     fac_create = \<lambda>f taps params. (0, Some (echo_demo_ec ECHO_MODE_IDLE)), fac_request = \<lambda>s l. l, mod_refs = \<lambda>f. 0\<rparr>"

lemma echo_demo_sel [simp]:
  "ec_state (echo_demo_chan ec) = ec" "xlaw (echo_demo_chan ec) = MULAW" "ec_factory (echo_demo_chan ec) = None"
  "ec_current (echo_demo_chan ec) = None"
  by (simp_all add: echo_demo_chan_def chan_buf.extend_def buf_demo_chan_def chan_tone.extend_def tone_demo_chan_def
      chan_rbs.extend_def rbs_demo_chan_def)

theorem echo_training_feeds_taps_witness:
  "\<exists>d ec'. ec_chunks [([1, 2, 3, 4], [])] (echo_demo_chan (Some (echo_demo_ec ECHO_MODE_AWAITINGECHO)))
       = (replicate 4 (DAHDI_LIN2X 0 MULAW), d) \<and>
     ec_state d = Some ec' \<and> ec_mode ec' = ECHO_MODE_ACTIVE \<and> length (ec_calls ec') = 3"
proof -
  let ?c = "echo_demo_chan (Some (echo_demo_ec ECHO_MODE_AWAITINGECHO))" and ?l = "\<lambda>x. DAHDI_XLAW x MULAW"
  let ?cks = "[([1, 2, 3, 4], [])] :: (u8 list \<times> u8 list) list"
  have "\<exists>d ec'. ec_chunks ?cks ?c = (replicate (length (concat (map fst ?cks))) (DAHDI_LIN2X 0 (xlaw ?c)), d) \<and>
     ec_state d = Some ec' \<and> ec_mode ec' = ECHO_MODE_ACTIVE \<and>
     ec_calls ec' = ec_calls (echo_demo_ec ECHO_MODE_AWAITINGECHO) @ tap_calls 0 ([?l 1, ?l 2] @ [?l 3])"
    by (rule echo_training_feeds_taps [where f = "\<lambda>log pos v. of_bool (2 \<le> pos)" and ys = "[?l 4]"])
      (auto simp: echo_demo_ec_def linear_def taps_needed_def less_Suc_eq)
  then show ?thesis by (auto simp: echo_demo_ec_def numeral_eq_Suc simp del: ec_chunks.simps)
qed

theorem echocan_references_balanced_witness:
  "\<exists>d e'. ec_request\<^sup>*\<^sup>* (echo_demo_chan None, echo_demo_env) (d, e') \<and> ec_current d = Some 1 \<and> mod_refs e' 1 = 2"
proof -
  let ?c = "echo_demo_chan None" and ?e = echo_demo_env
  obtain r1 c1 e1 where a: "attach_echocan True False None ''mg2'' ?c ?e = (r1, c1, e1)" by (metis prod_cases3)
  obtain r2 c2 e2 where b: "ioctl_echocancel True 64 128 0 (Some []) c1 e1 = (r2, c2, e2)" by (metis prod_cases3)
  have up: "char_upper CHR ''m'' = CHR ''M''" "char_upper CHR ''g'' = CHR ''G''" "char_upper CHR ''2'' = CHR ''2''" by code_simp+
  have c1: "ec_factory c1 = Some 1" "ec_state c1 = None" "fac_alive e1 1" "snd (fac_create e1 1 128 []) = Some (echo_demo_ec ECHO_MODE_IDLE)"
      "fst (fac_create e1 1 128 []) = 0"
    using a by (auto simp: attach_echocan_def is_hwec_available_def find_echocan_def up find_in_list_def found_echocan_def
        module_get_def swap_factory_def echo_demo_env_def release_echocan_def Let_def)
  have c2: "ec_current c2 = Some 1" "ec_factory c2 = Some 1"
    using b c1 by (auto simp: ioctl_echocancel_def drop_echocan_def create_echocan_def module_get_def echo_taps_def
        start_echocan_def Let_def split: prod.splits)
  have "ec_request\<^sup>*\<^sup>* (?c, ?e) (c2, e2)"
    using ec_request.attach [OF a] ec_request.cancel [OF b] by simp
  moreover have "mod_refs e2 1 = mod_refs ?e 1 + ec_holds 1 c2 - ec_holds 1 ?c"
    using echocan_references_balanced [OF calculation, of 1]
    by (simp add: ec_ok_def creates_def echo_demo_env_def)
  then have "mod_refs e2 1 = 2"
    using c2 by (simp add: ec_holds_def echo_demo_env_def)
  ultimately show ?thesis using c2 by blast
qed

end
