(* ===== verification/Conference.thy ===== *)
theory Conference
  imports ConfQueue Registry
begin

text \<open>
  Conferences of \<^verbatim>\<open>dahdi-base.c\<close>: the alias tables that give each conference in use
  a small index into the sample accumulators, joining and leaving
  (\<open>dahdi_ioctl_setconf\<close>, \<open>dahdi_check_conf\<close>), and the invariants: the two tables are
  inverse to each other, \<open>maxconfs\<close> bounds the indices in use, and a channel that takes
  part in a conference holds the index the tables give it. \<open>None\<close> as a result stands
  for an access outside an array or through a null pointer.
\<close>

section \<open>State\<close>

abbreviation (input) DAHDI_MAX_CONF :: nat where "DAHDI_MAX_CONF \<equiv> 1024"
abbreviation (input) CONF_MODE_MASK :: int where "CONF_MODE_MASK \<equiv> 0xff"
abbreviation (input) CONF_MONITOR :: int where "CONF_MONITOR \<equiv> 1"
abbreviation (input) CONF_MONITORTX :: int where "CONF_MONITORTX \<equiv> 2"
abbreviation (input) CONF_MONITORBOTH :: int where "CONF_MONITORBOTH \<equiv> 3"
abbreviation (input) CONF_CONF :: int where "CONF_CONF \<equiv> 4"
abbreviation (input) CONF_CONFANN :: int where "CONF_CONFANN \<equiv> 5"
abbreviation (input) CONF_CONFMON :: int where "CONF_CONFMON \<equiv> 6"
abbreviation (input) CONF_CONFANNMON :: int where "CONF_CONFANNMON \<equiv> 7"
abbreviation (input) CONF_REALANDPSEUDO :: int where "CONF_REALANDPSEUDO \<equiv> 8"
abbreviation (input) CONF_DIGITALMON :: int where "CONF_DIGITALMON \<equiv> 9"
abbreviation (input) CONF_MONITOR_RX_PREECHO :: int where "CONF_MONITOR_RX_PREECHO \<equiv> 10"
abbreviation (input) CONF_MONITOR_TX_PREECHO :: int where "CONF_MONITOR_TX_PREECHO \<equiv> 11"
abbreviation (input) CONF_MONITORBOTH_PREECHO :: int where "CONF_MONITORBOTH_PREECHO \<equiv> 12"

record conf_tables =
  confalias :: "int list"
  confrev :: "int list"
  maxconfs :: int

record 'c world =
  w_spans :: "'c reg_span list"
  w_pseudos :: "'c list"
  w_tables :: conf_tables

section \<open>The alias tables\<close>

fun first_empty_alias_from :: "nat \<Rightarrow> nat \<Rightarrow> int list \<Rightarrow> int" where
  "first_empty_alias_from 0 x rv = -1"
| "first_empty_alias_from (Suc k) x rv =
     (if rv ! x = 0 then int x else first_empty_alias_from k (x + 1) rv)"

definition first_empty_alias :: "conf_tables \<Rightarrow> int" where
  "first_empty_alias t = first_empty_alias_from (DAHDI_MAX_CONF - 1) 1 (confrev t)"

fun highest_alias :: "nat \<Rightarrow> int list \<Rightarrow> int" where
  "highest_alias 0 rv = 0"
| "highest_alias (Suc x) rv = (if rv ! Suc x \<noteq> 0 then int (Suc x) + 1 else highest_alias x rv)"

definition recalc_maxconfs :: "conf_tables \<Rightarrow> conf_tables" where
  "recalc_maxconfs t = t\<lparr>maxconfs := highest_alias (DAHDI_MAX_CONF - 1) (confrev t)\<rparr>"

fun first_empty_conference_from :: "nat \<Rightarrow> int list \<Rightarrow> int" where
  "first_empty_conference_from 0 al = -1"
| "first_empty_conference_from (Suc x) al =
     (if al ! Suc x = 0 then int (Suc x) else first_empty_conference_from x al)"

definition first_empty_conference :: "conf_tables \<Rightarrow> int" where
  "first_empty_conference t = first_empty_conference_from (DAHDI_MAX_CONF - 1) (confalias t)"

definition get_conf_alias :: "int \<Rightarrow> conf_tables \<Rightarrow> (int \<times> conf_tables) option" where
  "get_conf_alias x t =
     (if x < 0 \<or> int DAHDI_MAX_CONF < x then None
      else if confalias t ! nat x \<noteq> 0 then Some (confalias t ! nat x, t)
      else
        (let a = first_empty_alias t in
         if a < 0 then None
         else Some (a, recalc_maxconfs
                (t\<lparr>confalias := (confalias t)[nat x := a],
                  confrev := (confrev t)[nat a := x]\<rparr>))))"

definition conf_mode :: "'a chan_conf_scheme \<Rightarrow> int" where
  "conf_mode c = confmode c AND CONF_MODE_MASK"

definition joining_mode :: "int \<Rightarrow> bool" where
  "joining_mode m \<longleftrightarrow> m = CONF_CONF \<or> m = CONF_CONFANN \<or> m = CONF_CONFMON \<or>
     m = CONF_CONFANNMON \<or> m = CONF_REALANDPSEUDO"

definition chan_in_conf :: "int \<Rightarrow> 'a chan_conf_scheme \<Rightarrow> int" where
  "chan_in_conf x c = (if confna c = x \<and> joining_mode (conf_mode c) then 1 else 0)"

definition is_monitor_mode :: "int \<Rightarrow> bool" where
  "is_monitor_mode m \<longleftrightarrow> (let m = m AND CONF_MODE_MASK in
     m = CONF_MONITOR \<or> m = CONF_MONITORTX \<or> m = CONF_MONITORBOTH \<or>
     m = CONF_MONITOR_RX_PREECHO \<or> m = CONF_MONITOR_TX_PREECHO \<or> m = CONF_MONITORBOTH_PREECHO)"

definition check_conf_tables :: "int \<Rightarrow> 'a chan_conf_scheme list \<Rightarrow> conf_tables \<Rightarrow> conf_tables option" where
  "check_conf_tables x chans t =
     (if x \<le> 0 then Some t
      else if int DAHDI_MAX_CONF < x then None
      else if confalias t ! nat x = 0 then Some t
      else if for_each_channel (chan_in_conf x) chans \<noteq> 0 then Some t
      else Some (recalc_maxconfs
             (t\<lparr>confrev := (confrev t)[nat (confalias t ! nat x) := 0],
               confalias := (confalias t)[nat x := 0]\<rparr>)))"

section \<open>Channels of the world\<close>

definition w_chans :: "'a chan_conf_scheme world \<Rightarrow> 'a chan_conf_scheme list" where
  "w_chans w = all_channels (w_spans w) (w_pseudos w)"

definition w_lookup :: "'a chan_conf_scheme world \<Rightarrow> int \<Rightarrow> 'a chan_conf_scheme option" where
  "w_lookup w n = chan_from_num (w_spans w) (w_pseudos w) n"

definition at_chan :: "int \<Rightarrow> ('a chan_conf_scheme \<Rightarrow> 'a chan_conf_scheme) \<Rightarrow>
    'a chan_conf_scheme \<Rightarrow> 'a chan_conf_scheme" where
  "at_chan n f c = (if channo c = n then f c else c)"

definition w_update :: "int \<Rightarrow> ('a chan_conf_scheme \<Rightarrow> 'a chan_conf_scheme) \<Rightarrow>
    'a chan_conf_scheme world \<Rightarrow> 'a chan_conf_scheme world" where
  "w_update n f w = w\<lparr>w_spans := map (\<lambda>s. s\<lparr>rs_chans := map (at_chan n f) (rs_chans s)\<rparr>) (w_spans w),
     w_pseudos := map (at_chan n f) (w_pseudos w)\<rparr>"

definition check_conf :: "int \<Rightarrow> 'a chan_conf_scheme world \<Rightarrow> 'a chan_conf_scheme world option" where
  "check_conf x w = map_option (\<lambda>t. w\<lparr>w_tables := t\<rparr>) (check_conf_tables x (w_chans w) (w_tables w))"

text \<open>Board support for samples before echo cancellation, with the driver calls made.\<close>

definition enable_hw_preechocan :: "'a chan_conf_scheme \<Rightarrow> (int \<times> drv_call list) option" where
  "enable_hw_preechocan c =
     (if \<not> hwec c then Some (0, [])
      else (case chan_span c of None \<Rightarrow> None
        | Some s \<Rightarrow> (case op_enable_hw_preechocan (span_operations s) of
            Some r \<Rightarrow> Some (r, [Drv_enable_hw_preechocan])
          | None \<Rightarrow> Some (0, []))))"

definition disable_hw_preechocan :: "'a chan_conf_scheme \<Rightarrow> drv_call list option" where
  "disable_hw_preechocan c = (case chan_span c of None \<Rightarrow> None
     | Some s \<Rightarrow> Some (if op_disable_hw_preechocan (span_operations s)
                       then [Drv_disable_hw_preechocan] else []))"

section \<open>Setting a conference\<close>

record confinfo =
  ci_chan :: int
  ci_confno :: int
  ci_confmode :: int

text \<open>The \<open>memset\<close> of eight octets clears four of the eight 16-bit samples.\<close>

definition clear_octets :: "nat \<Rightarrow> int list \<Rightarrow> int list" where
  "clear_octets n xs = replicate (min (n div 2) (length xs)) 0 @ drop (n div 2) xs"

definition clear_last :: "'a chan_conf_scheme \<Rightarrow> 'a chan_conf_scheme" where
  "clear_last c = c\<lparr>conflast := clear_octets DAHDI_CHUNKSIZE (conflast c),
     conflast1 := clear_octets DAHDI_CHUNKSIZE (conflast1 c),
     conflast2 := clear_octets DAHDI_CHUNKSIZE (conflast2 c)\<rparr>"

text \<open>The cross connect of a digital monitor, when no gain is set on either side.\<close>

definition setconf_dacs :: "int \<Rightarrow> 'a chan_conf_scheme option \<Rightarrow> 'a chan_conf_scheme \<Rightarrow> 'a chan_conf_scheme" where
  "setconf_dacs mode cc c =
     (if chan_op op_dacs c = None then c
      else if mode = CONF_DIGITALMON \<and> txgain c = None \<and> rxgain c = None \<and>
           (case cc of None \<Rightarrow> False | Some x \<Rightarrow> txgain x = None \<and> rxgain x = None)
      then fst (dahdi_chan_dacs c cc)
      else dahdi_disable_dacs c)"

text \<open>Entering the channel into the conference; the alias is taken from the tables.\<close>

definition setconf_join :: "int \<Rightarrow> int \<Rightarrow> int \<Rightarrow> int option \<Rightarrow> 'a chan_conf_scheme world \<Rightarrow>
    'a chan_conf_scheme world option" where
  "setconf_join n confno mode_arg cc w =
     (let mode = mode_arg AND CONF_MODE_MASK;
          w = w_update n (\<lambda>c.
                let c = (if confno \<noteq> confna c then clear_last c else c);
                    c = c\<lparr>confna := confno, conf_chan := cc, confmode := mode_arg, confn := 0\<rparr>
                in setconf_dacs mode (Option.bind cc (w_lookup w)) c) w
      in if confno \<noteq> 0 \<and> joining_mode mode then
           (case get_conf_alias confno (w_tables w) of
              None \<Rightarrow> None
            | Some (a, t) \<Rightarrow> Some (w_update n (\<lambda>c. c\<lparr>confn := a\<rparr>) (w\<lparr>w_tables := t\<rparr>)))
         else Some w)"

text \<open>
  The monitored channel's buffer for samples before echo cancellation. \<open>Inl\<close> is the early
  return of the handler with that value. \<open>alloc\<close> tells whether the allocation succeeds.
\<close>

definition setconf_preec :: "bool \<Rightarrow> int \<Rightarrow> int option \<Rightarrow> 'a chan_conf_scheme world \<Rightarrow>
    ((int \<times> 'a chan_conf_scheme world) + 'a chan_conf_scheme world) option" where
  "setconf_preec alloc mode cc w =
     (case cc of
        None \<Rightarrow> Some (Inr w)
      | Some m \<Rightarrow>
         (case w_lookup w m of
            None \<Rightarrow> None
          | Some c \<Rightarrow>
             (if mode = CONF_MONITOR_RX_PREECHO \<or> mode = CONF_MONITOR_TX_PREECHO \<or>
                 mode = CONF_MONITORBOTH_PREECHO then
                (if readchunkpreec c \<or> \<not> alloc then Some (Inr w)
                 else (case enable_hw_preechocan c of
                         None \<Rightarrow> None
                       | Some (res, ds) \<Rightarrow>
                          Some (Inl (res, w_update m
                            (\<lambda>c. c\<lparr>readchunkpreec := (res = 0), drv_calls := drv_calls c @ ds\<rparr>) w))))
              else
                (case disable_hw_preechocan c of
                   None \<Rightarrow> None
                 | Some ds \<Rightarrow> Some (Inr (w_update m
                     (\<lambda>c. c\<lparr>readchunkpreec := False, drv_calls := drv_calls c @ ds\<rparr>) w))))))"

text \<open>The handler after the conference is chosen: joining, the preecho buffer, release of the old one.\<close>

definition setconf_commit :: "bool \<Rightarrow> bool \<Rightarrow> int option \<Rightarrow> 'a chan_conf_scheme \<Rightarrow> confinfo \<Rightarrow>
    'a chan_conf_scheme world \<Rightarrow> (int \<times> confinfo \<times> 'a chan_conf_scheme world) option" where
  "setconf_commit uout alloc cc c conf w =
     (case setconf_join (channo c) (ci_confno conf) (ci_confmode conf) cc w of
        None \<Rightarrow> None
      | Some w \<Rightarrow>
         (case setconf_preec alloc (ci_confmode conf AND CONF_MODE_MASK) cc w of
            None \<Rightarrow> None
          | Some (Inl (res, w)) \<Rightarrow> Some (res, conf, w)
          | Some (Inr w) \<Rightarrow>
             (case check_conf (confna c) w of
                None \<Rightarrow> None
              | Some w \<Rightarrow> Some (if uout then 0 else - EFAULT, conf, w))))"

text \<open>Choosing a free conference for \<open>-1\<close>; \<open>cc\<close> is the channel to monitor, if any.\<close>

definition setconf_choose :: "bool \<Rightarrow> bool \<Rightarrow> int option \<Rightarrow> 'a chan_conf_scheme \<Rightarrow> confinfo \<Rightarrow>
    'a chan_conf_scheme world \<Rightarrow> (int \<times> confinfo \<times> 'a chan_conf_scheme world) option" where
  "setconf_choose uout alloc cc c conf w =
     (let conf = conf\<lparr>ci_chan := channo c\<rparr>;
          conf = (if ci_confno conf = -1
                  then conf\<lparr>ci_confno := first_empty_conference (w_tables w)\<rparr> else conf) in
      if ci_confno conf < 1 \<and> ci_confmode conf \<noteq> 0 then Some (- EBUSY, conf, w)
      else setconf_commit uout alloc cc c conf w)"

text \<open>
  The handler. \<open>file\<close> is the channel of the open file, \<open>uin\<close> and \<open>uout\<close> tell whether the
  copies from and to the user succeed.
\<close>

definition ioctl_setconf :: "bool \<Rightarrow> bool \<Rightarrow> bool \<Rightarrow> int option \<Rightarrow> confinfo \<Rightarrow> 'a chan_conf_scheme world \<Rightarrow>
    (int \<times> confinfo \<times> 'a chan_conf_scheme world) option" where
  "ioctl_setconf uin uout alloc file conf w =
     (if \<not> uin then Some (- EFAULT, conf, w)
      else
       (let mode = ci_confmode conf AND CONF_MODE_MASK;
            monitor = (mode = CONF_DIGITALMON \<or> is_monitor_mode (ci_confmode conf)) in
        case (if ci_chan conf \<noteq> 0 then w_lookup w (ci_chan conf) else Option.bind file (w_lookup w)) of
          None \<Rightarrow> Some (- EINVAL, conf, w)
        | Some c \<Rightarrow>
           (if FLAG_AUDIO \<notin> chan_flags c then Some (- EINVAL, conf, w)
            else if monitor \<and> w_lookup w (ci_confno conf) = None then Some (- EINVAL, conf, w)
            else if \<not> monitor \<and> (ci_confno conf < -1 \<or> int DAHDI_MAX_CONF < ci_confno conf)
              then Some (- EINVAL, conf, w)
            else if ci_confno conf = 0 \<and> ci_confmode conf \<noteq> 0 then Some (- EINVAL, conf, w)
            else if ci_confmode conf = 0 \<and> ci_confno conf \<noteq> 0 then Some (- EINVAL, conf, w)
            else
             (case check_conf (ci_confno conf) w of
                None \<Rightarrow> None
              | Some w \<Rightarrow>
                 setconf_choose uout alloc
                   (if monitor then map_option channo (w_lookup w (ci_confno conf)) else None) c conf w))))"

definition ioctl_getconf :: "bool \<Rightarrow> bool \<Rightarrow> int option \<Rightarrow> confinfo \<Rightarrow> 'a chan_conf_scheme world \<Rightarrow>
    int \<times> confinfo" where
  "ioctl_getconf uin uout file conf w =
     (if \<not> uin then (- EFAULT, conf)
      else (case (if ci_chan conf = 0 then Option.bind file (w_lookup w) else w_lookup w (ci_chan conf)) of
          None \<Rightarrow> (- EINVAL, conf)
        | Some c \<Rightarrow>
           (if FLAG_AUDIO \<notin> chan_flags c then (- EINVAL, conf)
            else (let conf = \<lparr>ci_chan = channo c, ci_confno = confna c, ci_confmode = confmode c\<rparr>
                  in (if uout then 0 else - EFAULT, conf)))))"


section \<open>Invariants\<close>

definition tables_inv :: "conf_tables \<Rightarrow> bool" where
  "tables_inv t \<longleftrightarrow> length (confalias t) = 1025 \<and> length (confrev t) = 1025 \<and>
     (\<forall>x \<in> {1..1024}. confalias t ! x \<noteq> 0 \<longrightarrow>
        1 \<le> confalias t ! x \<and> confalias t ! x \<le> 1023 \<and> confrev t ! nat (confalias t ! x) = int x) \<and>
     (\<forall>a \<in> {1..1023}. confrev t ! a \<noteq> 0 \<longrightarrow>
        1 \<le> confrev t ! a \<and> confrev t ! a \<le> 1024 \<and> confalias t ! nat (confrev t ! a) = int a) \<and>
     (\<forall>a \<in> {1..1023}. confrev t ! a \<noteq> 0 \<longrightarrow> int a < maxconfs t)"

lemma highest_alias_above: "1 \<le> a \<Longrightarrow> a \<le> n \<Longrightarrow> rv ! a \<noteq> 0 \<Longrightarrow> int a < highest_alias n rv"
proof (induction n)
  case (Suc n)
  then show ?case by (cases "a = Suc n") auto
qed simp

lemma first_empty_alias_from:
  "(first_empty_alias_from k x rv = -1 \<and> (\<forall>a. x \<le> a \<and> a < x + k \<longrightarrow> rv ! a \<noteq> 0)) \<or>
   (\<exists>a. first_empty_alias_from k x rv = int a \<and> x \<le> a \<and> a < x + k \<and> rv ! a = 0)"
proof (induction k x rv rule: first_empty_alias_from.induct)
  case (2 k x rv)
  show ?case
  proof (cases "rv ! x = 0")
    case True
    then show ?thesis by (auto intro: exI [of _ x])
  next
    case False
    have "\<forall>a. x \<le> a \<and> a < x + Suc k \<longrightarrow> a = x \<or> x + 1 \<le> a \<and> a < x + 1 + k" by auto
    with "2.IH" [OF False] False show ?thesis by simp (metis add_Suc_right Suc_leD)
  qed
qed simp

lemma first_empty_alias_cases:
  obtains "first_empty_alias t = -1" "\<forall>a \<in> {1..1023}. confrev t ! a \<noteq> 0"
  | a where "first_empty_alias t = int a" "1 \<le> a" "a \<le> 1023" "confrev t ! a = 0"
  using first_empty_alias_from [of 1023 1 "confrev t"]
  by (auto simp: first_empty_alias_def)

lemma first_empty_conference_from:
  "first_empty_conference_from n al = -1 \<or>
   (\<exists>x. first_empty_conference_from n al = int x \<and> 1 \<le> x \<and> x \<le> n \<and> al ! x = 0)"
proof (induction n)
  case (Suc n)
  then show ?case by (cases "al ! Suc n = 0") (auto intro: exI [of _ "Suc n"] le_SucI)
qed simp

lemma tables_inv_alias:
  assumes "tables_inv t" and "1 \<le> x" "x \<le> 1024" "confalias t ! x \<noteq> 0"
  obtains a where "confalias t ! x = int a" "1 \<le> a" "a \<le> 1023" "confrev t ! a = int x"
proof -
  from assms have "1 \<le> confalias t ! x" "confalias t ! x \<le> 1023" "confrev t ! nat (confalias t ! x) = int x"
    by (auto simp: tables_inv_def)
  with that [of "nat (confalias t ! x)"] show thesis by auto
qed

text \<open>Allocation.\<close>

lemma get_conf_alias_inv:
  assumes inv: "tables_inv t" and "1 \<le> x" and "get_conf_alias x t = Some (a, t')"
  shows "tables_inv t' \<and> x \<le> 1024 \<and> 1 \<le> a \<and> a \<le> 1023 \<and> confalias t' ! nat x = a \<and>
    (\<forall>y. y \<noteq> nat x \<longrightarrow> confalias t' ! y = confalias t ! y) \<and>
    (confalias t ! nat x \<noteq> 0 \<longrightarrow> t' = t)"
proof (cases "confalias t ! nat x = 0")
  case False
  with assms show ?thesis
    by (auto simp: get_conf_alias_def tables_inv_def Let_def split: if_splits dest!: bspec [of _ _ "nat x"])
next
  case True
  from assms True have x: "x \<le> 1024" and a: "a = first_empty_alias t" "0 \<le> first_empty_alias t"
    and t': "t' = recalc_maxconfs (t\<lparr>confalias := (confalias t)[nat x := a],
                  confrev := (confrev t)[nat a := x]\<rparr>)"
    by (auto simp: get_conf_alias_def Let_def split: if_splits)
  obtain n where n: "first_empty_alias t = int n" "1 \<le> n" "n \<le> 1023" "confrev t ! n = 0"
    using a(2) by (cases rule: first_empty_alias_cases [of t]) auto
  have len: "length (confalias t) = 1025" "length (confrev t) = 1025"
    using inv by (auto simp: tables_inv_def)
  have other: "confalias t ! y \<noteq> int n" if "1 \<le> y" "y \<le> 1024" for y
  proof
    assume y: "confalias t ! y = int n"
    with tables_inv_alias [OF inv that] n have "confrev t ! n = int y" by (metis nat_int of_nat_0_eq_iff not_one_le_zero)
    with n that show False by simp
  qed
  have inj: "confrev t ! b \<noteq> x" if "1 \<le> b" "b \<le> 1023" for b
  proof
    assume "confrev t ! b = x"
    with inv that assms(2) have "confalias t ! nat x = int b" by (auto simp: tables_inv_def)
    with True that show False by simp
  qed
  have "tables_inv t'"
    unfolding tables_inv_def t' recalc_maxconfs_def
    using inv n a assms(2) x len other inj highest_alias_above
    by (auto simp: tables_inv_def nth_list_update nat_eq_iff2)
  with t' n a assms(2) x len True show ?thesis by (auto simp: recalc_maxconfs_def nth_list_update)
qed

lemma check_conf_tables_inv:
  assumes inv: "tables_inv t" and "check_conf_tables x chans t = Some t'"
  shows "tables_inv t'"
proof -
  consider "t' = t" | "1 \<le> x" "x \<le> 1024" "confalias t ! nat x \<noteq> 0"
      "t' = recalc_maxconfs (t\<lparr>confrev := (confrev t)[nat (confalias t ! nat x) := 0],
               confalias := (confalias t)[nat x := 0]\<rparr>)"
    using assms(2) by (auto simp: check_conf_tables_def split: if_splits)
  then show ?thesis
  proof cases
    case 1
    with inv show ?thesis by simp
  next
    case 2
    have len: "length (confalias t) = 1025" "length (confrev t) = 1025"
      using inv by (auto simp: tables_inv_def)
    obtain n where n: "x = int n" "1 \<le> n" "n \<le> 1024" using 2 that [of "nat x"] by auto
    obtain a where a: "confalias t ! n = int a" "1 \<le> a" "a \<le> 1023" "confrev t ! a = int n"
      using tables_inv_alias [OF inv n(2,3)] 2(3) n(1) by auto
    have other: "confalias t ! y \<noteq> int a" if "1 \<le> y" "y \<le> 1024" "y \<noteq> n" for y
      using inv that a by (auto simp: tables_inv_def dest!: bspec [of _ _ y])
    have inj: "confrev t ! b \<noteq> int n" if "1 \<le> b" "b \<le> 1023" "b \<noteq> a" for b
      using inv that a n by (auto simp: tables_inv_def dest!: bspec [of _ _ b])
    show ?thesis
      unfolding tables_inv_def 2(4) recalc_maxconfs_def
      using inv len n a other inj highest_alias_above
      by (auto simp: tables_inv_def nth_list_update nat_eq_iff2)
  qed
qed


text \<open>Members of a conference hold its alias.\<close>

definition member_ok :: "conf_tables \<Rightarrow> 'a chan_conf_scheme \<Rightarrow> bool" where
  "member_ok t c \<longleftrightarrow> (joining_mode (conf_mode c) \<and> 1 \<le> confna c \<longrightarrow>
     confna c \<le> 1024 \<and> confn c = confalias t ! nat (confna c) \<and> confn c \<noteq> 0)"

definition conf_inv :: "'a chan_conf_scheme world \<Rightarrow> bool" where
  "conf_inv w \<longleftrightarrow> tables_inv (w_tables w) \<and> (\<forall>c \<in> set (w_chans w). member_ok (w_tables w) c)"

lemma w_chans_update [simp]: "w_chans (w_update n f w) = map (at_chan n f) (w_chans w)"
  by (simp add: w_chans_def w_update_def all_channels_def map_concat comp_def)

lemma w_tables_update [simp]: "w_tables (w_update n f w) = w_tables w"
  by (simp add: w_update_def)

lemma w_chans_tables [simp]: "w_chans (w\<lparr>w_tables := t\<rparr>) = w_chans w"
  by (simp add: w_chans_def)

lemma for_each_channel_0: "(for_each_channel f cs = 0) = (\<forall>c \<in> set cs. f c = 0)"
  by (induction cs) (auto simp: Let_def)

lemma check_conf_tables_members:
  assumes "tables_inv t" and "check_conf_tables x chans t = Some t'" and "c \<in> set chans" "member_ok t c"
  shows "member_ok t' c"
proof (cases "t' = t")
  case False
  with assms(2) have x: "1 \<le> x" "x \<le> 1024" and no: "for_each_channel (chan_in_conf x) chans = 0"
    and t': "confalias t' = (confalias t)[nat x := 0]"
    by (auto simp: check_conf_tables_def recalc_maxconfs_def split: if_splits)
  from no assms(3) have "\<not> (confna c = x \<and> joining_mode (conf_mode c))"
    by (auto simp: for_each_channel_0 chan_in_conf_def split: if_splits)
  with assms(1,4) x show ?thesis by (auto simp: member_ok_def t' nth_list_update tables_inv_def)
qed (use assms in simp)

lemma check_conf_inv:
  assumes "conf_inv w" and "check_conf x w = Some w'"
  shows "conf_inv w' \<and> w_chans w' = w_chans w"
proof -
  from assms(2) obtain t where t: "check_conf_tables x (w_chans w) (w_tables w) = Some t"
    "w' = w\<lparr>w_tables := t\<rparr>" by (auto simp: check_conf_def)
  with assms(1) check_conf_tables_inv [OF _ t(1)] check_conf_tables_members [OF _ t(1)]
  show ?thesis by (auto simp: conf_inv_def)
qed

text \<open>Steps that only add to the log of driver calls.\<close>

definition logs_only :: "'a dahdi_chan_scheme \<Rightarrow> 'a dahdi_chan_scheme \<Rightarrow> bool" where
  "logs_only c c' \<longleftrightarrow> (\<exists>ds. c' = drv_calls_update (\<lambda>_. ds) c)"

lemma logs_only_refl: "logs_only c c"
  unfolding logs_only_def by (rule exI [of _ "drv_calls c"]) simp

lemma logs_only_log: "logs_only c (drv_log d c)"
  unfolding logs_only_def by (rule exI [of _ "drv_calls c @ [d]"]) simp

lemma logs_only_dacs: "logs_only c (fst (dahdi_chan_dacs c x))"
  by (auto simp: dahdi_chan_dacs_def logs_only_refl logs_only_log split: option.splits prod.splits)

lemma logs_only_setconf_dacs: "logs_only c (setconf_dacs m cc c)"
  by (simp add: setconf_dacs_def dahdi_disable_dacs_def logs_only_refl logs_only_dacs)

lemma member_ok_drv_calls [simp]:
  "member_ok t (c\<lparr>drv_calls := ds\<rparr>) = member_ok t c"
  "member_ok t (c\<lparr>readchunkpreec := b\<rparr>) = member_ok t c"
  by (simp_all add: member_ok_def conf_mode_def)


lemma setconf_dacs_sel [simp]:
  fixes c :: "'a chan_conf_scheme"
  shows "channo (setconf_dacs m cc c) = channo c" "confna (setconf_dacs m cc c) = confna c"
    "confn (setconf_dacs m cc c) = confn c" "confmode (setconf_dacs m cc c) = confmode c"
  using logs_only_setconf_dacs [of c m cc] by (auto simp: logs_only_def)

definition join_update :: "int \<Rightarrow> int \<Rightarrow> int \<Rightarrow> int option \<Rightarrow> 'a chan_conf_scheme option \<Rightarrow>
    'a chan_conf_scheme \<Rightarrow> 'a chan_conf_scheme" where
  "join_update confno mode_arg mode cc x c = setconf_dacs mode x
     ((if confno \<noteq> confna c then clear_last c else c)\<lparr>confna := confno, conf_chan := cc,
        confmode := mode_arg, confn := 0\<rparr>)"

lemma join_update_sel:
  "channo (join_update confno ma m cc x c) = channo c \<and> confna (join_update confno ma m cc x c) = confno \<and>
   confn (join_update confno ma m cc x c) = 0 \<and> confmode (join_update confno ma m cc x c) = ma"
  by (simp add: join_update_def clear_last_def)

lemma setconf_join_alt:
  "setconf_join n confno ma cc w =
     (let m = ma AND CONF_MODE_MASK;
          w = w_update n (join_update confno ma m cc (Option.bind cc (w_lookup w))) w
      in if confno \<noteq> 0 \<and> joining_mode m then
           (case get_conf_alias confno (w_tables w) of
              None \<Rightarrow> None
            | Some (a, t) \<Rightarrow> Some (w_update n (\<lambda>c. c\<lparr>confn := a\<rparr>) (w\<lparr>w_tables := t\<rparr>)))
         else Some w)"
  by (simp add: setconf_join_def join_update_def [abs_def] Let_def)

lemma setconf_join_inv:
  assumes inv: "conf_inv w" and "setconf_join n confno ma cc w = Some w'" and cn: "1 \<le> confno \<or> ma = 0"
  shows "conf_inv w'"
proof -
  let ?m = "ma AND CONF_MODE_MASK"
  let ?u = "join_update confno ma ?m cc (Option.bind cc (w_lookup w))"
  have sel: "channo (?u c) = channo c" "confna (?u c) = confno" "confn (?u c) = 0" "confmode (?u c) = ma" for c
    using join_update_sel by blast+
  show ?thesis
  proof (cases "confno \<noteq> 0 \<and> joining_mode ?m")
    case True
    then obtain a t where g: "get_conf_alias confno (w_tables w) = Some (a, t)"
      and w': "w' = w_update n (\<lambda>c. c\<lparr>confn := a\<rparr>) ((w_update n ?u w)\<lparr>w_tables := t\<rparr>)"
      using assms(2) by (auto simp: setconf_join_alt Let_def split: option.splits)
    from True cn have c1: "1 \<le> confno" by (auto simp: joining_mode_def)
    from inv have "tables_inv (w_tables w)" by (simp add: conf_inv_def)
    note ga = get_conf_alias_inv [OF this c1 g]
    have "member_ok t (at_chan n (\<lambda>c. c\<lparr>confn := a\<rparr>) (at_chan n ?u c))" if "c \<in> set (w_chans w)" for c
    proof (cases "channo c = n")
      case True
      with ga sel show ?thesis by (simp add: at_chan_def member_ok_def)
    next
      case False
      from inv that have "member_ok (w_tables w) c" by (simp add: conf_inv_def)
      with False ga c1 show ?thesis
        by (cases "confna c = confno") (auto simp: at_chan_def member_ok_def get_conf_alias_def g Let_def
            nat_eq_iff2 split: if_splits)
    qed
    with ga w' show ?thesis by (auto simp: conf_inv_def)
  next
    case False
    then have w': "w' = w_update n ?u w" using assms(2) by (auto simp: setconf_join_alt Let_def)
    have "member_ok (w_tables w) (?u c)" for c
      using False sel cn by (auto simp: member_ok_def conf_mode_def joining_mode_def)
    with inv w' show ?thesis by (auto simp: conf_inv_def at_chan_def clear_last_def)
  qed
qed

lemma w_update_logs_inv:
  assumes "conf_inv w"
  shows "conf_inv (w_update m (\<lambda>c. c\<lparr>readchunkpreec := b, drv_calls := drv_calls c @ ds\<rparr>) w)"
  using assms by (auto simp: conf_inv_def at_chan_def clear_last_def)

lemma setconf_preec_inv:
  assumes "conf_inv w" and "setconf_preec al m cc w = Some r"
  shows "case r of Inl (v, w') \<Rightarrow> conf_inv w' | Inr w' \<Rightarrow> conf_inv w'"
  using assms by (auto simp: setconf_preec_def w_update_logs_inv split: option.splits if_splits)

lemma setconf_commit_inv:
  assumes "conf_inv w" and "1 \<le> ci_confno conf \<or> ci_confmode conf = 0"
    and "setconf_commit uout al cc c conf w = Some (r, conf', w')"
  shows "conf_inv w'"
proof -
  from assms(3) obtain w1 where j: "setconf_join (channo c) (ci_confno conf) (ci_confmode conf) cc w = Some w1"
    by (auto simp: setconf_commit_def split: option.splits)
  from setconf_join_inv [OF assms(1) j assms(2)] have i1: "conf_inv w1" .
  from assms(3) j obtain p where p: "setconf_preec al (ci_confmode conf AND CONF_MODE_MASK) cc w1 = Some p"
    by (auto simp: setconf_commit_def split: option.splits)
  note ip = setconf_preec_inv [OF i1 p]
  show ?thesis
  proof (cases p)
    case (Inl q)
    with ip assms(3) j p show ?thesis by (auto simp: setconf_commit_def split: prod.splits)
  next
    case (Inr w2)
    with assms(3) j p have "check_conf (confna c) w2 = Some w'"
      by (auto simp: setconf_commit_def split: option.splits)
    with ip Inr check_conf_inv show ?thesis by fastforce
  qed
qed

lemma setconf_choose_inv:
  assumes "conf_inv w" and "setconf_choose uout al cc c conf w = Some (r, conf', w')"
    and "ci_confmode conf = 0 \<longrightarrow> ci_confno conf = 0"
  shows "conf_inv w'"
  using assms
  by (auto simp: setconf_choose_def Let_def split: if_splits
      elim!: setconf_commit_inv [OF assms(1), rotated])

text \<open>C14. Setting a conference keeps the conference tables sound: the alias tables stay inverse to
  each other, every alias in use stays below \<open>maxconfs\<close>, and every channel taking part in a
  conference holds the alias the tables give that conference - so no alias is released while a
  channel still mixes into its accumulator. This holds on every path of the handler, errors
  included.\<close>

theorem setconf_keeps_conferences:
  assumes "conf_inv w" and "ioctl_setconf uin uout al file conf w = Some (r, conf', w')"
  shows "conf_inv w'"
proof (cases "w' = w")
  case False
  from assms(2) False obtain w1 cc c where "check_conf (ci_confno conf) w = Some w1"
    "setconf_choose uout al cc c conf w1 = Some (r, conf', w')"
    "ci_confmode conf = 0 \<longrightarrow> ci_confno conf = 0"
    unfolding ioctl_setconf_def Let_def by (auto split: option.splits if_splits)
  with check_conf_inv [OF assms(1)] setconf_choose_inv show ?thesis by blast
qed (use assms in simp)


section \<open>Example worlds\<close>

definition conf_demo_chan :: "int \<Rightarrow> chan_conf" where
  "conf_demo_chan n = \<lparr>channo = n, chanpos = 1, chan_flags = {FLAG_AUDIO}, sig = SIG_CLEAR,
     sigcap = SIG_CLEAR, chan_alarms = 0, chan_span = None, idlebits = 0, drv_calls = [],
     eventinidx = 0, eventoutidx = 0, eventbuf = replicate 64 0, iomask = 0,
     confna = 0, confn = 0, confmode = 0, confmute = 0, conf_chan = None, dacs_chan = None,
     confin = empty_confq, confout = empty_confq, conflast = replicate 8 7,
     conflast1 = replicate 8 7, conflast2 = replicate 8 7, rxgain = None, txgain = None,
     readchunkpreec = False, hwec = False\<rparr>"

text \<open>Two pseudo channels, and conference 9 in use with alias 1023.\<close>

definition conf_demo :: "chan_conf world" where
  "conf_demo = \<lparr>w_spans = [], w_pseudos = [conf_demo_chan 0x8000, conf_demo_chan 0x8001],
     w_tables = \<lparr>confalias = (replicate 1025 0)[9 := 1023], confrev = (replicate 1025 0)[1023 := 9],
                 maxconfs = 1024\<rparr>\<rparr>"

lemma conf_demo_inv: "conf_inv conf_demo"
  by (auto simp: conf_inv_def conf_demo_def tables_inv_def nth_list_update w_chans_def
      all_channels_def member_ok_def conf_demo_chan_def)

lemma conf_demo_lookup: "w_lookup conf_demo 0x8000 = Some (conf_demo_chan 0x8000)"
  by (simp add: w_lookup_def chan_from_num_def conf_demo_def conf_demo_chan_def)

lemma conf_demo_join:
  "\<exists>w'. ioctl_setconf True True True (Some 0x8000) \<lparr>ci_chan = 0, ci_confno = 5, ci_confmode = 0x304\<rparr> conf_demo
     = Some (0, \<lparr>ci_chan = 0x8000, ci_confno = 5, ci_confmode = 0x304\<rparr>, w') \<and>
       map confn (w_chans w') = [1, 0]"
proof -
  have top: "highest_alias 1023 rv = 1024" if "rv ! 1023 \<noteq> 0" for rv
    using that highest_alias.simps(2) [of 1022 rv] by simp
  have free: "first_empty_alias_from 1023 1 rv = 1" if "rv ! 1 = 0" for rv
    using that first_empty_alias_from.simps(2) [of 1022 1 rv] by simp
  have g: "get_conf_alias 5 (w_tables conf_demo) = Some (1, \<lparr>confalias = ((replicate 1025 0)[9 := 1023])[5 := 1],
      confrev = ((replicate 1025 0)[1023 := 9])[1 := 5], maxconfs = 1024\<rparr>)"
    using free [of "(replicate 1025 0)[1023 := 9]"] top [of "((replicate 1025 0)[1023 := 9])[1 := 5]"]
    by (simp add: get_conf_alias_def conf_demo_def first_empty_alias_def recalc_maxconfs_def Let_def)
  have c: "check_conf 5 conf_demo = Some conf_demo"
    by (simp add: check_conf_def check_conf_tables_def conf_demo_def)
  have z: "check_conf 0 w = Some w" for w :: "chan_conf world"
    by (simp add: check_conf_def check_conf_tables_def)
  have chans: "w_chans conf_demo = [conf_demo_chan 0x8000, conf_demo_chan 0x8001]"
    by (simp add: w_chans_def all_channels_def conf_demo_def)
  have sel: "channo (conf_demo_chan n) = n" "FLAG_AUDIO \<in> chan_flags (conf_demo_chan n)"
    "confna (conf_demo_chan n) = 0" "confn (conf_demo_chan n) = 0" for n
    by (simp_all add: conf_demo_chan_def)
  show ?thesis
    by (simp add: ioctl_setconf_def c Let_def conf_demo_lookup setconf_choose_def setconf_commit_def
        setconf_join_def joining_mode_def is_monitor_mode_def g setconf_preec_def z sel chans at_chan_def clear_last_def)
qed

theorem setconf_keeps_conferences_witness:
  "\<exists>c w'. ioctl_setconf True True True (Some 0x8000) \<lparr>ci_chan = 0, ci_confno = 5, ci_confmode = 0x304\<rparr> conf_demo
     = Some (0, c, w') \<and> conf_inv w' \<and> map confn (w_chans w') = [1, 0]"
  using conf_demo_join setconf_keeps_conferences [OF conf_demo_inv] by meson

section \<open>What the tables and the handler do wrong\<close>

text \<open>
  Monitoring a pseudo channel: its number is used as a conference number, beyond the tables.
\<close>

lemma monitor_pseudo_out_of_bounds:
  "ioctl_setconf True True True (Some 0x8000) \<lparr>ci_chan = 0, ci_confno = 0x8000, ci_confmode = CONF_MONITOR\<rparr> conf_demo
   = None"
  by (simp add: ioctl_setconf_def Let_def conf_demo_lookup is_monitor_mode_def check_conf_def check_conf_tables_def)
     (simp add: conf_demo_chan_def)

text \<open>The same request then reads the operations of the span that a pseudo channel does not have.\<close>

lemma monitor_pseudo_null_span: "setconf_preec True CONF_MONITOR (Some 0x8000) conf_demo = None"
  by (simp add: setconf_preec_def conf_demo_lookup disable_hw_preechocan_def)
     (simp add: conf_demo_chan_def)

text \<open>With all 1023 aliases taken a further conference writes before the start of the table.\<close>

lemma alias_exhaustion_out_of_bounds:
  assumes "\<forall>a \<in> {1..1023}. confrev t ! a \<noteq> 0" and "confalias t ! 1024 = 0"
  shows "get_conf_alias 1024 t = None"
  using assms by (cases rule: first_empty_alias_cases [of t]) (auto simp: get_conf_alias_def)

text \<open>Changing the conference leaves the second half of the samples that it means to clear.\<close>

lemma clear_octets_half: "length xs = 8 \<Longrightarrow>
    take 4 (clear_octets DAHDI_CHUNKSIZE xs) = replicate 4 0 \<and>
    drop 4 (clear_octets DAHDI_CHUNKSIZE xs) = drop 4 xs"
  by (simp add: clear_octets_def)

end
