(* ===== verification/Timers.thy ===== *)
theory Timers
  imports Channel
begin

text \<open>
  Timing in \<^verbatim>\<open>dahdi-base.c\<close>: the timers that a process opens on \<^verbatim>\<open>/dev/dahdi/timer\<close>, which count the
  samples of the chunks processed (\<open>process_timers\<close> and the requests of \<open>dahdi_timer_unlocked_ioctl\<close>),
  and the core timer, which runs the processing of conferences when no board does.
\<close>

section \<open>Timers\<close>

record dahdi_timer =
  t_ms :: int
  t_pos :: int
  t_ping :: bool
  t_tripped :: int

text \<open>The open timers, by number, and the list \<open>dahdi_timers\<close> of those that run.\<close>

record timers =
  timer_at :: "nat \<Rightarrow> dahdi_timer option"
  timer_list :: "nat list"

definition put_timer :: "nat \<Rightarrow> dahdi_timer option \<Rightarrow> timers \<Rightarrow> timers" where
  "put_timer i t s = s\<lparr>timer_at := (timer_at s)(i := t)\<rparr>"

definition timer_tick :: "dahdi_timer \<Rightarrow> dahdi_timer" where
  "timer_tick t =
     (let t = t\<lparr>t_pos := t_pos t - int DAHDI_CHUNKSIZE\<rparr>
      in if t_pos t \<le> 0 then t\<lparr>t_tripped := i32 (t_tripped t + 1), t_pos := t_ms t\<rparr> else t)"

definition process_timers :: "timers \<Rightarrow> timers" where
  "process_timers s = foldl (\<lambda>s i. put_timer i (map_option timer_tick (timer_at s i)) s) s (timer_list s)"

text \<open>\<open>i\<close> is a number not in use.\<close>

definition timer_open :: "bool \<Rightarrow> nat \<Rightarrow> timers \<Rightarrow> int \<times> timers" where
  "timer_open alloc i s =
     (if alloc then (0, put_timer i (Some \<lparr>t_ms = 0, t_pos = 0, t_ping = False, t_tripped = 0\<rparr>) s) else (- ENOMEM, s))"

definition timer_release :: "nat \<Rightarrow> timers \<Rightarrow> timers" where
  "timer_release i s = (if timer_at s i = None then s
     else put_timer i None (s\<lparr>timer_list := remove1 i (timer_list s)\<rparr>))"

definition timer_config :: "nat \<Rightarrow> int \<Rightarrow> timers \<Rightarrow> timers" where
  "timer_config i j s = (case timer_at s i of
     None \<Rightarrow> s
   | Some t \<Rightarrow>
      (let j = max 0 j in
       if t_ms t \<noteq> j then
         (let s = put_timer i (Some (t\<lparr>t_ms := j, t_pos := j\<rparr>)) s in
          if j \<noteq> 0 \<and> i \<notin> set (timer_list s) then s\<lparr>timer_list := i # timer_list s\<rparr>
          else if j = 0 \<and> i \<in> set (timer_list s) then s\<lparr>timer_list := remove1 i (timer_list s)\<rparr>
          else s)
       else s))"

definition timer_ack :: "nat \<Rightarrow> int \<Rightarrow> timers \<Rightarrow> timers" where
  "timer_ack i j s =
     put_timer i (map_option (\<lambda>t. t\<lparr>t_tripped := t_tripped t - (if j < 1 \<or> j > t_tripped t then t_tripped t else j)\<rparr>) (timer_at s i)) s"

definition timer_getevent :: "dahdi_timer \<Rightarrow> int" where
  "timer_getevent t = (if t_ping t then EVENT_TIMER_PING else if t_tripped t \<noteq> 0 then EVENT_TIMER_EXPIRED else EVENT_NONE)"

definition timer_poll :: "dahdi_timer \<Rightarrow> bool" where
  "timer_poll t \<longleftrightarrow> t_tripped t \<noteq> 0 \<or> t_ping t"

datatype timer_cmd = TIMERCONFIG int | TIMERACK int | TIMER_GETEVENT | TIMERPING | TIMERPONG | TIMER_OTHER

text \<open>The requests: the result, the integer written back to the caller, if any, and the timers.\<close>

definition timer_ioctl :: "nat \<Rightarrow> timer_cmd \<Rightarrow> timers \<Rightarrow> int \<times> int option \<times> timers" where
  "timer_ioctl i cmd s = (case cmd of
     TIMERCONFIG j \<Rightarrow> (0, None, timer_config i j s)
   | TIMERACK j \<Rightarrow> (0, None, timer_ack i j s)
   | TIMER_GETEVENT \<Rightarrow> (0, map_option timer_getevent (timer_at s i), s)
   | TIMERPING \<Rightarrow> (0, None, put_timer i (map_option (t_ping_update (\<lambda>_. True)) (timer_at s i)) s)
   | TIMERPONG \<Rightarrow> (0, None, put_timer i (map_option (t_ping_update (\<lambda>_. False)) (timer_at s i)) s)
   | TIMER_OTHER \<Rightarrow> (- ENOTTY, None, s))"

section \<open>Running timers\<close>

text \<open>A timer is on the list exactly when its period is not zero, once, and its position is inside the period.\<close>

definition timer_ok :: "dahdi_timer \<Rightarrow> bool" where
  "timer_ok t \<longleftrightarrow> - (2 ^ 31) \<le> t_tripped t \<and> t_tripped t < 2 ^ 31 \<and> (if t_ms t = 0 then t_pos t = 0 else 0 < t_pos t \<and> t_pos t \<le> t_ms t)"

definition timer_good :: "dahdi_timer option \<Rightarrow> bool \<Rightarrow> bool" where
  "timer_good t running \<longleftrightarrow> (case t of None \<Rightarrow> \<not> running | Some t \<Rightarrow> timer_ok t \<and> (running \<longleftrightarrow> t_ms t \<noteq> 0))"

definition timers_inv :: "timers \<Rightarrow> bool" where
  "timers_inv s \<longleftrightarrow> distinct (timer_list s) \<and> (\<forall>k. timer_good (timer_at s k) (k \<in> set (timer_list s)))"

inductive timer_step :: "timers \<Rightarrow> timers \<Rightarrow> bool" where
  open_timer: "timer_at s i = None \<Longrightarrow> timer_open alloc i s = (r, s') \<Longrightarrow> timer_step s s'"
| release: "timer_step s (timer_release i s)"
| ioctl: "timer_ioctl i cmd s = (r, j, s') \<Longrightarrow> timer_step s s'"
| chunk: "timer_step s (process_timers s)"

lemma foldl_ticks:
  "distinct is \<Longrightarrow> timer_list (foldl (\<lambda>s i. put_timer i (map_option timer_tick (timer_at s i)) s) s is) = timer_list s \<and>
   timer_at (foldl (\<lambda>s i. put_timer i (map_option timer_tick (timer_at s i)) s) s is) i =
     (if i \<in> set is then map_option timer_tick (timer_at s i) else timer_at s i)"
  by (induction "is" arbitrary: s) (auto simp: put_timer_def)

lemma process_timers_at:
  "distinct (timer_list s) \<Longrightarrow> timer_list (process_timers s) = timer_list s \<and>
   timer_at (process_timers s) i = (if i \<in> set (timer_list s) then map_option timer_tick (timer_at s i) else timer_at s i)"
  unfolding process_timers_def by (rule foldl_ticks)

lemma timer_tick_ok: "timer_ok t \<Longrightarrow> t_ms t \<noteq> 0 \<Longrightarrow> timer_ok (timer_tick t) \<and> t_ms (timer_tick t) = t_ms t"
  using i32_range [of "t_tripped t + 1"] by (auto simp: timer_ok_def timer_tick_def Let_def)

text \<open>An operation on one timer, and what it does to its place on the list.\<close>

lemma timers_inv_at:
  assumes "timers_inv s" and "\<And>k. k \<noteq> i \<Longrightarrow> timer_at s' k = timer_at s k \<and> (k \<in> set (timer_list s') \<longleftrightarrow> k \<in> set (timer_list s))"
    and "distinct (timer_list s')" and "timer_good (timer_at s' i) (i \<in> set (timer_list s'))"
  shows "timers_inv s'"
proof -
  have "timer_good (timer_at s' k) (k \<in> set (timer_list s'))" for k
    using assms(1,2,4) by (cases "k = i") (auto simp: timers_inv_def)
  with assms(3) show ?thesis by (simp add: timers_inv_def)
qed

lemma timers_invD: "timers_inv s \<Longrightarrow> distinct (timer_list s) \<and> timer_good (timer_at s i) (i \<in> set (timer_list s))"
  by (simp add: timers_inv_def)

lemma timers_inv_map:
  assumes "timers_inv s" and "\<And>t. timer_ok t \<Longrightarrow> timer_ok (f t) \<and> t_ms (f t) = t_ms t"
  shows "timers_inv (put_timer i (map_option f (timer_at s i)) s)"
  by (rule timers_inv_at [OF assms(1), of i])
    (use timers_invD [OF assms(1), of i] assms(2) in \<open>auto simp: put_timer_def timer_good_def split: option.splits\<close>)

lemma timer_config_inv:
  assumes "timers_inv s"
  shows "timers_inv (timer_config i j s)"
proof (rule timers_inv_at [OF assms, of i])
  note inv = timers_invD [OF assms, of i]
  show "timer_at (timer_config i j s) k = timer_at s k \<and> (k \<in> set (timer_list (timer_config i j s)) \<longleftrightarrow> k \<in> set (timer_list s))"
    if "k \<noteq> i" for k
    using that inv by (simp add: timer_config_def put_timer_def Let_def split: option.split)
  show "distinct (timer_list (timer_config i j s))"
    using inv by (simp add: timer_config_def put_timer_def Let_def split: option.split)
  show "timer_good (timer_at (timer_config i j s) i) (i \<in> set (timer_list (timer_config i j s)))"
    using inv by (cases "timer_at s i") (auto simp: timer_config_def put_timer_def Let_def timer_good_def timer_ok_def)
qed

lemma timer_step_inv: "timer_step s s' \<Longrightarrow> timers_inv s \<Longrightarrow> timers_inv s'"
proof (induction rule: timer_step.induct)
  case (open_timer s i alloc r s')
  show ?case
    by (rule timers_inv_at [OF open_timer.prems, of i])
      (use timers_invD [OF open_timer.prems, of i] open_timer.hyps in
        \<open>auto simp: timer_open_def put_timer_def timer_good_def timer_ok_def split: if_splits\<close>)
next
  case (release s i)
  show ?case
    by (rule timers_inv_at [OF release, of i])
      (use timers_invD [OF release, of i] in \<open>auto simp: timer_release_def put_timer_def timer_good_def split: option.splits\<close>)
next
  case (ioctl i cmd s r j s')
  then show ?case using timer_config_inv [OF ioctl.prems] timers_inv_map [OF ioctl.prems]
    by (cases cmd) (auto simp: timer_ioctl_def timer_ack_def timer_ok_def)
next
  case (chunk s)
  have d: "distinct (timer_list s)" using chunk by (simp add: timers_inv_def)
  have "timer_good (timer_at (process_timers s) k) (k \<in> set (timer_list s))" for k
    using process_timers_at [OF d, of k] timers_invD [OF chunk, of k] timer_tick_ok
    by (cases "timer_at s k") (auto simp: timer_good_def)
  with d process_timers_at [OF d] show ?case by (simp add: timers_inv_def)
qed

text \<open>C32. Timers run exactly while they have a period: through any sequence of requests and chunks, the
  list that the interrupt handler walks holds each open timer with a period once and no other, so no
  released timer is touched; and the time left is never more than the period. The count of expirations is a C integer: it wraps around when
  nobody acknowledges them.\<close>

theorem timers_stay_consistent:
  assumes "timer_step\<^sup>*\<^sup>* \<lparr>timer_at = (\<lambda>_. None), timer_list = []\<rparr> s"
  shows "distinct (timer_list s) \<and> (\<forall>i. i \<in> set (timer_list s) \<longleftrightarrow> (\<exists>t. timer_at s i = Some t \<and> t_ms t \<noteq> 0)) \<and>
    (\<forall>i t. timer_at s i = Some t \<longrightarrow> - (2 ^ 31) \<le> t_tripped t \<and> t_tripped t < 2 ^ 31 \<and> 0 \<le> t_pos t \<and> t_pos t \<le> t_ms t)"
proof -
  have "timers_inv s"
    using assms
  proof (induction rule: rtranclp_induct)
    case base
    then show ?case by (simp add: timers_inv_def timer_good_def)
  next
    case (step s t)
    then show ?case by (simp add: timer_step_inv)
  qed
  then have d: "distinct (timer_list s)" and g: "\<And>i. timer_good (timer_at s i) (i \<in> set (timer_list s))"
    by (simp_all add: timers_inv_def)
  have "i \<in> set (timer_list s) \<longleftrightarrow> (\<exists>t. timer_at s i = Some t \<and> t_ms t \<noteq> 0)" for i
    using g [of i] by (auto simp: timer_good_def split: option.splits)
  moreover have "- (2 ^ 31) \<le> t_tripped t \<and> t_tripped t < 2 ^ 31 \<and> 0 \<le> t_pos t \<and> t_pos t \<le> t_ms t" if "timer_at s i = Some t" for i t
    using g [of i] that by (auto simp: timer_good_def timer_ok_def split: if_splits)
  ultimately show ?thesis using d by blast
qed

text \<open>Counting: a period of \<open>m\<close> samples takes \<open>\<lceil>m / 8\<rceil>\<close> chunks.\<close>

lemma timer_tick_run:
  assumes "0 < m" and "t_ms t = m" and "t_pos t = m" and "i32 (t_tripped t) = t_tripped t"
  shows "(timer_tick ^^ n) t = t\<lparr>t_pos := m - 8 * int (n mod nat ((m + 7) div 8)),
     t_tripped := i32 (t_tripped t + int (n div nat ((m + 7) div 8)))\<rparr>"
proof (induction n)
  case 0
  show ?case using assms(3,4) by simp
next
  case (Suc n)
  define p where "p = nat ((m + 7) div 8)"
  have p: "0 < p" "int p = (m + 7) div 8" using assms(1) by (simp_all add: p_def)
  let ?u = "t\<lparr>t_pos := m - 8 * int (n mod p), t_tripped := i32 (t_tripped t + int (n div p))\<rparr>"
  have IH: "(timer_tick ^^ n) t = ?u" using Suc by (simp add: p_def)
  have step: "(timer_tick ^^ Suc n) t = timer_tick ?u" unfolding funpow.simps comp_apply IH ..
  have lt: "n mod p < p" using p(1) by simp
  show ?case
  proof (cases "Suc (n mod p) = p")
    case True
    have "m - 8 * int (n mod p) - 8 \<le> 0" using True p(2) by linarith
    moreover have "Suc n mod p = 0" "Suc n div p = Suc (n div p)" using True by (simp_all add: mod_Suc div_Suc)
    ultimately show ?thesis unfolding step using assms i32_add [of "t_tripped t + int (n div p)" 1]
      by (simp add: timer_tick_def Let_def ac_simps flip: p_def)
  next
    case False
    then have "Suc (n mod p) < p" using lt by simp
    then have "0 < m - 8 * int (n mod p) - 8" using p(2) by linarith
    moreover have "Suc n mod p = Suc (n mod p)" "Suc n div p = n div p" using False by (simp_all add: mod_Suc div_Suc)
    ultimately show ?thesis unfolding step by (simp add: timer_tick_def Let_def flip: p_def)
  qed
qed

lemma process_timers_run:
  "timers_inv s \<Longrightarrow> i \<in> set (timer_list s) \<Longrightarrow>
   timer_at ((process_timers ^^ n) s) i = map_option (timer_tick ^^ n) (timer_at s i) \<and>
   timers_inv ((process_timers ^^ n) s) \<and> timer_list ((process_timers ^^ n) s) = timer_list s"
proof (induction n)
  case 0
  then show ?case by (simp add: option.map_ident id_def)
next
  case (Suc n)
  let ?s = "(process_timers ^^ n) s"
  have s: "timer_at ?s i = map_option (timer_tick ^^ n) (timer_at s i)" "timers_inv ?s" "timer_list ?s = timer_list s"
    using Suc by simp_all
  have d: "distinct (timer_list ?s)" using s(2) by (simp add: timers_inv_def)
  from process_timers_at [OF d, of i] timer_step_inv [OF timer_step.chunk s(2)] s(1,3) Suc.prems(2) show ?case
    by (simp add: option.map_comp comp_def)
qed

text \<open>C33. A timer keeps its rate: set to \<open>m\<close> samples, after \<open>n\<close> chunks it has expired once for every
  \<open>\<lceil>m / 8\<rceil>\<close> chunks, whatever the other timers do and although expirations are not acknowledged; the count is
  kept in a C integer, which wraps around.\<close>

theorem timer_expires_at_rate:
  assumes "timers_inv s" and "timer_at s i = Some t" and "0 < m" and "t_ms t \<noteq> m"
  shows "\<exists>u. timer_at ((process_timers ^^ n) (timer_config i m s)) i = Some u \<and>
    t_tripped u = i32 (t_tripped t + int (n div nat ((m + 7) div 8)))"
proof -
  have "timer_ok t" using timers_invD [OF assms(1), of i] assms(2) by (auto simp: timer_good_def)
  then have "i32 (t_tripped t) = t_tripped t" by (simp add: timer_ok_def i32_def)
  have c: "timer_at (timer_config i m s) i = Some (t\<lparr>t_ms := m, t_pos := m\<rparr>)" "i \<in> set (timer_list (timer_config i m s))"
    using assms(2-4) by (simp_all add: timer_config_def put_timer_def Let_def)
  from process_timers_run [OF timer_config_inv [OF assms(1)] c(2), of n] c(1)
    timer_tick_run [OF assms(3), of "t\<lparr>t_ms := m, t_pos := m\<rparr>" n] \<open>i32 (t_tripped t) = t_tripped t\<close>
  show ?thesis by simp
qed

section \<open>The core timer\<close>

text \<open>Times are pairs of seconds and nanoseconds.\<close>

type_synonym timespec = "int \<times> int"

abbreviation (input) NSEC_PER_SEC :: int where "NSEC_PER_SEC \<equiv> 1000000000"

text \<open>The loops carry whole seconds over; \<open>div\<close> and \<open>mod\<close> are what they compute.\<close>

definition core_diff_ms :: "timespec \<Rightarrow> timespec \<Rightarrow> int" where
  "core_diff_ms t0 t1 =
     (let sec = fst t1 - fst t0; nanosec = snd t1 - snd t0;
          sec = sec + nanosec div NSEC_PER_SEC; nanosec = nanosec mod NSEC_PER_SEC
      in (sec * 1000 + nanosec div 1000000) mod 2 ^ 64)"

record core_timer =
  ct_start :: timespec
  ct_receive_used :: bool
  ct_count :: int
  ct_last_count :: int
  ct_shutdown :: bool

abbreviation (input) MAX_INTERVAL :: int where "MAX_INTERVAL \<equiv> 100000"
abbreviation (input) MS_LIMIT :: int where "MS_LIMIT \<equiv> 3000"

datatype rearm = Rearm_interval | Rearm_second | No_rearm

definition reset_count :: "timespec \<Rightarrow> core_timer \<Rightarrow> core_timer" where
  "reset_count now ct = ct\<lparr>ct_count := 0, ct_last_count := 0, ct_start := now\<rparr>"

text \<open>
  The loop that catches up runs the conference processing once for each chunk that is due, and the
  processing counts itself. The first result is the number of runs, the second tells when the timer
  fires next. The difference is at most \<open>MS_LIMIT\<close> where the loop is reached, so the fuel
  \<open>ms - count\<close> is exactly the number of its turns.
\<close>

fun catch_up :: "nat \<Rightarrow> int \<Rightarrow> core_timer \<Rightarrow> nat \<times> core_timer" where
  "catch_up 0 ms ct = (0, ct)"
| "catch_up (Suc fuel) ms ct =
     (if ms > ct_count ct then (let (k, ct) = catch_up fuel ms (ct\<lparr>ct_count := ct_count ct + 1\<rparr>) in (Suc k, ct))
      else (0, ct))"

definition coretimer_func :: "timespec \<Rightarrow> core_timer \<Rightarrow> nat \<times> rearm \<times> core_timer" where
  "coretimer_func now ct =
     (if ct_count ct = ct_last_count ct then
        (let ct = ct\<lparr>ct_receive_used := False\<rparr>;
             rearm = (if ct_shutdown ct then No_rearm else Rearm_interval);
             ms = core_diff_ms (ct_start ct) now;
             difference = (ms - ct_count ct + 2 ^ 63) mod 2 ^ 64 - 2 ^ 63
         in if difference > MS_LIMIT \<or> difference < 0 then (0, rearm, reset_count now ct)
            else
              (let (k, ct) = catch_up (nat (ms - ct_count ct)) ms ct
               in (k, rearm, if ms > MAX_INTERVAL then reset_count now ct else ct\<lparr>ct_last_count := ct_count ct\<rparr>)))
      else
        (0, if ct_shutdown ct then No_rearm else Rearm_second, reset_count now (ct\<lparr>ct_receive_used := True\<rparr>)))"

lemma catch_up_all: "ct_count ct + int n = ms \<Longrightarrow> catch_up n ms ct = (n, ct\<lparr>ct_count := ms\<rparr>)"
  by (induction n arbitrary: ct) auto

text \<open>Successive firings of the timer while no board drives the processing.\<close>

fun firings :: "timespec list \<Rightarrow> core_timer \<Rightarrow> nat \<times> core_timer" where
  "firings [] ct = (0, ct)"
| "firings (now # ts) ct = (let (k, _, ct) = coretimer_func now ct; (n, ct) = firings ts ct in (k + n, ct))"

definition ns :: "timespec \<Rightarrow> int" where
  "ns t = fst t * NSEC_PER_SEC + snd t"

definition elapsed :: "timespec \<Rightarrow> timespec \<Rightarrow> int" where
  "elapsed t0 t = (ns t - ns t0) div 1000000"

lemma core_diff_elapsed: "core_diff_ms t0 t1 = elapsed t0 t1 mod 2 ^ 64"
proof -
  let ?s = "fst t1 - fst t0" and ?n = "snd t1 - snd t0"
  have "ns t1 - ns t0 = (?s + ?n div NSEC_PER_SEC) * NSEC_PER_SEC + ?n mod NSEC_PER_SEC"
    by (simp add: ns_def algebra_simps)
  then have ns: "ns t1 - ns t0 = 1000000 * ((?s + ?n div NSEC_PER_SEC) * 1000) + ?n mod NSEC_PER_SEC" by simp
  have "(1000000 * A + r) div 1000000 = A + r div 1000000" for A r :: int by simp
  then have "elapsed t0 t1 = (?s + ?n div NSEC_PER_SEC) * 1000 + (?n mod NSEC_PER_SEC) div 1000000"
    unfolding elapsed_def ns .
  then show ?thesis by (simp add: core_diff_ms_def Let_def)
qed

lemma coretimer_on_time:
  assumes "ct_count ct = c" and "ct_last_count ct = c" and "c \<le> elapsed (ct_start ct) now"
    and "elapsed (ct_start ct) now \<le> c + MS_LIMIT" and "elapsed (ct_start ct) now \<le> MAX_INTERVAL" and "0 \<le> c"
  shows "\<exists>r d. coretimer_func now ct = (nat (elapsed (ct_start ct) now - c), r, d) \<and> ct_start d = ct_start ct \<and>
    ct_count d = elapsed (ct_start ct) now \<and> ct_last_count d = elapsed (ct_start ct) now"
proof -
  let ?m = "elapsed (ct_start ct) now"
  have m: "core_diff_ms (ct_start ct) now = ?m" using assms by (simp add: core_diff_elapsed)
  have d: "(?m - c + 2 ^ 63) mod 2 ^ 64 - 2 ^ 63 = ?m - c" using assms by simp
  have k: "catch_up (nat (?m - c)) ?m (ct\<lparr>ct_receive_used := False\<rparr>) = (nat (?m - c), ct\<lparr>ct_receive_used := False, ct_count := ?m\<rparr>)"
    using catch_up_all [of "ct\<lparr>ct_receive_used := False\<rparr>" "nat (?m - c)" ?m] assms(1,3) by simp
  let ?d = "ct\<lparr>ct_receive_used := False, ct_count := ?m, ct_last_count := ?m\<rparr>"
  have "coretimer_func now ct = (nat (?m - c), if ct_shutdown ct then No_rearm else Rearm_interval, ?d)"
    using assms k d unfolding coretimer_func_def Let_def by (simp add: m)
  then show ?thesis by (intro exI [of _ ?d] exI [of _ "if ct_shutdown ct then No_rearm else Rearm_interval"] conjI) simp_all
qed

text \<open>When the interval is over the time base starts anew, and the part of a millisecond that was left is lost.\<close>

lemma coretimer_renews:
  assumes "ct_count ct = c" and "ct_last_count ct = c" and "c \<le> elapsed (ct_start ct) now"
    and "elapsed (ct_start ct) now \<le> c + MS_LIMIT" and "MAX_INTERVAL < elapsed (ct_start ct) now" and "0 \<le> c" and "c \<le> MAX_INTERVAL"
  shows "\<exists>r d. coretimer_func now ct = (nat (elapsed (ct_start ct) now - c), r, d) \<and> ct_start d = now \<and> ct_count d = 0 \<and> ct_last_count d = 0"
proof -
  let ?m = "elapsed (ct_start ct) now"
  have m: "core_diff_ms (ct_start ct) now = ?m" using assms by (simp add: core_diff_elapsed)
  have d: "(?m - c + 2 ^ 63) mod 2 ^ 64 - 2 ^ 63 = ?m - c" using assms by simp
  have k: "catch_up (nat (?m - c)) ?m (ct\<lparr>ct_receive_used := False\<rparr>) = (nat (?m - c), ct\<lparr>ct_receive_used := False, ct_count := ?m\<rparr>)"
    using catch_up_all [of "ct\<lparr>ct_receive_used := False\<rparr>" "nat (?m - c)" ?m] assms(1,3) by simp
  let ?d = "reset_count now (ct\<lparr>ct_receive_used := False, ct_count := ?m\<rparr>)"
  have "coretimer_func now ct = (nat (?m - c), if ct_shutdown ct then No_rearm else Rearm_interval, ?d)"
    using assms k d unfolding coretimer_func_def Let_def by (simp add: m)
  then show ?thesis
    by (intro exI [of _ ?d] exI [of _ "if ct_shutdown ct then No_rearm else Rearm_interval"] conjI) (simp_all add: reset_count_def)
qed

lemma elapsed_split: "elapsed s now + elapsed now t \<le> elapsed s t \<and> elapsed s t \<le> elapsed s now + elapsed now t + 1"
  unfolding elapsed_def by linarith

lemma elapsed_gap: "ns a \<le> ns b \<Longrightarrow> ns b \<le> ns a + MS_LIMIT * 1000000 \<Longrightarrow> elapsed s a \<le> elapsed s b \<and> elapsed s b \<le> elapsed s a + MS_LIMIT"
  unfolding elapsed_def by linarith

lemma elapsed_self [simp]: "elapsed t t = 0"
  by (simp add: elapsed_def)

definition in_time :: "timespec \<Rightarrow> timespec \<Rightarrow> bool" where
  "in_time a b \<longleftrightarrow> ns a \<le> ns b \<and> ns b \<le> ns a + MS_LIMIT * 1000000"

lemma in_time_last: "successively in_time (p # ts) \<Longrightarrow> ns p \<le> ns (last (p # ts))"
  by (induction ts arbitrary: p) (fastforce simp: in_time_def)+

text \<open>C34. The core timer keeps the pace: from a moment \<open>p\<close> at which it has caught up, while no board drives the
  processing and the clock moves forward by no more than three seconds between firings, the conferences are processed once for each
  millisecond that has passed, however irregular the firings are and for as long as they go on, except that up to one millisecond is lost
  each time the time base is renewed. That happens at most once in a hundred seconds, so within the first hundred
  seconds of a time base the count is exact.\<close>

theorem core_timer_keeps_pace:
  assumes "ct_count ct = elapsed (ct_start ct) p" and "ct_last_count ct = ct_count ct" and "ns (ct_start ct) \<le> ns p"
    and "ct_count ct \<le> MAX_INTERVAL" and "successively in_time (p # ts)"
  shows "int (fst (firings ts ct)) \<le> elapsed (ct_start ct) (last (p # ts)) - ct_count ct \<and>
    elapsed (ct_start ct) (last (p # ts)) - ct_count ct \<le> int (fst (firings ts ct)) + elapsed (ct_start ct) (last (p # ts)) div MAX_INTERVAL"
  using assms
proof (induction ts arbitrary: ct p)
  case Nil
  then have "0 \<le> elapsed (ct_start ct) p" by (simp add: elapsed_def)
  with Nil.prems(1) show ?case by simp
next
  case (Cons now ts)
  let ?s = "ct_start ct" and ?c = "ct_count ct" and ?T = "last (now # ts)"
  let ?e = "elapsed ?s now"
  have gap: "in_time p now" "successively in_time (now # ts)" using Cons.prems(5) by simp_all
  have c0: "0 \<le> ?c" using Cons.prems(1,3) by (simp add: elapsed_def)
  have e: "?c \<le> ?e" "?e \<le> ?c + MS_LIMIT" using elapsed_gap [of p now ?s] gap(1) Cons.prems(1) by (simp_all add: in_time_def)
  have sn: "ns ?s \<le> ns now" using Cons.prems(3) gap(1) by (simp add: in_time_def)
  have T: "?T = last (p # now # ts)" by simp
  show ?case
  proof (cases "?e \<le> MAX_INTERVAL")
    case True
    obtain r d where d: "coretimer_func now ct = (nat (?e - ?c), r, d)" "ct_start d = ?s" "ct_count d = ?e" "ct_last_count d = ?e"
      using coretimer_on_time [OF refl Cons.prems(2) e True c0] by blast
    have "int (fst (firings ts d)) \<le> elapsed ?s ?T - ?e \<and> elapsed ?s ?T - ?e \<le> int (fst (firings ts d)) + elapsed ?s ?T div MAX_INTERVAL"
      using Cons.IH [of d now] gap(2) sn True by (simp add: d)
    then show ?thesis using d(1) e(1) unfolding T [symmetric] by (simp add: split_beta)
  next
    case False
    obtain r d where d: "coretimer_func now ct = (nat (?e - ?c), r, d)" "ct_start d = now" "ct_count d = 0" "ct_last_count d = 0"
      using coretimer_renews [OF refl Cons.prems(2) e _ c0 Cons.prems(4)] False by fastforce
    have i: "int (fst (firings ts d)) \<le> elapsed now ?T" "elapsed now ?T \<le> int (fst (firings ts d)) + elapsed now ?T div MAX_INTERVAL"
      using Cons.IH [of d now] gap(2) by (simp_all add: d)
    have sp: "?e + elapsed now ?T \<le> elapsed ?s ?T" "elapsed ?s ?T \<le> ?e + elapsed now ?T + 1" using elapsed_split [of ?s now ?T] by simp_all
    have "elapsed now ?T div MAX_INTERVAL + 1 = (elapsed now ?T + MAX_INTERVAL) div MAX_INTERVAL" by simp
    also have "\<dots> \<le> elapsed ?s ?T div MAX_INTERVAL" using sp(1) False by (intro zdiv_mono1) simp_all
    finally show ?thesis using i sp d(1) e(1) unfolding T [symmetric] by (simp add: split_beta)
  qed
qed

section \<open>Examples\<close>

theorem timers_stay_consistent_witness:
  "\<exists>s. timer_step\<^sup>*\<^sup>* \<lparr>timer_at = (\<lambda>_. None), timer_list = []\<rparr> s \<and> timer_list s = [3] \<and>
     (\<exists>t. timer_at s 3 = Some t \<and> t_ms t = 20 \<and> t_pos t \<le> 20)"
proof -
  let ?z = "\<lparr>timer_at = (\<lambda>_. None), timer_list = []\<rparr> :: timers"
  obtain r s1 where a: "timer_open True 3 ?z = (r, s1)" by fastforce
  obtain r2 j s2 where b: "timer_ioctl 3 (TIMERCONFIG 20) s1 = (r2, j, s2)" by (metis prod_cases3)
  have "timer_step ?z s1" by (rule timer_step.open_timer [OF _ a]) simp
  moreover have "timer_step s1 s2" by (rule timer_step.ioctl [OF b])
  ultimately have s: "timer_step\<^sup>*\<^sup>* ?z s2" by simp
  have "timer_list s2 = [3] \<and> (\<exists>t. timer_at s2 3 = Some t \<and> t_ms t = 20)"
    using a b by (auto simp: timer_open_def timer_ioctl_def timer_config_def put_timer_def)
  with s timers_stay_consistent [OF s] show ?thesis by fastforce
qed

theorem timer_expires_at_rate_witness:
  "\<exists>u. timer_at ((process_timers ^^ 10) (timer_config 0 20 \<lparr>timer_at = [0 \<mapsto> \<lparr>t_ms = 0, t_pos = 0, t_ping = False, t_tripped = 0\<rparr>],
     timer_list = []\<rparr>)) 0 = Some u \<and> t_tripped u = 3"
  using timer_expires_at_rate [of "\<lparr>timer_at = [0 \<mapsto> \<lparr>t_ms = 0, t_pos = 0, t_ping = False, t_tripped = 0\<rparr>], timer_list = []\<rparr>"
      0 "\<lparr>t_ms = 0, t_pos = 0, t_ping = False, t_tripped = 0\<rparr>" 20 10]
  by (simp add: timers_inv_def timer_good_def timer_ok_def i32_def)

theorem core_timer_keeps_pace_witness:
  "fst (firings [(0, 4000000), (0, 9500000), (1, 0)] \<lparr>ct_start = (0, 0), ct_receive_used = False, ct_count = 0,
     ct_last_count = 0, ct_shutdown = False\<rparr>) = 1000"
  using core_timer_keeps_pace [of "\<lparr>ct_start = (0, 0), ct_receive_used = False, ct_count = 0,
      ct_last_count = 0, ct_shutdown = False\<rparr>" "(0, 0)" "[(0, 4000000), (0, 9500000), (1, 0)]"]
  by (simp add: elapsed_def ns_def in_time_def del: firings.simps)

end
