(* ===== verification/Audio.thy ===== *)
theory Audio
  imports Echo Conference Timers
begin

text \<open>
  What happens to each chunk of samples: the audio handlers of \<^verbatim>\<open>dahdi-base.c\<close>
  (\<open>__dahdi_process_getaudio_chunk\<close>, \<open>__dahdi_process_putaudio_chunk\<close>) with gains, tones, conferences and
  monitoring, and the functions that call them for each span (\<open>_dahdi_transmit\<close>, \<open>_dahdi_receive\<close>) and
  for all conferences (\<open>_process_masterspan\<close>). Samples are integers in the range of a 16-bit \<open>short\<close>.
\<close>

section \<open>Sums with saturation\<close>

definition clip :: "int \<Rightarrow> int" where
  "clip x = (if x > 32767 then 32767 else if x < - 32768 then - 32768 else x)"

definition ACSS :: "int list \<Rightarrow> int list \<Rightarrow> int list" where
  "ACSS dst src = map2 (\<lambda>d s. clip (d + s)) dst src"

definition SCSS :: "int list \<Rightarrow> int list \<Rightarrow> int list" where
  "SCSS dst src = map2 (\<lambda>d s. clip (d - s)) dst src"

section \<open>Tone detection on receive\<close>

definition i64 :: "int \<Rightarrow> int" where
  "i64 x = (x + 2 ^ 63) mod 2 ^ 64 - 2 ^ 63"

record sf_detect_state =
  sf_x1 :: int
  sf_x2 :: int
  sf_y1 :: int
  sf_y2 :: int
  sf_e1 :: int
  sf_e2 :: int
  sf_samps :: int
  sf_lastdetect :: int

definition sf_sample :: "int \<Rightarrow> int \<Rightarrow> int \<Rightarrow> int \<Rightarrow> sf_detect_state \<Rightarrow> int \<times> sf_detect_state" where
  "sf_sample p1 p2 p3 a s =
     (let x = a * 16384;
          y = i64 (sf_x2 s + i64 (p1 * (sf_x1 s div 16384)) + x);
          y = i64 (y + i64 (i64 (p2 * (sf_y2 s div 16384)) + i64 (p3 * (sf_y1 s div 16384))));
          a = short (y div 16384)
      in (a, s\<lparr>sf_x2 := sf_x1 s, sf_x1 := x, sf_y2 := sf_y1 s, sf_y1 := y, sf_e2 := i64 (sf_e2 s + \<bar>a\<bar>)\<rparr>))"

fun sf_filter :: "int \<Rightarrow> int \<Rightarrow> int \<Rightarrow> int list \<Rightarrow> sf_detect_state \<Rightarrow> int list \<times> sf_detect_state" where
  "sf_filter p1 p2 p3 [] s = ([], s)"
| "sf_filter p1 p2 p3 (a # as) s =
     (let (b, s) = sf_sample p1 p2 p3 a s; (bs, s) = sf_filter p1 p2 p3 as s in (b # bs, s))"

text \<open>The result is 0 (no decision yet), 1 (no tone) or 2 (tone), with the filtered samples.\<close>

definition sf_detect :: "int list \<Rightarrow> int \<Rightarrow> int \<Rightarrow> int \<Rightarrow> sf_detect_state \<Rightarrow> int \<times> int list \<times> sf_detect_state" where
  "sf_detect amp p1 p2 p3 s =
     (let s = s\<lparr>sf_e1 := foldl (\<lambda>e a. i64 (e + \<bar>a\<bar>)) (sf_e1 s) amp\<rparr>;
          (out, s) = sf_filter p1 p2 p3 amp s;
          s = s\<lparr>sf_samps := sf_samps s + int (length amp)\<rparr>
      in if sf_samps s \<ge> int DAHDI_CHUNKSIZE * 5 then
           (if i64 (sf_e1 s - sf_e2 s) div sf_samps s > 500 then 2 else 1, out, s\<lparr>sf_samps := 0, sf_e1 := 0, sf_e2 := 0\<rparr>)
         else (0, out, s))"

section \<open>Channels\<close>

text \<open>The last fields of the channel; \<open>master\<close> and \<open>nextslave\<close> name channels.\<close>

record chan_audio = chan_echo +
  master :: int
  nextslave :: "int option"
  getlin :: "int list"
  getraw :: "u8 list"
  putlin :: "int list"
  putraw :: "u8 list"
  rxp1 :: int
  rxp2 :: int
  rxp3 :: int
  rd :: sf_detect_state

record sums =
  sums_prev :: "int list list"
  sums_cur :: "int list list"
  sums_next :: "int list list"

abbreviation (input) CONF_NORMAL :: int where "CONF_NORMAL \<equiv> 0"
abbreviation (input) CONF_LISTENER :: int where "CONF_LISTENER \<equiv> 0x100"
abbreviation (input) CONF_TALKER :: int where "CONF_TALKER \<equiv> 0x200"
abbreviation (input) CONF_PSEUDO_LISTENER :: int where "CONF_PSEUDO_LISTENER \<equiv> 0x400"
abbreviation (input) CONF_PSEUDO_TALKER :: int where "CONF_PSEUDO_TALKER \<equiv> 0x800"

definition silence :: "'a chan_law_scheme \<Rightarrow> u8 list" where
  "silence c = replicate DAHDI_CHUNKSIZE (DAHDI_LIN2X 0 (xlaw c))"

definition no_samples :: "int list" where
  "no_samples = replicate DAHDI_CHUNKSIZE 0"

definition gain_chunk :: "u8 list option \<Rightarrow> u8 list \<Rightarrow> u8 list" where
  "gain_chunk gain xs = (case gain of None \<Rightarrow> xs | Some t \<Rightarrow> map (\<lambda>x. t ! unat x) xs)"

text \<open>
  Talking: what was really added to the sum, and the sum with it. Listening: the sum without what one
  said oneself.
\<close>

definition talk :: "int list \<Rightarrow> int list \<Rightarrow> int list \<times> int list" where
  "talk lin tot = (let k = ACSS lin tot; last = SCSS k tot in (last, ACSS tot last))"

definition listen :: "int list \<Rightarrow> int list \<Rightarrow> int list \<Rightarrow> int list" where
  "listen lin own tot = ACSS (SCSS lin own) tot"

definition is_conf_flag :: "int \<Rightarrow> 'a chan_conf_scheme \<Rightarrow> bool" where
  "is_conf_flag f c \<longleftrightarrow> confmode c AND f \<noteq> 0"

definition conf_kind :: "'a chan_conf_scheme \<Rightarrow> int" where
  "conf_kind c = confmode c AND CONF_MODE_MASK"

fun ced_scan :: "echo_can_disable_detector \<Rightarrow> int list \<Rightarrow> bool \<times> echo_can_disable_detector" where
  "ced_scan det [] = (False, det)"
| "ced_scan det (a # as) =
     (let (hit, det) = echo_can_disable_detector_update det a in if hit then (True, det) else ced_scan det as)"

text \<open>
  Monitoring adds the samples of another channel. The sources of each mode, for the side that is sent
  and the side that is received; \<open>None\<close> when the samples before echo cancellation are not kept.
\<close>

definition is_monitor :: "int \<Rightarrow> bool" where
  "is_monitor m \<longleftrightarrow> m \<in> {CONF_MONITOR, CONF_MONITORTX, CONF_MONITORBOTH,
     CONF_MONITOR_RX_PREECHO, CONF_MONITOR_TX_PREECHO, CONF_MONITORBOTH_PREECHO}"

definition preec_of :: "'a chan_audio_scheme \<Rightarrow> int list option" where
  "preec_of p = (if readchunkpreec p then Some (preec p) else None)"

definition tx_sources :: "int \<Rightarrow> 'a chan_audio_scheme \<Rightarrow> int list list option" where
  "tx_sources m p =
     (if m = CONF_MONITOR then Some [if is_pseudo_chan p then getlin p else putlin p]
      else if m = CONF_MONITORTX then Some [if is_pseudo_chan p then putlin p else getlin p]
      else if m = CONF_MONITORBOTH then Some [putlin p, getlin p]
      else map_option (\<lambda>pre.
        if m = CONF_MONITOR_RX_PREECHO then [if is_pseudo_chan p then pre else putlin p]
        else if m = CONF_MONITOR_TX_PREECHO then [if is_pseudo_chan p then putlin p else pre]
        else [putlin p, pre]) (preec_of p))"

definition rx_sources :: "int \<Rightarrow> 'a chan_audio_scheme \<Rightarrow> int list list option" where
  "rx_sources m p =
     (if m = CONF_MONITOR then Some [if is_pseudo_chan p then getlin p else putlin p]
      else if m = CONF_MONITORTX then Some [if is_pseudo_chan p then putlin p else getlin p]
      else if m = CONF_MONITORBOTH then Some [getlin p, putlin p]
      else map_option (\<lambda>pre.
        if m = CONF_MONITOR_RX_PREECHO then [if is_pseudo_chan p then getlin p else pre]
        else if m = CONF_MONITOR_TX_PREECHO then [if is_pseudo_chan p then pre else getlin p]
        else [getlin p, pre]) (preec_of p))"

section \<open>The transmit side\<close>

definition tx_ced :: "int list \<Rightarrow> 'a chan_echo_scheme \<Rightarrow> 'a chan_echo_scheme" where
  "tx_ced lin c = (case ec_state c of
     None \<Rightarrow> c
   | Some ec \<Rightarrow>
      (if ec_mode ec = ECHO_MODE_ACTIVE \<and> \<not> CED_tx_detect (ec_features ec) then
         (let (hit, det) = ced_scan (txecdis ec) lin; c = c\<lparr>ec_state := Some (ec\<lparr>txecdis := det\<rparr>)\<rparr>
          in if hit then qevent (set_echocan_fax_mode True c) EVENT_TX_CED_DETECTED else c)
       else c))"

text \<open>\<open>DAHDI_CONF_CONFMON\<close>, to which the other conference modes of real channels fall through.\<close>

definition tx_confmon :: "int list \<Rightarrow> 'a chan_audio_scheme \<Rightarrow> sums \<Rightarrow> int list \<times> u8 list" where
  "tx_confmon lin c s =
     (let lin = (if is_conf_flag CONF_LISTENER c then listen lin (conflast c) (sums_cur s ! nat (confn c)) else lin)
      in (lin, companded c lin))"

definition tx_conf :: "int list \<Rightarrow> 'a chan_audio_scheme \<Rightarrow> sums \<Rightarrow> int list \<times> u8 list \<times> 'a chan_audio_scheme \<times> sums" where
  "tx_conf lin c s =
     (if is_pseudo_chan c then
        (if is_conf_flag CONF_TALKER c then
           (let n = nat (confn c); (last, tot) = talk lin (sums_cur s ! n)
            in (lin, silence c, c\<lparr>conflast := last, getlin := lin\<rparr>, s\<lparr>sums_cur := (sums_cur s)[n := tot]\<rparr>))
         else (getlin c, silence c, c\<lparr>conflast := no_samples\<rparr>, s))
      else (let (lin, txb) = tx_confmon lin c s in (lin, txb, c, s)))"

definition tx_realandpseudo :: "int list \<Rightarrow> 'a chan_audio_scheme \<Rightarrow> sums \<Rightarrow> 'a chan_audio_scheme \<times> sums" where
  "tx_realandpseudo lin c s =
     (if is_conf_flag CONF_PSEUDO_TALKER c then
        (let n = nat (confn c); (last, tot) = talk lin (sums_next s ! n)
         in (c\<lparr>conflast2 := conflast1 c, conflast1 := last\<rparr>, s\<lparr>sums_next := (sums_next s)[n := tot]\<rparr>))
      else (c\<lparr>conflast1 := no_samples, conflast2 := no_samples\<rparr>, s))"

definition tx_announce :: "int list \<Rightarrow> 'a chan_audio_scheme \<Rightarrow> sums \<Rightarrow> int list \<times> u8 list \<times> 'a chan_audio_scheme \<times> sums" where
  "tx_announce lin c s =
     (let n = nat (confn c);
          s = s\<lparr>sums_next := (sums_next s)[n := ACSS (sums_next s ! n) lin]\<rparr>;
          lin = (if is_conf_flag CONF_LISTENER c then listen no_samples (conflast c) (sums_cur s ! n) else no_samples)
      in (lin, companded c lin, c, s))"

definition tx_digitalmon :: "'a chan_audio_scheme \<Rightarrow> 'a chan_audio_scheme \<Rightarrow> int list \<times> u8 list" where
  "tx_digitalmon p c =
     (let txb = (if is_pseudo_chan p then (if ec_state c \<noteq> None then companded c (getlin p) else getraw p)
                 else (if ec_state c \<noteq> None then companded c (putlin p) else putraw p))
      in (linear c txb, txb))"

text \<open>The switch on the mode; \<open>peer\<close> is what \<open>conf_chan\<close> points to, and \<open>None\<close> a null pointer followed.\<close>

definition getaudio_mode :: "'a chan_audio_scheme option \<Rightarrow> int list \<Rightarrow> u8 list \<Rightarrow> 'a chan_audio_scheme \<Rightarrow> sums \<Rightarrow>
    (int list \<times> u8 list \<times> 'a chan_audio_scheme \<times> sums) option" where
  "getaudio_mode peer lin txb c s =
     (let m = conf_kind c in
      if is_monitor m then
        (if is_pseudo_chan c then Some (lin, txb, c, s)
         else case peer of None \<Rightarrow> None
         | Some p \<Rightarrow> (case tx_sources m p of
             None \<Rightarrow> Some (lin, txb, c, s)
           | Some srcs \<Rightarrow> (let lin = foldl ACSS lin srcs in Some (lin, companded c lin, c, s))))
      else if m = CONF_REALANDPSEUDO then
        (let (c, s) = tx_realandpseudo lin c s in Some (tx_conf no_samples c s))
      else if m = CONF_CONF then Some (tx_conf lin c s)
      else if m = CONF_CONFMON then (let (lin, txb) = tx_confmon lin c s in Some (lin, txb, c, s))
      else if m = CONF_CONFANN \<or> m = CONF_CONFANNMON then Some (tx_announce lin c s)
      else if m = CONF_DIGITALMON then
        (case peer of None \<Rightarrow> Some (lin, txb, c, s)
         | Some p \<Rightarrow> (let (lin, txb) = tx_digitalmon p c in Some (lin, txb, c, s)))
      else Some (lin, txb, c, s))"

definition tx_mute :: "u8 list \<Rightarrow> 'a chan_audio_scheme \<Rightarrow> u8 list \<times> 'a chan_audio_scheme" where
  "tx_mute txb c =
     (if confmute c \<noteq> 0 \<or> (case ec_state c of None \<Rightarrow> False | Some ec \<Rightarrow> mode_mute (ec_mode ec)) then
        (if (case ec_state c of None \<Rightarrow> False | Some ec \<Rightarrow> ec_mode ec = ECHO_MODE_STARTTRAINING)
         then ((silence c)[0 := DAHDI_LIN2X 16384 (xlaw c)], set_ec_mode ECHO_MODE_AWAITINGECHO c)
         else (silence c, c))
      else (txb, c))"

fun tx_tone :: "int list \<Rightarrow> 'a chan_rbs_scheme \<Rightarrow> u8 list \<times> 'a chan_rbs_scheme" where
  "tx_tone [] c = ([], c)"
| "tx_tone (l # ls) c =
     (let (t, c) = txtone_nextsample c; (out, c) = tx_tone ls c in (DAHDI_LIN2X (short (l + t)) (xlaw c) # out, c))"

definition tx_finish :: "int list \<Rightarrow> u8 list \<Rightarrow> 'a chan_audio_scheme \<Rightarrow> u8 list \<times> 'a chan_audio_scheme" where
  "tx_finish lin txb c =
     (let (txb, c) = tx_mute txb c;
          c = c\<lparr>getlin := lin, getraw := txb\<rparr>;
          (txb, c) = (if v1_1 c \<noteq> 0 \<or> v2_1 c \<noteq> 0 \<or> v3_1 c \<noteq> 0 then tx_tone lin c else (txb, c))
      in (gain_chunk (txgain c) txb, c))"

text \<open>
  Channels are in a store, since a handler works on a channel, its master and the channel it
  monitors. \<open>getaudio\<close> is \<open>__dahdi_process_getaudio_chunk\<close>: the octets to send and the new store.
\<close>

record 'c sound =
  chan_at :: "int \<Rightarrow> 'c"
  snd_sums :: sums
  snd_spans :: "int list list"
  snd_pseudos :: "int list"
  snd_maxconfs :: nat
  snd_timers :: timers

definition put_chan :: "int \<Rightarrow> 'c \<Rightarrow> 'c sound \<Rightarrow> 'c sound" where
  "put_chan i c w = w\<lparr>chan_at := (chan_at w)(i := c)\<rparr>"

definition conf_peer :: "'a chan_audio_scheme sound \<Rightarrow> int \<Rightarrow> 'a chan_audio_scheme option" where
  "conf_peer w m = map_option (chan_at w) (conf_chan (chan_at w m))"

definition getaudio :: "int \<Rightarrow> u8 list \<Rightarrow> 'a chan_audio_scheme sound \<Rightarrow> (u8 list \<times> 'a chan_audio_scheme sound) option" where
  "getaudio ss txb w =
     (let m = master (chan_at w ss);
          lin = linear (chan_at w m) txb;
          w = put_chan m (tx_ced lin (chan_at w m)) w;
          c = chan_at w m
      in case (if (confmute c = 0 \<and> \<not> dialing c) \<or> is_pseudo_chan c
               then getaudio_mode (conf_peer w m) lin txb c (snd_sums w)
               else Some (lin, txb, c, snd_sums w)) of
           None \<Rightarrow> None
         | Some (lin, txb, c, s) \<Rightarrow>
             (let (txb, c) = tx_finish lin txb c in Some (txb, put_chan m c (w\<lparr>snd_sums := s\<rparr>))))"

section \<open>The receive side\<close>

definition rx_dialing :: "'a chan_tone_scheme \<Rightarrow> 'a chan_tone_scheme" where
  "rx_dialing c =
     (if dialing c then c\<lparr>afterdialingtimer := 50\<rparr>
      else if afterdialingtimer c \<noteq> 0 then c\<lparr>afterdialingtimer := afterdialingtimer c - 1\<rparr> else c)"

definition rx_ced :: "int list \<Rightarrow> 'a chan_echo_scheme \<Rightarrow> 'a chan_echo_scheme" where
  "rx_ced lin c = (case ec_state c of
     None \<Rightarrow> c
   | Some ec \<Rightarrow>
      (if ec_mode ec = ECHO_MODE_ACTIVE \<and> \<not> CED_rx_detect (ec_features ec) then
         (let (hit, det) = ced_scan (rxecdis ec) lin; c = c\<lparr>ec_state := Some (ec\<lparr>rxecdis := det\<rparr>)\<rparr>
          in if hit then qevent (set_echocan_fax_mode True c) EVENT_RX_CED_DETECTED else c)
       else c))"

definition rx_sf_event :: "int \<Rightarrow> 'a chan_audio_scheme \<Rightarrow> 'a chan_audio_scheme" where
  "rx_sf_event r c =
     (if r \<noteq> 0 \<and> r \<noteq> sf_lastdetect (rd c) then
        (let reverse = (toneflags c AND REVERSE_RXTONE \<noteq> 0);
             c = qevent c (if (r = 2 \<and> \<not> reverse) \<or> (r = 1 \<and> reverse) then EVENT_RINGOFFHOOK else EVENT_ONHOOK)
         in c\<lparr>rd := (rd c)\<lparr>sf_lastdetect := r\<rparr>\<rparr>)
      else c)"

definition rx_tone :: "int list \<Rightarrow> u8 list \<Rightarrow> 'a chan_audio_scheme \<Rightarrow> int list \<times> u8 list \<times> 'a chan_audio_scheme" where
  "rx_tone lin rxb c =
     (if rxp1 c \<noteq> 0 \<and> rxp2 c \<noteq> 0 \<and> rxp3 c \<noteq> 0 then
        (let (r, lin, st) = sf_detect lin (rxp1 c) (rxp2 c) (rxp3 c) (rd c)
         in (lin, companded c lin, rx_sf_event r (c\<lparr>rd := st\<rparr>)))
      else (lin, rxb, c))"

definition rx_talk_next :: "int list \<Rightarrow> 'a chan_audio_scheme \<Rightarrow> sums \<Rightarrow> 'a chan_audio_scheme \<times> sums" where
  "rx_talk_next lin c s =
     (if is_conf_flag CONF_TALKER c then
        (let n = nat (confn c); (last, tot) = talk lin (sums_next s ! n)
         in (c\<lparr>conflast := last\<rparr>, s\<lparr>sums_next := (sums_next s)[n := tot]\<rparr>))
      else (c\<lparr>conflast := no_samples\<rparr>, s))"

definition rx_talk_cur :: "int list \<Rightarrow> 'a chan_audio_scheme \<Rightarrow> sums \<Rightarrow> 'a chan_audio_scheme \<times> sums" where
  "rx_talk_cur lin c s =
     (if is_conf_flag CONF_TALKER c then
        (let n = nat (confn c); (last, tot) = talk lin (SCSS (sums_cur s ! n) (conflast c))
         in (c\<lparr>conflast := last\<rparr>, s\<lparr>sums_cur := (sums_cur s)[n := tot]\<rparr>))
      else (c\<lparr>conflast := no_samples\<rparr>, s))"

text \<open>The switch on the mode. The last part of the result is what a pseudo channel in a conference stores as \<open>putlin\<close>.\<close>

definition putaudio_mode :: "'a chan_audio_scheme option \<Rightarrow> int list \<Rightarrow> u8 list \<Rightarrow> 'a chan_audio_scheme \<Rightarrow> sums \<Rightarrow>
    (u8 list \<times> 'a chan_audio_scheme \<times> sums \<times> int list option) option" where
  "putaudio_mode peer lin rxb c s =
     (let m = conf_kind c; n = nat (confn c) in
      if is_monitor m then
        (if \<not> is_pseudo_chan c then Some (rxb, c, s, None)
         else case peer of None \<Rightarrow> None
         | Some p \<Rightarrow> Some ((case rx_sources m p of None \<Rightarrow> rxb | Some srcs \<Rightarrow> companded c (foldl ACSS lin srcs)), c, s, None))
      else if m = CONF_REALANDPSEUDO then
        (let (c, s) = rx_talk_next lin c s;
             lin = (if is_conf_flag CONF_PSEUDO_LISTENER c then listen no_samples (conflast2 c) (sums_cur s ! n) else no_samples)
         in Some (companded c lin, c, s, None))
      else if m = CONF_CONF \<and> is_pseudo_chan c then
        (let lin = (if is_conf_flag CONF_LISTENER c then listen lin (conflast c) (sums_cur s ! n) else lin)
         in Some (companded c lin, c, s, Some lin))
      else if m = CONF_CONF \<or> m = CONF_CONFANN then (let (c, s) = rx_talk_next lin c s in Some (rxb, c, s, None))
      else if m = CONF_CONFMON \<or> m = CONF_CONFANNMON then
        (let (c, s) = rx_talk_cur lin c s in Some (companded c (sums_prev s ! n), c, s, None))
      else if m = CONF_DIGITALMON \<and> is_pseudo_chan c then
        map_option (\<lambda>p. (if is_pseudo_chan p then getraw p else putraw p, c, s, None)) peer
      else Some (rxb, c, s, None))"

definition rx_prepare :: "u8 list \<Rightarrow> 'a chan_audio_scheme \<Rightarrow> int list \<times> u8 list \<times> 'a chan_audio_scheme" where
  "rx_prepare rxb c =
     (let c = rx_dialing c;
          rxb = gain_chunk (rxgain c) (if afterdialingtimer c \<noteq> 0 \<and> \<not> is_pseudo_chan c then silence c else rxb);
          lin = linear c rxb;
          (lin, rxb, c) = rx_tone lin rxb (rx_ced lin c)
      in (lin, rxb, if is_pseudo_chan c then c else c\<lparr>putlin := lin, putraw := rxb\<rparr>))"

definition putaudio :: "int \<Rightarrow> u8 list \<Rightarrow> 'a chan_audio_scheme sound \<Rightarrow> (u8 list \<times> 'a chan_audio_scheme sound) option" where
  "putaudio ss rxb w =
     (let m = master (chan_at w ss);
          (lin, rxb, c) = rx_prepare rxb (chan_at w m);
          w = put_chan m c w
      in if (confmute c = 0 \<and> afterdialingtimer c = 0) \<or> is_pseudo_chan c then
           map_option (\<lambda>(rxb, c, s, stored).
               (let w = put_chan m c (w\<lparr>snd_sums := s\<rparr>)
                in (rxb, case stored of None \<Rightarrow> w | Some l \<Rightarrow> put_chan ss ((chan_at w ss)\<lparr>putlin := l\<rparr>) w)))
             (putaudio_mode (conf_peer w m) lin rxb c (snd_sums w))
         else Some (rxb, w))"

section \<open>Chunks\<close>

text \<open>
  What the handlers need from outside: the kernel's check sequence step, the tone zones, and the fuel
  for the loop over the tones of a chunk.
\<close>

record 'c sound_env =
  env_fcs :: "int \<Rightarrow> u8 \<Rightarrow> int"
  env_tones :: tone_env
  env_fuel :: nat

text \<open>A pseudo channel has no span; the code would follow a null pointer for the alarms of one.\<close>

definition has_alarms :: "'a dahdi_chan_scheme \<Rightarrow> bool" where
  "has_alarms c \<longleftrightarrow> (case chan_span c of None \<Rightarrow> False | Some s \<Rightarrow> span_alarms s \<noteq> 0)"

definition wants_audio :: "'a chan_conf_scheme \<Rightarrow> bool" where
  "wants_audio c \<longleftrightarrow> FLAG_AUDIO \<in> chan_flags c \<or> confmode c \<noteq> 0"

definition transmit_chunk :: "'e sound_env \<Rightarrow> int \<Rightarrow> 'a chan_audio_scheme sound \<Rightarrow> (u8 list \<times> 'a chan_audio_scheme sound) option" where
  "transmit_chunk env i w =
     (let m = master (chan_at w i) in
      case getbuf_chunk (env_fuel env) (env_tones env) (chan_at w m) of
        None \<Rightarrow> None
      | Some (txb, c) \<Rightarrow>
         (let w = put_chan m c w in if wants_audio (chan_at w i) then getaudio i txb w else Some (txb, w)))"

definition receive_chunk :: "'e sound_env \<Rightarrow> int \<Rightarrow> u8 list option \<Rightarrow> 'a chan_audio_scheme sound \<Rightarrow>
    (u8 list \<times> 'a chan_audio_scheme sound) option" where
  "receive_chunk env i buf w =
     (let rxb = (case buf of None \<Rightarrow> silence (chan_at w i) | Some b \<Rightarrow> b) in
      case (if wants_audio (chan_at w i) then putaudio i rxb w else Some (rxb, w)) of
        None \<Rightarrow> None
      | Some (rxb, w) \<Rightarrow>
         (let m = master (chan_at w i) in
          map_option (\<lambda>c. (rxb, put_chan m c w))
            (putbuf_chunk (env_fcs env) (Suc (length rxb)) (FLAG_NOSTDTXRX \<in> chan_flags (chan_at w i))
               (has_alarms (chan_at w i)) rxb (chan_at w m))))"

text \<open>A channel in a conference exchanges its chunks with the conference through its two queues.\<close>

definition real_transmit :: "'e sound_env \<Rightarrow> int \<Rightarrow> 'a chan_audio_scheme sound \<Rightarrow> 'a chan_audio_scheme sound option" where
  "real_transmit env i w =
     (let c = chan_at w i in
      if confmode c \<noteq> 0 then
        (let (data, r, q) = buf_pull (DAHDI_LIN2X 0 (xlaw c)) (confout c)
         in Some (put_chan i (c\<lparr>writechunk := data, confout := q\<rparr>) w))
      else map_option (\<lambda>(txb, w). put_chan i ((chan_at w i)\<lparr>writechunk := txb\<rparr>) w) (transmit_chunk env i w))"

definition real_receive :: "'e sound_env \<Rightarrow> int \<Rightarrow> 'a chan_audio_scheme sound \<Rightarrow> 'a chan_audio_scheme sound option" where
  "real_receive env i w =
     (let c = chan_at w i in
      if confmode c \<noteq> 0 then Some (put_chan i (c\<lparr>confin := snd (buf_push (confin c) (Some (readchunk c)))\<rparr>) w)
      else map_option (\<lambda>(rxb, w). put_chan i ((chan_at w i)\<lparr>readchunk := rxb\<rparr>) w) (receive_chunk env i (Some (readchunk c)) w))"

section \<open>Channels bundled from several time slots\<close>

text \<open>The chain of slaves, with at most \<open>n\<close> channels; \<open>None\<close> if it is longer, or circular.\<close>

fun slave_chain :: "nat \<Rightarrow> (int \<Rightarrow> int option) \<Rightarrow> int \<Rightarrow> int list option" where
  "slave_chain 0 next_of i = None"
| "slave_chain (Suc n) next_of i = (case next_of i of
     None \<Rightarrow> Some [i] | Some j \<Rightarrow> map_option ((#) i) (slave_chain n next_of j))"

abbreviation (input) MAX_SLAVES :: nat where "MAX_SLAVES \<equiv> 1024"

definition slaves_of :: "'a chan_audio_scheme sound \<Rightarrow> int \<Rightarrow> int list option" where
  "slaves_of w i = slave_chain MAX_SLAVES (\<lambda>j. nextslave (chan_at w j)) i"

text \<open>
  The loops over the octets of a chunk and the slaves. \<open>rest\<close> holds the octets of the current chunk
  that are still to be dealt out, \<open>got\<close> those collected so far.
\<close>

fun deal_out :: "'e sound_env \<Rightarrow> int \<Rightarrow> (nat \<times> int) list \<Rightarrow> u8 list \<Rightarrow> 'a chan_audio_scheme sound \<Rightarrow>
    'a chan_audio_scheme sound option" where
  "deal_out env i [] rest w = Some w"
| "deal_out env i ((k, j) # ps) rest w =
     (case (if rest = [] then transmit_chunk env i w else Some (rest, w)) of
        None \<Rightarrow> None
      | Some (rest, w) \<Rightarrow>
         (let c = chan_at w j
          in deal_out env i ps (tl rest) (put_chan j (c\<lparr>writechunk := (writechunk c)[k := hd rest]\<rparr>) w)))"

definition transmit_to_slaves :: "'e sound_env \<Rightarrow> int \<Rightarrow> 'a chan_audio_scheme sound \<Rightarrow> 'a chan_audio_scheme sound option" where
  "transmit_to_slaves env i w =
     Option.bind (slaves_of w i) (\<lambda>js. deal_out env i (List.product [0..<DAHDI_CHUNKSIZE] js) [] w)"

fun collect_in :: "'e sound_env \<Rightarrow> int \<Rightarrow> (nat \<times> int) list \<Rightarrow> u8 list \<Rightarrow> 'a chan_audio_scheme sound \<Rightarrow>
    'a chan_audio_scheme sound option" where
  "collect_in env i [] got w = Some w"
| "collect_in env i ((k, j) # ps) got w =
     (let got = got @ [readchunk (chan_at w j) ! k] in
      if length got = DAHDI_CHUNKSIZE then
        (case receive_chunk env i (Some got) w of None \<Rightarrow> None | Some (_, w) \<Rightarrow> collect_in env i ps [] w)
      else collect_in env i ps got w)"

definition receive_from_slaves :: "'e sound_env \<Rightarrow> int \<Rightarrow> 'a chan_audio_scheme sound \<Rightarrow> 'a chan_audio_scheme sound option" where
  "receive_from_slaves env i w =
     Option.bind (slaves_of w i) (\<lambda>js. collect_in env i (List.product [0..<DAHDI_CHUNKSIZE] js) [] w)"

section \<open>A span\<close>

definition transmit_dacs :: "int \<Rightarrow> int \<Rightarrow> 'a chan_audio_scheme sound \<Rightarrow> 'a chan_audio_scheme sound" where
  "transmit_dacs i src w =
     (let c = (chan_at w i)\<lparr>writechunk := readchunk (chan_at w src)\<rparr>;
          bits = rxsig (chan_at w src);
          c = (if sig c = SIG_DACS_RBS \<and> txsig c \<noteq> bits then drv_log (Drv_rbsbits bits) (c\<lparr>txsig := bits\<rparr>) else c)
      in put_chan i c w)"

text \<open>\<open>nonblock\<close> tells whether the file handle of a channel is non-blocking.\<close>

definition transmit_chan :: "'e sound_env \<Rightarrow> (int \<Rightarrow> bool) \<Rightarrow> int \<Rightarrow> 'a chan_audio_scheme sound \<Rightarrow> 'a chan_audio_scheme sound option" where
  "transmit_chan env nonblock i w =
     (let c = chan_at w i in
      if FLAG_NOSTDTXRX \<in> chan_flags c then Some w
      else if master c \<noteq> i then Some w
      else case dacs_chan c of
        Some src \<Rightarrow> Some (transmit_dacs i src w)
      | None \<Rightarrow>
          Option.bind (if nextslave c \<noteq> None then transmit_to_slaves env i w else real_transmit env i w)
            (\<lambda>w. map_option (\<lambda>c. put_chan i c w) (transmit_otimer (nonblock i) (env_tones env) (chan_at w i))))"

fun each_chan :: "(int \<Rightarrow> 'w \<Rightarrow> 'w option) \<Rightarrow> int list \<Rightarrow> 'w \<Rightarrow> 'w option" where
  "each_chan f [] w = Some w"
| "each_chan f (i # is) w = Option.bind (f i w) (each_chan f is)"

text \<open>The timer of a maintenance mode runs with the chunks sent.\<close>

definition maint_tick :: "'c reg_span \<Rightarrow> 'c reg_span" where
  "maint_tick s =
     (if mainttimer s \<noteq> 0 then
        (let s = s\<lparr>mainttimer := mainttimer s - int DAHDI_CHUNKSIZE\<rparr>
         in if mainttimer s \<le> 0 then s\<lparr>mainttimer := 0, maintstat := 0\<rparr> else s)
      else s)"

definition dahdi_transmit :: "'e sound_env \<Rightarrow> (int \<Rightarrow> bool) \<Rightarrow> int list \<Rightarrow> 'c reg_span \<Rightarrow> 'a chan_audio_scheme sound \<Rightarrow>
    ('c reg_span \<times> 'a chan_audio_scheme sound) option" where
  "dahdi_transmit env nonblock is s w =
     map_option (\<lambda>w. (maint_tick s, w)) (each_chan (transmit_chan env nonblock) is w)"

definition should_skip_receive :: "int \<Rightarrow> 'a chan_audio_scheme \<Rightarrow> bool" where
  "should_skip_receive i c \<longleftrightarrow> FLAG_NOSTDTXRX \<in> chan_flags c \<or> master c \<noteq> i \<or> dacs_chan c \<noteq> None"

definition receive_chan :: "'e sound_env \<Rightarrow> int \<Rightarrow> 'a chan_audio_scheme sound \<Rightarrow> 'a chan_audio_scheme sound option" where
  "receive_chan env i w =
     (let c = chan_at w i in
      if should_skip_receive i c then Some w
      else map_option (\<lambda>w. put_chan i (receive_timers (chan_at w i)) w)
        (if nextslave c \<noteq> None then receive_from_slaves env i w else real_receive env i w))"

section \<open>All conferences\<close>

definition zero_rows :: "nat \<Rightarrow> int list list \<Rightarrow> int list list" where
  "zero_rows n rows = replicate (min n (length rows)) no_samples @ drop n rows"

definition rotate_sums :: "'c sound \<Rightarrow> 'c sound" where
  "rotate_sums w =
     (let s = snd_sums w
      in w\<lparr>snd_sums := \<lparr>sums_prev = sums_cur s, sums_cur = sums_next s, sums_next = zero_rows (snd_maxconfs w) (sums_prev s)\<rparr>\<rparr>)"

text \<open>Receiving what the boards queued; the handler works on the slot of the queue in place.\<close>

definition conf_receive :: "'e sound_env \<Rightarrow> int \<Rightarrow> 'a chan_audio_scheme sound \<Rightarrow> 'a chan_audio_scheme sound option" where
  "conf_receive env i w =
     (let c = chan_at w i; data = buf_peek (confin c) in
      if confmode c = 0 then Some w
      else map_option (\<lambda>(rxb, w). (case data of
             None \<Rightarrow> w
           | Some slot \<Rightarrow>
              (let c = chan_at w i; q = confin c; q = q\<lparr>cq_buf := (cq_buf q)[slot := rxb]\<rparr>
               in put_chan i (c\<lparr>confin := snd (snd (buf_pull 0 q))\<rparr>) w)))
           (receive_chunk env i (map_option (\<lambda>slot. cq_buf (confin c) ! slot) data) w))"

definition conf_transmit :: "'e sound_env \<Rightarrow> int \<Rightarrow> 'a chan_audio_scheme sound \<Rightarrow> 'a chan_audio_scheme sound option" where
  "conf_transmit env i w =
     (let c = chan_at w i; data = buf_pushpeek (confout c) in
      if confmode c = 0 then Some w
      else map_option (\<lambda>(txb, w). (case data of
             None \<Rightarrow> w
           | Some slot \<Rightarrow>
              (let c = chan_at w i; q = confout c; q = q\<lparr>cq_buf := (cq_buf q)[slot := txb]\<rparr>
               in put_chan i (c\<lparr>confout := snd (buf_push q None)\<rparr>) w)))
           (transmit_chunk env i w))"

definition pseudo_transmit :: "'e sound_env \<Rightarrow> int \<Rightarrow> 'a chan_audio_scheme sound \<Rightarrow> 'a chan_audio_scheme sound option" where
  "pseudo_transmit env i w = map_option snd (transmit_chunk env i w)"

definition pseudo_rx_audio :: "'e sound_env \<Rightarrow> int \<Rightarrow> 'a chan_audio_scheme sound \<Rightarrow> 'a chan_audio_scheme sound option" where
  "pseudo_rx_audio env i w =
     (case getempty (env_fuel env) (env_tones env) (int DAHDI_CHUNKSIZE) (chan_at w i) of
        None \<Rightarrow> None
      | Some (tmp, c) \<Rightarrow> map_option snd (receive_chunk env i (Some tmp) (put_chan i c w)))"

definition process_masterspan :: "'e sound_env \<Rightarrow> 'a chan_audio_scheme sound \<Rightarrow> 'a chan_audio_scheme sound option" where
  "process_masterspan env w =
     (let w = w\<lparr>snd_timers := process_timers (snd_timers w)\<rparr>; real = concat (snd_spans w) in
      Option.bind (each_chan (conf_receive env) real w) (\<lambda>w.
      Option.bind (each_chan (pseudo_transmit env) (snd_pseudos w) (rotate_sums w)) (\<lambda>w.
      Option.bind (each_chan (pseudo_rx_audio env) (snd_pseudos w) w) (\<lambda>w.
      each_chan (conf_transmit env) real w))))"

text \<open>Receiving on a span; the master span also drives the conferences.\<close>

definition dahdi_receive :: "'e sound_env \<Rightarrow> bool \<Rightarrow> int list \<Rightarrow> 'a chan_audio_scheme sound \<Rightarrow> 'a chan_audio_scheme sound option" where
  "dahdi_receive env sync_master is w =
     Option.bind (each_chan (receive_chan env) is w) (\<lambda>w. if sync_master then process_masterspan env w else Some w)"

end
