(* ===== verification/Lifecycle.thy ===== *)
theory Lifecycle
  imports Audio
begin

text \<open>
  Opening, closing and removing channels in \<^verbatim>\<open>dahdi-base.c\<close>: hanging up (\<open>dahdi_hangup\<close>), the state a
  channel starts with (\<open>initialize_channel\<close>) and ends with (\<open>close_channel\<close>), the file handles
  (\<open>dahdi_specchan_open\<close>, \<open>dahdi_specchan_release\<close>) and the removal of a channel that may still be
  open (\<open>dahdi_chan_unreg\<close>).
  \<open>None\<close> as a result stands for an access through a null pointer or outside an array.
\<close>

section \<open>State\<close>

text \<open>A channel with its file handle.\<close>

record chan_open = chan_audio +
  chan_file :: "nat option"

text \<open>A file handle: its minor number, its channel, and whether the channel was removed under it.\<close>

record dahdi_file =
  f_unit :: int
  f_private :: "int option"
  f_nodev :: bool

text \<open>
  The whole driver: channels and conferences, tone zones, echo cancellers, file handles, and for each
  span number the references held on the module of its board.
\<close>

record 'c dahdi_sys =
  y_world :: "'c world"
  y_tones :: tone_env
  y_echo :: echocan_env
  y_files :: "nat \<Rightarrow> dahdi_file option"
  y_owner :: "int \<Rightarrow> int"

definition y_chan :: "int \<Rightarrow> 'a chan_conf_scheme dahdi_sys \<Rightarrow> 'a chan_conf_scheme option" where
  "y_chan n y = w_lookup (y_world y) n"

definition y_put :: "int \<Rightarrow> 'a chan_conf_scheme \<Rightarrow> 'a chan_conf_scheme dahdi_sys \<Rightarrow> 'a chan_conf_scheme dahdi_sys" where
  "y_put n c y = y\<lparr>y_world := w_update n (\<lambda>_. c) (y_world y)\<rparr>"

definition y_check_conf :: "int \<Rightarrow> 'a chan_conf_scheme dahdi_sys \<Rightarrow> 'a chan_conf_scheme dahdi_sys option" where
  "y_check_conf x y = map_option (\<lambda>w. y\<lparr>y_world := w\<rparr>) (check_conf x (y_world y))"

definition hold_owner :: "int \<Rightarrow> 'a dahdi_chan_scheme \<Rightarrow> 'c dahdi_sys \<Rightarrow> 'c dahdi_sys" where
  "hold_owner k c y = (case chan_span c of None \<Rightarrow> y
     | Some s \<Rightarrow> y\<lparr>y_owner := (y_owner y)(spanno s := y_owner y (spanno s) + k)\<rparr>)"

section \<open>Hanging up\<close>

definition clear_buffers :: "'a chan_buf_scheme \<Rightarrow> 'a chan_buf_scheme" where
  "clear_buffers c =
     (let c = c\<lparr>writen := fill_0 (numbufs c) (writen c), writeidx := fill_0 (numbufs c) (writeidx c),
                readn := fill_0 (numbufs c) (readn c), readidx := fill_0 (numbufs c) (readidx c)\<rparr>;
          i = (if readbuf c \<noteq> None then 0 else -1)
      in c\<lparr>inreadbuf := i, inwritebuf := i, outreadbuf := -1, outwritebuf := -1\<rparr>)"

definition hangup_line :: "'a chan_rbs_scheme \<Rightarrow> int \<times> 'a chan_rbs_scheme" where
  "hangup_line c = (case chan_span c of
     None \<Rightarrow> (0, c)
   | Some s \<Rightarrow>
      (if FLAG_RBS \<in> span_flags s then
         (0, if sig c = SIG_CAS then snd (cas_setbits (idlebits c) c)
             else if sig c = SIG_FXOKS \<and> txstate c \<noteq> TXSTATE_ONHOOK \<and> \<not> (rxhooksig c = RXSIG_ONHOOK \<and> itimer c \<le> 0)
             then rbs_sethook TXSIG_KEWL TXSTATE_KEWL KEWLTIME c
             else rbs_sethook TXSIG_ONHOOK TXSTATE_ONHOOK 0 c)
       else (case op_sethook (span_operations s) of
           Some f \<Rightarrow> if txhooksig c \<noteq> TXSIG_ONHOOK
                     then (f TXSIG_ONHOOK, drv_log (Drv_sethook TXSIG_ONHOOK) (c\<lparr>txhooksig := TXSIG_ONHOOK\<rparr>)) else (0, c)
         | None \<Rightarrow> (0, c))))"

definition hangup :: "'a chan_buf_scheme \<Rightarrow> int \<times> 'a chan_buf_scheme" where
  "hangup c =
     (if is_pseudo_chan c then (0, c)
      else if FLAG_CLEAR \<in> chan_flags c \<or> FLAG_NOSTDTXRX \<in> chan_flags c then (- EINVAL, c)
      else
        (let c = c\<lparr>kewlonhook := False\<rparr>;
             c = (if sig c = SIG_FXSLS \<or> sig c = SIG_FXSKS \<or> sig c = SIG_FXSGS then c\<lparr>ringdebtimer := RING_DEBOUNCE_TIME\<rparr> else c);
             (res, c) = hangup_line c
         in if FLAG_REGISTERED \<notin> chan_flags c then (res, c)
            else (res, (clear_buffers c)\<lparr>dialing := False, afterdialingtimer := 0, curtone := None, pdialcount := 0,
                         cadencepos := 0, txdialbuf := []\<rparr>)))"

section \<open>Closing\<close>

definition is_preecho_mode :: "int \<Rightarrow> bool" where
  "is_preecho_mode m \<longleftrightarrow> m = CONF_MONITOR_RX_PREECHO \<or> m = CONF_MONITOR_TX_PREECHO \<or> m = CONF_MONITORBOTH_PREECHO"

text \<open>
  The channel \<open>n\<close> is passed as \<open>c\<close> and stored back by \<open>y_put\<close>, since it may no longer be on the
  lists. First the buffer of the channel that it monitored is freed.
\<close>

definition close_preec :: "int \<Rightarrow> 'a chan_conf_scheme \<Rightarrow> 'a chan_conf_scheme dahdi_sys \<Rightarrow>
    ('a chan_conf_scheme \<times> 'a chan_conf_scheme dahdi_sys) option" where
  "close_preec n c y = (case conf_chan c of
     None \<Rightarrow> Some (c, y)
   | Some p \<Rightarrow>
      (if \<not> is_preecho_mode (confmode c) then Some (c, y)
       else Option.bind (if p = n then Some c else y_chan p y) (\<lambda>peer.
         if \<not> readchunkpreec peer then Some (c, y)
         else map_option (\<lambda>ds.
                (let peer = peer\<lparr>readchunkpreec := False, drv_calls := drv_calls peer @ ds\<rparr>
                 in if p = n then (peer, y) else (c, y_put p peer y)))
              (disable_hw_preechocan peer))))"

definition close_fields :: "'a chan_audio_scheme \<Rightarrow> 'a chan_audio_scheme" where
  "close_fields c =
     (let oldconf = confna c;
          c = (if FLAG_NOSTDTXRX \<notin> chan_flags c then snd (reallocbufs True 0 0 c) else c);
          c = c\<lparr>readchunkpreec := False, curtone := None, cadencepos := 0, pdialcount := 0\<rparr>;
          c = snd (hangup c);
          c = c\<lparr>itimerset := 0, itimer := 0, pulsecount := 0, pulsetimer := 0, ringdebtimer := 0, txdialbuf := [],
                digitmode := DIGIT_MODE_DTMF, dialing := False, afterdialingtimer := 0, iomask := 0,
                confn := 0, confna := 0, confmode := 0, confmute := 0, gotgs := False\<rparr>;
          c = reset_conf c;
          c = c\<lparr>dacs_chan := None, rxgain := None, txgain := None, eventinidx := 0, eventoutidx := 0,
                chan_flags := chan_flags c - {FLAG_LOOPED, FLAG_LINEAR, FLAG_PPP, FLAG_SIGFREEZE}\<rparr>;
          c = set_law c LAW_DEFAULT;
          c = c\<lparr>conflast := no_samples, conflast1 := no_samples, conflast2 := no_samples\<rparr>
      in if \<not> is_pseudo_chan c \<and> oldconf \<noteq> 0 then dahdi_disable_dacs c else c)"

definition close_channel :: "int \<Rightarrow> 'a chan_audio_scheme \<Rightarrow> 'a chan_audio_scheme dahdi_sys \<Rightarrow>
    ('a chan_audio_scheme \<times> 'a chan_audio_scheme dahdi_sys) option" where
  "close_channel n c y = Option.bind (close_preec n c y) (\<lambda>(c, y).
     (let oldconf = confna c; had_preec = readchunkpreec c;
          (tones, c) = drop_tone_zone (y_tones y) c;
          (c, echo) = drop_echocan c (y_echo y);
          c = close_fields c;
          y = y_put n c (y\<lparr>y_tones := tones, y_echo := echo\<rparr>)
      in Option.bind (if oldconf \<noteq> 0 then y_check_conf oldconf y else Some y) (\<lambda>y.
           if had_preec then
             map_option (\<lambda>ds. (let c = c\<lparr>drv_calls := drv_calls c @ ds\<rparr> in (c, y_put n c y))) (disable_hw_preechocan c)
           else Some (c, y))))"

section \<open>The state of a channel that is opened\<close>

definition default_times :: "'a chan_rbs_scheme \<Rightarrow> 'a chan_rbs_scheme" where
  "default_times c = c\<lparr>prewinktime := 50, preflashtime := 50, winktime := 150, flashtime := 750,
     starttime := (if sig c AND SIGMASK_FXO \<noteq> 0 then 2000 else 1500), rxwinktime := 300, rxflashtime := 1250,
     debouncetime := 600, pulsemaketime := 50, pulsebreaktime := 50, pulseaftertime := 750,
     itimerset := 0, itimer := 0, otimer := 0, ringdebtimer := 0\<rparr>"

definition init_first :: "'a chan_audio_scheme \<Rightarrow> 'a chan_audio_scheme" where
  "init_first c =
     (let mode = (if FLAG_HDLC56 \<in> chan_flags c then FASTHDLC_MODE_56 else FASTHDLC_MODE_64);
          c = c\<lparr>txbufpolicy := POLICY_IMMEDIATE, txdisable := False, digitmode := DIGIT_MODE_DTMF, dialing := False,
                afterdialingtimer := 0, cadencepos := 0, firstcadencepos := 0,
                rxhdlc := fasthdlc_init (rxhdlc c) mode, txhdlc := fasthdlc_init (txhdlc c) mode, infcs := PPP_INITFCS\<rparr>;
          c = reset_conf (default_times c)
      in c\<lparr>dacs_chan := None, iomask := 0\<rparr>)"

definition init_ringcadence :: "tone_env \<Rightarrow> 'a chan_tone_scheme \<Rightarrow> int list" where
  "init_ringcadence e c = (case curzone c of
     Some zid \<Rightarrow> (case zone_at e zid of Some z \<Rightarrow> zone_ringcadence z | None \<Rightarrow> ringcadence c)
   | None \<Rightarrow> (replicate MAX_CADENCE 0)[0 := starttime c, 1 := 4000])"

definition init_second :: "tone_env \<Rightarrow> 'a chan_audio_scheme \<Rightarrow> 'a chan_audio_scheme" where
  "init_second e c =
     (let c = (if sig c AND SIGMASK_DACS \<noteq> SIGMASK_DACS
               then dahdi_disable_dacs (c\<lparr>confna := 0, confmode := 0, conf_chan := None\<rparr>) else c);
          c = c\<lparr>confn := 0, conflast := no_samples, conflast1 := no_samples, conflast2 := no_samples, confmute := 0,
                gotgs := False, curtone := None, tonep := 0, pdialcount := 0, rxgain := None, txgain := None,
                eventinidx := 0, eventoutidx := 0\<rparr>;
          c = snd (hangup (set_law c LAW_DEFAULT));
          flags = chan_flags c;
          flags = (if sig c AND SIG_CLEAR \<noteq> 0 \<or> sig c AND SIG_HARDHDLC \<noteq> 0 then flags - {FLAG_AUDIO} else flags);
          flags = (if sig c = SIG_CLEAR \<or> sig c = SIG_HARDHDLC then flags - {FLAG_PPP, FLAG_FCS, FLAG_HDLC} else flags)
      in c\<lparr>chan_flags := flags - {FLAG_LINEAR}, ringcadence := init_ringcadence e c\<rparr>)"

definition initialize_channel :: "bool \<Rightarrow> int \<Rightarrow> 'a chan_audio_scheme \<Rightarrow> 'a chan_audio_scheme dahdi_sys \<Rightarrow>
    (int \<times> 'a chan_audio_scheme \<times> 'a chan_audio_scheme dahdi_sys) option" where
  "initialize_channel alloc n c y =
     (let (res, c) = reallocbufs alloc 1024 2 c in
      if res \<noteq> 0 then Some (res, c, y_put n c y)
      else
        (let (c, echo) = drop_echocan c (y_echo y);
             c = init_first c;
             y = y_put n c (y\<lparr>y_echo := echo\<rparr>)
         in map_option (\<lambda>y.
              (let c = init_second (y_tones y) c;
                   (r, tones, c) = set_tone_zone DEFAULT_TONE_ZONE (y_tones y) c
               in (0, c, y_put n c (y\<lparr>y_tones := tones\<rparr>))))
            (if confna c \<noteq> 0 then y_check_conf (confna c) y else Some y)))"

section \<open>Opening and releasing\<close>

definition chan_from_file :: "dahdi_file \<Rightarrow> 'a chan_conf_scheme dahdi_sys \<Rightarrow> 'a chan_conf_scheme option" where
  "chan_from_file f y = (case f_private f of Some n \<Rightarrow> y_chan n y | None \<Rightarrow> y_chan (f_unit f) y)"

definition set_file :: "nat \<Rightarrow> dahdi_file \<Rightarrow> 'c dahdi_sys \<Rightarrow> 'c dahdi_sys" where
  "set_file i f y = y\<lparr>y_files := (y_files y)(i \<mapsto> f)\<rparr>"

text \<open>The board is asked: \<open>alive\<close> tells whether its module can be referenced.\<close>

definition open_board :: "(int \<Rightarrow> bool) \<Rightarrow> 'a dahdi_chan_scheme \<Rightarrow> 'c dahdi_sys \<Rightarrow> int \<times> 'a dahdi_chan_scheme \<times> 'c dahdi_sys" where
  "open_board alive c y = (case chan_span c of
     None \<Rightarrow> (0, c, y)
   | Some s \<Rightarrow>
      (if \<not> alive (spanno s) then (- ENXIO, c, y)
       else (case op_open (span_operations s) of
          None \<Rightarrow> (0, c, hold_owner 1 c y)
        | Some r \<Rightarrow> (r, drv_log Drv_open c, if r \<noteq> 0 then y else hold_owner 1 c y))))"

definition specchan_open :: "bool \<Rightarrow> (int \<Rightarrow> bool) \<Rightarrow> nat \<Rightarrow> dahdi_file \<Rightarrow> 'a chan_open_scheme dahdi_sys \<Rightarrow>
    (int \<times> 'a chan_open_scheme dahdi_sys) option" where
  "specchan_open alloc alive i f y = (case chan_from_file f y of
     None \<Rightarrow> Some (- ENXIO, y)
   | Some c \<Rightarrow>
      (let n = channo c in
       if sig c = 0 then Some (- ENXIO, y)
       else if master c \<noteq> n then Some (- EBUSY, y)
       else if sig c AND SIGMASK_DACS = SIGMASK_DACS then Some (- EBUSY, y)
       else if FLAG_OPEN \<in> chan_flags c then Some (- EBUSY, y)
       else Option.bind (initialize_channel alloc n (set_flag FLAG_OPEN c) y) (\<lambda>(res, c, y).
         if res \<noteq> 0 then Some (res, y_put n (clear_flag FLAG_OPEN c) y)
         else
           (let c = (if is_pseudo_chan c then set_flag FLAG_AUDIO c else c);
                (res, c, y) = open_board alive c y
            in if res = 0 then Some (0, set_file i (f\<lparr>f_private := Some n\<rparr>) (y_put n (c\<lparr>chan_file := Some i\<rparr>) y))
               else map_option (\<lambda>(c, y). (res, y_put n (clear_flag FLAG_OPEN c) y)) (close_channel n c y)))))"

definition close_board :: "'a dahdi_chan_scheme \<Rightarrow> int \<times> 'a dahdi_chan_scheme" where
  "close_board c = (case chan_op op_close c of None \<Rightarrow> (0, c) | Some r \<Rightarrow> (r, drv_log Drv_close c))"

definition specchan_release :: "nat \<Rightarrow> 'a chan_open_scheme dahdi_sys \<Rightarrow> (int \<times> 'a chan_open_scheme dahdi_sys) option" where
  "specchan_release i y = (case y_files y i of
     None \<Rightarrow> None
   | Some f \<Rightarrow>
      (case chan_from_file f y of
         None \<Rightarrow> Some (- ENXIO, y)
       | Some c \<Rightarrow>
          (let n = channo c in
           map_option (\<lambda>(c, y).
             (let (res, c) = close_board (clear_flag FLAG_OPEN c) in (res, hold_owner (- 1) c (y_put n c y))))
           (close_channel n (c\<lparr>chan_file := None\<rparr>) (set_file i (f\<lparr>f_private := None\<rparr>) y)))))"

section \<open>Removal\<close>

text \<open>
  Other channels let go of a channel that is removed. A conference of theirs is checked first, with
  their entry still in place.
\<close>

definition chan_cleanup :: "int \<Rightarrow> int \<Rightarrow> 'a chan_audio_scheme dahdi_sys \<Rightarrow> 'a chan_audio_scheme dahdi_sys option" where
  "chan_cleanup n p y = (case y_chan p y of
     None \<Rightarrow> Some y
   | Some pos \<Rightarrow>
      (let pos = (if master pos = n then pos\<lparr>master := p\<rparr> else pos);
           y = y_put p pos y
       in if confna pos = n \<and> is_monitor_mode (confmode pos) \<or> dacs_chan pos = Some n \<or> conf_chan pos = Some n then
            map_option (\<lambda>y. y_put p ((dahdi_disable_dacs pos)\<lparr>confna := 0, confn := 0, confmode := 0, conf_chan := None, dacs_chan := None\<rparr>) y)
              (if confna pos \<noteq> 0 then y_check_conf (confna pos) y else Some y)
          else Some y))"

fun cleanup_all :: "int \<Rightarrow> int list \<Rightarrow> 'a chan_audio_scheme dahdi_sys \<Rightarrow> 'a chan_audio_scheme dahdi_sys option" where
  "cleanup_all n [] y = Some y"
| "cleanup_all n (p # ps) y = Option.bind (chan_cleanup n p y) (cleanup_all n ps)"

text \<open>The channel has already been taken off the lists.\<close>

definition chan_unreg :: "'a chan_open_scheme \<Rightarrow> 'a chan_open_scheme dahdi_sys \<Rightarrow>
    ('a chan_open_scheme \<times> 'a chan_open_scheme dahdi_sys) option" where
  "chan_unreg c y =
     (let n = channo c;
          y = (case chan_file c of None \<Rightarrow> y
               | Some i \<Rightarrow> (case y_files y i of None \<Rightarrow> y | Some f \<Rightarrow> set_file i (f\<lparr>f_private := None, f_nodev := True\<rparr>) y));
          y = y\<lparr>y_echo := release_echocan (ec_factory c) (y_echo y)\<rparr>;
          c = clear_flag FLAG_REGISTERED (c\<lparr>ec_factory := None\<rparr>)
      in Option.bind (cleanup_all n (map channo (w_chans (y_world y))) y) (\<lambda>y.
         map_option (\<lambda>(c, y).
           (if chan_file c \<noteq> None then
              (let c = (if FLAG_OPEN \<in> chan_flags c then snd (close_board (clear_flag FLAG_OPEN c)) else c)
               in (c, hold_owner (- 1) c y))
            else (c, y)))
         (close_channel n (c\<lparr>channo := -1\<rparr>) y)))"

text \<open>A pseudo channel goes with its file handle.\<close>

definition free_pseudo :: "int \<Rightarrow> 'a chan_open_scheme dahdi_sys \<Rightarrow> 'a chan_open_scheme dahdi_sys option" where
  "free_pseudo n y = (case find (\<lambda>c. channo c = n) (w_pseudos (y_world y)) of
     None \<Rightarrow> None
   | Some c \<Rightarrow>
      (let w = y_world y in
       map_option snd (chan_unreg c (y\<lparr>y_world := w\<lparr>w_pseudos := filter (\<lambda>d. channo d \<noteq> n) (w_pseudos w)\<rparr>\<rparr>))))"

text \<open>A pseudo channel is created when its device is opened, and removed when it is released.\<close>

abbreviation (input) DAHDI_PSEUDO :: int where "DAHDI_PSEUDO \<equiv> 255"

definition open_pseudo :: "nat \<Rightarrow> 'a chan_open_scheme \<Rightarrow> bool \<Rightarrow> (int \<Rightarrow> bool) \<Rightarrow> nat \<Rightarrow> 'a chan_open_scheme dahdi_sys \<Rightarrow>
    (int \<times> 'a chan_open_scheme dahdi_sys) option" where
  "open_pseudo limit fresh alloc alive i y =
     (case alloc_pseudo limit (fresh\<lparr>chan_file := None\<rparr>) (w_pseudos (y_world y)) of
        None \<Rightarrow> Some (- ENOMEM, y)
      | Some (c, ps) \<Rightarrow>
          (let n = channo c;
               y = y_put n (c\<lparr>master := n\<rparr>) (y\<lparr>y_world := (y_world y)\<lparr>w_pseudos := ps\<rparr>\<rparr>)
           in specchan_open alloc alive i \<lparr>f_unit = DAHDI_PSEUDO, f_private = Some n, f_nodev = False\<rparr> y))"

definition release_pseudo :: "nat \<Rightarrow> 'a chan_open_scheme dahdi_sys \<Rightarrow> (int \<times> 'a chan_open_scheme dahdi_sys) option" where
  "release_pseudo i y = (case y_files y i of
     None \<Rightarrow> None
   | Some f \<Rightarrow>
      (case f_private f of
         None \<Rightarrow> Some (0, y)
       | Some n \<Rightarrow> Option.bind (specchan_release i y) (\<lambda>(r, y). map_option (\<lambda>y. (r, y)) (free_pseudo n y))))"


text \<open>A span that is taken away: its channels go one by one once it is off the list (\<open>_dahdi_unassign_span\<close>).\<close>

fun unreg_all :: "'a chan_open_scheme list \<Rightarrow> 'a chan_open_scheme dahdi_sys \<Rightarrow> 'a chan_open_scheme dahdi_sys option" where
  "unreg_all [] y = Some y"
| "unreg_all (c # cs) y = Option.bind (chan_unreg c y) (\<lambda>(_, y). unreg_all cs y)"

definition remove_span :: "'a chan_open_scheme reg_span \<Rightarrow> 'a chan_open_scheme dahdi_sys \<Rightarrow> 'a chan_open_scheme dahdi_sys option" where
  "remove_span s y = unreg_all (rs_chans s) (y\<lparr>y_world := (y_world y)\<lparr>w_spans := filter (\<lambda>t. spanno t \<noteq> spanno s) (w_spans (y_world y))\<rparr>\<rparr>)"

end
