(* ===== verification/Handles.thy ===== *)
theory Handles
  imports Lifecycle
begin

text \<open>
  File handles and the channels they opened: what the operations of \<^theory_text>\<open>Lifecycle\<close> leave alone, and the
  invariant that every open channel has exactly one handle and holds one reference on its board's module.
\<close>

section \<open>What the operations leave alone\<close>

type_synonym chan_view = "int \<times> bool \<times> nat option \<times> dahdi_span option"

definition chan_view :: "'a chan_open_scheme \<Rightarrow> chan_view" where
  "chan_view c = (channo c, FLAG_OPEN \<in> chan_flags c, chan_file c, chan_span c)"

lemma chan_view_reallocbufs: "reallocbufs a b k c = (r, d) \<Longrightarrow> chan_view d = chan_view c"
  by (auto simp: reallocbufs_def chan_view_def Let_def split: if_splits)

lemma dacs_view: "chan_view (dahdi_disable_dacs c) = chan_view c"
  by (auto simp: dahdi_disable_dacs_def dahdi_chan_dacs_def chan_view_def Let_def split: option.splits prod.splits)

lemma chan_view_more:
  "chan_view (drv_log d c) = chan_view c" "chan_view (c\<lparr>txhooksig := h\<rparr>) = chan_view c" "chan_view (c\<lparr>txsig := b\<rparr>) = chan_view c"
  "chan_view (c\<lparr>txhooksig := h, txsig := b\<rparr>) = chan_view c"
  "chan_view (c\<lparr>otimer := t\<rparr>) = chan_view c" "chan_view (c\<lparr>txstate := x\<rparr>) = chan_view c" "chan_view (set_txtone a1 a2 a3 c) = chan_view c"
  by (simp_all add: chan_view_def set_txtone_def Let_def split: option.split)

lemma sethook_driver_view: "chan_view (sethook_driver h t c) = chan_view c"
  by (simp add: sethook_driver_def chan_view_more Let_def split: option.split)

lemma sethook_sf_view: "chan_view (sethook_sf h t c) = chan_view c"
  by (simp add: sethook_sf_def chan_view_more Let_def)

lemma sethook_view: "chan_view (rbs_sethook h st t c) = chan_view c" "chan_view (snd (cas_setbits b c)) = chan_view c"
  by (simp_all add: rbs_sethook_def cas_setbits_def sethook_sf_view sethook_driver_view chan_view_more Let_def split: option.split)

lemma hangup_view [simp]: "chan_view (snd (hangup c)) = chan_view c"
proof -
  have l: "chan_view (snd (hangup_line c)) = chan_view c" for c :: "'a chan_open_scheme"
    by (simp add: hangup_line_def sethook_view split: option.splits) (simp add: chan_view_def)
  obtain r d where h: "hangup_line ((if sig c = SIG_FXSLS \<or> sig c = SIG_FXSKS \<or> sig c = SIG_FXSGS
      then c\<lparr>kewlonhook := False, ringdebtimer := RING_DEBOUNCE_TIME\<rparr> else c\<lparr>kewlonhook := False\<rparr>)) = (r, d)" by fastforce
  then have "chan_view d = chan_view c"
    using l [of "if sig c = SIG_FXSLS \<or> sig c = SIG_FXSKS \<or> sig c = SIG_FXSGS
      then c\<lparr>kewlonhook := False, ringdebtimer := RING_DEBOUNCE_TIME\<rparr> else c\<lparr>kewlonhook := False\<rparr>"]
    by (auto simp: chan_view_def split: if_splits)
  moreover have "snd (hangup c) = c \<or> snd (hangup c) = d \<or>
      snd (hangup c) = (clear_buffers d)\<lparr>dialing := False, afterdialingtimer := 0, curtone := None, pdialcount := 0, cadencepos := 0, txdialbuf := []\<rparr>"
    using h by (auto simp: hangup_def Let_def)
  moreover have "chan_view ((clear_buffers d)\<lparr>dialing := False, afterdialingtimer := 0, curtone := None, pdialcount := 0, cadencepos := 0, txdialbuf := []\<rparr>) = chan_view d"
    by (simp add: clear_buffers_def chan_view_def Let_def)
  ultimately show ?thesis by metis
qed

lemma close_fields_view: "chan_view (close_fields c) = chan_view c"
proof -
  have a: "chan_view (if b then snd (reallocbufs True 0 0 c) else c) = chan_view c" for b and c :: "'a chan_open_scheme"
    using chan_view_reallocbufs [of True 0 0 c] by (cases "reallocbufs True 0 0 c") auto
  have v: "chan_view (c\<lparr>readchunkpreec := x1, curtone := x2, cadencepos := x3, pdialcount := x4\<rparr>) = chan_view c"
    "chan_view (c\<lparr>itimerset := i1, itimer := i2, pulsecount := i3, pulsetimer := i4, ringdebtimer := i5, txdialbuf := x5,
                digitmode := x6, dialing := x7, afterdialingtimer := i6, iomask := i7,
                confn := i8, confna := i9, confmode := j1, confmute := j2, gotgs := x8\<rparr>) = chan_view c"
    "chan_view (reset_conf c) = chan_view c" "chan_view (set_law c l) = chan_view c"
    "chan_view (c\<lparr>dacs_chan := x9, rxgain := y1, txgain := y2, eventinidx := j3, eventoutidx := j4,
                chan_flags := chan_flags c - {FLAG_LOOPED, FLAG_LINEAR, FLAG_PPP, FLAG_SIGFREEZE}\<rparr>) = chan_view c"
    "chan_view (c\<lparr>conflast := y3, conflast1 := y4, conflast2 := y5\<rparr>) = chan_view c"
    for x1 x2 x3 x4 x5 x6 x7 x8 x9 y1 y2 y3 y4 y5 i1 i2 i3 i4 i5 i6 i7 i8 i9 j1 j2 j3 j4 l and c :: "'a chan_open_scheme"
    by (simp_all add: chan_view_def reset_conf_def set_law_def Let_def)
  have i: "chan_view (if b then dahdi_disable_dacs c else c) = chan_view c" for b and c :: "'a chan_open_scheme"
    by (simp add: dacs_view)
  show ?thesis unfolding close_fields_def Let_def i v hangup_view a ..
qed

lemma init_first_view: "chan_view (init_first c) = chan_view c"
  by (simp add: init_first_def default_times_def reset_conf_def chan_view_def Let_def)

lemma init_second_view: "chan_view (init_second e c) = chan_view c"
proof -
  have v: "chan_view (c\<lparr>confn := i1, conflast := y3, conflast1 := y4, conflast2 := y5, confmute := i2,
                gotgs := x1, curtone := x2, tonep := i3, pdialcount := x3, rxgain := y1, txgain := y2,
                eventinidx := j3, eventoutidx := j4\<rparr>) = chan_view c" "chan_view (set_law c l) = chan_view c"
      "chan_view (c\<lparr>confna := i4, confmode := i5, conf_chan := x4\<rparr>) = chan_view c"
    for i1 i2 i3 i4 i5 x1 x2 x3 x4 y1 y2 y3 y4 y5 j3 j4 l and c :: "'a chan_open_scheme"
    by (simp_all add: chan_view_def set_law_def Let_def)
  have w: "chan_view (c\<lparr>chan_flags := fs - {FLAG_LINEAR}, ringcadence := rc\<rparr>) = chan_view c"
    if "FLAG_OPEN \<in> fs \<longleftrightarrow> FLAG_OPEN \<in> chan_flags c" for fs rc and c :: "'a chan_open_scheme"
    using that by (simp add: chan_view_def)
  have i: "chan_view (if b then dahdi_disable_dacs d else c) = chan_view c" if "chan_view d = chan_view c" for b and c d :: "'a chan_open_scheme"
    using that by (simp add: dacs_view)
  show ?thesis unfolding init_second_def Let_def
    by (subst w) (simp_all add: v i)
qed

section \<open>Views of the system\<close>

definition views :: "'a chan_open_scheme dahdi_sys \<Rightarrow> chan_view list" where
  "views y = map chan_view (w_chans (y_world y))"

definition numbering :: "'a dahdi_chan_scheme world \<Rightarrow> bool" where
  "numbering w \<longleftrightarrow> (\<exists>k. numbered 1 1 (w_spans w) \<and> below k FIRST_PSEUDO_CHANNEL (w_spans w) \<and> pseudos_ok (w_pseudos w))"

definition numbers :: "'a dahdi_chan_scheme world \<Rightarrow> (int \<times> int list) list \<times> int list" where
  "numbers w = (map (\<lambda>s. (spanno s, map channo (rs_chans s))) (w_spans w), map channo (w_pseudos w))"

lemma consecutive_numbers: "map channo cs = map channo ds \<Longrightarrow> consecutive b cs = consecutive b ds"
proof -
  assume m: "map channo cs = map channo ds"
  then have l: "length cs = length ds" by (metis length_map)
  have "channo (cs ! i) = channo (ds ! i)" if "i < length ds" for i
    using m that l by (metis nth_map)
  with l show ?thesis by (simp add: consecutive_def)
qed

lemma numbered_numbers:
  "map (\<lambda>s. (spanno s, map channo (rs_chans s))) ss = map (\<lambda>s. (spanno s, map channo (rs_chans s))) tt \<Longrightarrow>
   numbered m b ss = numbered m b tt \<and> below k l ss = below k l tt"
proof (induction ss arbitrary: tt m b)
  case Nil
  then show ?case by (simp add: below_def)
next
  case (Cons s ss)
  from Cons.prems obtain t tt' where t: "tt = t # tt'" by (cases tt) auto
  with Cons.prems have e: "spanno s = spanno t" "map channo (rs_chans s) = map channo (rs_chans t)"
    and r: "map (\<lambda>s. (spanno s, map channo (rs_chans s))) ss = map (\<lambda>s. (spanno s, map channo (rs_chans s))) tt'" by simp_all
  have l: "length (rs_chans s) = length (rs_chans t)" using e(2) by (metis length_map)
  then have n: "rs_chans s = [] \<longleftrightarrow> rs_chans t = []" by auto
  have h: "channo (hd (rs_chans s)) = channo (hd (rs_chans t))" if "rs_chans s \<noteq> []"
    using e(2) that n by (metis hd_map)
  have set_: "channo ` set (rs_chans s) = channo ` set (rs_chans t)" using e(2) by (metis set_map)
  have b: "(\<forall>c \<in> set (rs_chans s). channo c < l) = (\<forall>c \<in> set (rs_chans t). channo c < l)"
    using arg_cong [OF set_, of "\<lambda>X. \<forall>x \<in> X. x < l"] by simp
  show ?case using Cons.IH [OF r] consecutive_numbers [OF e(2)] by (auto simp: t e(1) l n h b below_Cons)
qed

lemma numbering_numbers: "numbers w = numbers w' \<Longrightarrow> numbering w = numbering w'"
proof -
  assume e: "numbers w = numbers w'"
  then have s: "numbered 1 1 (w_spans w) = numbered 1 1 (w_spans w')" "below k FIRST_PSEUDO_CHANNEL (w_spans w) = below k FIRST_PSEUDO_CHANNEL (w_spans w')" for k
    using numbered_numbers [of "w_spans w" "w_spans w'"] by (auto simp: numbers_def)
  have p: "map channo (w_pseudos w) = map channo (w_pseudos w')" using e by (simp add: numbers_def)
  then have "channo ` set (w_pseudos w) = channo ` set (w_pseudos w')" by (metis set_map)
  from arg_cong [OF this, of "\<lambda>X. \<forall>n \<in> X. FIRST_PSEUDO_CHANNEL \<le> n \<and> n < 2 ^ 31"] p have "pseudos_ok (w_pseudos w) = pseudos_ok (w_pseudos w')"
    by (simp add: pseudos_ok_def)
  with s show ?thesis by (simp add: numbering_def)
qed

lemma numbers_update:
  assumes "\<And>c. c \<in> set (w_chans w) \<Longrightarrow> channo c = n \<Longrightarrow> channo (f c) = n"
  shows "numbers (w_update n f w) = numbers w"
  using assms by (auto simp: numbers_def w_update_def at_chan_def w_chans_def all_channels_def comp_def)

lemma numbered_distinct: "numbered m b ss \<Longrightarrow> distinct (map channo (concat (map rs_chans ss)))"
proof (induction ss arbitrary: m b)
  case Nil
  then show ?case by simp
next
  case (Cons s ss)
  let ?h = "channo (hd (rs_chans s))"
  have c: "consecutive ?h (rs_chans s)" and r: "numbered (spanno s + 1) (?h + int (length (rs_chans s))) ss"
    using Cons.prems by simp_all
  have "distinct (map channo (rs_chans s))" using c by (auto simp: distinct_conv_nth consecutive_def)
  moreover have "channo x < ?h + int (length (rs_chans s))" if "x \<in> set (rs_chans s)" for x
    using that c by (auto simp: consecutive_def in_set_conv_nth)
  moreover have "?h + int (length (rs_chans s)) \<le> channo x" if "x \<in> set (concat (map rs_chans ss))" for x
    using that numbered_lower [OF r] by auto
  ultimately show ?case using Cons.IH [OF r] by fastforce
qed

lemma numbering_distinct:
  assumes "numbering w"
  shows "distinct (map channo (w_chans w))" and "c \<in> set (w_chans w) \<Longrightarrow> 0 \<le> channo c \<and> channo c < 2 ^ 31"
proof -
  from assms obtain k where k: "numbered 1 1 (w_spans w)" "below k FIRST_PSEUDO_CHANNEL (w_spans w)" "pseudos_ok (w_pseudos w)"
    by (auto simp: numbering_def)
  have lo: "1 \<le> channo x \<and> channo x < FIRST_PSEUDO_CHANNEL" if "x \<in> set (concat (map rs_chans (w_spans w)))" for x
    using that numbered_lower [OF k(1)] k(2) by (fastforce simp: below_def)
  have hi: "FIRST_PSEUDO_CHANNEL \<le> channo x \<and> channo x < 2 ^ 31" if "x \<in> set (w_pseudos w)" for x
    using that k(3) by (auto simp: pseudos_ok_def)
  have "distinct (map channo (w_pseudos w))" using k(3) by (simp add: pseudos_ok_def strict_sorted_iff)
  with numbered_distinct [OF k(1)] lo hi show "distinct (map channo (w_chans w))"
    by (fastforce simp: w_chans_def all_channels_def)
  show "0 \<le> channo c \<and> channo c < 2 ^ 31" if "c \<in> set (w_chans w)"
  proof -
    from that have "c \<in> set (concat (map rs_chans (w_spans w))) \<or> c \<in> set (w_pseudos w)" by (simp add: w_chans_def all_channels_def)
    then show ?thesis
    proof
      assume "c \<in> set (concat (map rs_chans (w_spans w)))"
      from lo [OF this] show ?thesis by simp
    next
      assume "c \<in> set (w_pseudos w)"
      from hi [OF this] show ?thesis by simp
    qed
  qed
qed

lemma y_chan_find:
  assumes "numbering (y_world y)" and "0 \<le> n" and "n < 2 ^ 31"
  shows "y_chan n y = find (\<lambda>c. channo c = n) (w_chans (y_world y))"
  unfolding y_chan_def w_lookup_def w_chans_def using assms by (auto simp: numbering_def intro!: chan_from_num_find)

lemma y_chan_member:
  assumes "numbering (y_world y)" and "0 \<le> n" and "n < 2 ^ 31" and "y_chan n y = Some c"
  shows "c \<in> set (w_chans (y_world y)) \<and> channo c = n"
  using assms y_chan_find [OF assms(1-3)] by (auto simp: find_Some_iff)

lemma views_fst: "map fst (views y) = map channo (w_chans (y_world y))"
  by (simp add: views_def chan_view_def comp_def)

lemma views_put: "views (y_put n c y) = map (\<lambda>v. if fst v = n then chan_view c else v) (views y)"
  by (auto simp: views_def y_put_def at_chan_def chan_view_def)

lemma views_put_same:
  assumes "numbering (y_world y)" and "d \<in> set (w_chans (y_world y))" and "channo d = n" and "chan_view c = chan_view d"
  shows "views (y_put n c y) = views y"
proof -
  have "v = chan_view c" if "v \<in> set (views y)" "fst v = n" for v
  proof -
    from that(1) obtain e where e: "e \<in> set (w_chans (y_world y))" "v = chan_view e" by (auto simp: views_def)
    then have "channo e = channo d" using that(2) assms(3) by (simp add: chan_view_def)
    then have "e = d" using numbering_distinct(1) [OF assms(1)] e(1) assms(2) by (auto simp: distinct_map dest: inj_onD)
    with e assms(4) show ?thesis by simp
  qed
  then show ?thesis unfolding views_put by (simp add: map_idI)
qed

lemma check_conf_same:
  assumes "y_check_conf x y = Some z"
  shows "views z = views y" "numbers (y_world z) = numbers (y_world y)" "y_files z = y_files y" "y_owner z = y_owner y"
    "y_tones z = y_tones y" "y_echo z = y_echo y"
  using assms by (auto simp: y_check_conf_def check_conf_def views_def numbers_def)

text \<open>Only channel \<open>n\<close> changed, and looks like \<open>c\<close> now.\<close>

definition only_chan :: "int \<Rightarrow> 'a chan_open_scheme \<Rightarrow> 'a chan_open_scheme dahdi_sys \<Rightarrow> 'a chan_open_scheme dahdi_sys \<Rightarrow> bool" where
  "only_chan n c y z \<longleftrightarrow> views z = map (\<lambda>v. if fst v = n then chan_view c else v) (views y) \<and>
     numbers (y_world z) = numbers (y_world y) \<and> y_files z = y_files y \<and> y_owner z = y_owner y"

lemma only_chan_cong: "chan_view c = chan_view d \<Longrightarrow> only_chan n c y z = only_chan n d y z"
  unfolding only_chan_def by metis

definition own_number :: "int \<Rightarrow> 'a chan_open_scheme \<Rightarrow> 'a chan_open_scheme dahdi_sys \<Rightarrow> bool" where
  "own_number n c y \<longleftrightarrow> (n \<in> channo ` set (w_chans (y_world y)) \<longrightarrow> channo c = n)"

lemma own_number_views: "own_number n c y \<longleftrightarrow> (n \<in> fst ` set (views y) \<longrightarrow> channo c = n)"
  by (simp add: own_number_def views_def image_image chan_view_def)

lemma only_chan_put:
  assumes "own_number n c y"
  shows "only_chan n c y (y_put n c y)"
proof -
  have "numbers (w_update n (\<lambda>_. c) (y_world y)) = numbers (y_world y)"
    using assms by (intro numbers_update) (auto simp: own_number_def)
  then show ?thesis by (simp add: only_chan_def views_put) (simp add: y_put_def)
qed

lemma only_chan_own:
  assumes "only_chan n c y z" and "own_number n c y"
  shows "own_number n d z \<longleftrightarrow> own_number n d y"
proof -
  have "fst ` set (views z) = fst ` set (views y)"
  proof (cases "n \<in> fst ` set (views y)")
    case True
    then have "fst (chan_view c) = n" using assms(2) by (simp add: own_number_views chan_view_def)
    then have "map fst (views z) = map fst (views y)" using assms(1) by (simp add: only_chan_def)
    then show ?thesis by (metis set_map)
  next
    case False
    then have "\<forall>v \<in> set (views y). fst v \<noteq> n" by auto
    then have "views z = views y" using assms(1) by (simp add: only_chan_def map_idI)
    then show ?thesis by simp
  qed
  then show ?thesis by (simp add: own_number_views)
qed

lemma only_chan_trans:
  assumes "only_chan n c y z" and "only_chan n d z x" and "own_number n c y"
  shows "only_chan n d y x"
proof -
  have "(if fst (if fst v = n then chan_view c else v) = n then chan_view d else (if fst v = n then chan_view c else v)) =
      (if fst v = n then chan_view d else v)" if "v \<in> set (views y)" for v
    using assms(3) that by (auto simp: own_number_views chan_view_def image_iff)
  then have "views x = map (\<lambda>v. if fst v = n then chan_view d else v) (views y)"
    using assms(1,2) by (simp add: only_chan_def comp_def)
  with assms(1,2) show ?thesis by (simp add: only_chan_def)
qed

lemma only_chan_member:
  assumes "numbering (y_world y)" and "c \<in> set (w_chans (y_world y))" and "only_chan (channo c) d y z" and "chan_view d = chan_view c"
  shows "views z = views y"
proof -
  have "views z = map (\<lambda>v. if fst v = channo c then chan_view c else v) (views y)"
    using assms(3) unfolding only_chan_def assms(4) by blast
  with views_put_same [OF assms(1,2) refl, of c] show ?thesis by (simp add: views_put)
qed

lemma own_number_member: "c \<in> set (w_chans (y_world y)) \<Longrightarrow> channo d = channo c \<Longrightarrow> own_number (channo c) d y"
  by (simp add: own_number_def)

lemma only_chan_log: "only_chan n c (y\<lparr>y_tones := t, y_echo := e\<rparr>) z \<longleftrightarrow> only_chan n c y z"
  "only_chan n c (y\<lparr>y_tones := t\<rparr>) z \<longleftrightarrow> only_chan n c y z" "only_chan n c (y\<lparr>y_echo := e\<rparr>) z \<longleftrightarrow> only_chan n c y z"
  "own_number n c (y\<lparr>y_tones := t, y_echo := e\<rparr>) \<longleftrightarrow> own_number n c y"
  "own_number n c (y\<lparr>y_tones := t\<rparr>) \<longleftrightarrow> own_number n c y" "own_number n c (y\<lparr>y_echo := e\<rparr>) \<longleftrightarrow> own_number n c y"
  by (simp_all add: only_chan_def own_number_def views_def)

lemma only_chan_refl: "numbering (y_world y) \<Longrightarrow> views z = views y \<Longrightarrow> numbers (y_world z) = numbers (y_world y) \<Longrightarrow>
    y_files z = y_files y \<Longrightarrow> y_owner z = y_owner y \<Longrightarrow> only_chan n c z x \<Longrightarrow> only_chan n c y x"
  by (simp add: only_chan_def)

lemma close_preec_same:
  assumes "close_preec n c y = Some (d, z)" and "numbering (y_world y)"
  shows "chan_view d = chan_view c \<and> views z = views y \<and> numbers (y_world z) = numbers (y_world y) \<and>
    y_files z = y_files y \<and> y_owner z = y_owner y"
proof (cases "\<exists>p peer. conf_chan c = Some p \<and> p \<noteq> n \<and> y_chan p y = Some peer \<and> is_preecho_mode (confmode c) \<and> readchunkpreec peer")
  case False
  with assms(1) show ?thesis
    by (auto simp: close_preec_def chan_view_def Let_def split: option.splits if_splits Option.bind_splits)
next
  case True
  then obtain p peer where p: "conf_chan c = Some p" "p \<noteq> n" "y_chan p y = Some peer" "is_preecho_mode (confmode c)" "readchunkpreec peer"
    by blast
  obtain ds where ds: "disable_hw_preechocan peer = Some ds" "d = c"
      "z = y_put p (peer\<lparr>readchunkpreec := False, drv_calls := drv_calls peer @ ds\<rparr>) y"
    using assms(1) p by (auto simp: close_preec_def Let_def)
  let ?q = "peer\<lparr>readchunkpreec := False, drv_calls := drv_calls peer @ ds\<rparr>"
  have v: "chan_view ?q = chan_view peer" by (simp add: chan_view_def)
  have m: "channo e = p \<Longrightarrow> e \<in> set (w_chans (y_world y)) \<Longrightarrow> e = peer" for e
    using numbering_distinct [OF assms(2)] y_chan_member [OF assms(2) _ _ p(3)] by (auto simp: distinct_map dest: inj_onD)
  have w: "views z = views y \<and> numbers (y_world z) = numbers (y_world y)"
  proof (cases "\<exists>e \<in> set (w_chans (y_world y)). channo e = p")
    case True
    then have "peer \<in> set (w_chans (y_world y))" "channo peer = p" using m by blast+
    then show ?thesis using views_put_same [OF assms(2) _ _ v, of p] only_chan_put [of p ?q y] ds(3)
      by (simp add: only_chan_def own_number_def)
  next
    case none: False
    then have "map (at_chan p (\<lambda>_. ?q)) (w_chans (y_world y)) = w_chans (y_world y)" by (auto simp: at_chan_def intro!: map_idI)
    moreover have "numbers (w_update p (\<lambda>_. ?q) (y_world y)) = numbers (y_world y)" using none by (intro numbers_update) auto
    ultimately show ?thesis using ds(3) by (simp add: views_def y_put_def)
  qed
  then show ?thesis using ds by (simp add: y_put_def)
qed

lemma drop_view: "drop_tone_zone e c = (e', d) \<Longrightarrow> chan_view d = chan_view c" "drop_echocan c ec = (d, ec') \<Longrightarrow> chan_view d = chan_view c"
  by (auto simp: drop_tone_zone_def drop_echocan_def chan_view_def split: option.splits)

lemma own_number_view: "chan_view c = chan_view d \<Longrightarrow> own_number n c y = own_number n d y"
  by (simp add: own_number_def chan_view_def)

lemma close_channel_only:
  assumes "close_channel n c y = Some (d, z)" and "numbering (y_world y)" and own: "own_number n c y"
  shows "only_chan n c y z \<and> chan_view d = chan_view c"
proof -
  obtain c1 y1 where p: "close_preec n c y = Some (c1, y1)" using assms(1) by (auto simp: close_channel_def split: Option.bind_splits)
  note s = close_preec_same [OF p assms(2)]
  obtain tones c2 where t: "drop_tone_zone (y_tones y1) c1 = (tones, c2)" by fastforce
  obtain c3 echo where e: "drop_echocan c2 (y_echo y1) = (c3, echo)" by fastforce
  define c4 where "c4 = close_fields c3"
  have v: "chan_view c4 = chan_view c" using drop_view(1) [OF t] drop_view(2) [OF e] s by (simp add: c4_def close_fields_view)
  let ?y2 = "y_put n c4 (y1\<lparr>y_tones := tones, y_echo := echo\<rparr>)"
  have o1: "own_number n c4 y1" using own s own_number_view [OF v] by (simp add: own_number_views)
  have y2: "only_chan n c4 y ?y2"
    using only_chan_put [of n c4 "y1\<lparr>y_tones := tones, y_echo := echo\<rparr>"] o1 s by (simp add: only_chan_log) (simp add: only_chan_def)
  have "Option.bind (if confna c1 \<noteq> 0 then y_check_conf (confna c1) ?y2 else Some ?y2) (\<lambda>y3. if readchunkpreec c1 then
             map_option (\<lambda>ds. (let c = c4\<lparr>drv_calls := drv_calls c4 @ ds\<rparr> in (c, y_put n c y3))) (disable_hw_preechocan c4)
           else Some (c4, y3)) = Some (d, z)"
    using assms(1) unfolding close_channel_def p bind.simps prod.case Let_def t e c4_def [symmetric] .
  then obtain y3 where y3: "(if confna c1 \<noteq> 0 then y_check_conf (confna c1) ?y2 else Some ?y2) = Some y3"
    and r: "(if readchunkpreec c1 then
             map_option (\<lambda>ds. (let c = c4\<lparr>drv_calls := drv_calls c4 @ ds\<rparr> in (c, y_put n c y3))) (disable_hw_preechocan c4)
           else Some (c4, y3)) = Some (d, z)"
    unfolding bind_eq_Some_conv by blast
  have y3o: "only_chan n c4 y y3" using y3 y2 check_conf_same [of "confna c1" ?y2 y3]
    by (auto simp: only_chan_def split: if_splits)
  show ?thesis
  proof (cases "readchunkpreec c1")
    case False
    with r y3o v only_chan_cong [OF v] show ?thesis by auto
  next
    case True
    then obtain ds where ds: "d = c4\<lparr>drv_calls := drv_calls c4 @ ds\<rparr>" "z = y_put n d y3" using r by (auto simp: Let_def)
    then have dv: "chan_view d = chan_view c" using v by (simp add: chan_view_def)
    have "own_number n c4 y" using own own_number_view [OF v] by simp
    then have "own_number n d y3" using only_chan_own [OF y3o] own_number_view [of d c4] dv v by simp
    from only_chan_trans [OF y3o only_chan_put [OF this]] \<open>own_number n c4 y\<close> ds(2) have "only_chan n d y z" by simp
    with dv only_chan_cong [OF dv] show ?thesis by simp
  qed
qed

lemma initialize_channel_only:
  assumes "initialize_channel alloc n c y = Some (r, d, z)" and own: "own_number n c y"
  shows "only_chan n c y z \<and> chan_view d = chan_view c"
proof -
  obtain r1 c1 where b: "reallocbufs alloc 1024 2 c = (r1, c1)" by fastforce
  note v1 = chan_view_reallocbufs [OF b]
  show ?thesis
  proof (cases "r1 = 0")
    case False
    then have "d = c1" "z = y_put n c1 y" using assms(1) b by (auto simp: initialize_channel_def)
    with v1 only_chan_put [of n c1 y] own own_number_view [OF v1] only_chan_cong [OF v1] show ?thesis by simp
  next
    case True
    obtain c2 echo where e: "drop_echocan c1 (y_echo y) = (c2, echo)" by fastforce
    define c3 where "c3 = init_first c2"
    let ?y = "y_put n c3 (y\<lparr>y_echo := echo\<rparr>)"
    have v3: "chan_view c3 = chan_view c" using drop_view(2) [OF e] v1 by (simp add: c3_def init_first_view)
    have o3: "own_number n c3 y" using own own_number_view [OF v3] by simp
    have y1: "only_chan n c3 y ?y" using only_chan_put [of n c3 "y\<lparr>y_echo := echo\<rparr>"] o3 by (simp add: only_chan_log)
    have "map_option (\<lambda>y. case set_tone_zone DEFAULT_TONE_ZONE (y_tones y) (init_second (y_tones y) c3) of
          (r, tones, c) \<Rightarrow> (0, c, y_put n c (y\<lparr>y_tones := tones\<rparr>)))
        (if confna c3 \<noteq> 0 then y_check_conf (confna c3) ?y else Some ?y) = Some (r, d, z)"
      using assms(1) True unfolding initialize_channel_def Let_def b prod.case e c3_def [symmetric] by simp
    then obtain y2 where y2: "(if confna c3 \<noteq> 0 then y_check_conf (confna c3) ?y else Some ?y) = Some y2"
      and q: "(case set_tone_zone DEFAULT_TONE_ZONE (y_tones y2) (init_second (y_tones y2) c3) of
          (r, tones, c) \<Rightarrow> (0, c, y_put n c (y2\<lparr>y_tones := tones\<rparr>))) = (r, d, z)"
      unfolding map_option_eq_Some by blast
    obtain r2 tones d2 where s2: "set_tone_zone DEFAULT_TONE_ZONE (y_tones y2) (init_second (y_tones y2) c3) = (r2, tones, d2)"
      by (metis prod_cases3)
    with q have s: "set_tone_zone DEFAULT_TONE_ZONE (y_tones y2) (init_second (y_tones y2) c3) = (r2, tones, d)"
      and z: "z = y_put n d (y2\<lparr>y_tones := tones\<rparr>)" by auto
    have y2o: "only_chan n c3 y y2" using y2 y1 check_conf_same [of "confna c3" ?y y2]
      by (auto simp: only_chan_def split: if_splits)
    have "chan_view d = chan_view (init_second (y_tones y2) c3)" using s
      by (auto simp: set_tone_zone_def chan_view_def Let_def split: option.splits)
    then have v: "chan_view d = chan_view c" using v3 by (simp add: init_second_view)
    have "own_number n d y2" using only_chan_own [OF y2o o3] own_number_view [OF v] own by simp
    then have "only_chan n d y2 z" using only_chan_put [of n d "y2\<lparr>y_tones := tones\<rparr>"] z by (simp add: only_chan_log)
    from only_chan_trans [OF y2o this o3] v only_chan_cong [OF v] show ?thesis by simp
  qed
qed

section \<open>Opening and releasing in terms of views\<close>

lemma own_number_of:
  assumes "numbering (y_world y)" and "c \<in> set (w_chans (y_world y))" and "chan_view d = chan_view c"
  shows "own_number (channo c) d y"
  using assms(3) by (simp add: own_number_def chan_view_def)

lemma open_board_view:
  assumes "open_board alive c y = (r, d, z)"
  shows "views z = views y \<and> numbers (y_world z) = numbers (y_world y) \<and> y_files z = y_files y \<and> y_world z = y_world y"
    and "y_owner z = (case chan_span c of Some s \<Rightarrow> if r = 0 then (y_owner y)(spanno s := y_owner y (spanno s) + 1) else y_owner y | None \<Rightarrow> y_owner y)"
  using assms by (auto simp: open_board_def hold_owner_def views_def split: option.splits if_splits)

lemma open_board_chan: "open_board alive c y = (r, d, z) \<Longrightarrow> chan_view d = chan_view c"
  by (auto simp: open_board_def chan_view_def split: option.splits if_splits)

lemma chan_view_flags:
  "chan_view (set_flag FLAG_OPEN c) = (channo c, True, chan_file c, chan_span c)"
  "chan_view (clear_flag FLAG_OPEN c) = (channo c, False, chan_file c, chan_span c)"
  "chan_view (set_flag FLAG_AUDIO c) = chan_view c" "chan_view (c\<lparr>chan_file := fi\<rparr>) = (channo c, FLAG_OPEN \<in> chan_flags c, fi, chan_span c)"
  by (simp_all add: chan_view_def chan_defs)

lemma chan_view_eqD: "chan_view c = (n, op, fi, s) \<Longrightarrow> channo c = n \<and> (FLAG_OPEN \<in> chan_flags c) = op \<and> chan_file c = fi \<and> chan_span c = s"
  by (simp add: chan_view_def)

definition same_sys :: "'a chan_open_scheme dahdi_sys \<Rightarrow> 'a chan_open_scheme dahdi_sys \<Rightarrow> bool" where
  "same_sys y z \<longleftrightarrow> views z = views y \<and> numbers (y_world z) = numbers (y_world y) \<and> y_files z = y_files y \<and> y_owner z = y_owner y"

definition opened_by :: "nat \<Rightarrow> dahdi_file \<Rightarrow> 'a chan_open_scheme \<Rightarrow> 'a chan_open_scheme dahdi_sys \<Rightarrow> 'a chan_open_scheme dahdi_sys \<Rightarrow> bool" where
  "opened_by i f c y z \<longleftrightarrow> c \<in> set (w_chans (y_world y)) \<and> FLAG_OPEN \<notin> chan_flags c \<and>
     views z = map (\<lambda>v. if fst v = channo c then (channo c, True, Some i, chan_span c) else v) (views y) \<and>
     numbers (y_world z) = numbers (y_world y) \<and> y_files z = (y_files y)(i \<mapsto> f\<lparr>f_private := Some (channo c)\<rparr>) \<and>
     y_owner z = (case chan_span c of None \<Rightarrow> y_owner y | Some s \<Rightarrow> (y_owner y)(spanno s := y_owner y (spanno s) + 1))"

lemma chan_from_file_member:
  assumes "chan_from_file f y = Some c" and "numbering (y_world y)" and "0 \<le> f_unit f" and "f_unit f < 2 ^ 31"
    and "\<And>n. f_private f = Some n \<Longrightarrow> 0 \<le> n \<and> n < 2 ^ 31"
  shows "c \<in> set (w_chans (y_world y)) \<and> (f_private f = None \<and> channo c = f_unit f \<or> f_private f = Some (channo c))"
  using assms y_chan_member [OF assms(2)] by (auto simp: chan_from_file_def split: option.splits)

lemma only_chan_put_after:
  assumes "only_chan n c y z" and "own_number n c y" and "chan_view d = v" and "fst v = channo c"
  shows "only_chan n d y (y_put n d z)"
proof -
  have "own_number n d y" using assms(2-4) by (simp add: own_number_def chan_view_def) (auto simp: chan_view_def)
  then have "own_number n d z" using only_chan_own [OF assms(1,2)] by simp
  from only_chan_trans [OF assms(1) only_chan_put [OF this] assms(2)] show ?thesis .
qed

lemma specchan_open_effect:
  assumes o: "specchan_open alloc alive i f y = Some (r, z)" and ok: "numbering (y_world y)" and "0 \<le> f_unit f" and "f_unit f < 2 ^ 31"
    and "\<And>n. f_private f = Some n \<Longrightarrow> 0 \<le> n \<and> n < 2 ^ 31"
  shows "r \<noteq> 0 \<and> same_sys y z \<or> r = 0 \<and> (\<exists>c. opened_by i f c y z)"
proof (cases "chan_from_file f y")
  case None
  with o show ?thesis by (auto simp: specchan_open_def same_sys_def)
next
  case (Some c)
  let ?n = "channo c"
  have m: "c \<in> set (w_chans (y_world y))" using chan_from_file_member [OF Some ok assms(3-5)] by simp
  show ?thesis
  proof (cases "sig c = 0 \<or> master c \<noteq> ?n \<or> sig c AND SIGMASK_DACS = SIGMASK_DACS \<or> FLAG_OPEN \<in> chan_flags c")
    case True
    with o Some show ?thesis by (auto simp: specchan_open_def Let_def same_sys_def split: if_splits)
  next
    case False
    let ?c0 = "set_flag FLAG_OPEN c"
    have "Option.bind (initialize_channel alloc ?n ?c0 y) (\<lambda>(res, c, y).
         if res \<noteq> 0 then Some (res, y_put ?n (clear_flag FLAG_OPEN c) y)
         else
           (let c = (if is_pseudo_chan c then set_flag FLAG_AUDIO c else c);
                (res, c, y) = open_board alive c y
            in if res = 0 then Some (0, set_file i (f\<lparr>f_private := Some ?n\<rparr>) (y_put ?n (c\<lparr>chan_file := Some i\<rparr>) y))
               else map_option (\<lambda>(c, y). (res, y_put ?n (clear_flag FLAG_OPEN c) y)) (close_channel ?n c y))) = Some (r, z)"
      using o False unfolding specchan_open_def Some Let_def by simp
    then obtain r1 c1 y1 where i: "initialize_channel alloc ?n ?c0 y = Some (r1, c1, y1)"
      and q: "(if r1 \<noteq> 0 then Some (r1, y_put ?n (clear_flag FLAG_OPEN c1) y1)
         else
           (let c = (if is_pseudo_chan c1 then set_flag FLAG_AUDIO c1 else c1);
                (res, c, y) = open_board alive c y1
            in if res = 0 then Some (0, set_file i (f\<lparr>f_private := Some ?n\<rparr>) (y_put ?n (c\<lparr>chan_file := Some i\<rparr>) y))
               else map_option (\<lambda>(c, y). (res, y_put ?n (clear_flag FLAG_OPEN c) y)) (close_channel ?n c y))) = Some (r, z)"
      unfolding bind_eq_Some_conv by fastforce
    have own0: "own_number ?n ?c0 y" using m by (intro own_number_member) (simp_all add: chan_defs)
    note i1 = initialize_channel_only [OF i own0]
    have o1: "only_chan ?n c1 y y1" using i1 only_chan_cong [of c1 ?c0] by simp
    have v1: "chan_view c1 = (?n, True, chan_file c, chan_span c)" using i1 by (simp add: chan_view_flags)
    have own1: "own_number ?n c1 y" using own_number_view [of c1 ?c0 ?n y] i1 own0 by simp
    have restored: "same_sys y (y_put ?n (clear_flag FLAG_OPEN d) x)" if x: "only_chan ?n d y x" "chan_view d = chan_view c1" for x d
    proof -
      have d: "chan_view (clear_flag FLAG_OPEN d) = chan_view c" "channo d = ?n"
        using chan_view_eqD [of d] x(2) v1 False by (auto simp: chan_view_flags chan_view_def [of c])
      have "own_number ?n d y" using own_number_view [OF x(2)] own1 by simp
      with only_chan_put_after [OF x(1) this d(1)] d(2) have z: "only_chan ?n (clear_flag FLAG_OPEN d) y (y_put ?n (clear_flag FLAG_OPEN d) x)"
        by (simp add: chan_view_def)
      from only_chan_member [OF ok m z d(1)] z show ?thesis by (simp add: same_sys_def only_chan_def)
    qed
    show ?thesis
    proof (cases "r1 = 0")
      case False
      with q restored [OF o1 refl] show ?thesis by simp
    next
      case True
      let ?c2 = "if is_pseudo_chan c1 then set_flag FLAG_AUDIO c1 else c1"
      obtain r2 c3 y2 where b: "open_board alive ?c2 y1 = (r2, c3, y2)" by (metis prod_cases3)
      have v3: "chan_view c3 = chan_view c1" using open_board_chan [OF b] by (simp add: chan_view_flags)
      note bv = open_board_view [OF b]
      have sp: "chan_span ?c2 = chan_span c" using v1 by (simp add: chan_view_def chan_defs)
      have own3: "own_number ?n c3 y" using own_number_view [OF v3] own1 by simp
      show ?thesis
      proof (cases "r2 = 0")
        case r2: True
        let ?d = "c3\<lparr>chan_file := Some i\<rparr>"
        have z: "r = 0" "z = set_file i (f\<lparr>f_private := Some ?n\<rparr>) (y_put ?n ?d y2)" using q True b r2 by (simp_all add: Let_def)
        have dv: "chan_view ?d = (?n, True, Some i, chan_span c)" using v3 v1 by (simp add: chan_view_def)
        have vw: "views y2 = views y1" "numbers (y_world y2) = numbers (y_world y)" "y_files y2 = y_files y"
          using bv o1 by (simp_all add: only_chan_def)
        have "views (y_put ?n ?d y2) = map (\<lambda>v. if fst v = ?n then chan_view ?d else v) (views y)"
        proof -
          have "only_chan ?n ?d y (y_put ?n ?d y1)" using only_chan_put_after [OF o1 own1 dv] v1 by (simp add: chan_view_def)
          then show ?thesis by (simp add: only_chan_def views_put vw)
        qed
        moreover have "own_number ?n ?d y2" using own_number_view [of ?d] own1 only_chan_own [OF o1 own1, of ?d] vw dv v1
          by (simp add: own_number_views) (simp add: own_number_def chan_view_def)
        then have "numbers (y_world (y_put ?n ?d y2)) = numbers (y_world y)" using only_chan_put [of ?n ?d y2] vw by (simp add: only_chan_def)
        moreover have "y_owner y2 = (case chan_span c of None \<Rightarrow> y_owner y | Some s \<Rightarrow> (y_owner y)(spanno s := y_owner y (spanno s) + 1))"
          using bv(2) o1 r2 sp by (auto simp: only_chan_def split: option.splits)
        ultimately have "opened_by i f c y z"
          using m False z vw(3) dv unfolding opened_by_def
          by (simp add: set_file_def views_def y_put_def)
        with z show ?thesis by blast
      next
        case r2: False
        then have "map_option (\<lambda>(c, y). (r2, y_put ?n (clear_flag FLAG_OPEN c) y)) (close_channel ?n c3 y2) = Some (r, z)"
          using q True b by (simp add: Let_def)
        then obtain c4 y3 where cl: "close_channel ?n c3 y2 = Some (c4, y3)" "r = r2" "z = y_put ?n (clear_flag FLAG_OPEN c4) y3"
          by auto
        have y2o: "only_chan ?n c3 y y2"
          using bv o1 r2 sp only_chan_cong [OF v3, of ?n y y1] by (auto simp: only_chan_def split: option.splits)
        have ok2: "numbering (y_world y2)" using y2o ok numbering_numbers by (auto simp: only_chan_def)
        have own2: "own_number ?n c3 y2" using only_chan_own [OF y2o own3] own3 by simp
        note cc = close_channel_only [OF cl(1) ok2 own2]
        have "only_chan ?n c3 y y3" using only_chan_trans [OF y2o _ own3] cc by blast
        then have "only_chan ?n c4 y y3" using only_chan_cong cc by metis
        from restored [OF this] cc v3 cl r2 show ?thesis by simp
      qed
    qed
  qed
qed

lemma close_board_view: "close_board c = (r, d) \<Longrightarrow> chan_view d = chan_view c"
  by (auto simp: close_board_def chan_view_def split: option.splits)

definition closed_by :: "nat \<Rightarrow> 'a chan_open_scheme \<Rightarrow> 'a chan_open_scheme dahdi_sys \<Rightarrow> 'a chan_open_scheme dahdi_sys \<Rightarrow> bool" where
  "closed_by i c y z \<longleftrightarrow> c \<in> set (w_chans (y_world y)) \<and>
     views z = map (\<lambda>v. if fst v = channo c then (channo c, False, None, chan_span c) else v) (views y) \<and>
     numbers (y_world z) = numbers (y_world y) \<and> y_files z = (y_files y)(i := map_option (\<lambda>f. f\<lparr>f_private := None\<rparr>) (y_files y i)) \<and>
     y_owner z = (case chan_span c of None \<Rightarrow> y_owner y | Some s \<Rightarrow> (y_owner y)(spanno s := y_owner y (spanno s) - 1))"

lemma specchan_release_effect:
  assumes r: "specchan_release i y = Some (r, z)" and ok: "numbering (y_world y)" and f: "y_files y i = Some f"
    and c: "chan_from_file f y = Some c" and m: "c \<in> set (w_chans (y_world y))"
  shows "closed_by i c y z"
proof -
  let ?n = "channo c" and ?y = "set_file i (f\<lparr>f_private := None\<rparr>) y" and ?c = "c\<lparr>chan_file := None\<rparr>"
  obtain c1 y1 where cl: "close_channel ?n ?c ?y = Some (c1, y1)"
    and q: "(let (res, c) = close_board (clear_flag FLAG_OPEN c1) in (res, hold_owner (- 1) c (y_put ?n c y1))) = (r, z)"
    using r f c by (auto simp: specchan_release_def Let_def)
  obtain r2 c2 where b: "close_board (clear_flag FLAG_OPEN c1) = (r2, c2)" by fastforce
  have y: "y_world ?y = y_world y" "views ?y = views y" "y_owner ?y = y_owner y" by (simp_all add: set_file_def views_def)
  have own: "own_number ?n ?c ?y" using m y(1) by (simp add: own_number_def)
  have cc: "only_chan ?n ?c ?y y1" "chan_view c1 = (?n, FLAG_OPEN \<in> chan_flags c, None, chan_span c)"
    using close_channel_only [OF cl _ own] ok y(1) by (simp_all add: chan_view_flags)
  have v2: "chan_view c2 = (?n, False, None, chan_span c)"
    using close_board_view [OF b] chan_view_eqD [OF cc(2)] by (simp add: chan_view_flags)
  have z: "z = hold_owner (- 1) c2 (y_put ?n c2 y1)" using q b by simp
  have "only_chan ?n c2 ?y (y_put ?n c2 y1)"
    by (rule only_chan_put_after [OF cc(1) own v2]) simp
  then show ?thesis using z v2 y m f unfolding closed_by_def only_chan_def
    by (auto simp: hold_owner_def views_def set_file_def chan_view_def split: option.splits)
qed

lemma chan_cleanup_same:
  assumes "chan_cleanup n p y = Some z" and ok: "numbering (y_world y)" and p: "0 \<le> p" "p < 2 ^ 31"
  shows "same_sys y z"
proof (cases "y_chan p y")
  case None
  with assms(1) show ?thesis by (simp add: chan_cleanup_def same_sys_def)
next
  case (Some pos)
  have same: "same_sys y x \<Longrightarrow> chan_view d = chan_view pos \<Longrightarrow> same_sys y (y_put p d x)" for d x
  proof -
    assume x: "same_sys y x" and d: "chan_view d = chan_view pos"
    have m: "pos \<in> set (w_chans (y_world y))" "channo pos = p" using y_chan_member [OF ok p Some] by simp_all
    have okx: "numbering (y_world x)" using x ok numbering_numbers by (auto simp: same_sys_def)
    have "pos \<in> set (w_chans (y_world y)) \<Longrightarrow> chan_view pos \<in> set (views x)" using x by (simp add: same_sys_def views_def)
    with m obtain e where e: "e \<in> set (w_chans (y_world x))" "chan_view e = chan_view pos" by (auto simp: views_def)
    then have ce: "channo e = p" using m by (simp add: chan_view_def)
    have "views (y_put p d x) = views x" using views_put_same [OF okx e(1) ce] d e(2) by simp
    moreover have "own_number p d x" using d m(2) by (simp add: own_number_def chan_view_def)
    then have "numbers (y_world (y_put p d x)) = numbers (y_world x)" using only_chan_put by (auto simp: only_chan_def)
    ultimately show "same_sys y (y_put p d x)" using x by (simp add: same_sys_def) (simp add: y_put_def)
  qed
  have check: "same_sys y x \<Longrightarrow> y_check_conf k x = Some x' \<Longrightarrow> same_sys y x'" for k x x'
    using check_conf_same [of k x x'] by (simp add: same_sys_def)
  define pos1 where "pos1 = (if master pos = n then pos\<lparr>master := p\<rparr> else pos)"
  have v: "chan_view pos1 = chan_view pos"
    "chan_view ((dahdi_disable_dacs pos1)\<lparr>confna := 0, confn := 0, confmode := 0, conf_chan := None, dacs_chan := None\<rparr>) = chan_view pos"
    using dacs_view [of pos1] by (simp_all add: pos1_def chan_view_def)
  have s1: "same_sys y (y_put p pos1 y)" by (rule same [OF _ v(1)]) (simp add: same_sys_def)
  show ?thesis
  proof (cases "confna pos1 = n \<and> is_monitor_mode (confmode pos1) \<or> dacs_chan pos1 = Some n \<or> conf_chan pos1 = Some n")
    case False
    with assms(1) Some s1 show ?thesis by (simp add: chan_cleanup_def pos1_def [symmetric] Let_def)
  next
    case True
    have "map_option (y_put p ((dahdi_disable_dacs pos1)\<lparr>confna := 0, confn := 0, confmode := 0, conf_chan := None, dacs_chan := None\<rparr>))
        (if confna pos1 \<noteq> 0 then y_check_conf (confna pos1) (y_put p pos1 y) else Some (y_put p pos1 y)) = Some z"
      using assms(1) True unfolding chan_cleanup_def Some option.case Let_def pos1_def [symmetric] by simp
    then obtain x where x: "(if confna pos1 \<noteq> 0 then y_check_conf (confna pos1) (y_put p pos1 y) else Some (y_put p pos1 y)) = Some x"
      and z: "z = y_put p ((dahdi_disable_dacs pos1)\<lparr>confna := 0, confn := 0, confmode := 0, conf_chan := None, dacs_chan := None\<rparr>) x"
      unfolding map_option_eq_Some by blast
    have "same_sys y x" using x s1 check [OF s1] by (auto split: if_splits)
    from same [OF this v(2)] z show ?thesis by simp
  qed
qed

lemma same_sys_trans: "same_sys x y \<Longrightarrow> same_sys y z \<Longrightarrow> same_sys x z"
  by (simp add: same_sys_def)

lemma cleanup_all_same:
  "cleanup_all n ps y = Some z \<Longrightarrow> numbering (y_world y) \<Longrightarrow> \<forall>p \<in> set ps. 0 \<le> p \<and> p < 2 ^ 31 \<Longrightarrow> same_sys y z"
proof (induction ps arbitrary: y)
  case Nil
  then show ?case by (simp add: same_sys_def)
next
  case (Cons p ps)
  then obtain x where x: "chan_cleanup n p y = Some x" "cleanup_all n ps x = Some z" by (auto simp: bind_eq_Some_conv)
  have s: "same_sys y x" using chan_cleanup_same [OF x(1)] Cons.prems by simp
  then have "numbering (y_world x)" using Cons.prems(2) numbering_numbers by (auto simp: same_sys_def)
  with Cons.IH [OF x(2)] Cons.prems(3) same_sys_trans [OF s] show ?case by simp
qed

text \<open>A channel that is off the lists, being removed; its handle, if it has one, is cut off.\<close>

definition cut_off :: "nat option \<Rightarrow> (nat \<Rightarrow> dahdi_file option) \<Rightarrow> nat \<Rightarrow> dahdi_file option" where
  "cut_off fi F = (case fi of None \<Rightarrow> F | Some i \<Rightarrow> F(i := map_option (\<lambda>f. f\<lparr>f_private := None, f_nodev := True\<rparr>) (F i)))"

lemma only_chan_absent:
  assumes "only_chan n c y z" and "n \<notin> channo ` set (w_chans (y_world y))"
  shows "same_sys y z"
proof -
  have "n \<notin> fst ` set (views y)" using assms(2) by (simp add: views_def image_image chan_view_def)
  then have "\<forall>v \<in> set (views y). fst v \<noteq> n" by auto
  then show ?thesis using assms(1) by (simp add: only_chan_def same_sys_def map_idI)
qed

lemma chan_unreg_effect:
  assumes u: "chan_unreg c y = Some (d, z)" and ok: "numbering (y_world y)" and out: "channo c \<notin> channo ` set (w_chans (y_world y))"
  shows "views z = views y \<and> numbers (y_world z) = numbers (y_world y) \<and> y_files z = cut_off (chan_file c) (y_files y) \<and>
    y_owner z = (case chan_span c of None \<Rightarrow> y_owner y
      | Some s \<Rightarrow> if chan_file c = None then y_owner y else (y_owner y)(spanno s := y_owner y (spanno s) - 1))"
proof -
  let ?n = "channo c"
  define y1 where "y1 = (case chan_file c of None \<Rightarrow> y
               | Some i \<Rightarrow> (case y_files y i of None \<Rightarrow> y | Some f \<Rightarrow> set_file i (f\<lparr>f_private := None, f_nodev := True\<rparr>) y))"
  define y2 where "y2 = y1\<lparr>y_echo := release_echocan (ec_factory c) (y_echo y1)\<rparr>"
  define c1 where "c1 = clear_flag FLAG_REGISTERED (c\<lparr>ec_factory := None\<rparr>)"
  have y2: "y_world y2 = y_world y" "views y2 = views y" "y_owner y2 = y_owner y" "y_files y2 = cut_off (chan_file c) (y_files y)"
    by (auto simp: y2_def y1_def set_file_def views_def cut_off_def split: option.splits)
  have "Option.bind (cleanup_all ?n (map channo (w_chans (y_world y2))) y2) (\<lambda>y.
         map_option (\<lambda>(c, y).
           (if chan_file c \<noteq> None then
              (let c = (if FLAG_OPEN \<in> chan_flags c then snd (close_board (clear_flag FLAG_OPEN c)) else c)
               in (c, hold_owner (- 1) c y))
            else (c, y)))
         (close_channel ?n (c1\<lparr>channo := -1\<rparr>) y)) = Some (d, z)"
    using u unfolding chan_unreg_def Let_def y1_def [symmetric] y2_def [symmetric] c1_def [symmetric] .
  then obtain y3 c4 y4 where y3: "cleanup_all ?n (map channo (w_chans (y_world y2))) y2 = Some y3"
    and cl: "close_channel ?n (c1\<lparr>channo := -1\<rparr>) y3 = Some (c4, y4)"
    and q: "(if chan_file c4 \<noteq> None then
              (let c = (if FLAG_OPEN \<in> chan_flags c4 then snd (close_board (clear_flag FLAG_OPEN c4)) else c4)
               in (c, hold_owner (- 1) c y4))
            else (c4, y4)) = (d, z)"
    unfolding bind_eq_Some_conv map_option_eq_Some by fastforce
  have s3: "same_sys y2 y3"
    by (rule cleanup_all_same [OF y3]) (use ok y2(1) numbering_distinct(2) [OF ok] in auto)
  have ok3: "numbering (y_world y3)" using s3 ok y2(1) numbering_numbers by (auto simp: same_sys_def)
  have "fst ` set (views y3) = channo ` set (w_chans (y_world y))" using s3 y2(2) by (simp add: same_sys_def views_def image_image chan_view_def)
  then have out3: "?n \<notin> channo ` set (w_chans (y_world y3))" using out by (simp add: views_def image_image chan_view_def)
  then have own: "own_number ?n (c1\<lparr>channo := -1\<rparr>) y3" by (simp add: own_number_def)
  from close_channel_only [OF cl ok3 own] have s4: "same_sys y3 y4" and v4: "chan_view c4 = chan_view (c1\<lparr>channo := -1\<rparr>)"
    using only_chan_absent [OF _ out3] by blast+
  have f4: "chan_file c4 = chan_file c" "chan_span c4 = chan_span c" using v4 by (simp_all add: chan_view_def c1_def chan_defs)
  have sp: "chan_span (snd (close_board x)) = chan_span x" for x :: "'a chan_open_scheme" by (simp add: close_board_def split: option.split)
  have z: "z = (if chan_file c \<noteq> None then hold_owner (- 1) c y4 else y4)"
    using q f4 sp by (auto simp: hold_owner_def Let_def chan_defs split: if_splits option.splits)
  from same_sys_trans [OF s3 s4] have s: "views y4 = views y" "numbers (y_world y4) = numbers (y_world y)" "y_files y4 = cut_off (chan_file c) (y_files y)" "y_owner y4 = y_owner y"
    using y2 by (simp_all add: same_sys_def)
  show ?thesis unfolding z using s by (auto simp: hold_owner_def views_def split: option.split)
qed

end
