(* ===== verification/AudioMix.thy ===== *)
theory AudioMix
  imports Audio Transmit
begin

text \<open>
  Conferences: what one run of \<open>_process_masterspan\<close> does for channels that only take part in
  conferences. First the fields that receiving and sending a chunk leave alone, then the sums without
  clipping, the two phases over the channels of all spans, and the property that everybody hears the
  sum of the others.
\<close>

section \<open>What receiving and sending leave alone\<close>

text \<open>A channel without the state that receiving a chunk changes.\<close>

definition rx_strip :: "'a chan_buf_scheme \<Rightarrow> 'a chan_buf_scheme" where
  "rx_strip c = c\<lparr>readbuf := None, inreadbuf := 0, outreadbuf := 0, readn := [], readidx := [], rxhdlc := txhdlc c,
     infcs := 0, eventbuf := [], eventinidx := 0, chan_flags := chan_flags c - {FLAG_RXOVERRUN}\<rparr>"

lemma rx_strip_simps [simp]:
  "rx_strip (set_rx_idx i c) = rx_strip c" "rx_strip (c\<lparr>rxhdlc := h\<rparr>) = rx_strip c"
  "rx_strip (c\<lparr>infcs := f\<rparr>) = rx_strip c" "rx_strip (c\<lparr>readn := r\<rparr>) = rx_strip c" "rx_strip (rx_advance c) = rx_strip c"
  by (simp_all add: rx_strip_def set_rx_idx_def rx_advance_def Let_def)

lemma rx_strip_qevent [simp]: "rx_strip (qevent c e) = rx_strip c"
  by (simp add: rx_strip_def qevent_def Let_def)

lemma store_octets_strip: "store_octets ds c = Some d \<Longrightarrow> rx_strip d = rx_strip c"
  by (auto simp: store_octets_def Let_def rx_strip_def set_rx_idx_def split: option.splits if_splits)

lemma rx_hdlc_strip: "rx_hdlc ppp_fcs left rxb c = Some (rest, eof, abort, d) \<Longrightarrow> rx_strip d = rx_strip c"
proof (induction left arbitrary: rxb c)
  case 0
  then show ?case by simp
next
  case (Suc left)
  show ?case
  proof (cases rxb)
    case Nil
    with Suc.prems show ?thesis by simp
  next
    case (Cons b rxb)
    obtain h res where h: "fasthdlc_rx_run (fst (fasthdlc_rx_load_nocheck (rxhdlc c) b)) = (h, res)" by fastforce
    from Suc.prems show ?thesis unfolding Cons rx_hdlc.simps h prod.case Let_def
      by (auto split: if_splits option.splits dest: store_octets_strip dest!: Suc.IH)
  qed
qed

lemma rx_round_strip:
  assumes "rx_round ppp_fcs nostd alarms rxb c = Some (rest, d)"
  shows "rx_strip d = rx_strip c"
proof -
  have end_: "rx_strip (rx_frame_end d) = rx_strip d" for d :: "'a chan_buf_scheme"
    by (simp add: rx_frame_end_def Let_def)
  have abort: "rx_strip (rx_abort a e d) = rx_strip d" for a e and d :: "'a chan_buf_scheme"
    by (simp add: rx_abort_def Let_def)
  from assms show ?thesis
    by (auto simp: rx_round_def Let_def end_ abort split: option.splits if_splits dest!: rx_hdlc_strip store_octets_strip)
qed

lemma rx_loop_strip: "rx_loop ppp_fcs fuel nostd alarms rxb c = Some (rest, d) \<Longrightarrow> rx_strip d = rx_strip c"
proof (induction fuel arbitrary: rxb c)
  case 0
  then show ?case by simp
next
  case (Suc fuel)
  then show ?case by (auto split: if_splits option.splits dest!: rx_round_strip Suc.IH)
qed

lemma putbuf_chunk_strip:
  assumes "putbuf_chunk ppp_fcs fuel nostd alarms rxb c = Some d"
  shows "rx_strip d = rx_strip c"
proof -
  have o: "rx_strip (rx_overrun_flag b d) = rx_strip d" for b and d :: "'a chan_buf_scheme"
  proof -
    have "rx_strip (set_flag FLAG_RXOVERRUN e) = rx_strip e" "rx_strip (clear_flag FLAG_RXOVERRUN e) = rx_strip e"
      for e :: "'a chan_buf_scheme" by (simp_all add: rx_strip_def chan_defs)
    then show ?thesis by (simp add: rx_overrun_flag_def)
  qed
  from assms show ?thesis by (auto simp: putbuf_chunk_def o dest: rx_loop_strip)
qed

text \<open>An idle channel sends a chunk of silence; only the underrun flag and its event can change.\<close>

lemma getbuf_chunk_idle:
  assumes "outwritebuf c < 0" and "tone_of c = None" and "{FLAG_HDLC, FLAG_LOOPED} \<inter> chan_flags c = {}"
    and "FLAG_AUDIO \<in> chan_flags c \<or> FLAG_CLEAR \<notin> chan_flags c"
  shows "getbuf_chunk (Suc fuel) e c = Some (replicate DAHDI_CHUNKSIZE (DAHDI_LIN2X 0 (xlaw c)), tx_underrun_flag True c)"
  using assms by (auto simp: getbuf_chunk_def tx_idle_def)

definition tx_strip :: "'a chan_buf_scheme \<Rightarrow> 'a chan_buf_scheme" where
  "tx_strip c = c\<lparr>eventbuf := [], eventinidx := 0, chan_flags := chan_flags c - {FLAG_TXUNDERRUN}\<rparr>"

lemma tx_underrun_strip: "tx_strip (tx_underrun_flag u c) = tx_strip c"
  by (simp add: tx_underrun_flag_def tx_strip_def chan_defs qevent_def Let_def)

section \<open>Chunks of samples\<close>

definition samples :: "(nat \<Rightarrow> int) \<Rightarrow> int list" where
  "samples f = map f [0..<DAHDI_CHUNKSIZE]"

lemma samples_nth: "length xs = DAHDI_CHUNKSIZE \<Longrightarrow> samples ((!) xs) = xs"
  by (metis samples_def map_nth)

lemma samples_cong: "(\<And>k. k < DAHDI_CHUNKSIZE \<Longrightarrow> f k = g k) \<Longrightarrow> samples f = samples g"
  by (simp add: samples_def del: upt_rec_numeral)

lemma nth_samples [simp]: "k < DAHDI_CHUNKSIZE \<Longrightarrow> samples f ! k = f k"
  by (simp add: samples_def del: upt_rec_numeral)

lemma no_samples_alt: "no_samples = samples (\<lambda>_. 0)"
  by (simp add: no_samples_def samples_def map_replicate_const del: upt_rec_numeral)

lemma sums_samples [simp]:
  "ACSS (samples f) (samples g) = samples (\<lambda>k. clip (f k + g k))"
  "SCSS (samples f) (samples g) = samples (\<lambda>k. clip (f k - g k))"
  by (simp_all add: ACSS_def SCSS_def samples_def map2_map_map del: upt_rec_numeral)

lemma clip_id: "\<bar>x\<bar> \<le> 32767 \<Longrightarrow> clip x = x"
  by (auto simp: clip_def)

text \<open>Without clipping, what one says is added as it is, and the sum is heard without what one said.\<close>

lemma talk_exact:
  assumes "\<And>k. k < DAHDI_CHUNKSIZE \<Longrightarrow> \<bar>f k\<bar> + \<bar>g k\<bar> \<le> 32767"
  shows "talk (samples g) (samples f) = (samples g, samples (\<lambda>k. f k + g k))"
proof -
  have c: "clip (g k + f k) = g k + f k" "clip (g k) = g k" "clip (f k + g k) = f k + g k" if "k < DAHDI_CHUNKSIZE" for k
    using assms [OF that] by (auto intro!: clip_id)
  have "samples (\<lambda>k. clip (clip (g k + f k) - f k)) = samples g"
    by (rule samples_cong) (simp add: c)
  moreover have "samples (\<lambda>k. clip (f k + clip (clip (g k + f k) - f k))) = samples (\<lambda>k. f k + g k)"
    by (rule samples_cong) (simp add: c)
  ultimately show ?thesis unfolding talk_def Let_def sums_samples by simp
qed

lemma listen_exact:
  assumes "\<And>k. k < DAHDI_CHUNKSIZE \<Longrightarrow> \<bar>h k\<bar> + \<bar>g k\<bar> \<le> 32767"
    and "\<And>k. k < DAHDI_CHUNKSIZE \<Longrightarrow> \<bar>h k + (f k - g k)\<bar> \<le> 32767"
  shows "listen (samples h) (samples g) (samples f) = samples (\<lambda>k. h k + (f k - g k))"
proof -
  have "clip (clip (h k - g k) + f k) = h k + (f k - g k)" if "k < DAHDI_CHUNKSIZE" for k
  proof -
    have "clip (h k - g k) = h k - g k" using assms(1) [OF that] by (intro clip_id) simp
    with assms(2) [OF that] show ?thesis by (simp add: clip_id)
  qed
  then show ?thesis unfolding listen_def by (simp cong: samples_cong)
qed

section \<open>Members of a conference\<close>

text \<open>
  A channel that does nothing but take part in a conference (\<open>DAHDI_CONF_CONF\<close>): not muted, not
  dialling, nothing written to it, no tone, gain or echo canceller of its own.
\<close>

definition conf_member :: "int \<Rightarrow> 'a chan_audio_scheme \<Rightarrow> bool" where
  "conf_member i c \<longleftrightarrow> master c = i \<and> conf_kind c = CONF_CONF \<and> \<not> is_pseudo_chan c \<and> confmute c = 0 \<and>
     \<not> dialing c \<and> afterdialingtimer c = 0 \<and> rxgain c = None \<and> txgain c = None \<and> ec_state c = None \<and> rxp1 c = 0 \<and>
     v1_1 c = 0 \<and> v2_1 c = 0 \<and> v3_1 c = 0 \<and> curtone c = None \<and> outwritebuf c < 0 \<and>
     {FLAG_HDLC, FLAG_MTP2, FLAG_LOOPED} \<inter> chan_flags c = {} \<and> (FLAG_AUDIO \<in> chan_flags c \<or> FLAG_CLEAR \<notin> chan_flags c) \<and>
     rx_inv c \<and> cq_inv (confin c) \<and> cq_inv (confout c)"

lemma conf_member_confmode: "conf_member i c \<Longrightarrow> confmode c \<noteq> 0"
  by (auto simp: conf_member_def conf_kind_def)

text \<open>The chunk a member receives, and what of it goes into the sum.\<close>

definition heard_chunk :: "'a chan_audio_scheme \<Rightarrow> u8 list" where
  "heard_chunk c = (case chunks (confin c) of [] \<Rightarrow> silence c | d # _ \<Rightarrow> d)"

definition said_in :: "'a chan_audio_scheme \<Rightarrow> u8 list \<Rightarrow> nat \<Rightarrow> int" where
  "said_in c rxb k = (if is_conf_flag CONF_TALKER c then linear c rxb ! k else 0)"

abbreviation said :: "'a chan_audio_scheme \<Rightarrow> nat \<Rightarrow> int" where
  "said c \<equiv> said_in c (heard_chunk c)"

text \<open>What a member has after its chunk was received.\<close>

definition has_said :: "int \<Rightarrow> 'a chan_audio_scheme \<Rightarrow> 'a chan_audio_scheme \<Rightarrow> bool" where
  "has_said i c d \<longleftrightarrow> conf_member i d \<and> confmode d = confmode c \<and> confn d = confn c \<and> xlaw d = xlaw c \<and>
     confout d = confout c \<and> chunks (confin d) = tl (chunks (confin c)) \<and> conflast d = samples (said c)"

lemma rx_prepare_member:
  assumes "conf_member i c"
  shows "rx_prepare rxb c = (linear c rxb, rxb, c\<lparr>putlin := linear c rxb, putraw := rxb\<rparr>)"
  using assms by (simp add: rx_prepare_def conf_member_def rx_dialing_def gain_chunk_def rx_ced_def rx_tone_def Let_def)

definition add_row :: "nat \<Rightarrow> int list \<Rightarrow> 'c sound \<Rightarrow> 'c sound" where
  "add_row n xs w = w\<lparr>snd_sums := (snd_sums w)\<lparr>sums_next := (sums_next (snd_sums w))[n := xs]\<rparr>\<rparr>"

lemma rx_talk_next_member:
  assumes "length rxb = DAHDI_CHUNKSIZE" and "sums_next s ! nat (confn c) = samples f"
    and "\<And>k. k < DAHDI_CHUNKSIZE \<Longrightarrow> \<bar>f k\<bar> + \<bar>said_in c rxb k\<bar> \<le> 32767"
  shows "rx_talk_next (linear c rxb) c s = (c\<lparr>conflast := samples (said_in c rxb)\<rparr>,
    s\<lparr>sums_next := (sums_next s)[nat (confn c) := samples (\<lambda>k. f k + said_in c rxb k)]\<rparr>)"
proof (cases "is_conf_flag CONF_TALKER c")
  case True
  have "linear c rxb = samples (said_in c rxb)"
    using assms(1) True samples_nth [of "linear c rxb"] by (simp add: said_in_def [abs_def] linear_def)
  with True assms(2) talk_exact [of f "said_in c rxb"] assms(3) show ?thesis
    by (simp add: rx_talk_next_def Let_def)
next
  case False
  then have "samples (said_in c rxb) = no_samples" "samples (\<lambda>k. f k + said_in c rxb k) = sums_next s ! nat (confn c)"
    by (simp_all add: said_in_def [abs_def] no_samples_alt assms(2))
  then show ?thesis using False by (simp add: rx_talk_next_def)
qed

lemma putaudio_member:
  assumes "conf_member i (chan_at w i)" and "length rxb = DAHDI_CHUNKSIZE"
    and "sums_next (snd_sums w) ! nat (confn (chan_at w i)) = samples f"
    and "\<And>k. k < DAHDI_CHUNKSIZE \<Longrightarrow> \<bar>f k\<bar> + \<bar>said_in (chan_at w i) rxb k\<bar> \<le> 32767"
  shows "putaudio i rxb w = Some (rxb, put_chan i
      ((chan_at w i)\<lparr>putlin := linear (chan_at w i) rxb, putraw := rxb, conflast := samples (said_in (chan_at w i) rxb)\<rparr>)
      (add_row (nat (confn (chan_at w i))) (samples (\<lambda>k. f k + said_in (chan_at w i) rxb k)) w))"
proof -
  let ?c = "chan_at w i" let ?d = "?c\<lparr>putlin := linear ?c rxb, putraw := rxb\<rparr>"
  have m: "master ?c = i" "confmute ?c = 0" "afterdialingtimer ?c = 0" "conf_kind ?c = CONF_CONF" "\<not> is_pseudo_chan ?c"
    using assms(1) by (simp_all add: conf_member_def)
  have s: "said_in ?d rxb = said_in ?c rxb" "linear ?d rxb = linear ?c rxb"
    by (simp_all add: said_in_def fun_eq_iff linear_def is_conf_flag_def)
  have t: "rx_talk_next (linear ?c rxb) ?d (snd_sums w) = (?d\<lparr>conflast := samples (said_in ?c rxb)\<rparr>,
      (snd_sums w)\<lparr>sums_next := (sums_next (snd_sums w))[nat (confn ?c) := samples (\<lambda>k. f k + said_in ?c rxb k)]\<rparr>)"
    using rx_talk_next_member [OF assms(2), of "snd_sums w" ?d f] assms(3,4) by (simp only: s) simp
  have k: "conf_kind ?d = CONF_CONF" "\<not> is_pseudo_chan ?d" using m by (simp_all add: conf_kind_def is_pseudo_chan_def)
  have "putaudio_mode peer (linear ?c rxb) rxb ?d (snd_sums w) = Some (rxb, ?d\<lparr>conflast := samples (said_in ?c rxb)\<rparr>,
      (snd_sums w)\<lparr>sums_next := (sums_next (snd_sums w))[nat (confn ?c) := samples (\<lambda>k. f k + said_in ?c rxb k)]\<rparr>, None)" for peer
    unfolding putaudio_mode_def k Let_def t by (simp add: is_monitor_def k)
  then show ?thesis
    unfolding putaudio_def m Let_def rx_prepare_member [OF assms(1)]
    by (simp add: m put_chan_def add_row_def)
qed

lemma rx_strip_fields:
  fixes c d :: "'a chan_audio_scheme"
  assumes "rx_strip d = rx_strip c"
  shows "master d = master c" "confmode d = confmode c" "confn d = confn c" "confmute d = confmute c" "chan_span d = chan_span c"
    "dialing d = dialing c" "afterdialingtimer d = afterdialingtimer c" "rxgain d = rxgain c" "txgain d = txgain c"
    "ec_state d = ec_state c" "rxp1 d = rxp1 c" "v1_1 d = v1_1 c" "v2_1 d = v2_1 c" "v3_1 d = v3_1 c"
    "curtone d = curtone c" "outwritebuf d = outwritebuf c" "xlaw d = xlaw c" "confin d = confin c" "confout d = confout c"
    "conflast d = conflast c" "f \<noteq> FLAG_RXOVERRUN \<Longrightarrow> f \<in> chan_flags d \<longleftrightarrow> f \<in> chan_flags c"
proof -
  note e = arg_cong [OF assms]
  show "master d = master c" "confmode d = confmode c" "confn d = confn c" "confmute d = confmute c" "chan_span d = chan_span c"
    "dialing d = dialing c" "afterdialingtimer d = afterdialingtimer c" "rxgain d = rxgain c" "txgain d = txgain c"
    "ec_state d = ec_state c" "rxp1 d = rxp1 c" "v1_1 d = v1_1 c" "v2_1 d = v2_1 c" "v3_1 d = v3_1 c"
    "curtone d = curtone c" "outwritebuf d = outwritebuf c" "xlaw d = xlaw c" "confin d = confin c" "confout d = confout c"
    "conflast d = conflast c"
    using e [of master] e [of confmode] e [of confn] e [of confmute] e [of chan_span] e [of dialing] e [of afterdialingtimer]
      e [of rxgain] e [of txgain] e [of ec_state] e [of rxp1] e [of v1_1] e [of v2_1] e [of v3_1] e [of curtone]
      e [of outwritebuf] e [of xlaw] e [of confin] e [of confout] e [of conflast]
    by (simp_all add: rx_strip_def)
  show "f \<in> chan_flags d \<longleftrightarrow> f \<in> chan_flags c" if "f \<noteq> FLAG_RXOVERRUN"
    using e [of "\<lambda>c. f \<in> chan_flags c"] that by (simp add: rx_strip_def)
qed

lemma conf_member_strip: "rx_strip d = rx_strip c \<Longrightarrow> rx_inv d \<Longrightarrow> conf_member i c \<Longrightarrow> conf_member i d"
  unfolding conf_member_def conf_kind_def is_pseudo_chan_def by (simp add: rx_strip_fields [of d c])

lemma receive_chunk_member:
  assumes c: "conf_member i (chan_at w i)" and len: "length rxb = DAHDI_CHUNKSIZE"
    and b: "rxb = (case buf of None \<Rightarrow> silence (chan_at w i) | Some b \<Rightarrow> b)"
    and row: "sums_next (snd_sums w) ! nat (confn (chan_at w i)) = samples f"
    and small: "\<And>k. k < DAHDI_CHUNKSIZE \<Longrightarrow> \<bar>f k\<bar> + \<bar>said_in (chan_at w i) rxb k\<bar> \<le> 32767"
  obtains d where "receive_chunk env i buf w = Some (rxb, put_chan i d
      (add_row (nat (confn (chan_at w i))) (samples (\<lambda>k. f k + said_in (chan_at w i) rxb k)) w))"
    and "conf_member i d" and "rx_strip d = rx_strip ((chan_at w i)\<lparr>putlin := linear (chan_at w i) rxb, putraw := rxb,
      conflast := samples (said_in (chan_at w i) rxb)\<rparr>)"
proof -
  let ?c = "chan_at w i"
  let ?e = "?c\<lparr>putlin := linear ?c rxb, putraw := rxb, conflast := samples (said_in ?c rxb)\<rparr>"
  let ?w = "put_chan i ?e (add_row (nat (confn ?c)) (samples (\<lambda>k. f k + said_in ?c rxb k)) w)"
  have e: "conf_member i ?e" using c
    by (simp add: conf_member_def conf_kind_def is_pseudo_chan_def rx_inv_def rx_ok_def rx_slot_ok_def rx_idx_def)
  then have e': "rx_inv ?e" "FLAG_MTP2 \<notin> chan_flags ?e" "master ?e = i" by (simp_all add: conf_member_def)
  have at: "chan_at ?w i = ?e" by (simp add: put_chan_def)
  obtain d where d: "putbuf_chunk (env_fcs env) (Suc (length rxb)) (FLAG_NOSTDTXRX \<in> chan_flags ?e) (has_alarms ?e) rxb ?e = Some d"
      "rx_inv d" using putbuf_chunk_ok [OF e'(1,2), of rxb "Suc (length rxb)"] by blast
  note s = putbuf_chunk_strip [OF d(1)]
  have pa: "putaudio i rxb w = Some (rxb, ?w)" by (rule putaudio_member [OF c len row]) (rule small)
  have "wants_audio ?c" using conf_member_confmode [OF c] by (simp add: wants_audio_def)
  then have "receive_chunk env i buf w = Some (rxb, put_chan i d ?w)"
    unfolding receive_chunk_def Let_def b [symmetric] pa
    by (simp only: if_True option.case prod.case at e'(3) d(1) option.map)
  also have "put_chan i d ?w = put_chan i d (add_row (nat (confn ?c)) (samples (\<lambda>k. f k + said_in ?c rxb k)) w)"
    by (simp add: put_chan_def add_row_def)
  finally show thesis by (rule that) (rule conf_member_strip [OF s d(2) e], rule s)
qed

text \<open>The slot at the front of the queue is the chunk; taking it out leaves the others.\<close>

lemma heard_chunk_slot:
  assumes "cq_inv (confin c)"
  shows "heard_chunk c = (case map_option ((!) (cq_buf (confin c))) (buf_peek (confin c)) of None \<Rightarrow> silence c | Some b \<Rightarrow> b)"
    and "length (heard_chunk c) = DAHDI_CHUNKSIZE"
proof -
  from buf_pull_refines [OF assms, of 0]
  show h: "heard_chunk c = (case map_option ((!) (cq_buf (confin c))) (buf_peek (confin c)) of None \<Rightarrow> silence c | Some b \<Rightarrow> b)"
    by (auto simp: heard_chunk_def buf_peek_def buf_pull_def Let_def split: list.splits if_splits)
  have "nat (cq_outbuf (confin c)) < length (cq_buf (confin c))" if "\<not> cq_outbuf (confin c) < 0"
    using assms that by (auto simp: cq_inv_def ring_inv_def split: if_splits)
  then show "length (heard_chunk c) = DAHDI_CHUNKSIZE"
    using assms by (auto simp: h buf_peek_def silence_def cq_inv_def)
qed

lemma conf_receive_member:
  assumes c: "conf_member i (chan_at w i)"
    and row: "sums_next (snd_sums w) ! nat (confn (chan_at w i)) = samples f"
    and small: "\<And>k. k < DAHDI_CHUNKSIZE \<Longrightarrow> \<bar>f k\<bar> + \<bar>said (chan_at w i) k\<bar> \<le> 32767"
  obtains d where "conf_receive env i w = Some (put_chan i d
      (add_row (nat (confn (chan_at w i))) (samples (\<lambda>k. f k + said (chan_at w i) k)) w))"
    and "has_said i (chan_at w i) d"
proof -
  let ?c = "chan_at w i" let ?rxb = "heard_chunk ?c" let ?q = "confin ?c"
  let ?w = "add_row (nat (confn ?c)) (samples (\<lambda>k. f k + said ?c k)) w"
  have q: "cq_inv ?q" using c by (simp add: conf_member_def)
  note h = heard_chunk_slot [OF q] and p = buf_pull_refines [OF q, of 0]
  obtain d where d: "receive_chunk env i (map_option ((!) (cq_buf ?q)) (buf_peek ?q)) w = Some (?rxb, put_chan i d ?w)"
      "conf_member i d" "rx_strip d = rx_strip (?c\<lparr>putlin := linear ?c ?rxb, putraw := ?rxb, conflast := samples (said ?c)\<rparr>)"
    using receive_chunk_member [OF c h(2,1) row small] by blast
  note fd = rx_strip_fields [OF d(3)]
  have qd: "confin d = ?q" using fd by simp
  define e where "e = (if buf_peek ?q = None then d else d\<lparr>confin := snd (snd (buf_pull 0 ?q))\<rparr>)"
  have "conf_receive env i w = Some (put_chan i e ?w)"
  proof (cases "buf_peek ?q")
    case None
    with d(1) conf_member_confmode [OF c] show ?thesis by (simp add: conf_receive_def e_def Let_def)
  next
    case (Some slot)
    then have "?rxb = cq_buf ?q ! slot" using h(1) by simp
    then have "?q\<lparr>cq_buf := (cq_buf ?q)[slot := ?rxb]\<rparr> = ?q" by simp
    with Some d(1) conf_member_confmode [OF c] qd show ?thesis
      by (simp add: conf_receive_def e_def put_chan_def Let_def del: list_update_id)
  qed
  moreover have "has_said i ?c e"
  proof -
    have "chunks (confin e) = tl (chunks ?q) \<and> cq_inv (confin e)"
      using p q qd by (auto simp: e_def buf_peek_def buf_pull_def Let_def split: list.splits if_splits)
    moreover have "conf_member i e" using d(2) calculation
      by (simp add: e_def conf_member_def conf_kind_def is_pseudo_chan_def rx_inv_def rx_ok_def rx_slot_ok_def rx_idx_def)
    moreover have "confmode e = confmode ?c" "confn e = confn ?c" "xlaw e = xlaw ?c" "confout e = confout ?c" "conflast e = samples (said ?c)"
      using fd by (simp_all add: e_def)
    ultimately show ?thesis by (simp add: has_said_def)
  qed
  ultimately show thesis by (rule that)
qed

section \<open>The receive phase\<close>

text \<open>The members of conference \<open>n\<close> among the channels \<open>is\<close>, and what they say together.\<close>

definition members_of :: "(int \<Rightarrow> 'a chan_audio_scheme) \<Rightarrow> nat \<Rightarrow> int list \<Rightarrow> int list" where
  "members_of cs n is = filter (\<lambda>j. confmode (cs j) \<noteq> 0 \<and> nat (confn (cs j)) = n) is"

definition total :: "(int \<Rightarrow> 'a chan_audio_scheme) \<Rightarrow> nat \<Rightarrow> int list \<Rightarrow> nat \<Rightarrow> int" where
  "total cs n is k = (\<Sum>j\<leftarrow>members_of cs n is. said (cs j) k)"

definition loudness :: "(int \<Rightarrow> 'a chan_audio_scheme) \<Rightarrow> nat \<Rightarrow> int list \<Rightarrow> nat \<Rightarrow> int" where
  "loudness cs n is k = (\<Sum>j\<leftarrow>members_of cs n is. \<bar>said (cs j) k\<bar>)"

lemma total_cong: "(\<And>j. j \<in> set is \<Longrightarrow> cs j = cs' j) \<Longrightarrow> total cs n is = total cs' n is \<and> loudness cs n is = loudness cs' n is"
proof -
  assume e: "\<And>j. j \<in> set is \<Longrightarrow> cs j = cs' j"
  then have m: "members_of cs n is = members_of cs' n is" by (simp add: members_of_def cong: filter_cong)
  have "map (\<lambda>j. said (cs j) k) (members_of cs' n is) = map (\<lambda>j. said (cs' j) k) (members_of cs' n is)"
    "map (\<lambda>j. \<bar>said (cs j) k\<bar>) (members_of cs' n is) = map (\<lambda>j. \<bar>said (cs' j) k\<bar>) (members_of cs' n is)" for k
    using e by (simp_all add: members_of_def)
  then show ?thesis by (simp add: total_def loudness_def fun_eq_iff m del: map_eq_conv)
qed

lemma loudness_nonneg: "0 \<le> loudness cs n is k"
  by (auto simp: loudness_def intro!: sum_list_nonneg)

text \<open>The processing of the channels \<open>is\<close> of the world \<open>w\<close> so far gave \<open>w'\<close>.\<close>

definition all_said :: "int list \<Rightarrow> 'a chan_audio_scheme sound \<Rightarrow> 'a chan_audio_scheme sound \<Rightarrow> bool" where
  "all_said is w w' \<longleftrightarrow>
     (\<forall>j. if j \<in> set is \<and> confmode (chan_at w j) \<noteq> 0 then has_said j (chan_at w j) (chan_at w' j)
          else chan_at w' j = chan_at w j) \<and>
     snd_spans w' = snd_spans w \<and> snd_pseudos w' = snd_pseudos w \<and> snd_maxconfs w' = snd_maxconfs w"

lemma receive_phase:
  assumes "distinct is" and "\<And>i. i \<in> set is \<Longrightarrow> confmode (chan_at w i) = 0 \<or> conf_member i (chan_at w i) \<and> nat (confn (chan_at w i)) \<in> C"
    and "\<And>n. n \<in> C \<Longrightarrow> n < length (sums_next (snd_sums w)) \<and> sums_next (snd_sums w) ! n = samples (f n)"
    and "\<And>n k. n \<in> C \<Longrightarrow> k < DAHDI_CHUNKSIZE \<Longrightarrow> \<bar>f n k\<bar> + loudness (chan_at w) n is k \<le> 32767"
  shows "\<exists>w'. each_chan (conf_receive env) is w = Some w' \<and> all_said is w w' \<and>
    (\<forall>n \<in> C. sums_next (snd_sums w') ! n = samples (\<lambda>k. f n k + total (chan_at w) n is k))"
  using assms
proof (induction "is" arbitrary: w f)
  case Nil
  then show ?case by (simp add: all_said_def total_def members_of_def)
next
  case (Cons i js)
  let ?c = "chan_at w i"
  show ?case
  proof (cases "confmode ?c = 0")
    case True
    then have t: "total (chan_at w) n (i # js) = total (chan_at w) n js" "loudness (chan_at w) n (i # js) = loudness (chan_at w) n js" for n
      by (simp_all add: total_def loudness_def members_of_def fun_eq_iff)
    have "\<exists>w'. each_chan (conf_receive env) js w = Some w' \<and> all_said js w w' \<and>
        (\<forall>n \<in> C. sums_next (snd_sums w') ! n = samples (\<lambda>k. f n k + total (chan_at w) n js k))"
      using Cons.prems(1,2,3,4) by (intro Cons.IH) (auto simp: t)
    moreover have "conf_receive env i w = Some w" using True by (simp add: conf_receive_def)
    ultimately show ?thesis using True by (auto simp: t all_said_def)
  next
    case False
    define n where "n = nat (confn ?c)"
    have c: "conf_member i ?c" "n \<in> C" using Cons.prems(2) [of i] False by (simp_all add: n_def)
    have t: "total (chan_at w) m (i # js) k = (if m = n then said ?c k else 0) + total (chan_at w) m js k"
      "loudness (chan_at w) m (i # js) k = (if m = n then \<bar>said ?c k\<bar> else 0) + loudness (chan_at w) m js k" for m k
      using False by (simp_all add: total_def loudness_def members_of_def n_def)
    have small: "\<bar>f n k\<bar> + \<bar>said ?c k\<bar> \<le> 32767" if "k < DAHDI_CHUNKSIZE" for k
      using Cons.prems(4) [OF c(2) that] loudness_nonneg [of "chan_at w" n js k] by (simp add: t)
    obtain d where d: "conf_receive env i w = Some (put_chan i d (add_row n (samples (\<lambda>k. f n k + said ?c k)) w))"
        "has_said i ?c d"
      using conf_receive_member [OF c(1), where f = "f n" and env = env] Cons.prems(3) [OF c(2)] small
      unfolding n_def [symmetric] by blast
    let ?w = "put_chan i d (add_row n (samples (\<lambda>k. f n k + said ?c k)) w)"
    define g where "g = f(n := \<lambda>k. f n k + said ?c k)"
    have at: "chan_at ?w j = chan_at w j" if "j \<noteq> i" for j using that by (simp add: put_chan_def add_row_def)
    have js: "total (chan_at ?w) m js = total (chan_at w) m js \<and> loudness (chan_at ?w) m js = loudness (chan_at w) m js" for m
      using Cons.prems(1) by (intro total_cong at) auto
    have row: "m < length (sums_next (snd_sums ?w)) \<and> sums_next (snd_sums ?w) ! m = samples (g m)" if "m \<in> C" for m
      using Cons.prems(3) [OF that] by (simp add: put_chan_def add_row_def g_def nth_list_update)
    have loud: "\<bar>g m k\<bar> + loudness (chan_at ?w) m js k \<le> 32767" if "m \<in> C" "k < DAHDI_CHUNKSIZE" for m k
      using Cons.prems(4) [OF that] js [of m] by (simp add: g_def t split: if_splits)
    have mem: "confmode (chan_at ?w j) = 0 \<or> conf_member j (chan_at ?w j) \<and> nat (confn (chan_at ?w j)) \<in> C" if "j \<in> set js" for j
    proof -
      have "j \<noteq> i" using that Cons.prems(1) by auto
      with Cons.prems(2) [of j] that at show ?thesis by simp
    qed
    have dj: "distinct js" using Cons.prems(1) by simp
    obtain w' where w': "each_chan (conf_receive env) js ?w = Some w'" "all_said js ?w w'"
        "\<forall>m \<in> C. sums_next (snd_sums w') ! m = samples (\<lambda>k. g m k + total (chan_at ?w) m js k)"
      using Cons.IH [OF dj mem row loud] by blast
    have "each_chan (conf_receive env) (i # js) w = Some w'" using d(1) w'(1) by simp
    moreover have "all_said (i # js) w w'"
    proof -
      have ii: "i \<notin> set js" using Cons.prems(1) by simp
      have o: "snd_spans ?w = snd_spans w" "snd_pseudos ?w = snd_pseudos w" "snd_maxconfs ?w = snd_maxconfs w" "chan_at ?w i = d"
        by (simp_all add: put_chan_def add_row_def)
      have "if j \<in> set (i # js) \<and> confmode (chan_at w j) \<noteq> 0 then has_said j (chan_at w j) (chan_at w' j) else chan_at w' j = chan_at w j" for j
      proof (cases "j = i")
        case True
        with w'(2) ii o(4) d(2) False show ?thesis by (simp add: all_said_def)
      next
        case ne: False
        with w'(2) [unfolded all_said_def, THEN conjunct1, rule_format, of j] show ?thesis unfolding at [OF ne] by simp
      qed
      with w'(2) o show ?thesis by (simp add: all_said_def)
    qed
    moreover have "sums_next (snd_sums w') ! m = samples (\<lambda>k. f m k + total (chan_at w) m (i # js) k)" if "m \<in> C" for m
      using w'(3) that js [of m] by (auto simp: g_def t intro!: samples_cong)
    ultimately show ?thesis by blast
  qed
qed

section \<open>The transmit phase\<close>

lemma tx_strip_fields:
  fixes c d :: "'a chan_audio_scheme"
  assumes "tx_strip d = tx_strip c"
  shows "master d = master c" "confmode d = confmode c" "confn d = confn c" "confmute d = confmute c" "chan_span d = chan_span c"
    "dialing d = dialing c" "txgain d = txgain c"
    "ec_state d = ec_state c" "v1_1 d = v1_1 c" "v2_1 d = v2_1 c" "v3_1 d = v3_1 c"
    "xlaw d = xlaw c" "confin d = confin c" "confout d = confout c" "conflast d = conflast c"
proof -
  note e = arg_cong [OF assms]
  show "master d = master c" "confmode d = confmode c" "confn d = confn c" "confmute d = confmute c" "chan_span d = chan_span c"
    "dialing d = dialing c" "txgain d = txgain c"
    "ec_state d = ec_state c" "v1_1 d = v1_1 c" "v2_1 d = v2_1 c" "v3_1 d = v3_1 c"
    "xlaw d = xlaw c" "confin d = confin c" "confout d = confout c" "conflast d = conflast c"
    using e [of master] e [of confmode] e [of confn] e [of confmute] e [of chan_span] e [of dialing]
      e [of txgain] e [of ec_state] e [of v1_1] e [of v2_1] e [of v3_1]
      e [of xlaw] e [of confin] e [of confout] e [of conflast]
    by (simp_all add: tx_strip_def)
qed

text \<open>Silence is the sample zero in both laws.\<close>

lemma silence_is_zero: "DAHDI_XLAW (DAHDI_LIN2X 0 l) l = 0"
proof -
  have "DAHDI_LIN2X 0 l = (case l of MULAW \<Rightarrow> 0x7f | ALAW \<Rightarrow> 0xd5)"
    by (cases l) (simp_all add: LIN2X_eq lineartoulaw_def ulaw_pack_def exp_lut_def lineartoalaw_def short_def Let_def)
  then show ?thesis
    by (simp add: XLAW_eq mulaw2linear_def etab_def alaw2linear_def Let_def short_def split: law.splits)
qed

lemma linear_silence: "xlaw d = xlaw c \<Longrightarrow> linear d (silence c) = samples (\<lambda>_. 0)"
  by (simp add: linear_def silence_def silence_is_zero flip: no_samples_alt) (simp add: no_samples_def)

lemma tx_confmon_member:
  assumes "conflast c = samples g" and "sums_cur s ! nat (confn c) = samples f"
    and "\<And>k. k < DAHDI_CHUNKSIZE \<Longrightarrow> \<bar>g k\<bar> \<le> 32767 \<and> \<bar>f k - g k\<bar> \<le> 32767"
  shows "tx_confmon (samples (\<lambda>_. 0)) c s = (let lin = samples (\<lambda>k. if is_conf_flag CONF_LISTENER c then f k - g k else 0) in (lin, companded c lin))"
proof (cases "is_conf_flag CONF_LISTENER c")
  case True
  with assms(1,2) listen_exact [of "\<lambda>_. 0" g f] assms(3) show ?thesis by (simp add: tx_confmon_def)
qed (simp add: tx_confmon_def)

lemma getaudio_member:
  assumes m: "conf_member i c" and d: "tx_strip d = tx_strip c" and at: "chan_at w i = d" 
    and g: "conflast c = samples g" and f: "sums_cur (snd_sums w) ! nat (confn c) = samples f"
    and small: "\<And>k. k < DAHDI_CHUNKSIZE \<Longrightarrow> \<bar>g k\<bar> \<le> 32767 \<and> \<bar>f k - g k\<bar> \<le> 32767"
  obtains e where "getaudio i (silence c) w = Some (companded c (samples (\<lambda>k. if is_conf_flag CONF_LISTENER c then f k - g k else 0)), put_chan i e w)"
    and "confin e = confin c" and "confout e = confout c" and "confmode e = confmode c"
proof -
  note fd = tx_strip_fields [OF d]
  let ?lin = "samples (\<lambda>k. if is_conf_flag CONF_LISTENER c then f k - g k else 0)"
  have p: "master d = i" "confmute d = 0" "\<not> dialing d" "conf_kind d = CONF_CONF" "\<not> is_pseudo_chan d" "ec_state d = None"
      "txgain d = None" "v1_1 d = 0" "v2_1 d = 0" "v3_1 d = 0"
    using m fd by (simp_all add: conf_member_def conf_kind_def is_pseudo_chan_def)
  have lc: "is_conf_flag CONF_LISTENER d = is_conf_flag CONF_LISTENER c" "companded d = companded c"
    using fd by (simp_all add: is_conf_flag_def companded_def fun_eq_iff)
  have tc: "tx_ced (linear d (silence c)) d = d" using p by (simp add: tx_ced_def)
  have cm: "tx_confmon (samples (\<lambda>_. 0)) d (snd_sums w) = (?lin, companded c ?lin)"
    using tx_confmon_member [of d g "snd_sums w" f] g f small fd by (simp add: lc Let_def)
  have gm: "getaudio_mode peer (samples (\<lambda>_. 0)) (silence c) d (snd_sums w) = Some (?lin, companded c ?lin, d, snd_sums w)" for peer
    unfolding getaudio_mode_def p Let_def by (simp add: is_monitor_def tx_conf_def p cm)
  have fin: "tx_finish ?lin (companded c ?lin) d = (companded c ?lin, d\<lparr>getlin := ?lin, getraw := companded c ?lin\<rparr>)"
    using p by (simp add: tx_finish_def tx_mute_def gain_chunk_def)
  have ls: "linear d (silence c) = samples (\<lambda>_. 0)" using fd by (intro linear_silence) simp
  have "getaudio i (silence c) w = Some (companded c ?lin, put_chan i (d\<lparr>getlin := ?lin, getraw := companded c ?lin\<rparr>) w)"
    unfolding getaudio_def Let_def at p(1) tc
    by (simp add: put_chan_def ls p gm fin)
  then show thesis by (rule that) (use fd in simp_all)
qed

text \<open>Filling the free slot and pushing without data is a push of the chunk.\<close>

lemma push_in_place:
  assumes "0 \<le> cq_inbuf q" and "length d = DAHDI_CHUNKSIZE"
  shows "buf_push (q\<lparr>cq_buf := (cq_buf q)[nat (cq_inbuf q) := d]\<rparr>) None = buf_push q (Some d)"
  using assms by (simp add: buf_push_def Let_def)

lemma conf_transmit_member:
  assumes m: "conf_member i (chan_at w i)" and room: "length (chunks (confout (chan_at w i))) < 8" and fuel: "env_fuel env \<noteq> 0"
    and g: "conflast (chan_at w i) = samples g" and f: "sums_cur (snd_sums w) ! nat (confn (chan_at w i)) = samples f"
    and small: "\<And>k. k < DAHDI_CHUNKSIZE \<Longrightarrow> \<bar>g k\<bar> \<le> 32767 \<and> \<bar>f k - g k\<bar> \<le> 32767"
  obtains e where "conf_transmit env i w = Some (put_chan i e w)" and "confin e = confin (chan_at w i)"
    and "chunks (confout e) = chunks (confout (chan_at w i)) @
      [companded (chan_at w i) (samples (\<lambda>k. if is_conf_flag CONF_LISTENER (chan_at w i) then f k - g k else 0))]"
proof -
  let ?c = "chan_at w i" let ?q = "confout ?c" let ?d = "tx_underrun_flag True ?c"
  let ?out = "companded ?c (samples (\<lambda>k. if is_conf_flag CONF_LISTENER ?c then f k - g k else 0))"
  have q: "cq_inv ?q" and idle: "outwritebuf ?c < 0" "tone_of ?c = None" "{FLAG_HDLC, FLAG_LOOPED} \<inter> chan_flags ?c = {}"
      "FLAG_AUDIO \<in> chan_flags ?c \<or> FLAG_CLEAR \<notin> chan_flags ?c" "master ?c = i" "wants_audio ?c"
    using m conf_member_confmode [OF m] by (auto simp: conf_member_def tone_of_def wants_audio_def)
  obtain fu where fu: "env_fuel env = Suc fu" using fuel by (cases "env_fuel env") auto
  have gb: "getbuf_chunk (env_fuel env) (env_tones env) ?c = Some (silence ?c, ?d)"
    unfolding fu silence_def by (rule getbuf_chunk_idle [OF idle(1-4)])
  have s: "tx_strip ?d = tx_strip ?c" by (rule tx_underrun_strip)
  have wd: "wants_audio ?d" using tx_strip_fields(2) [OF s] conf_member_confmode [OF m] by (simp add: wants_audio_def)
  obtain e where e: "getaudio i (silence ?c) (put_chan i ?d w) = Some (?out, put_chan i e (put_chan i ?d w))"
      "confin e = confin ?c" "confout e = ?q" "confmode e = confmode ?c"
    using getaudio_member [OF m s, of "put_chan i ?d w" g f] g f small by (auto simp: put_chan_def)
  have inb: "0 \<le> cq_inbuf ?q"
    using room ring_room_iff [of 8 "cq_inbuf ?q" "cq_outbuf ?q"] q by (simp add: chunks_def cq_inv_def)
  have len: "length ?out = DAHDI_CHUNKSIZE" by (simp add: companded_def samples_def)
  have tc: "transmit_chunk env i w = Some (?out, put_chan i e w)"
    unfolding transmit_chunk_def Let_def idle(5) gb by (simp add: put_chan_def wd e(1) [unfolded put_chan_def])
  have "conf_transmit env i w = Some (put_chan i (e\<lparr>confout := snd (buf_push ?q (Some ?out))\<rparr>) w)"
    unfolding conf_transmit_def Let_def tc push_in_place [OF inb len, symmetric] using inb conf_member_confmode [OF m] e(3)
    by (simp add: buf_pushpeek_def put_chan_def)
  moreover have "chunks (snd (buf_push ?q (Some ?out))) = chunks ?q @ [?out]"
    using buf_push_refines [OF q len] room by simp
  ultimately show thesis by (intro that [of "e\<lparr>confout := snd (buf_push ?q (Some ?out))\<rparr>"]) (simp_all add: e(2))
qed

lemma transmit_phase:
  assumes "distinct is" and "env_fuel env \<noteq> 0"
    and "\<And>i. i \<in> set is \<Longrightarrow> confmode (chan_at w i) = 0 \<or> conf_member i (chan_at w i) \<and> length (chunks (confout (chan_at w i))) < 8 \<and>
      conflast (chan_at w i) = samples (g i) \<and> sums_cur (snd_sums w) ! nat (confn (chan_at w i)) = samples (f (nat (confn (chan_at w i)))) \<and>
      (\<forall>k < DAHDI_CHUNKSIZE. \<bar>g i k\<bar> \<le> 32767 \<and> \<bar>f (nat (confn (chan_at w i))) k - g i k\<bar> \<le> 32767)"
  shows "\<exists>w'. each_chan (conf_transmit env) is w = Some w' \<and>
    (\<forall>i. if i \<in> set is \<and> confmode (chan_at w i) \<noteq> 0 then confin (chan_at w' i) = confin (chan_at w i) \<and>
        chunks (confout (chan_at w' i)) = chunks (confout (chan_at w i)) @ [companded (chan_at w i)
          (samples (\<lambda>k. if is_conf_flag CONF_LISTENER (chan_at w i) then f (nat (confn (chan_at w i))) k - g i k else 0))]
      else chan_at w' i = chan_at w i)"
  using assms
proof (induction "is" arbitrary: w)
  case Nil
  then show ?case by simp
next
  case (Cons i js)
  let ?c = "chan_at w i"
  show ?case
  proof (cases "confmode ?c = 0")
    case True
    then have "conf_transmit env i w = Some w" by (simp add: conf_transmit_def)
    moreover obtain w' where "each_chan (conf_transmit env) js w = Some w'" and
      "\<forall>i. if i \<in> set js \<and> confmode (chan_at w i) \<noteq> 0 then confin (chan_at w' i) = confin (chan_at w i) \<and>
        chunks (confout (chan_at w' i)) = chunks (confout (chan_at w i)) @ [companded (chan_at w i)
          (samples (\<lambda>k. if is_conf_flag CONF_LISTENER (chan_at w i) then f (nat (confn (chan_at w i))) k - g i k else 0))]
      else chan_at w' i = chan_at w i"
      using Cons.IH [of w] Cons.prems by auto
    ultimately show ?thesis using True by (intro exI [of _ w']) (auto split: if_splits)
  next
    case False
    have c: "conf_member i ?c" "length (chunks (confout ?c)) < 8" "conflast ?c = samples (g i)"
        "sums_cur (snd_sums w) ! nat (confn ?c) = samples (f (nat (confn ?c)))"
        "\<And>k. k < DAHDI_CHUNKSIZE \<Longrightarrow> \<bar>g i k\<bar> \<le> 32767 \<and> \<bar>f (nat (confn ?c)) k - g i k\<bar> \<le> 32767"
      using Cons.prems(3) [of i] False by simp_all
    obtain e where e: "conf_transmit env i w = Some (put_chan i e w)" "confin e = confin ?c"
        "chunks (confout e) = chunks (confout ?c) @ [companded ?c (samples (\<lambda>k. if is_conf_flag CONF_LISTENER ?c then f (nat (confn ?c)) k - g i k else 0))]"
      using conf_transmit_member [OF c(1,2) Cons.prems(2) c(3,4)] c(5) by blast
    let ?w = "put_chan i e w"
    have at: "chan_at ?w j = chan_at w j" if "j \<noteq> i" for j using that by (simp add: put_chan_def)
    have s: "snd_sums ?w = snd_sums w" "chan_at ?w i = e" by (simp_all add: put_chan_def)
    have ne: "j \<noteq> i" if "j \<in> set js" for j using that Cons.prems(1) by auto
    have dj: "distinct js" using Cons.prems(1) by simp
    obtain w' where w': "each_chan (conf_transmit env) js ?w = Some w'"
      "\<forall>i. if i \<in> set js \<and> confmode (chan_at ?w i) \<noteq> 0 then confin (chan_at w' i) = confin (chan_at ?w i) \<and>
        chunks (confout (chan_at w' i)) = chunks (confout (chan_at ?w i)) @ [companded (chan_at ?w i)
          (samples (\<lambda>k. if is_conf_flag CONF_LISTENER (chan_at ?w i) then f (nat (confn (chan_at ?w i))) k - g i k else 0))]
      else chan_at w' i = chan_at ?w i"
    proof -
      have "\<exists>w'. each_chan (conf_transmit env) js ?w = Some w' \<and>
        (\<forall>i. if i \<in> set js \<and> confmode (chan_at ?w i) \<noteq> 0 then confin (chan_at w' i) = confin (chan_at ?w i) \<and>
        chunks (confout (chan_at w' i)) = chunks (confout (chan_at ?w i)) @ [companded (chan_at ?w i)
          (samples (\<lambda>k. if is_conf_flag CONF_LISTENER (chan_at ?w i) then f (nat (confn (chan_at ?w i))) k - g i k else 0))]
        else chan_at w' i = chan_at ?w i)"
      proof (rule Cons.IH [OF dj Cons.prems(2)])
        fix j assume j: "j \<in> set js"
        show "confmode (chan_at ?w j) = 0 \<or> conf_member j (chan_at ?w j) \<and> length (chunks (confout (chan_at ?w j))) < 8 \<and>
          conflast (chan_at ?w j) = samples (g j) \<and> sums_cur (snd_sums ?w) ! nat (confn (chan_at ?w j)) = samples (f (nat (confn (chan_at ?w j)))) \<and>
          (\<forall>k < DAHDI_CHUNKSIZE. \<bar>g j k\<bar> \<le> 32767 \<and> \<bar>f (nat (confn (chan_at ?w j))) k - g j k\<bar> \<le> 32767)"
          unfolding at [OF ne [OF j]] s using Cons.prems(3) [of j] j by simp
      qed
      then show thesis using that by blast
    qed
    have "each_chan (conf_transmit env) (i # js) w = Some w'" using e(1) w'(1) by simp
    moreover have "if j \<in> set (i # js) \<and> confmode (chan_at w j) \<noteq> 0 then confin (chan_at w' j) = confin (chan_at w j) \<and>
        chunks (confout (chan_at w' j)) = chunks (confout (chan_at w j)) @ [companded (chan_at w j)
          (samples (\<lambda>k. if is_conf_flag CONF_LISTENER (chan_at w j) then f (nat (confn (chan_at w j))) k - g j k else 0))]
      else chan_at w' j = chan_at w j" for j
    proof (cases "j = i")
      case True
      with ne have "j \<notin> set js" by blast
      then have "chan_at w' i = e" using True w'(2) s(2) by (metis (no_types))
      then show ?thesis unfolding True using False e(2,3) by simp
    next
      case j: False
      with w'(2) [rule_format, of j] show ?thesis unfolding at [OF j] by simp
    qed
    ultimately show ?thesis by blast
  qed
qed

section \<open>Conferences\<close>

text \<open>What the other members of the conference of \<open>i\<close> say.\<close>

definition others_say :: "(int \<Rightarrow> 'a chan_audio_scheme) \<Rightarrow> int list \<Rightarrow> int \<Rightarrow> nat \<Rightarrow> int" where
  "others_say cs is i k = (\<Sum>j\<leftarrow>filter (\<lambda>j. j \<noteq> i) (members_of cs (nat (confn (cs i))) is). said (cs j) k)"

lemma sum_list_others: "distinct xs \<Longrightarrow> i \<in> set xs \<Longrightarrow> sum_list (map h xs) = h i + sum_list (map h (filter (\<lambda>j. j \<noteq> i) xs))"
  for h :: "int \<Rightarrow> int"
proof (induction xs)
  case (Cons x xs)
  have "filter (\<lambda>j. j \<noteq> x) xs = xs" if "x \<notin> set xs" using that by (auto simp: filter_id_conv)
  with Cons show ?case by (cases "x = i") auto
qed simp

lemma others_say_total:
  assumes "distinct is" and "i \<in> set is" and "confmode (cs i) \<noteq> 0"
  shows "total cs (nat (confn (cs i))) is k - said (cs i) k = others_say cs is i k"
    and "\<bar>said (cs i) k\<bar> + \<bar>others_say cs is i k\<bar> \<le> loudness cs (nat (confn (cs i))) is k"
proof -
  let ?m = "members_of cs (nat (confn (cs i))) is"
  have m: "distinct ?m" "i \<in> set ?m" using assms by (simp_all add: members_of_def)
  show "total cs (nat (confn (cs i))) is k - said (cs i) k = others_say cs is i k"
    using sum_list_others [OF m, of "\<lambda>j. said (cs j) k"] by (simp add: total_def others_say_def)
  have "\<bar>sum_list (map h xs)\<bar> \<le> sum_list (map (\<lambda>j. \<bar>h j\<bar>) xs)" for h :: "int \<Rightarrow> int" and xs
    by (induction xs) auto
  then show "\<bar>said (cs i) k\<bar> + \<bar>others_say cs is i k\<bar> \<le> loudness cs (nat (confn (cs i))) is k"
    using sum_list_others [OF m, of "\<lambda>j. \<bar>said (cs j) k\<bar>"] by (simp add: loudness_def others_say_def)
qed

text \<open>C2. Everybody hears everybody else: one run of the conference processing takes a chunk from each
  member of each conference, and every listener is sent the sum of what the other members of its
  conference said, exactly, as long as the sum of all amplitudes fits a sample; the members of
  other conferences and one's own voice are not heard.\<close>

theorem conference_mix:
  assumes "distinct (concat (snd_spans w))" and "snd_pseudos w = []" and "env_fuel env \<noteq> 0"
    and "\<forall>i \<in> set (concat (snd_spans w)). confmode (chan_at w i) = 0 \<or>
      conf_member i (chan_at w i) \<and> length (chunks (confout (chan_at w i))) < 8 \<and>
      nat (confn (chan_at w i)) < length (sums_next (snd_sums w)) \<and>
      sums_next (snd_sums w) ! nat (confn (chan_at w i)) = no_samples"
    and "\<forall>n. \<forall>k < DAHDI_CHUNKSIZE. loudness (chan_at w) n (concat (snd_spans w)) k \<le> 32767"
  shows "\<exists>w'. process_masterspan env w = Some w' \<and>
    (\<forall>i \<in> set (concat (snd_spans w)). confmode (chan_at w i) \<noteq> 0 \<longrightarrow>
       chunks (confin (chan_at w' i)) = tl (chunks (confin (chan_at w i))) \<and>
       chunks (confout (chan_at w' i)) = chunks (confout (chan_at w i)) @ [companded (chan_at w i)
         (samples (\<lambda>k. if is_conf_flag CONF_LISTENER (chan_at w i) then others_say (chan_at w) (concat (snd_spans w)) i k else 0))])"
proof -
  let ?is = "concat (snd_spans w)" and ?cs = "chan_at w"
  let ?w = "w\<lparr>snd_timers := process_timers (snd_timers w)\<rparr>"
  define C where "C = (\<lambda>i. nat (confn (?cs i))) ` {i \<in> set ?is. confmode (?cs i) \<noteq> 0}"
  have wc: "chan_at ?w = ?cs" "snd_sums ?w = snd_sums w" by simp_all
  have mem: "confmode (chan_at ?w i) = 0 \<or> conf_member i (chan_at ?w i) \<and> nat (confn (chan_at ?w i)) \<in> C" if "i \<in> set ?is" for i
    using assms(4) that by (auto simp: C_def)
  have row: "n < length (sums_next (snd_sums ?w)) \<and> sums_next (snd_sums ?w) ! n = samples (\<lambda>_. 0)" if "n \<in> C" for n
    using assms(4) that by (auto simp: C_def no_samples_alt)
  have loud: "\<bar>0\<bar> + loudness (chan_at ?w) n ?is k \<le> 32767" if "n \<in> C" "k < DAHDI_CHUNKSIZE" for n k
    using assms(5) that by simp
  obtain w1 where w1: "each_chan (conf_receive env) ?is ?w = Some w1" "all_said ?is ?w w1"
      "\<forall>n \<in> C. sums_next (snd_sums w1) ! n = samples (\<lambda>k. 0 + total (chan_at ?w) n ?is k)"
    using receive_phase [OF assms(1) mem row loud, of env] by blast
  let ?r = "rotate_sums w1"
  have r: "chan_at ?r = chan_at w1" "sums_cur (snd_sums ?r) = sums_next (snd_sums w1)" "snd_pseudos ?r = []" "snd_pseudos w1 = []"
    using w1(2) assms(2) by (simp_all add: rotate_sums_def Let_def all_said_def)
  have at1: "if j \<in> set ?is \<and> confmode (?cs j) \<noteq> 0 then has_said j (?cs j) (chan_at ?r j) else chan_at ?r j = ?cs j" for j
    using w1(2) unfolding all_said_def r(1) wc by blast
  have tr: "confmode (chan_at ?r i) = 0 \<or> conf_member i (chan_at ?r i) \<and> length (chunks (confout (chan_at ?r i))) < 8 \<and>
      conflast (chan_at ?r i) = samples (said (?cs i)) \<and>
      sums_cur (snd_sums ?r) ! nat (confn (chan_at ?r i)) = samples (total ?cs (nat (confn (chan_at ?r i))) ?is) \<and>
      (\<forall>k < DAHDI_CHUNKSIZE. \<bar>said (?cs i) k\<bar> \<le> 32767 \<and> \<bar>total ?cs (nat (confn (chan_at ?r i))) ?is k - said (?cs i) k\<bar> \<le> 32767)"
    if i: "i \<in> set ?is" for i
  proof (cases "confmode (?cs i) = 0")
    case True
    with at1 [of i] show ?thesis by simp
  next
    case False
    with at1 [of i] i have h: "has_said i (?cs i) (chan_at ?r i)" by simp
    have "nat (confn (?cs i)) \<in> C" using i False by (auto simp: C_def)
    then have "sums_next (snd_sums w1) ! nat (confn (?cs i)) = samples (total ?cs (nat (confn (?cs i))) ?is)" using w1(3) by simp
    moreover have "\<bar>said (?cs i) k\<bar> \<le> 32767 \<and> \<bar>total ?cs (nat (confn (?cs i))) ?is k - said (?cs i) k\<bar> \<le> 32767" if "k < DAHDI_CHUNKSIZE" for k
      using others_say_total [of "?is" i ?cs k, OF assms(1) i False] assms(5) that by (smt (verit))
    ultimately show ?thesis using h bspec [OF assms(4) i] False unfolding has_said_def r(2) by simp
  qed
  obtain w' where w': "each_chan (conf_transmit env) ?is ?r = Some w'"
    "\<forall>i. if i \<in> set ?is \<and> confmode (chan_at ?r i) \<noteq> 0 then confin (chan_at w' i) = confin (chan_at ?r i) \<and>
        chunks (confout (chan_at w' i)) = chunks (confout (chan_at ?r i)) @ [companded (chan_at ?r i)
          (samples (\<lambda>k. if is_conf_flag CONF_LISTENER (chan_at ?r i) then total ?cs (nat (confn (chan_at ?r i))) ?is k - said (?cs i) k else 0))]
      else chan_at w' i = chan_at ?r i"
    using transmit_phase [OF assms(1,3) tr] by blast
  have "process_masterspan env w = Some w'"
    using w1(1) w'(1) r(3,4) by (simp add: process_masterspan_def Let_def)
  moreover have "chunks (confin (chan_at w' i)) = tl (chunks (confin (?cs i))) \<and>
       chunks (confout (chan_at w' i)) = chunks (confout (?cs i)) @ [companded (?cs i)
         (samples (\<lambda>k. if is_conf_flag CONF_LISTENER (?cs i) then others_say ?cs ?is i k else 0))]"
    if i: "i \<in> set ?is" and m: "confmode (?cs i) \<noteq> 0" for i
  proof -
    have h: "has_said i (?cs i) (chan_at ?r i)" using at1 [of i] i m by simp
    then have "confmode (chan_at ?r i) \<noteq> 0" "companded (chan_at ?r i) = companded (?cs i)"
        "is_conf_flag CONF_LISTENER (chan_at ?r i) = is_conf_flag CONF_LISTENER (?cs i)" "confn (chan_at ?r i) = confn (?cs i)"
        "confout (chan_at ?r i) = confout (?cs i)" "chunks (confin (chan_at ?r i)) = tl (chunks (confin (?cs i)))"
      using m h by (simp_all add: has_said_def companded_def is_conf_flag_def fun_eq_iff)
    note e = this(2-6)
    have "confin (chan_at w' i) = confin (chan_at ?r i)"
      "chunks (confout (chan_at w' i)) = chunks (confout (chan_at ?r i)) @ [companded (chan_at ?r i)
          (samples (\<lambda>k. if is_conf_flag CONF_LISTENER (chan_at ?r i) then total ?cs (nat (confn (chan_at ?r i))) ?is k - said (?cs i) k else 0))]"
      using w'(2) [rule_format, of i] i \<open>confmode (chan_at ?r i) \<noteq> 0\<close> by simp_all
    then show ?thesis unfolding e others_say_total(1) [of "?is" i ?cs, OF assms(1) i m] by (simp add: e)
  qed
  ultimately show ?thesis by blast
qed

section \<open>An example\<close>

text \<open>Two channels in conference 1: the first talks at full volume, the second listens.\<close>

definition mix_demo_chan :: "int \<Rightarrow> int \<Rightarrow> confq \<Rightarrow> chan_audio" where
  "mix_demo_chan i m q = (chan_echo.extend (chan_buf.extend (rx_demo {FLAG_AUDIO})
       \<lparr>ec_state = None, ec_current = None, ec_factory = None, preec = no_samples\<rparr>)
     \<lparr>master = i, nextslave = None, getlin = no_samples, getraw = replicate 8 0, putlin = no_samples, putraw = replicate 8 0,
      rxp1 = 0, rxp2 = 0, rxp3 = 0, rd = \<lparr>sf_x1 = 0, sf_x2 = 0, sf_y1 = 0, sf_y2 = 0, sf_e1 = 0, sf_e2 = 0, sf_samps = 0, sf_lastdetect = 0\<rparr>\<rparr>)
     \<lparr>outwritebuf := -1, chan_span := Some hook_span, confmode := m, confn := 1, confin := q, confout := empty_confq\<rparr>"

lemma mix_demo_sel:
  "master (mix_demo_chan i m q) = i" "confmode (mix_demo_chan i m q) = m" "confn (mix_demo_chan i m q) = 1"
  "confin (mix_demo_chan i m q) = q" "confout (mix_demo_chan i m q) = empty_confq" "xlaw (mix_demo_chan i m q) = MULAW"
  "is_pseudo_chan (mix_demo_chan i m q) \<longleftrightarrow> False" "chan_flags (mix_demo_chan i m q) = {FLAG_AUDIO}"
  "confmute (mix_demo_chan i m q) = 0" "dialing (mix_demo_chan i m q) = False" "afterdialingtimer (mix_demo_chan i m q) = 0"
  "rxgain (mix_demo_chan i m q) = None" "txgain (mix_demo_chan i m q) = None" "ec_state (mix_demo_chan i m q) = None"
  "rxp1 (mix_demo_chan i m q) = 0" "v1_1 (mix_demo_chan i m q) = 0" "v2_1 (mix_demo_chan i m q) = 0" "v3_1 (mix_demo_chan i m q) = 0"
  "curtone (mix_demo_chan i m q) = None" "outwritebuf (mix_demo_chan i m q) = -1"
  by (simp_all add: mix_demo_chan_def chan_echo.extend_def chan_buf.extend_def rx_demo_def reallocbufs_def buf_demo_chan_def
      chan_tone.extend_def tone_demo_chan_def chan_rbs.extend_def rbs_demo_chan_def is_pseudo_chan_def Let_def)

lemma mix_demo_rx: "rx_inv (mix_demo_chan i m q)"
proof -
  have "rx_same (rx_demo {FLAG_AUDIO}) (chan_buf.truncate (mix_demo_chan i m q))"
    by (simp add: rx_same_def chan_buf.truncate_def mix_demo_chan_def chan_echo.extend_def chan_buf.extend_def)
  then have "rx_inv (chan_buf.truncate (mix_demo_chan i m q))"
    using rx_same_views(3) rx_demo_ok by blast
  then show ?thesis
    by (simp add: rx_inv_def rx_ok_def rx_slot_ok_def rx_idx_def chan_buf.truncate_def)
qed

lemma mix_demo_member:
  "cq_inv q \<Longrightarrow> m AND CONF_MODE_MASK = CONF_CONF \<Longrightarrow> conf_member i (mix_demo_chan i m q)"
  by (simp add: conf_member_def conf_kind_def mix_demo_sel mix_demo_rx)
    (simp add: cq_inv_def empty_confq_def ring_inv_def)

definition mix_demo_world :: "chan_audio sound" where
  "mix_demo_world = \<lparr>chan_at = (\<lambda>i. if i = 1 then mix_demo_chan 1 0x204 (push_all [replicate 8 0x80] empty_confq)
       else mix_demo_chan i 0x104 empty_confq),
     snd_sums = \<lparr>sums_prev = replicate 4 no_samples, sums_cur = replicate 4 no_samples, sums_next = replicate 4 no_samples\<rparr>,
     snd_spans = [[1], [2]], snd_pseudos = [], snd_maxconfs = 2, snd_timers = \<lparr>timer_at = (\<lambda>_. None), timer_list = []\<rparr>\<rparr>"

lemma mix_demo_queues: "cq_inv (push_all [replicate 8 0x80] empty_confq)" "chunks (push_all [replicate 8 0x80] empty_confq) = [replicate 8 0x80]"
  "cq_inv empty_confq" "chunks empty_confq = []"
proof -
  show e: "cq_inv empty_confq" "chunks empty_confq = []"
    by (simp_all add: cq_inv_def chunks_def empty_confq_def ring_inv_def)
  show "cq_inv (push_all [replicate 8 0x80] empty_confq)" "chunks (push_all [replicate 8 0x80] empty_confq) = [replicate 8 0x80]"
    using buf_push_refines [OF e(1), of "replicate 8 0x80"] e(2) by (simp_all add: push_all_def)
qed

lemma mix_demo_said: "said (mix_demo_chan i m q) k = (if m AND CONF_TALKER \<noteq> 0 then linear (mix_demo_chan i m q) (heard_chunk (mix_demo_chan i m q)) ! k else 0)"
  by (simp add: said_in_def is_conf_flag_def mix_demo_sel)

theorem conference_mix_witness:
  "\<exists>w'. process_masterspan \<lparr>env_fcs = \<lambda>f x. f, env_tones = no_zones, env_fuel = 1\<rparr> mix_demo_world = Some w' \<and>
     chunks (confout (chan_at w' 2)) = [replicate 8 0x80]"
proof -
  let ?w = mix_demo_world and ?e = "\<lparr>env_fcs = \<lambda>f x. f, env_tones = no_zones, env_fuel = 1\<rparr> :: unit sound_env"
  have at: "chan_at ?w 1 = mix_demo_chan 1 0x204 (push_all [replicate 8 0x80] empty_confq)" "chan_at ?w 2 = mix_demo_chan 2 0x104 empty_confq"
    by (simp_all add: mix_demo_world_def)
  have s1: "said (chan_at ?w 1) k = 32124" if "k < 8" for k
    unfolding at mix_demo_said using that
    by (simp add: linear_def mix_demo_sel heard_chunk_def mix_demo_queues XLAW_eq mulaw2linear_def etab_def short_def Let_def)
  have s2: "said (chan_at ?w 2) k = 0" for k by (simp add: at mix_demo_said)
  have c: "concat (snd_spans ?w) = [1, 2]" "snd_pseudos ?w = []" "sums_next (snd_sums ?w) = replicate 4 no_samples"
    by (simp_all add: mix_demo_world_def)
  have m: "members_of (chan_at ?w) n [1, 2] = (if n = 1 then [1, 2] else [])" for n
    by (auto simp: members_of_def at mix_demo_sel)
  have "\<exists>w'. process_masterspan ?e ?w = Some w' \<and>
    (\<forall>i \<in> set (concat (snd_spans ?w)). confmode (chan_at ?w i) \<noteq> 0 \<longrightarrow>
       chunks (confin (chan_at w' i)) = tl (chunks (confin (chan_at ?w i))) \<and>
       chunks (confout (chan_at w' i)) = chunks (confout (chan_at ?w i)) @ [companded (chan_at ?w i)
         (samples (\<lambda>k. if is_conf_flag CONF_LISTENER (chan_at ?w i) then others_say (chan_at ?w) (concat (snd_spans ?w)) i k else 0))])"
  proof (rule conference_mix)
    show "\<forall>i \<in> set (concat (snd_spans ?w)). confmode (chan_at ?w i) = 0 \<or>
      conf_member i (chan_at ?w i) \<and> length (chunks (confout (chan_at ?w i))) < 8 \<and>
      nat (confn (chan_at ?w i)) < length (sums_next (snd_sums ?w)) \<and>
      sums_next (snd_sums ?w) ! nat (confn (chan_at ?w i)) = no_samples"
      by (simp add: c at mix_demo_sel mix_demo_queues mix_demo_member)
    show "\<forall>n. \<forall>k < DAHDI_CHUNKSIZE. loudness (chan_at ?w) n (concat (snd_spans ?w)) k \<le> 32767"
      by (simp add: c m loudness_def s1 s2)
  qed (simp_all add: c)
  moreover have "samples (others_say (chan_at ?w) [1, 2] 2) = samples (\<lambda>_. 32124)"
    by (rule samples_cong) (simp add: others_say_def m at(2) mix_demo_sel s1)
  moreover have "DAHDI_LIN2X 32124 MULAW = 0x80"
    by (simp add: LIN2X_eq lineartoulaw_def ulaw_pack_def exp_lut_def short_def nth_append Let_def)
  then have "companded (chan_at ?w 2) (samples (\<lambda>_. 32124)) = replicate 8 0x80"
    by (simp add: companded_def samples_def at mix_demo_sel map_replicate_const)
  ultimately show ?thesis
    by (auto simp: c at(2) mix_demo_sel is_conf_flag_def mix_demo_queues)
qed

end
