(* ===== verification/HandleInv.thy ===== *)
theory HandleInv
  imports Handles AudioMix
begin

text \<open>
  The invariant of file handles through opening, releasing, adding and removing: every open channel has exactly
  one handle, and the references held on a board's module are those of its open channels.
\<close>

section \<open>Handles and references\<close>

definition handles_ok :: "chan_view list \<Rightarrow> (nat \<Rightarrow> dahdi_file option) \<Rightarrow> bool" where
  "handles_ok V F \<longleftrightarrow>
     (\<forall>(n, op, fi, s) \<in> set V. op = (fi \<noteq> None) \<and> (\<forall>i. fi = Some i \<longrightarrow> (\<exists>f. F i = Some f \<and> f_private f = Some n))) \<and>
     (\<forall>i f n. F i = Some f \<longrightarrow> f_private f = Some n \<longrightarrow> (\<exists>s. (n, True, Some i, s) \<in> set V))"

definition holds_ref :: "int \<Rightarrow> chan_view \<Rightarrow> bool" where
  "holds_ref k v \<longleftrightarrow> (case v of (n, op, fi, s) \<Rightarrow> op \<and> map_option spanno s = Some k)"

definition ref_count :: "int \<Rightarrow> chan_view list \<Rightarrow> int" where
  "ref_count k V = int (length (filter (holds_ref k) V))"

definition life_inv :: "(int \<Rightarrow> int) \<Rightarrow> 'a chan_open_scheme list \<Rightarrow> 'a chan_open_scheme dahdi_sys \<Rightarrow> bool" where
  "life_inv base gone y \<longleftrightarrow> numbering (y_world y) \<and> distinct (map channo (gone @ w_chans (y_world y))) \<and>
     handles_ok (map chan_view gone @ views y) (y_files y) \<and>
     (\<forall>k. y_owner y k = base k + ref_count k (map chan_view gone @ views y))"

lemma fst_unique: "distinct (map fst V) \<Longrightarrow> x \<in> set V \<Longrightarrow> y \<in> set V \<Longrightarrow> fst x = fst y \<Longrightarrow> x = y"
  by (metis distinct_map inj_onD)

lemma handles_okD: "handles_ok V F \<Longrightarrow> (n, op, fi, s) \<in> set V \<Longrightarrow>
    op = (fi \<noteq> None) \<and> (\<forall>i. fi = Some i \<longrightarrow> (\<exists>f. F i = Some f \<and> f_private f = Some n))"
  unfolding handles_ok_def by blast

lemma updated_in: "v \<in> set V \<Longrightarrow> (if fst v = n then u else v) \<in> set (map (\<lambda>x. if fst x = n then u else x) V)"
  unfolding set_map by (rule rev_image_eqI [of v]) simp_all

lemma ref_count_update:
  "distinct (map fst V) \<Longrightarrow> v \<in> set V \<Longrightarrow>
   ref_count k (map (\<lambda>x. if fst x = fst v then u else x) V) = ref_count k V - of_bool (holds_ref k v) + of_bool (holds_ref k u)"
proof (induction V)
  case Nil
  then show ?case by simp
next
  case (Cons x V)
  show ?case
  proof (cases "v = x")
    case True
    have "fst x \<notin> fst ` set V" using Cons.prems(1) by simp
    then have "\<forall>y \<in> set V. fst y \<noteq> fst v" unfolding True by (auto intro: rev_image_eqI)
    then have "map (\<lambda>y. if fst y = fst v then u else y) V = V" by (intro map_idI) auto
    with True show ?thesis by (simp add: ref_count_def)
  next
    case False
    then have "v \<in> set V" "fst x \<noteq> fst v" using Cons.prems by auto
    with Cons.IH Cons.prems(1) show ?thesis by (simp add: ref_count_def)
  qed
qed

lemma handles_open:
  assumes h: "handles_ok V F" and d: "distinct (map fst V)" and v: "(n, False, fi, s) \<in> set V" and i: "F i = None" and g: "f_private g = Some n"
  shows "handles_ok (map (\<lambda>x. if fst x = n then (n, True, Some i, s) else x) V) (F(i \<mapsto> g))"
proof -
  have fi: "fi = None" using handles_okD [OF h v] by simp
  have only: "x = (n, False, fi, s)" if "x \<in> set V" "fst x = n" for x
    by (rule fst_unique [OF d]) (use that v in auto)
  have a: "case x of (n, op, fi, s) \<Rightarrow> op = (fi \<noteq> None) \<and> (\<forall>j. fi = Some j \<longrightarrow> (\<exists>f. (F(i \<mapsto> g)) j = Some f \<and> f_private f = Some n))"
    if "x \<in> set (map (\<lambda>x. if fst x = n then (n, True, Some i, s) else x) V)" for x
  proof (cases "x = (n, True, Some i, s)")
    case True
    with g show ?thesis by simp
  next
    case False
    with that have "x \<in> set V" by auto
    with h have "case x of (n, op, fi, s) \<Rightarrow> op = (fi \<noteq> None) \<and> (\<forall>j. fi = Some j \<longrightarrow> (\<exists>f. F j = Some f \<and> f_private f = Some n))"
      by (simp add: handles_ok_def)
    with i show ?thesis by (auto split: if_splits)
  qed
  have b: "\<exists>t. (m, True, Some j, t) \<in> set (map (\<lambda>x. if fst x = n then (n, True, Some i, s) else x) V)"
    if j: "(F(i \<mapsto> g)) j = Some f" "f_private f = Some m" for j f m
  proof (cases "j = i")
    case True
    with j g have "m = n" by simp
    then show ?thesis using True updated_in [OF v, of n "(n, True, Some i, s)"] by auto
  next
    case False
    with j h obtain t where t: "(m, True, Some j, t) \<in> set V" unfolding handles_ok_def by fastforce
    with only fi have "m \<noteq> n" by fastforce
    with updated_in [OF t, of n "(n, True, Some i, s)"] show ?thesis by auto
  qed
  show ?thesis unfolding handles_ok_def using a b by blast
qed

lemma handles_close:
  assumes h: "handles_ok V F" and d: "distinct (map fst V)" and v: "(n, True, Some i, s) \<in> set V"
  shows "handles_ok (map (\<lambda>x. if fst x = n then (n, False, None, s) else x) V) (F(i := None))"
proof -
  have only: "x = (n, True, Some i, s)" if "x \<in> set V" "fst x = n" for x
    by (rule fst_unique [OF d]) (use that v in auto)
  obtain f where f: "F i = Some f" "f_private f = Some n" using handles_okD [OF h v] by auto
  have a: "case x of (n, op, fi, s) \<Rightarrow> op = (fi \<noteq> None) \<and> (\<forall>j. fi = Some j \<longrightarrow> (\<exists>f. (F(i := None)) j = Some f \<and> f_private f = Some n))"
    if "x \<in> set (map (\<lambda>x. if fst x = n then (n, False, None, s) else x) V)" for x
  proof (cases "x = (n, False, None, s)")
    case True
    then show ?thesis by simp
  next
    case False
    with that have x: "x \<in> set V" "fst x \<noteq> n" by (auto split: if_splits)
    with h have "case x of (n, op, fi, s) \<Rightarrow> op = (fi \<noteq> None) \<and> (\<forall>j. fi = Some j \<longrightarrow> (\<exists>f. F j = Some f \<and> f_private f = Some n))"
      by (simp add: handles_ok_def)
    with x(2) f show ?thesis by (auto split: if_splits)
  qed
  have b: "\<exists>t. (m, True, Some j, t) \<in> set (map (\<lambda>x. if fst x = n then (n, False, None, s) else x) V)"
    if j: "(F(i := None)) j = Some g" "f_private g = Some m" for j g m
  proof -
    have ji: "j \<noteq> i" "F j = Some g" using j(1) by (auto split: if_splits)
    with j h obtain t where t: "(m, True, Some j, t) \<in> set V" unfolding handles_ok_def by blast
    with only ji have "m \<noteq> n" by fastforce
    with updated_in [OF t, of n "(n, False, None, s)"] show ?thesis by auto
  qed
  show ?thesis unfolding handles_ok_def using a b by blast
qed

lemma handles_cut:
  assumes h: "handles_ok ((n, op, fi, s) # V) F" and d: "n \<notin> fst ` set V"
  shows "handles_ok V (cut_off fi F)"
proof -
  have a: "case x of (m, op, fi', s) \<Rightarrow> op = (fi' \<noteq> None) \<and> (\<forall>j. fi' = Some j \<longrightarrow> (\<exists>f. cut_off fi F j = Some f \<and> f_private f = Some m))"
    if x: "x \<in> set V" for x
  proof -
    obtain m op' fi' s' where e: "x = (m, op', fi', s')" by (metis prod_cases4)
    have "m \<noteq> n" using x d unfolding e by (auto intro: rev_image_eqI)
    have hx: "op' = (fi' \<noteq> None)" "\<forall>j. fi' = Some j \<longrightarrow> (\<exists>f. F j = Some f \<and> f_private f = Some m)"
      using handles_okD [OF h, of m op' fi' s'] x e by simp_all
    have "fi' \<noteq> Some j" if fij: "fi = Some j" for j
    proof
      assume "fi' = Some j"
      with hx(2) obtain f where "F j = Some f" "f_private f = Some m" by blast
      moreover obtain g where "F j = Some g" "f_private g = Some n" using handles_okD [OF h, of n op fi s] fij by auto
      ultimately show False using \<open>m \<noteq> n\<close> by simp
    qed
    with hx show ?thesis unfolding e cut_off_def by (auto split: option.split)
  qed
  have b: "\<exists>t. (m, True, Some j, t) \<in> set V" if j: "cut_off fi F j = Some g" "f_private g = Some m" for j g m
  proof -
    have "fi \<noteq> Some j" "F j = Some g" using j by (auto simp: cut_off_def split: option.splits if_splits)
    moreover have "\<exists>t. (m, True, Some j, t) \<in> set ((n, op, fi, s) # V)" using h j(2) calculation(2) unfolding handles_ok_def by blast
    ultimately show ?thesis by auto
  qed
  show ?thesis unfolding handles_ok_def using a b by blast
qed

text \<open>
  A channel list that gains closed channels, or whose order changes, keeps its handles and references.
\<close>

lemma handles_ok_set: "set V = set W \<Longrightarrow> handles_ok V F = handles_ok W F"
  by (simp add: handles_ok_def)

lemma ref_count_append [simp]: "ref_count k (V @ W) = ref_count k V + ref_count k W"
  by (simp add: ref_count_def)

definition closed_view :: "chan_view \<Rightarrow> bool" where
  "closed_view v \<longleftrightarrow> (case v of (n, op, fi, s) \<Rightarrow> \<not> op \<and> fi = None)"

lemma closed_view_of [simp]: "closed_view (chan_view c) \<longleftrightarrow> FLAG_OPEN \<notin> chan_flags c \<and> chan_file c = None"
  by (simp add: closed_view_def chan_view_def)

lemma ref_count_closed: "\<forall>v \<in> set V. closed_view v \<Longrightarrow> ref_count k V = 0"
  by (auto simp: ref_count_def closed_view_def holds_ref_def intro!: filter_False)

lemma handles_ok_closed:
  assumes "handles_ok V F" and "\<forall>v \<in> set C. closed_view v" and "set W = set V \<union> set C"
  shows "handles_ok W F"
  unfolding handles_ok_def
proof (intro conjI ballI allI impI)
  fix x assume "x \<in> set W"
  with assms show "case x of (n, op, fi, s) \<Rightarrow> op = (fi \<noteq> None) \<and> (\<forall>i. fi = Some i \<longrightarrow> (\<exists>f. F i = Some f \<and> f_private f = Some n))"
    by (auto simp: handles_ok_def closed_view_def)
next
  fix i f n assume "F i = Some f" "f_private f = Some n"
  with assms(1) show "\<exists>s. (n, True, Some i, s) \<in> set W" unfolding handles_ok_def assms(3) by blast
qed

lemma life_inv_insert:
  assumes inv: "life_inv base [] y" and v: "views y = A @ B" "views z = A @ C @ B" and c: "\<forall>v \<in> set C. closed_view v"
    and z: "numbering (y_world z)" "y_files z = y_files y" "y_owner z = y_owner y"
  shows "life_inv base [] z"
  using inv numbering_distinct(1) [OF z(1)] handles_ok_closed [of "views y" "y_files y" C "views z"] ref_count_closed [OF c] c z
  unfolding life_inv_def v by (auto simp: ac_simps)

lemma add_span_split: "\<exists>A B. w = A @ B \<and> add_span_to_span_list s w = A @ s # B"
proof (induction w)
  case Nil
  then show ?case by simp
next
  case (Cons t w)
  show ?case
  proof (cases "spanno t > spanno s")
    case True
    then show ?thesis by (intro exI [of _ "[]"] exI [of _ "t # w"]) simp
  next
    case False
    from Cons.IH obtain A B where "w = A @ B" "add_span_to_span_list s w = A @ s # B" by blast
    with False show ?thesis by (intro exI [of _ "t # A"] exI [of _ B]) simp
  qed
qed

lemma life_inv_add_span:
  assumes inv: "life_inv base [] y" and c: "\<forall>c \<in> set (rs_chans s). FLAG_OPEN \<notin> chan_flags c \<and> chan_file c = None"
    and z: "z = y\<lparr>y_world := (y_world y)\<lparr>w_spans := add_span_to_span_list s (w_spans (y_world y))\<rparr>\<rparr>" and n: "numbering (y_world z)"
  shows "life_inv base [] z"
proof -
  obtain A B where ab: "w_spans (y_world y) = A @ B" "add_span_to_span_list s (w_spans (y_world y)) = A @ s # B"
    using add_span_split by blast
  have w: "w_spans (y_world z) = A @ s # B" "w_pseudos (y_world z) = w_pseudos (y_world y)" "y_files z = y_files y" "y_owner z = y_owner y"
    using ab(2) by (simp_all add: z)
  show ?thesis
    by (rule life_inv_insert [OF inv, of "map chan_view (concat (map rs_chans A))"
        "map chan_view (concat (map rs_chans B) @ w_pseudos (y_world y))" _ "map chan_view (rs_chans s)"])
      (use c n in \<open>simp_all add: w ab(1) views_def w_chans_def all_channels_def\<close>)
qed

lemma slot_sorted:
  assumes "pseudos_ok ps" and "alloc_pseudo limit fresh ps = Some (c, qs)" and "length ps < 2 ^ 30"
  shows "\<exists>A B. ps = A @ B \<and> qs = A @ c # B \<and> pseudos_ok qs \<and> channo c \<notin> channo ` set ps"
proof -
  obtain m b a where sl: "pseudo_slot FIRST_PSEUDO_CHANNEL ps = (m, b, a)"
    by (cases "pseudo_slot FIRST_PSEUDO_CHANNEL ps")
  from assms(1) have so: "sorted_wrt (<) (map channo ps)" "\<forall>p \<in> set ps. FIRST_PSEUDO_CHANNEL \<le> channo p"
    by (auto simp: pseudos_ok_def)
  from pseudo_slot_gap [OF so sl] have g: "ps = b @ a" "FIRST_PSEUDO_CHANNEL \<le> m"
    "m \<le> FIRST_PSEUDO_CHANNEL + int (length ps)" "\<forall>p \<in> set b. channo p < m" "\<forall>p \<in> set a. m < channo p" by auto
  from assms(2) sl have c: "channo c = m" "qs = b @ c # a"
    by (auto simp: alloc_pseudo_def Let_def split: if_splits)
  have "pseudos_ok qs" using c g so assms by (auto simp: pseudos_ok_def sorted_wrt_append)
  with c g show ?thesis by fastforce
qed


lemma views_range: "numbering (y_world y) \<Longrightarrow> v \<in> set (views y) \<Longrightarrow> 0 \<le> fst v \<and> fst v < 2 ^ 31"
  by (auto simp: views_def chan_view_def dest: numbering_distinct(2))

lemma life_invD:
  assumes "life_inv base [] y"
  shows "numbering (y_world y)" "distinct (map fst (views y))" "handles_ok (views y) (y_files y)" "y_owner y k = base k + ref_count k (views y)"
  using assms by (simp_all add: life_inv_def views_fst)

lemma life_inv_opened:
  assumes inv: "life_inv base [] y" and o: "opened_by i f c y z" and i: "y_files y i = None"
  shows "life_inv base [] z"
proof -
  note d = life_invD [OF inv]
  from o have m: "chan_view c = (channo c, False, chan_file c, chan_span c)" "chan_view c \<in> set (views y)"
    and vz: "views z = map (\<lambda>v. if fst v = channo c then (channo c, True, Some i, chan_span c) else v) (views y)"
    and fz: "y_files z = (y_files y)(i \<mapsto> f\<lparr>f_private := Some (channo c)\<rparr>)" and nz: "numbers (y_world z) = numbers (y_world y)"
    and oz: "y_owner z = (case chan_span c of None \<Rightarrow> y_owner y | Some s \<Rightarrow> (y_owner y)(spanno s := y_owner y (spanno s) + 1))"
    by (auto simp: opened_by_def chan_view_def views_def)
  have ok: "numbering (y_world z)" using numbering_numbers [OF nz] d(1) by simp
  have h: "handles_ok (views z) (y_files z)" unfolding vz fz
    by (rule handles_open [OF d(3,2), of _ "chan_file c"]) (use m i in auto)
  have r: "y_owner z k = base k + ref_count k (views z)" for k
    using ref_count_update [OF d(2) m(2), of k "(channo c, True, Some i, chan_span c)"] d(4) [of k] m(1)
    by (auto simp: vz oz holds_ref_def split: option.split)
  from ok h r numbering_distinct(1) [OF ok] show ?thesis by (simp add: life_inv_def)
qed

lemma life_inv_released:
  assumes inv: "life_inv base [] y" and o: "closed_by i c y z" and f: "y_files y i = Some f" "f_private f = Some (channo c)"
    and x: "x = z\<lparr>y_files := (y_files z)(i := None)\<rparr>"
  shows "life_inv base [] x"
proof -
  note d = life_invD [OF inv]
  from o have m: "chan_view c \<in> set (views y)" "numbers (y_world x) = numbers (y_world y)"
    and vx: "views x = map (\<lambda>v. if fst v = channo c then (channo c, False, None, chan_span c) else v) (views y)"
    and fx: "y_files x = (y_files y)(i := None)"
    and ox: "y_owner x = (case chan_span c of None \<Rightarrow> y_owner y | Some s \<Rightarrow> (y_owner y)(spanno s := y_owner y (spanno s) - 1))"
    by (auto simp: closed_by_def x views_def)
  obtain s where s: "(channo c, True, Some i, s) \<in> set (views y)" using d(3) f unfolding handles_ok_def by blast
  have c: "chan_view c = (channo c, True, Some i, s)"
    by (rule fst_unique [OF d(2) m(1) s]) (simp add: chan_view_def)
  then have cs: "s = chan_span c" by (simp add: chan_view_def)
  have ok: "numbering (y_world x)" using numbering_numbers [OF m(2)] d(1) by simp
  have h: "handles_ok (views x) (y_files x)" unfolding vx fx
    by (rule handles_close [OF d(3,2)]) (use s cs in auto)
  have r: "y_owner x k = base k + ref_count k (views x)" for k
    using ref_count_update [OF d(2) m(1), of k "(channo c, False, None, chan_span c)"] d(4) [of k]
    by (auto simp: vx ox c cs holds_ref_def chan_view_def [of c] split: option.split)
  from ok h r numbering_distinct(1) [OF ok] show ?thesis by (simp add: life_inv_def)
qed

text \<open>Channels taken off the lists, and then removed one by one.\<close>

lemma life_inv_take_off:
  assumes inv: "life_inv base [] y" and v: "views y = A @ map chan_view C @ B" "views z = A @ B"
    and z: "numbering (y_world z)" "y_files z = y_files y" "y_owner z = y_owner y"
  shows "life_inv base C z"
proof -
  note d = life_invD [OF inv]
  have n: "map channo (w_chans (y_world y)) = map fst A @ map channo C @ map fst B"
    "map channo (w_chans (y_world z)) = map fst A @ map fst B"
    using views_fst [of y] views_fst [of z] v by (simp_all add: chan_view_def comp_def)
  have "handles_ok (map chan_view C @ views z) (y_files z)"
    using d(3) handles_ok_set [of "map chan_view C @ views z" "views y"] by (auto simp: v z)
  moreover have "distinct (map channo (C @ w_chans (y_world z)))"
    using numbering_distinct(1) [OF d(1)] unfolding n map_append by auto
  ultimately show ?thesis using z d(4) by (simp add: life_inv_def v)
qed

lemma life_inv_unreg:
  assumes inv: "life_inv base (c # cs) y" and u: "chan_unreg c y = Some (d, z)"
  shows "life_inv base cs z"
proof -
  from inv have ok: "numbering (y_world y)" and dist: "distinct (map channo ((c # cs) @ w_chans (y_world y)))"
    and h: "handles_ok (chan_view c # (map chan_view cs @ views y)) (y_files y)"
    and o: "\<And>k. y_owner y k = base k + ref_count k (chan_view c # (map chan_view cs @ views y))"
    by (simp_all add: life_inv_def)
  have out: "channo c \<notin> channo ` set (w_chans (y_world y))" using dist by simp
  from chan_unreg_effect [OF u ok out] have v: "views z = views y" and n: "numbers (y_world z) = numbers (y_world y)"
    and f: "y_files z = cut_off (chan_file c) (y_files y)"
    and oz: "y_owner z = (case chan_span c of None \<Rightarrow> y_owner y
      | Some s \<Rightarrow> if chan_file c = None then y_owner y else (y_owner y)(spanno s := y_owner y (spanno s) - 1))" by blast+
  have c: "chan_view c = (channo c, FLAG_OPEN \<in> chan_flags c, chan_file c, chan_span c)" by (simp add: chan_view_def)
  have fs: "fst ` set (map chan_view cs @ views y) = channo ` set (cs @ w_chans (y_world y))"
    by (simp add: views_def image_image image_Un chan_view_def)
  have nd: "channo c \<notin> fst ` set (map chan_view cs @ views y)" unfolding fs using dist by (simp add: image_Un)
  have op: "FLAG_OPEN \<in> chan_flags c \<longleftrightarrow> chan_file c \<noteq> None" using handles_okD [OF h, of "channo c" "FLAG_OPEN \<in> chan_flags c" "chan_file c" "chan_span c"] c by simp
  have "handles_ok (map chan_view cs @ views z) (y_files z)" unfolding v f
    by (rule handles_cut [OF h [unfolded c] nd])
  moreover have "y_owner z k = base k + ref_count k (map chan_view cs @ views z)" for k
    using o [of k] op by (auto simp: oz v c ref_count_def holds_ref_def split: option.split)
  moreover have m: "map channo (w_chans (y_world z)) = map channo (w_chans (y_world y))"
    using arg_cong [OF v, of "map fst"] by (simp add: views_fst)
  ultimately show ?thesis using dist ok numbering_numbers [OF n] by (simp add: life_inv_def)
qed

lemma life_inv_unreg_all: "life_inv base cs y \<Longrightarrow> unreg_all cs y = Some z \<Longrightarrow> life_inv base [] z"
proof (induction cs arbitrary: y)
  case Nil
  then show ?case by simp
next
  case (Cons c cs)
  then obtain d x where "chan_unreg c y = Some (d, x)" "unreg_all cs x = Some z" by (auto simp: bind_eq_Some_conv)
  with Cons life_inv_unreg show ?case by blast
qed


lemma numbered_filter: "numbered m b ss \<Longrightarrow> numbered m b (filter P ss)"
proof (induction ss arbitrary: m b)
  case Nil
  then show ?case by simp
next
  case (Cons s ss)
  then have r: "numbered (spanno s + 1) (channo (hd (rs_chans s)) + int (length (rs_chans s))) (filter P ss)" by simp
  with Cons.prems numbered_weaken [OF r, of m b] show ?case by auto
qed

lemma numbered_spannos: "numbered m b ss \<Longrightarrow> distinct (map spanno ss)"
proof (induction ss arbitrary: m b)
  case Nil
  then show ?case by simp
next
  case (Cons s ss)
  then have r: "numbered (spanno s + 1) (channo (hd (rs_chans s)) + int (length (rs_chans s))) ss" by simp
  from Cons.IH [OF r] numbered_lower [OF r] show ?case by fastforce
qed

lemma filter_out:
  "distinct (map f xs) \<Longrightarrow> s \<in> set xs \<Longrightarrow> \<exists>A B. xs = A @ s # B \<and> filter (\<lambda>t. f t \<noteq> f s) xs = A @ B"
proof (induction xs)
  case Nil
  then show ?case by simp
next
  case (Cons x xs)
  show ?case
  proof (cases "s = x")
    case True
    with Cons.prems(1) have "f x \<notin> f ` set xs" by simp
    then have "filter (\<lambda>t. f t \<noteq> f s) xs = xs" unfolding True by (intro filter_True) (auto intro: rev_image_eqI)
    with True show ?thesis by (intro exI [of _ "[]"] exI [of _ xs]) simp
  next
    case False
    with Cons.prems have "f x \<noteq> f s" "s \<in> set xs" by auto
    with Cons obtain A B where "xs = A @ s # B" "filter (\<lambda>t. f t \<noteq> f s) xs = A @ B" by auto
    with \<open>f x \<noteq> f s\<close> show ?thesis by (intro exI [of _ "x # A"] exI [of _ B]) simp
  qed
qed

lemma life_inv_remove_span:
  assumes inv: "life_inv base [] y" and s: "s \<in> set (w_spans (y_world y))" and r: "remove_span s y = Some z"
  shows "life_inv base [] z"
proof -
  let ?x = "y\<lparr>y_world := (y_world y)\<lparr>w_spans := filter (\<lambda>t. spanno t \<noteq> spanno s) (w_spans (y_world y))\<rparr>\<rparr>"
  from life_invD(1) [OF inv] obtain k where n: "numbered 1 1 (w_spans (y_world y))"
    "below k FIRST_PSEUDO_CHANNEL (w_spans (y_world y))" "pseudos_ok (w_pseudos (y_world y))" by (auto simp: numbering_def)
  obtain A B where ab: "w_spans (y_world y) = A @ s # B" "filter (\<lambda>t. spanno t \<noteq> spanno s) (w_spans (y_world y)) = A @ B"
    using filter_out [OF numbered_spannos [OF n(1)] s] by blast
  have "numbered 1 1 (A @ B)" using numbered_filter [OF n(1)] ab(2) by metis
  moreover have "below k FIRST_PSEUDO_CHANNEL (A @ B)" using n(2) by (auto simp: ab(1) below_def)
  ultimately have ok: "numbering (y_world ?x)" using n(3) by (auto simp: numbering_def ab(2))
  have "life_inv base (rs_chans s) ?x"
    by (rule life_inv_take_off [OF inv, of "map chan_view (concat (map rs_chans A))" _
        "map chan_view (concat (map rs_chans B) @ w_pseudos (y_world y))"])
      (use ok in \<open>simp_all add: ab(2) views_def w_chans_def all_channels_def, simp add: ab(1)\<close>)
  from life_inv_unreg_all [OF this] r show ?thesis by (simp add: remove_span_def)
qed

lemma life_inv_free_pseudo:
  assumes inv: "life_inv base [] y" and f: "free_pseudo n y = Some z"
  shows "life_inv base [] z"
proof -
  obtain c where c: "find (\<lambda>c. channo c = n) (w_pseudos (y_world y)) = Some c" using f by (auto simp: free_pseudo_def split: option.splits)
  then have m: "c \<in> set (w_pseudos (y_world y))" "channo c = n" by (auto simp: find_Some_iff)
  let ?x = "y\<lparr>y_world := (y_world y)\<lparr>w_pseudos := filter (\<lambda>d. channo d \<noteq> n) (w_pseudos (y_world y))\<rparr>\<rparr>"
  obtain d where u: "chan_unreg c ?x = Some (d, z)" using f c by (auto simp: free_pseudo_def Let_def)
  from life_invD(1) [OF inv] obtain k where n: "numbered 1 1 (w_spans (y_world y))"
    "below k FIRST_PSEUDO_CHANNEL (w_spans (y_world y))" and p: "pseudos_ok (w_pseudos (y_world y))" by (auto simp: numbering_def)
  have "distinct (map channo (w_pseudos (y_world y)))" using p by (simp add: pseudos_ok_def strict_sorted_iff)
  from filter_out [OF this m(1)] obtain A B where ab: "w_pseudos (y_world y) = A @ c # B"
    "filter (\<lambda>d. channo d \<noteq> n) (w_pseudos (y_world y)) = A @ B" using m(2) by auto
  have "pseudos_ok (A @ B)" using p by (auto simp: ab(1) pseudos_ok_def sorted_wrt_append)
  with n have ok: "numbering (y_world ?x)" by (auto simp: numbering_def ab(2))
  have "life_inv base [c] ?x"
    by (rule life_inv_take_off [OF inv, of "map chan_view (all_channels (w_spans (y_world y)) [] @ A)" _ "map chan_view B"])
      (use ok in \<open>simp_all add: ab(2) views_def w_chans_def all_channels_def, simp add: ab(1)\<close>)
  from life_inv_unreg [OF this u] show ?thesis .
qed

lemma life_inv_pseudo:
  assumes inv: "life_inv base [] y" and a: "alloc_pseudo limit fresh (w_pseudos (y_world y)) = Some (c, ps)" and "limit \<le> 2 ^ 30"
    and f: "chan_file fresh = None"
    and z: "z = y_put (channo c) (c\<lparr>master := channo c\<rparr>) (y\<lparr>y_world := (y_world y)\<lparr>w_pseudos := ps\<rparr>\<rparr>)"
  shows "life_inv base [] z \<and> y_files z = y_files y \<and> 0 \<le> channo c \<and> channo c < 2 ^ 31"
proof -
  let ?x = "y\<lparr>y_world := (y_world y)\<lparr>w_pseudos := ps\<rparr>\<rparr>"
  from life_invD(1) [OF inv] obtain k where n: "numbered 1 1 (w_spans (y_world y))"
    "below k FIRST_PSEUDO_CHANNEL (w_spans (y_world y))" and p: "pseudos_ok (w_pseudos (y_world y))" by (auto simp: numbering_def)
  have "length (w_pseudos (y_world y)) < 2 ^ 30" using a assms(3) by (auto simp: alloc_pseudo_def split: if_splits)
  from slot_sorted [OF p a this] obtain A B where ab: "w_pseudos (y_world y) = A @ B" "ps = A @ c # B" "pseudos_ok ps" by blast
  have c: "chan_file c = None" "FLAG_OPEN \<notin> chan_flags c" using a f by (auto simp: alloc_pseudo_def Let_def split: if_splits prod.splits)
  from n ab(3) have ok: "numbering (y_world ?x)" by (auto simp: numbering_def)
  have x: "life_inv base [] ?x"
    by (rule life_inv_insert [OF inv, of "map chan_view (all_channels (w_spans (y_world y)) [] @ A)" "map chan_view B" _ "[chan_view c]"])
      (use ok c in \<open>simp_all add: ab(1,2) views_def w_chans_def all_channels_def\<close>)
  have m: "c \<in> set (w_chans (y_world ?x))" by (simp add: ab(2) w_chans_def all_channels_def)
  have cv: "chan_view (c\<lparr>master := channo c\<rparr>) = chan_view c" by (simp add: chan_view_def)
  have v: "views z = views ?x" unfolding z by (rule views_put_same [OF ok m refl cv])
  have nz: "numbers (y_world z) = numbers (y_world ?x)" "y_files z = y_files ?x" "y_owner z = y_owner ?x"
    using only_chan_put [of "channo c" "c\<lparr>master := channo c\<rparr>" ?x] by (simp_all add: only_chan_def own_number_def z)
  have okz: "numbering (y_world z)" using ok numbering_numbers [OF nz(1)] by simp
  have "life_inv base [] z"
    by (rule life_inv_insert [OF x, of "views ?x" "[]" _ "[]"]) (use okz v nz in simp_all)
  with nz numbering_distinct(2) [OF ok m] show ?thesis by simp
qed


text \<open>A handle that has no channel counts for nothing.\<close>

definition held :: "(nat \<Rightarrow> dahdi_file option) \<Rightarrow> nat \<Rightarrow> int \<Rightarrow> bool" where
  "held F i n \<longleftrightarrow> (\<exists>f. F i = Some f \<and> f_private f = Some n)"

lemma handles_ok_held: "handles_ok V F \<longleftrightarrow>
     (\<forall>(n, op, fi, s) \<in> set V. op = (fi \<noteq> None) \<and> (\<forall>i. fi = Some i \<longrightarrow> held F i n)) \<and>
     (\<forall>i n. held F i n \<longrightarrow> (\<exists>s. (n, True, Some i, s) \<in> set V))"
proof -
  have "(\<forall>i f n. F i = Some f \<longrightarrow> f_private f = Some n \<longrightarrow> (\<exists>s. (n, True, Some i, s) \<in> set V)) \<longleftrightarrow>
      (\<forall>i n. held F i n \<longrightarrow> (\<exists>s. (n, True, Some i, s) \<in> set V))" unfolding held_def by blast
  then show ?thesis unfolding handles_ok_def held_def [symmetric] by argo
qed

lemma life_inv_dead:
  assumes "y_files y i = Some f" and "f_private f = None" and "z = y\<lparr>y_files := (y_files y)(i := None)\<rparr>"
  shows "life_inv base gone z \<longleftrightarrow> life_inv base gone y"
proof -
  have "held (y_files z) j n = held (y_files y) j n" for j n
    by (cases "j = i") (simp_all add: assms held_def)
  then have "handles_ok V (y_files z) \<longleftrightarrow> handles_ok V (y_files y)" for V unfolding handles_ok_held by simp
  then show ?thesis by (simp add: life_inv_def assms(3) views_def)
qed

lemma y_chan_of:
  assumes "numbering (y_world y)" and "c \<in> set (w_chans (y_world y))"
  shows "y_chan (channo c) y = Some c"
proof -
  have "find (\<lambda>d. channo d = channo c) (w_chans (y_world y)) = Some c"
  proof (cases "find (\<lambda>d. channo d = channo c) (w_chans (y_world y))")
    case None
    with assms(2) show ?thesis by (auto simp: find_None_iff)
  next
    case (Some e)
    then have "e \<in> set (w_chans (y_world y))" "channo e = channo c" by (auto simp: find_Some_iff)
    with numbering_distinct(1) [OF assms(1)] assms(2) have "e = c" by (auto simp: distinct_map dest: inj_onD)
    with Some show ?thesis by simp
  qed
  with y_chan_find [OF assms(1)] numbering_distinct(2) [OF assms] show ?thesis by simp
qed

lemma handle_channel:
  assumes inv: "life_inv base [] y" and f: "y_files y i = Some f" "f_private f = Some n"
  shows "\<exists>c. y_chan n y = Some c \<and> c \<in> set (w_chans (y_world y)) \<and> channo c = n \<and> FLAG_OPEN \<in> chan_flags c \<and> chan_file c = Some i"
proof -
  note d = life_invD [OF inv]
  obtain s where "(n, True, Some i, s) \<in> set (views y)" using d(3) f unfolding handles_ok_def by blast
  then obtain c where c: "c \<in> set (w_chans (y_world y))" "channo c = n" "FLAG_OPEN \<in> chan_flags c" "chan_file c = Some i"
    by (auto simp: views_def chan_view_def)
  with y_chan_of [OF d(1) c(1)] show ?thesis by auto
qed

lemma release_frees_handle:
  assumes inv: "life_inv base [] y" and f: "y_files y i = Some f" "f_private f = Some n" and r: "specchan_release i y = Some (r, z)"
  shows "\<exists>g. y_files z i = Some g \<and> f_private g = None" and "life_inv base [] (z\<lparr>y_files := (y_files z)(i := None)\<rparr>)"
proof -
  obtain c where c: "y_chan n y = Some c" "c \<in> set (w_chans (y_world y))" "channo c = n" using handle_channel [OF inv f] by blast
  have cf: "chan_from_file f y = Some c" using f c by (simp add: chan_from_file_def)
  have cb: "closed_by i c y z" by (rule specchan_release_effect [OF r life_invD(1) [OF inv] f(1) cf c(2)])
  then show "\<exists>g. y_files z i = Some g \<and> f_private g = None" using f by (simp add: closed_by_def)
  show "life_inv base [] (z\<lparr>y_files := (y_files z)(i := None)\<rparr>)"
    by (rule life_inv_released [OF inv cb f(1) _ refl]) (use f c in simp)
qed

lemma chan_unreg_dead:
  assumes "chan_unreg c y = Some (d, z)" and "numbering (y_world y)" and "channo c \<notin> channo ` set (w_chans (y_world y))"
    and "y_files y i = Some g" and "f_private g = None"
  shows "\<exists>h. y_files z i = Some h \<and> f_private h = None"
proof -
  have "y_files z = cut_off (chan_file c) (y_files y)" using chan_unreg_effect [OF assms(1-3)] by blast
  with assms(4,5) show ?thesis by (auto simp: cut_off_def split: option.split)
qed

section \<open>The life of the channels\<close>

text \<open>
  What can happen: a device or a new pseudo channel is opened, a handle is released (by \<open>dahdi_release\<close>, or without
  any effect when its operations were replaced after the channel had gone), a span is added or removed, or
  a request changes something that is no concern of handles.
\<close>

inductive life_step :: "'a chan_open_scheme dahdi_sys \<Rightarrow> 'a chan_open_scheme dahdi_sys \<Rightarrow> bool" where
  opened: "y_files y i = None \<Longrightarrow> 0 \<le> f_unit f \<Longrightarrow> f_unit f < 2 ^ 31 \<Longrightarrow> (\<And>n. f_private f = Some n \<Longrightarrow> 0 \<le> n \<and> n < 2 ^ 31) \<Longrightarrow>
    specchan_open alloc alive i f y = Some (r, z) \<Longrightarrow> life_step y z"
| opened_pseudo: "y_files y i = None \<Longrightarrow> limit \<le> 2 ^ 30 \<Longrightarrow> open_pseudo limit fresh alloc alive i y = Some (r, z) \<Longrightarrow> life_step y z"
| released: "y_files y i = Some f \<Longrightarrow> \<not> f_nodev f \<Longrightarrow> f_private f = Some n \<Longrightarrow> specchan_release i y = Some (r, z) \<Longrightarrow>
    life_step y (z\<lparr>y_files := (y_files z)(i := None)\<rparr>)"
| released_pseudo: "y_files y i = Some f \<Longrightarrow> \<not> f_nodev f \<Longrightarrow> f_private f = Some n \<Longrightarrow> release_pseudo i y = Some (r, z) \<Longrightarrow>
    life_step y (z\<lparr>y_files := (y_files z)(i := None)\<rparr>)"
| forgotten: "y_files y i = Some f \<Longrightarrow> f_private f = None \<Longrightarrow> life_step y (y\<lparr>y_files := (y_files y)(i := None)\<rparr>)"
| plugged: "\<forall>c \<in> set (rs_chans s). FLAG_OPEN \<notin> chan_flags c \<and> chan_file c = None \<Longrightarrow>
    z = y\<lparr>y_world := (y_world y)\<lparr>w_spans := add_span_to_span_list s (w_spans (y_world y))\<rparr>\<rparr> \<Longrightarrow> numbering (y_world z) \<Longrightarrow> life_step y z"
| unplugged: "s \<in> set (w_spans (y_world y)) \<Longrightarrow> remove_span s y = Some z \<Longrightarrow> life_step y z"
| requested: "same_sys y z \<Longrightarrow> life_step y z"

lemma life_inv_same: "life_inv base [] y \<Longrightarrow> same_sys y z \<Longrightarrow> life_inv base [] z"
  using life_inv_insert [of base y "views y" "[]" z "[]"] numbering_numbers [of "y_world z" "y_world y"] by (simp add: same_sys_def life_inv_def)

lemma life_inv_open:
  assumes inv: "life_inv base [] y" and "y_files y i = None" and "0 \<le> f_unit f" and "f_unit f < 2 ^ 31"
    and "\<And>n. f_private f = Some n \<Longrightarrow> 0 \<le> n \<and> n < 2 ^ 31" and "specchan_open alloc alive i f y = Some (r, z)"
  shows "life_inv base [] z"
  using specchan_open_effect [OF assms(6) life_invD(1) [OF inv] assms(3-5)] life_inv_same [OF inv] life_inv_opened [OF inv _ assms(2)] by blast

lemma life_inv_release_pseudo:
  assumes inv: "life_inv base [] y" and f: "y_files y i = Some f" "f_private f = Some n" and r: "release_pseudo i y = Some (r, z)"
  shows "life_inv base [] (z\<lparr>y_files := (y_files z)(i := None)\<rparr>)"
proof -
  obtain x where x: "specchan_release i y = Some (r, x)" "free_pseudo n x = Some z"
    using r f by (auto simp: release_pseudo_def bind_eq_Some_conv)
  obtain g where g: "y_files x i = Some g" "f_private g = None" using release_frees_handle(1) [OF inv f x(1)] by blast
  have ix: "life_inv base [] x" using release_frees_handle(2) [OF inv f x(1)] life_inv_dead [OF g refl] by blast
  have iz: "life_inv base [] z" by (rule life_inv_free_pseudo [OF ix x(2)])
  obtain c where c: "find (\<lambda>c. channo c = n) (w_pseudos (y_world x)) = Some c" using x(2) by (auto simp: free_pseudo_def split: option.splits)
  let ?x = "x\<lparr>y_world := (y_world x)\<lparr>w_pseudos := filter (\<lambda>d. channo d \<noteq> n) (w_pseudos (y_world x))\<rparr>\<rparr>"
  obtain d where u: "chan_unreg c ?x = Some (d, z)" using x(2) c by (auto simp: free_pseudo_def Let_def)
  have m: "c \<in> set (w_pseudos (y_world x))" "channo c = n" using c by (auto simp: find_Some_iff)
  from life_invD(1) [OF ix] obtain k where ns: "numbered 1 1 (w_spans (y_world x))"
    "below k FIRST_PSEUDO_CHANNEL (w_spans (y_world x))" and p: "pseudos_ok (w_pseudos (y_world x))" by (auto simp: numbering_def)
  have "pseudos_ok (filter (\<lambda>d. channo d \<noteq> n) (w_pseudos (y_world x)))"
    using p by (auto simp: pseudos_ok_def sorted_wrt_map sorted_wrt_filter)
  with ns have ok: "numbering (y_world ?x)" by (auto simp: numbering_def)
  have "n \<notin> channo ` set (all_channels (w_spans (y_world x)) [])"
    using ns(2) p m by (fastforce simp: below_def pseudos_ok_def all_channels_def)
  then have out: "channo c \<notin> channo ` set (w_chans (y_world ?x))" using m(2) by (auto simp: w_chans_def all_channels_def)
  obtain h where "y_files z i = Some h" "f_private h = None" using chan_unreg_dead [OF u ok out, of i g] g by auto
  from life_inv_dead [OF this refl] iz show ?thesis by blast
qed

lemma life_inv_step: "life_step y z \<Longrightarrow> life_inv base [] y \<Longrightarrow> life_inv base [] z"
proof (induction rule: life_step.induct)
  case (opened y i f alloc alive r z)
  then show ?case by (blast intro: life_inv_open)
next
  case (opened_pseudo y i limit fresh alloc alive r z)
  show ?case
  proof (cases "alloc_pseudo limit (fresh\<lparr>chan_file := None\<rparr>) (w_pseudos (y_world y))")
    case None
    with opened_pseudo show ?thesis by (simp add: open_pseudo_def)
  next
    case (Some cp)
    obtain c ps where cp: "cp = (c, ps)" by fastforce
    let ?x = "y_put (channo c) (c\<lparr>master := channo c\<rparr>) (y\<lparr>y_world := (y_world y)\<lparr>w_pseudos := ps\<rparr>\<rparr>)"
    from Some opened_pseudo.hyps have o: "specchan_open alloc alive i \<lparr>f_unit = DAHDI_PSEUDO, f_private = Some (channo c), f_nodev = False\<rparr> ?x = Some (r, z)"
      by (simp add: open_pseudo_def cp Let_def)
    have x: "life_inv base [] ?x \<and> y_files ?x = y_files y \<and> 0 \<le> channo c \<and> channo c < 2 ^ 31"
      by (rule life_inv_pseudo [OF opened_pseudo.prems Some [unfolded cp] _ _ refl]) (use opened_pseudo.hyps in simp_all)
    show ?thesis by (rule life_inv_open [OF _ _ _ _ _ o]) (use x opened_pseudo.hyps in auto)
  qed
next
  case (released y i f n r z)
  then show ?case by (blast intro: release_frees_handle(2))
next
  case (released_pseudo y i f n r z)
  then show ?case by (blast intro: life_inv_release_pseudo)
next
  case (forgotten y i f)
  then show ?case using life_inv_dead by blast
next
  case (plugged s z y)
  then show ?case using life_inv_add_span by blast
next
  case (unplugged s y z)
  then show ?case using life_inv_remove_span by blast
next
  case (requested y z)
  then show ?case by (blast intro: life_inv_same)
qed

text \<open>C3. From channels that are all closed, whatever is opened, released, plugged in or pulled out: a channel is open
  if and only if some file handle holds it, a handle's channel is on the lists, no two
  handles hold the same channel, and the module of a board is referenced once for each of its open channels.\<close>

theorem handles_are_exclusive:
  assumes "numbering (y_world y0)" and "\<forall>c \<in> set (w_chans (y_world y0)). FLAG_OPEN \<notin> chan_flags c \<and> chan_file c = None"
    and "\<forall>i. y_files y0 i = None" and "life_step\<^sup>*\<^sup>* y0 y"
  shows "(\<forall>c \<in> set (w_chans (y_world y)). FLAG_OPEN \<in> chan_flags c \<longleftrightarrow> (\<exists>i f. y_files y i = Some f \<and> f_private f = Some (channo c))) \<and>
    (\<forall>i f n. y_files y i = Some f \<and> f_private f = Some n \<longrightarrow> (\<exists>c \<in> set (w_chans (y_world y)). channo c = n)) \<and>
    (\<forall>i j f g n. y_files y i = Some f \<and> f_private f = Some n \<and> y_files y j = Some g \<and> f_private g = Some n \<longrightarrow> i = j) \<and>
    (\<forall>k. y_owner y k = y_owner y0 k +
       int (length (filter (\<lambda>c. FLAG_OPEN \<in> chan_flags c \<and> map_option spanno (chan_span c) = Some k) (w_chans (y_world y)))))"
proof -
  have "life_inv (y_owner y0) [] y0"
    using assms(1-3) numbering_distinct(1) [OF assms(1)] handles_ok_closed [of "[]" "y_files y0" "views y0" "views y0"] ref_count_closed [of "views y0"]
    by (simp add: life_inv_def views_def handles_ok_def)
  with assms(4) have inv: "life_inv (y_owner y0) [] y" by (induction rule: rtranclp_induct) (blast intro: life_inv_step)+
  note d = life_invD [OF inv] and h = handle_channel [OF inv]
  have "FLAG_OPEN \<in> chan_flags c \<longleftrightarrow> (\<exists>i f. y_files y i = Some f \<and> f_private f = Some (channo c))" if c: "c \<in> set (w_chans (y_world y))" for c
  proof
    assume "FLAG_OPEN \<in> chan_flags c"
    then have "(channo c, True, chan_file c, chan_span c) \<in> set (views y)" using c by (auto simp: views_def chan_view_def)
    from handles_okD [OF d(3) this] show "\<exists>i f. y_files y i = Some f \<and> f_private f = Some (channo c)" by auto
  next
    assume "\<exists>i f. y_files y i = Some f \<and> f_private f = Some (channo c)"
    then obtain e where e: "e \<in> set (w_chans (y_world y))" "channo e = channo c" "FLAG_OPEN \<in> chan_flags e" using h by blast
    then have "e = c" using numbering_distinct(1) [OF d(1)] c by (auto simp: distinct_map dest: inj_onD)
    with e show "FLAG_OPEN \<in> chan_flags c" by simp
  qed
  moreover have "\<exists>c \<in> set (w_chans (y_world y)). channo c = n" if "y_files y i = Some f \<and> f_private f = Some n" for i f n
    using h that by blast
  moreover have "i = j" if "y_files y i = Some f \<and> f_private f = Some n \<and> y_files y j = Some g \<and> f_private g = Some n" for i j f g n
  proof -
    from that have "\<exists>c. y_chan n y = Some c \<and> chan_file c = Some i" "\<exists>c. y_chan n y = Some c \<and> chan_file c = Some j"
      using h [of i f n] h [of j g n] by blast+
    then show ?thesis by auto
  qed
  moreover have "y_owner y k = y_owner y0 k +
       int (length (filter (\<lambda>c. FLAG_OPEN \<in> chan_flags c \<and> map_option spanno (chan_span c) = Some k) (w_chans (y_world y))))" for k
    using d(4) [of k] by (simp add: ref_count_def views_def filter_map comp_def holds_ref_def chan_view_def)
  ultimately show ?thesis by blast
qed


section \<open>Opening succeeds\<close>

lemma first_confna: "confna (init_first c) = confna c"
  by (simp add: init_first_def default_times_def reset_conf_def Let_def)

lemma specchan_open_succeeds:
  assumes "chan_from_file f y = Some c" and "sig c \<noteq> 0" and "master c = channo c" and "sig c AND SIGMASK_DACS \<noteq> SIGMASK_DACS"
    and "FLAG_OPEN \<notin> chan_flags c" and "confna c = 0" and "chan_span c = Some s" and "alive (spanno s)"
    and "op_open (span_operations s) = None \<or> op_open (span_operations s) = Some 0"
  shows "\<exists>z. specchan_open True alive i f y = Some (0, z)"
proof -
  obtain r1 c1 where r: "reallocbufs True 1024 2 (set_flag FLAG_OPEN c) = (r1, c1)" by fastforce
  have c1: "r1 = 0" "confna c1 = 0" using r assms(6) by (auto simp: reallocbufs_def Let_def chan_defs split: if_splits)
  obtain c2 e2 where d: "drop_echocan c1 (y_echo y) = (c2, e2)" by fastforce
  have c2: "confna (init_first c2) = 0" using d c1 by (auto simp: first_confna drop_echocan_def)
  let ?y = "y_put (channo c) (init_first c2) (y\<lparr>y_echo := e2\<rparr>)"
  obtain rr t c3 where st: "set_tone_zone DEFAULT_TONE_ZONE (y_tones ?y) (init_second (y_tones ?y) (init_first c2)) = (rr, t, c3)" by (metis prod_cases3)
  have i: "initialize_channel True (channo c) (set_flag FLAG_OPEN c) y = Some (0, c3, y_put (channo c) c3 (?y\<lparr>y_tones := t\<rparr>))"
    using r c1 d c2 st by (simp add: initialize_channel_def Let_def)
  have "chan_view c3 = chan_view (init_first c2)" using st init_second_view
    by (auto simp: set_tone_zone_def chan_view_def Let_def split: option.splits)
  then have "chan_view c3 = chan_view (set_flag FLAG_OPEN c)"
    using init_first_view chan_view_reallocbufs [OF r] drop_view(2) [OF d] by metis
  then have sp: "chan_span c3 = Some s" using assms(7) by (simp add: chan_view_def chan_defs)
  show ?thesis
    using assms sp i by (auto simp: specchan_open_def open_board_def Let_def chan_defs split: prod.splits)
qed


section \<open>An example\<close>

text \<open>One span with one channel, which is opened by handle 7.\<close>

definition life_demo_chan :: chan_open where
  "life_demo_chan = (chan_audio.extend (mix_demo_chan 1 0 empty_confq) \<lparr>chan_file = None\<rparr>)
     \<lparr>channo := 1, sig := SIG_FXOKS, chan_flags := {FLAG_REGISTERED, FLAG_AUDIO}, confna := 0\<rparr>"

definition life_demo :: "chan_open dahdi_sys" where
  "life_demo = \<lparr>y_world = \<lparr>w_spans = [dahdi_span.extend hook_span
       \<lparr>span_id = 1, rs_chans = [life_demo_chan], lastalarms = 0, linecompat = 0, cannot_provide_timing = False, maintstat = 0, mainttimer = 0\<rparr>],
     w_pseudos = [], w_tables = \<lparr>confalias = replicate 1025 0, confrev = replicate 1025 0, maxconfs = 0\<rparr>\<rparr>,
     y_tones = no_zones, y_echo = echo_demo_env, y_files = (\<lambda>_. None), y_owner = (\<lambda>_. 0)\<rparr>"

lemma life_demo_chan_sel:
  "channo life_demo_chan = 1" "sig life_demo_chan = SIG_FXOKS" "chan_flags life_demo_chan = {FLAG_REGISTERED, FLAG_AUDIO}"
  "confna life_demo_chan = 0" "chan_file life_demo_chan = None" "master life_demo_chan = 1" "chan_span life_demo_chan = Some hook_span"
  by (simp_all add: life_demo_chan_def chan_audio.extend_def chan_audio.defs mix_demo_sel) (simp_all add: mix_demo_chan_def chan_echo.defs)

lemma life_demo_sel:
  "w_chans (y_world life_demo) = [life_demo_chan]" "y_files life_demo i = None" "y_owner life_demo k = 0"
  by (simp_all add: life_demo_def w_chans_def all_channels_def dahdi_span.defs hook_span_def)

lemma life_demo_numbering: "numbering (y_world life_demo)"
  by (auto simp: numbering_def life_demo_def dahdi_span.defs hook_span_def life_demo_chan_sel consecutive_def below_def pseudos_ok_def
      intro!: exI [of _ 2])

theorem handles_are_exclusive_witness:
  "\<exists>y. life_step\<^sup>*\<^sup>* life_demo y \<and> (\<exists>f. y_files y 7 = Some f \<and> f_private f = Some 1) \<and> y_owner y 1 = 1"
proof -
  let ?f = "\<lparr>f_unit = 1, f_private = None, f_nodev = False\<rparr>"
  have c: "chan_from_file ?f life_demo = Some life_demo_chan"
    using y_chan_of [OF life_demo_numbering, of life_demo_chan] by (simp add: chan_from_file_def life_demo_sel life_demo_chan_sel)
  obtain z where z: "specchan_open True (\<lambda>_. True) 7 ?f life_demo = Some (0, z)"
    using specchan_open_succeeds [OF c, of hook_span "\<lambda>_. True" 7] by (auto simp: life_demo_chan_sel hook_span_def)
  from specchan_open_effect [OF z life_demo_numbering] obtain d where d: "opened_by 7 ?f d life_demo z" by auto
  then have dd: "d = life_demo_chan" by (simp add: opened_by_def life_demo_sel)
  have s: "life_step\<^sup>*\<^sup>* life_demo z" using life_step.opened [OF _ _ _ _ z] by (auto simp: life_demo_sel)
  have "views z = [(1, True, Some 7, Some hook_span)]" "y_files z 7 = Some (?f\<lparr>f_private := Some 1\<rparr>)"
    using d by (simp_all add: opened_by_def dd views_def life_demo_sel chan_view_def life_demo_chan_sel)
  moreover from this(1) obtain e where "w_chans (y_world z) = [e]" "chan_view e = (1, True, Some 7, Some hook_span)" by (auto simp: views_def)
  moreover have "y_owner z 1 = y_owner life_demo 1 +
       int (length (filter (\<lambda>c. FLAG_OPEN \<in> chan_flags c \<and> map_option spanno (chan_span c) = Some 1) (w_chans (y_world z))))"
    using handles_are_exclusive [OF life_demo_numbering _ _ s] by (simp add: life_demo_sel life_demo_chan_sel)
  ultimately have "y_owner z 1 = 1" "\<exists>f. y_files z 7 = Some f \<and> f_private f = Some 1"
    by (simp_all add: life_demo_sel chan_view_def hook_span_def)
  with s show ?thesis by blast
qed

section \<open>What opening and closing do wrong\<close>

text \<open>When a monitored pseudo channel still has a buffer, closing the channel that monitors it reads the span it does not have.\<close>

lemma close_preecho_null_span:
  assumes "conf_chan c = Some p" and "p \<noteq> n" and "is_preecho_mode (confmode c)"
    and "y_chan p y = Some q" and "readchunkpreec q" and "chan_span q = None"
  shows "close_channel n c y = None"
  using assms by (simp add: close_channel_def close_preec_def disable_hw_preechocan_def)

text \<open>A pseudo channel whose opening fails stays on the list without a handle.\<close>

lemma open_pseudo_leaks:
  assumes "numbering (y_world y)" and "alloc_pseudo limit (fresh\<lparr>chan_file := None\<rparr>) (w_pseudos (y_world y)) = Some (c, ps)" and "limit \<le> 2 ^ 30"
  shows "\<exists>z. open_pseudo limit fresh False alive i y = Some (- ENOMEM, z) \<and>
    map channo (w_pseudos (y_world z)) = map channo ps \<and> y_files z = y_files y"
proof -
  let ?x = "y\<lparr>y_world := (y_world y)\<lparr>w_pseudos := ps\<rparr>\<rparr>" and ?c = "c\<lparr>master := channo c\<rparr>"
  let ?z = "y_put (channo c) ?c ?x"
  from assms(1) obtain k where n: "numbered 1 1 (w_spans (y_world y))"
    "below k FIRST_PSEUDO_CHANNEL (w_spans (y_world y))" and p: "pseudos_ok (w_pseudos (y_world y))" by (auto simp: numbering_def)
  have "length (w_pseudos (y_world y)) < 2 ^ 30" using assms(2,3) by (auto simp: alloc_pseudo_def split: if_splits)
  from slot_sorted [OF p assms(2) this] obtain A B where ab: "ps = A @ c # B" "pseudos_ok ps" by blast
  have c: "FLAG_OPEN \<notin> chan_flags c" "sig c = SIG_CLEAR" "is_pseudo_chan c"
    using assms(2) by (auto simp: alloc_pseudo_def Let_def is_pseudo_chan_def split: if_splits prod.splits)
  from n ab(2) have "numbering (y_world ?x)" by (auto simp: numbering_def)
  moreover have nz: "numbers (y_world ?z) = numbers (y_world ?x)" "y_files ?z = y_files y"
    using only_chan_put [of "channo c" ?c ?x] by (simp_all add: only_chan_def own_number_def)
  ultimately have ok: "numbering (y_world ?z)" using numbering_numbers by blast
  have m: "?c \<in> set (w_chans (y_world ?z))"
    by (simp add: y_put_def w_update_def at_chan_def w_chans_def all_channels_def ab(1))
  have l: "y_chan (channo c) ?z = Some ?c" using y_chan_of [OF ok m] by simp
  have g: "SIG_CLEAR AND SIGMASK_DACS \<noteq> SIGMASK_DACS" "SIG_CLEAR \<noteq> 0" by simp_all
  let ?d = "clear_flag FLAG_OPEN (set_flag FLAG_OPEN ?c)"
  have o: "open_pseudo limit fresh False alive i y = Some (- ENOMEM, y_put (channo c) ?d (y_put (channo c) (set_flag FLAG_OPEN ?c) ?z))"
    using assms(2) c l g by (simp add: open_pseudo_def specchan_open_def chan_from_file_def initialize_channel_def reallocbufs_def chan_defs Let_def)
  have "numbers (y_world (y_put (channo c) ?d (y_put (channo c) (set_flag FLAG_OPEN ?c) ?z))) = numbers (y_world ?x)"
    "y_files (y_put (channo c) ?d (y_put (channo c) (set_flag FLAG_OPEN ?c) ?z)) = y_files y"
    using only_chan_put [of "channo c" ?d "y_put (channo c) (set_flag FLAG_OPEN ?c) ?z"] only_chan_put [of "channo c" "set_flag FLAG_OPEN ?c" ?z] nz
    by (simp_all add: only_chan_def own_number_def chan_defs)
  with o show ?thesis by (simp add: numbers_def)
qed

end
