(* ===== verification/Requests.thy ===== *)
theory Requests
  imports HandleInv
begin

text \<open>
  The requests (ioctls) that a program makes on an open channel, and \<open>poll\<close>: \<open>dahdi_chan_ioctl\<close>,
  \<open>dahdi_chanandpseudo_ioctl\<close> and \<open>dahdi_common_ioctl\<close> in \<^verbatim>\<open>dahdi-base.c\<close>. Values that could not be copied from
  the user are \<open>None\<close> in a request; \<open>uout\<close> tells whether a copy back to the user succeeds.
\<close>

section \<open>Gains\<close>

record dahdi_gains =
  g_chan :: int
  g_rxgain :: "u8 list"
  g_txgain :: "u8 list"

definition defgain :: "u8 list" where
  "defgain = map word_of_int [0..255]"

definition gain_of :: "u8 list option \<Rightarrow> u8 list" where
  "gain_of g = (case g of None \<Rightarrow> defgain | Some t \<Rightarrow> t)"

text \<open>The channel that a request names, or else the one of the file.\<close>

definition named_chan :: "int option \<Rightarrow> int \<Rightarrow> 'a chan_conf_scheme world \<Rightarrow> 'a chan_conf_scheme option" where
  "named_chan file n w = (if n = 0 then Option.bind file (w_lookup w) else w_lookup w n)"

definition ioctl_getgains :: "bool \<Rightarrow> bool \<Rightarrow> int option \<Rightarrow> dahdi_gains option \<Rightarrow> 'a chan_conf_scheme world \<Rightarrow> int \<times> dahdi_gains option" where
  "ioctl_getgains alloc uout file arg w =
     (if \<not> alloc then (- ENOMEM, None)
      else case arg of None \<Rightarrow> (- EFAULT, None)
      | Some g \<Rightarrow>
         (case named_chan file (g_chan g) w of
            None \<Rightarrow> (- EINVAL, None)
          | Some c \<Rightarrow>
             (if FLAG_AUDIO \<notin> chan_flags c then (- EINVAL, None)
              else if \<not> uout then (- EFAULT, None)
              else (0, Some \<lparr>g_chan = channo c, g_rxgain = gain_of (rxgain c), g_txgain = gain_of (txgain c)\<rparr>))))"

text \<open>The default tables are shared; any other pair is the channel's own.\<close>

definition set_gains :: "u8 list \<Rightarrow> u8 list \<Rightarrow> 'a chan_conf_scheme \<Rightarrow> 'a chan_conf_scheme" where
  "set_gains rx tx c =
     (if rx = defgain \<and> tx = defgain then c\<lparr>rxgain := None, txgain := None\<rparr> else c\<lparr>rxgain := Some rx, txgain := Some tx\<rparr>)"

definition ioctl_setgains :: "bool \<Rightarrow> bool \<Rightarrow> bool \<Rightarrow> int option \<Rightarrow> dahdi_gains option \<Rightarrow> 'a chan_conf_scheme world \<Rightarrow>
    int \<times> dahdi_gains option \<times> 'a chan_conf_scheme world" where
  "ioctl_setgains alloc1 alloc2 uout file arg w =
     (if \<not> alloc1 then (- ENOMEM, None, w)
      else case arg of None \<Rightarrow> (- EFAULT, None, w)
      | Some g \<Rightarrow>
         (case named_chan file (g_chan g) w of
            None \<Rightarrow> (- EINVAL, None, w)
          | Some c \<Rightarrow>
             (if FLAG_AUDIO \<notin> chan_flags c then (- EINVAL, None, w)
              else if \<not> alloc2 then (- ENOMEM, None, w)
              else
                (let w = w_update (channo c) (set_gains (g_rxgain g) (g_txgain g)) w
                 in if uout then (0, Some (g\<lparr>g_chan := channo c\<rparr>), w) else (- EFAULT, None, w)))))"

section \<open>Parameters\<close>

text \<open>Hook states are \<open>None\<close> when the channel has none to report (-1).\<close>

record dahdi_times =
  pr_prewinktime :: int
  pr_preflashtime :: int
  pr_winktime :: int
  pr_flashtime :: int
  pr_starttime :: int
  pr_rxwinktime :: int
  pr_rxflashtime :: int
  pr_debouncetime :: int
  pr_pulsebreaktime :: int
  pr_pulsemaketime :: int
  pr_pulseaftertime :: int

record dahdi_params =
  pr_channo :: int
  pr_times :: dahdi_times
  pr_spanno :: int
  pr_chanpos :: int
  pr_sigtype :: u32
  pr_sigcap :: u32
  pr_rxisoffhook :: bool
  pr_rxbits :: int
  pr_txbits :: int
  pr_txhooksig :: "int option"
  pr_rxhooksig :: "dahdi_rxsig option"
  pr_curlaw :: int
  pr_idlebits :: int
  pr_alarms :: u32

abbreviation (input) RETURN_MASTER :: int where "RETURN_MASTER \<equiv> 0x40000000"

definition times_of :: "'a chan_rbs_scheme \<Rightarrow> dahdi_times" where
  "times_of c = \<lparr>pr_prewinktime = prewinktime c, pr_preflashtime = preflashtime c, pr_winktime = winktime c,
     pr_flashtime = flashtime c, pr_starttime = starttime c, pr_rxwinktime = rxwinktime c, pr_rxflashtime = rxflashtime c,
     pr_debouncetime = debouncetime c, pr_pulsebreaktime = pulsebreaktime c, pr_pulsemaketime = pulsemaketime c,
     pr_pulseaftertime = pulseaftertime c\<rparr>"

definition rx_is_offhook :: "'a chan_rbs_scheme \<Rightarrow> bool" where
  "rx_is_offhook c =
     (if chan_span c \<noteq> None then
        (let j = dahdi_q_sig c in
         if j \<ge> 0 then rxsig c AND (j div 256) \<noteq> j AND 0xff
         else rxhooksig c \<noteq> RXSIG_ONHOOK \<and> rxhooksig c \<noteq> RXSIG_INITIAL)
      else txstate c = TXSTATE_KEWL \<or> txstate c = TXSTATE_AFTERKEWL)"

definition params_of :: "bool \<Rightarrow> 'a chan_audio_scheme \<Rightarrow> dahdi_params" where
  "params_of return_master c =
     (let has_bits = (chan_op op_rbsbits c \<noteq> None \<and> sig c AND SIG_CLEAR = 0);
          has_hook = ((chan_op op_rbsbits c \<noteq> None \<or> chan_op op_hooksig c \<noteq> None) \<and> sig c AND SIG_CLEAR = 0)
      in \<lparr>pr_channo = (if return_master then i32 (channo c OR push_bit 16 (master c)) else channo c),
          pr_times = times_of c, pr_spanno = (case chan_span c of Some s \<Rightarrow> spanno s | None \<Rightarrow> 0),
          pr_chanpos = chanpos c, pr_sigtype = sig c, pr_sigcap = sigcap c, pr_rxisoffhook = rx_is_offhook c,
          pr_rxbits = (if has_bits then rxsig c else -1), pr_txbits = (if has_bits then txsig c else -1),
          pr_txhooksig = (if has_hook then Some (txhooksig c) else None), pr_rxhooksig = (if has_hook then Some (rxhooksig c) else None),
          pr_curlaw = (case xlaw c of ALAW \<Rightarrow> LAW_ALAW | MULAW \<Rightarrow> LAW_MULAW),
          pr_idlebits = (if has_bits then idlebits c else 0), pr_alarms = chan_alarms c\<rparr>)"

definition file_or_chan :: "int option \<Rightarrow> int \<Rightarrow> 'a chan_conf_scheme world \<Rightarrow> 'a chan_conf_scheme option" where
  "file_or_chan file n w = (case Option.bind file (w_lookup w) of None \<Rightarrow> w_lookup w n | Some c \<Rightarrow> Some c)"

definition ioctl_getparams :: "bool \<Rightarrow> int option \<Rightarrow> int option \<Rightarrow> 'a chan_audio_scheme world \<Rightarrow> int \<times> dahdi_params option" where
  "ioctl_getparams uout file arg w = (case arg of
     None \<Rightarrow> (- EFAULT, None)
   | Some n \<Rightarrow>
      (let return_master = (n AND RETURN_MASTER \<noteq> 0); n = (if return_master then n AND NOT RETURN_MASTER else n) in
       case file_or_chan file n w of
         None \<Rightarrow> (- EINVAL, None)
       | Some c \<Rightarrow> if uout then (0, Some (params_of return_master c)) else (- EFAULT, None)))"

definition set_times :: "dahdi_times \<Rightarrow> 'a chan_tone_scheme \<Rightarrow> 'a chan_tone_scheme" where
  "set_times p c =
     (let c = c\<lparr>prewinktime := pr_prewinktime p, preflashtime := pr_preflashtime p, winktime := pr_winktime p,
                flashtime := pr_flashtime p, starttime := pr_starttime p, rxwinktime := pr_rxwinktime p,
                rxflashtime := pr_rxflashtime p, debouncetime := pr_debouncetime p, pulsemaketime := pr_pulsemaketime p,
                pulsebreaktime := pr_pulsebreaktime p, pulseaftertime := pr_pulseaftertime p\<rparr>
      in if curzone c = None then c\<lparr>ringcadence := (ringcadence c)[0 := starttime c]\<rparr> else c)"

definition ioctl_setparams :: "int option \<Rightarrow> (int \<times> dahdi_times) option \<Rightarrow> 'a chan_tone_scheme world \<Rightarrow> int \<times> 'a chan_tone_scheme world" where
  "ioctl_setparams file arg w = (case arg of
     None \<Rightarrow> (- EFAULT, w)
   | Some (n, p) \<Rightarrow>
      (case file_or_chan file n w of
         None \<Rightarrow> (- EINVAL, w)
       | Some c \<Rightarrow> (0, w_update (channo c) (set_times p) w)))"

section \<open>The ring cadence\<close>

text \<open>A negative ringing time marks where the cadence starts again.\<close>

definition mark_cadence :: "'a chan_tone_scheme \<Rightarrow> 'a chan_tone_scheme" where
  "mark_cadence c = (case find (\<lambda>i. ringcadence c ! i < 0) [0, 2, 4, 6, 8, 10, 12, 14] of
     None \<Rightarrow> c
   | Some i \<Rightarrow> c\<lparr>ringcadence := (ringcadence c)[i := i32 (- (ringcadence c ! i))], firstcadencepos := int i\<rparr>)"

definition ioctl_setcadence :: "tone_env \<Rightarrow> int list option option \<Rightarrow> 'a chan_tone_scheme \<Rightarrow> int \<times> 'a chan_tone_scheme" where
  "ioctl_setcadence e arg c = (case arg of
     Some None \<Rightarrow> (- EFAULT, c)
   | Some (Some cad) \<Rightarrow> (0, mark_cadence (c\<lparr>ringcadence := cad, firstcadencepos := 0\<rparr>))
   | None \<Rightarrow>
      (let c = c\<lparr>firstcadencepos := 0\<rparr> in
       (0, case Option.bind (curzone c) (zone_at e) of
             Some z \<Rightarrow> mark_cadence (c\<lparr>ringcadence := zone_ringcadence z\<rparr>)
           | None \<Rightarrow> c\<lparr>ringcadence := (replicate MAX_CADENCE 0)[0 := starttime c, 1 := 4000]\<rparr>)))"

section \<open>The hook\<close>

datatype answer =
    Done int
  | Value int
  | Bufinfo dahdi_bufferinfo
  | Conf int confinfo
  | Gains int "dahdi_gains option"
  | Params int "dahdi_params option"
  | Wait
  | Spin

abbreviation (input) HOOK_ONHOOK :: int where "HOOK_ONHOOK \<equiv> 0"
abbreviation (input) HOOK_OFFHOOK :: int where "HOOK_OFFHOOK \<equiv> 1"
abbreviation (input) HOOK_WINK :: int where "HOOK_WINK \<equiv> 2"
abbreviation (input) HOOK_FLASH :: int where "HOOK_FLASH \<equiv> 3"
abbreviation (input) HOOK_START :: int where "HOOK_START \<equiv> 4"
abbreviation (input) HOOK_RING :: int where "HOOK_RING \<equiv> 5"
abbreviation (input) HOOK_RINGOFF :: int where "HOOK_RINGOFF \<equiv> 6"
abbreviation (input) EINPROGRESS :: int where "EINPROGRESS \<equiv> 115"

definition stop_dialing :: "'a chan_tone_scheme \<Rightarrow> 'a chan_tone_scheme" where
  "stop_dialing c = c\<lparr>curtone := None, dialing := False, txdialbuf := [], tonep := 0, pdialcount := 0\<rparr>"

definition hook_start :: "'a chan_tone_scheme \<Rightarrow> 'a chan_tone_scheme" where
  "hook_start c =
     (if sig c AND SIGMASK_FXO \<noteq> 0
      then (let c = c\<lparr>cadencepos := 0\<rparr> in rbs_sethook TXSIG_START TXSTATE_RINGON (ringcadence c ! 0) c)
      else rbs_sethook TXSIG_START TXSTATE_START (starttime c) c)"

definition hook_rbs :: "bool \<Rightarrow> int \<Rightarrow> 'a chan_buf_scheme \<Rightarrow> answer \<times> 'a chan_buf_scheme" where
  "hook_rbs nonblock j c =
     (if j = HOOK_ONHOOK then (Done 0, snd (hangup c))
      else if j = HOOK_OFFHOOK then
        (if txstate c = TXSTATE_KEWL \<or> txstate c = TXSTATE_AFTERKEWL then (Done (- EBUSY), c)
         else (Done 0, rbs_sethook TXSIG_OFFHOOK TXSTATE_DEBOUNCE (debouncetime c) c))
      else if j = HOOK_RING \<or> j = HOOK_START then
        (if curzone c = None then (Done (- ENODATA), c)
         else if txstate c \<noteq> TXSTATE_ONHOOK then (Done (- EBUSY), c)
         else (Done (if nonblock then - EINPROGRESS else 0), hook_start c))
      else if j = HOOK_WINK then
        (if txstate c \<noteq> TXSTATE_ONHOOK then (Done (- EBUSY), c)
         else (if nonblock then Done (- EINPROGRESS) else Wait, rbs_sethook TXSIG_ONHOOK TXSTATE_PREWINK (prewinktime c) c))
      else if j = HOOK_FLASH then
        (if txstate c \<noteq> TXSTATE_OFFHOOK then (Done (- EBUSY), c)
         else (if nonblock then Done (- EINPROGRESS) else Wait, rbs_sethook TXSIG_OFFHOOK TXSTATE_PREFLASH (preflashtime c) c))
      else if j = HOOK_RINGOFF then (Done 0, rbs_sethook TXSIG_ONHOOK TXSTATE_ONHOOK 0 c)
      else (Done (- EINVAL), c))"

definition ioctl_hook :: "bool \<Rightarrow> int \<Rightarrow> 'a chan_buf_scheme \<Rightarrow> answer \<times> 'a chan_buf_scheme" where
  "ioctl_hook nonblock j c =
     (if FLAG_CLEAR \<in> chan_flags c then (Done (- EINVAL), c)
      else if sig c = SIG_CAS then (Done (- EINVAL), c)
      else case chan_span c of
        None \<Rightarrow> (Done 0, c)
      | Some s \<Rightarrow>
         (let c = stop_dialing c in
          if FLAG_RBS \<in> span_flags s then hook_rbs nonblock j c
          else if op_sethook (span_operations s) \<noteq> None then
            (Done 0, if txhooksig c \<noteq> j then drv_log (Drv_sethook j) (c\<lparr>txhooksig := j\<rparr>) else c)
          else (Done (- ENOSYS), c)))"

section \<open>Waiting for a channel\<close>

abbreviation (input) POLLIN :: int where "POLLIN \<equiv> 0x41"
abbreviation (input) POLLPRI :: int where "POLLPRI \<equiv> 0x2"
abbreviation (input) POLLOUT :: int where "POLLOUT \<equiv> 0x104"

text \<open>Each of the first two stands for the kernel's flag together with its \<open>NORM\<close> variant.\<close>

definition chan_poll :: "'a chan_buf_scheme \<Rightarrow> int" where
  "chan_poll c = (if inwritebuf c > -1 then POLLOUT else 0) OR (if outreadbuf c > -1 then POLLIN else 0) OR
     (if eventoutidx c \<noteq> eventinidx c then POLLPRI else 0)"

abbreviation (input) IOMUX_READ :: u32 where "IOMUX_READ \<equiv> 1"
abbreviation (input) IOMUX_WRITE :: u32 where "IOMUX_WRITE \<equiv> 2"
abbreviation (input) IOMUX_WRITEEMPTY :: u32 where "IOMUX_WRITEEMPTY \<equiv> 4"
abbreviation (input) IOMUX_SIGEVENT :: u32 where "IOMUX_SIGEVENT \<equiv> 8"
abbreviation (input) IOMUX_NOWAIT :: u32 where "IOMUX_NOWAIT \<equiv> 0x100"

text \<open>One round of the loop; when it waits it starts again at the next wake-up.\<close>

definition iomux_result :: "u32 \<Rightarrow> 'a chan_buf_scheme \<Rightarrow> u32" where
  "iomux_result m c =
     (if m AND IOMUX_READ \<noteq> 0 \<and> outreadbuf c > -1 then IOMUX_READ else 0) OR
     (if m AND IOMUX_WRITE \<noteq> 0 \<and> inwritebuf c > -1 then IOMUX_WRITE else 0) OR
     (if m AND IOMUX_WRITEEMPTY \<noteq> 0 \<and> outwritebuf c < 0 then IOMUX_WRITEEMPTY else 0) OR
     (if m AND IOMUX_SIGEVENT \<noteq> 0 \<and> eventinidx c \<noteq> eventoutidx c then IOMUX_SIGEVENT else 0)"

definition iomux_round :: "u32 option \<Rightarrow> 'a chan_buf_scheme \<Rightarrow> answer \<times> 'a chan_buf_scheme" where
  "iomux_round arg c = (case arg of
     None \<Rightarrow> (Done (- EFAULT), c)
   | Some m \<Rightarrow>
      (if m = 0 then (Done (- EINVAL), c)
       else
         (let r = iomux_result m c;
              c = c\<lparr>iomask := m\<rparr>;
              c = (if m AND IOMUX_WRITEEMPTY \<noteq> 0 then c\<lparr>txdisable := False\<rparr> else c)
          in if r \<noteq> 0 \<or> m AND IOMUX_NOWAIT \<noteq> 0 then (Value (uint r), c\<lparr>iomask := 0\<rparr>) else (Wait, c))))"

section \<open>Modes of clear channels\<close>

definition init_hdlc :: "'a chan_buf_scheme \<Rightarrow> 'a chan_buf_scheme" where
  "init_hdlc c =
     (let mode = (if FLAG_HDLC56 \<in> chan_flags c then FASTHDLC_MODE_56 else FASTHDLC_MODE_64)
      in c\<lparr>rxhdlc := fasthdlc_init (rxhdlc c) mode, txhdlc := fasthdlc_init (txhdlc c) mode\<rparr>)"

definition ioctl_hdlcmode :: "bool \<Rightarrow> int \<Rightarrow> 'a chan_buf_scheme \<Rightarrow> answer \<times> 'a chan_buf_scheme" where
  "ioctl_hdlcmode fcs j c =
     (if sig c \<noteq> SIG_CLEAR then (Done (- EINVAL), c)
      else
        (let c = c\<lparr>chan_flags := chan_flags c - {FLAG_AUDIO, FLAG_HDLC, FLAG_FCS}\<rparr>
         in (Done 0, if j \<noteq> 0 then init_hdlc (c\<lparr>chan_flags := chan_flags c \<union> (if fcs then {FLAG_HDLC, FLAG_FCS} else {FLAG_HDLC})\<rparr>)
                     else c)))"

definition ioctl_hdlcrate :: "int \<Rightarrow> 'a chan_buf_scheme \<Rightarrow> answer \<times> 'a chan_buf_scheme" where
  "ioctl_hdlcrate j c = (Done 0, init_hdlc (if j = 56 then set_flag FLAG_HDLC56 c else clear_flag FLAG_HDLC56 c))"

text \<open>A channel that leaves audio mode leaves its conference, its gains and its echo canceller.\<close>

definition leave_audio :: "'a chan_conf_scheme \<Rightarrow> 'a chan_conf_scheme" where
  "leave_audio c =
     (let c = (clear_flag FLAG_AUDIO c)\<lparr>confn := 0, confna := 0, conf_chan := None\<rparr>;
          c = (dahdi_disable_dacs c)\<lparr>confmode := 0, confmute := 0, conflast := no_samples, conflast1 := no_samples, conflast2 := no_samples\<rparr>
      in (reset_conf c)\<lparr>rxgain := None, txgain := None\<rparr>)"

definition ioctl_audiomode :: "int \<Rightarrow> int \<Rightarrow> 'a chan_audio_scheme \<Rightarrow> 'a chan_audio_scheme dahdi_sys \<Rightarrow>
    (answer \<times> 'a chan_audio_scheme dahdi_sys) option" where
  "ioctl_audiomode n j c y =
     (if sig c \<noteq> SIG_CLEAR then Some (Done (- EINVAL), y)
      else if j \<noteq> 0 then
        Some (Done 0, y_put n (c\<lparr>chan_flags := insert FLAG_AUDIO (chan_flags c) - {FLAG_HDLC, FLAG_FCS}\<rparr>) y)
      else
        (let oldconf = confna c;
             (c, echo) = drop_echocan (leave_audio c) (y_echo y);
             y = y_put n c (y\<lparr>y_echo := echo\<rparr>)
         in map_option (Pair (Done 0)) (if oldconf \<noteq> 0 then y_check_conf oldconf y else Some y)))"

section \<open>The requests\<close>

datatype chan_cmd =
    SETSIGFREEZE int | GETSIGFREEZE | AUDIOMODE int | HDLCPPP int | HDLCRAWMODE int | HDLCFCSMODE int | HDLC_RATE int
  | ECHOCANCEL_PARAMS "(int \<times> int \<times> (int \<times> int) list option) option" | ECHOCANCEL int | ECHOTRAIN int | ECHOCANCEL_FAX_MODE int
  | SETTXBITS int | GETRXBITS | LOOPBACK int | HOOK int | BUFFER_EVENTS "int option"
  | DIALING | DIAL "(int \<times> string) option" | GET_BUFINFO | SET_BUFINFO "dahdi_bufferinfo option" | GET_BLOCKSIZE | SET_BLOCKSIZE int
  | FLUSH int | SYNC | IOMUX "u32 option" | GETEVENT | CONFMUTE int | GETCONFMUTE | SETTONEZONE int | GETTONEZONE | SENDTONE int
  | GETCONF "confinfo option" | SETCONF "confinfo option" | CHANNO | SETLAW int | SETLINEAR int | SETCADENCE "int list option option"
  | GET_PARAMS "int option" | SET_PARAMS "(int \<times> dahdi_times) option" | GETGAINS "dahdi_gains option" | SETGAINS "dahdi_gains option"
  | CMD_OTHER

text \<open>
  What the outside decides: whether memory is found and the copy to the user succeeds, whether the file
  is open without blocking, the default number of taps, the kernel's \<open>toupper\<close>, and what the board
  does with a request that nobody else knows.
\<close>

record req_env =
  rq_alloc :: bool
  rq_uout :: bool
  rq_nonblock :: bool
  rq_deftaps :: int
  rq_upper :: "char \<Rightarrow> char"
  rq_board :: "int option"

definition common_ioctl :: "req_env \<Rightarrow> int \<Rightarrow> chan_cmd \<Rightarrow> 'a chan_audio_scheme dahdi_sys \<Rightarrow> answer \<times> 'a chan_audio_scheme dahdi_sys" where
  "common_ioctl r n cmd y = (case cmd of
     GET_PARAMS arg \<Rightarrow> (case ioctl_getparams (rq_uout r) (Some n) arg (y_world y) of (res, p) \<Rightarrow> (Params res p, y))
   | SET_PARAMS arg \<Rightarrow> (case ioctl_setparams (Some n) arg (y_world y) of (res, w) \<Rightarrow> (Done res, y\<lparr>y_world := w\<rparr>))
   | GETGAINS arg \<Rightarrow> (case ioctl_getgains (rq_alloc r) (rq_uout r) (Some n) arg (y_world y) of (res, g) \<Rightarrow> (Gains res g, y))
   | SETGAINS arg \<Rightarrow>
       (case ioctl_setgains (rq_alloc r) (rq_alloc r) (rq_uout r) (Some n) arg (y_world y) of (res, g, w) \<Rightarrow> (Gains res g, y\<lparr>y_world := w\<rparr>))
   | _ \<Rightarrow> (Done (- ENOTTY), y))"

definition conf_arg :: "confinfo option \<Rightarrow> confinfo" where
  "conf_arg arg = (case arg of Some conf \<Rightarrow> conf | None \<Rightarrow> \<lparr>ci_chan = 0, ci_confno = 0, ci_confmode = 0\<rparr>)"

definition chanandpseudo_ioctl :: "req_env \<Rightarrow> int \<Rightarrow> chan_cmd \<Rightarrow> 'a chan_audio_scheme dahdi_sys \<Rightarrow>
    (answer \<times> 'a chan_audio_scheme dahdi_sys) option" where
  "chanandpseudo_ioctl r n cmd y = (case y_chan n y of
     None \<Rightarrow> Some (Done (- EINVAL), y)
   | Some c \<Rightarrow>
      (let put = (\<lambda>(a, c). Some (a, y_put n c y)); done = (\<lambda>(res, c). Some (Done res, y_put n c y)) in
       case cmd of
         DIALING \<Rightarrow> Some (if rq_uout r then Value (of_bool (dialing c)) else Done (- EFAULT), y)
       | DIAL arg \<Rightarrow> Option.bind (ioctl_dial (rq_upper r) (rq_alloc r) arg (y_tones y) c) done
       | GET_BUFINFO \<Rightarrow> Some (if rq_uout r then Bufinfo (get_bufinfo c) else Done (- EFAULT), y)
       | SET_BUFINFO arg \<Rightarrow> done (set_bufinfo (rq_alloc r) arg c)
       | GET_BLOCKSIZE \<Rightarrow> Some (Value (blocksize c), y)
       | SET_BLOCKSIZE j \<Rightarrow> done (set_blocksize (rq_alloc r) j c)
       | FLUSH i \<Rightarrow> done (0, ioctl_flush i c)
       | SYNC \<Rightarrow> Some (if outwritebuf c > -1 then Spin else Done 0, y)
       | IOMUX arg \<Rightarrow> put (iomux_round arg c)
       | GETEVENT \<Rightarrow> put (case getevent c of (e, c) \<Rightarrow> (Value e, c))
       | CONFMUTE j \<Rightarrow> (if FLAG_AUDIO \<in> chan_flags c then done (0, c\<lparr>confmute := j\<rparr>) else Some (Done (- EINVAL), y))
       | GETCONFMUTE \<Rightarrow> Some (if FLAG_AUDIO \<in> chan_flags c then Value (confmute c) else Done (- EINVAL), y)
       | SETTONEZONE j \<Rightarrow> (case set_tone_zone j (y_tones y) c of (res, e, c) \<Rightarrow> Some (Done res, y_put n c (y\<lparr>y_tones := e\<rparr>)))
       | GETTONEZONE \<Rightarrow> Some (Value (case Option.bind (curzone c) (zone_at (y_tones y)) of Some z \<Rightarrow> zone_num z | None \<Rightarrow> 0), y)
       | SENDTONE j \<Rightarrow> Option.bind (start_tone j (y_tones y) c) done
       | GETCONF arg \<Rightarrow> (case ioctl_getconf (arg \<noteq> None) (rq_uout r) (Some n) (conf_arg arg) (y_world y) of (res, conf) \<Rightarrow> Some (Conf res conf, y))
       | SETCONF arg \<Rightarrow>
           map_option (\<lambda>(res, conf, w). (Conf res conf, y\<lparr>y_world := w\<rparr>))
             (ioctl_setconf (arg \<noteq> None) (rq_uout r) (rq_alloc r) (Some n) (conf_arg arg) (y_world y))
       | CHANNO \<Rightarrow> Some (Value n, y)
       | SETLAW j \<Rightarrow> done (ioctl_setlaw j c)
       | SETLINEAR j \<Rightarrow>
           (if FLAG_AUDIO \<in> chan_flags c then done (0, if j \<noteq> 0 then set_flag FLAG_LINEAR c else clear_flag FLAG_LINEAR c)
            else Some (Done (- EINVAL), y))
       | SETCADENCE arg \<Rightarrow> done (ioctl_setcadence (y_tones y) arg c)
       | _ \<Rightarrow>
           Some (case common_ioctl r n cmd y of (a, z) \<Rightarrow>
             (if a = Done (- ENOTTY) \<and> chan_span c \<noteq> None then (case rq_board r of Some res \<Rightarrow> Done res | None \<Rightarrow> a) else a, z))))"

definition chan_ioctl :: "req_env \<Rightarrow> int \<Rightarrow> chan_cmd \<Rightarrow> 'a chan_audio_scheme dahdi_sys \<Rightarrow>
    (answer \<times> 'a chan_audio_scheme dahdi_sys) option" where
  "chan_ioctl r n cmd y = (case y_chan n y of
     None \<Rightarrow> Some (Done (- ENOSYS), y)
   | Some c \<Rightarrow>
      (let put = (\<lambda>(a, c). Some (a, y_put n c y)); done = (\<lambda>(res, c). Some (Done res, y_put n c y));
           flag = (\<lambda>f j. Some (Done 0, y_put n (if j \<noteq> (0::int) then set_flag f c else clear_flag f c) y));
           echo = (\<lambda>(res, c, e). Some (Done res, y_put n c (y\<lparr>y_echo := e\<rparr>))) in
       case cmd of
         SETSIGFREEZE j \<Rightarrow> flag FLAG_SIGFREEZE j
       | GETSIGFREEZE \<Rightarrow> Some (Value (of_bool (FLAG_SIGFREEZE \<in> chan_flags c)), y)
       | AUDIOMODE j \<Rightarrow> ioctl_audiomode n j c y
       | HDLCPPP j \<Rightarrow> Some (Done (- ENOSYS), y)
       | HDLCRAWMODE j \<Rightarrow> put (ioctl_hdlcmode False j c)
       | HDLCFCSMODE j \<Rightarrow> put (ioctl_hdlcmode True j c)
       | HDLC_RATE j \<Rightarrow> put (ioctl_hdlcrate j c)
       | ECHOCANCEL_PARAMS arg \<Rightarrow>
           (if FLAG_AUDIO \<notin> chan_flags c then Some (Done (- EINVAL), y)
            else case arg of None \<Rightarrow> Some (Done (- EFAULT), y)
            | Some (taps, count, ps) \<Rightarrow> echo (ioctl_echocancel (rq_alloc r) (rq_deftaps r) taps count ps c (y_echo y)))
       | ECHOCANCEL j \<Rightarrow>
           (if FLAG_AUDIO \<notin> chan_flags c then Some (Done (- EINVAL), y)
            else echo (ioctl_echocancel (rq_alloc r) (rq_deftaps r) j 0 (Some []) c (y_echo y)))
       | ECHOTRAIN j \<Rightarrow> done (ioctl_echotrain j c)
       | ECHOCANCEL_FAX_MODE j \<Rightarrow> done (ioctl_fax_mode j c)
       | SETTXBITS j \<Rightarrow> (if sig c \<noteq> SIG_CAS then Some (Done (- EINVAL), y) else done (0, snd (cas_setbits j c)))
       | GETRXBITS \<Rightarrow> Some (Value (rxsig c), y)
       | LOOPBACK j \<Rightarrow> flag FLAG_LOOPED j
       | HOOK j \<Rightarrow> put (ioctl_hook (rq_nonblock r) j c)
       | BUFFER_EVENTS arg \<Rightarrow> (case arg of None \<Rightarrow> Some (Done (- EFAULT), y) | Some j \<Rightarrow> flag FLAG_BUFEVENTS j)
       | _ \<Rightarrow> chanandpseudo_ioctl r n cmd y))"

end
