(* ===== verification/RequestProps.thy ===== *)
theory RequestProps
  imports Requests
begin

text \<open>
  Single requests of \<^theory_text>\<open>Requests\<close>: polling against reading and writing, gains and times that are
  read back, and the timing of a wink and a flash.
\<close>

section \<open>Polling tells the truth\<close>

text \<open>C36. \<open>poll\<close> tells the truth: a read or a write that could wait sleeps exactly when \<open>poll\<close> reports neither
  that direction nor an event, so a program that only acts on what \<open>poll\<close> reports never blocks.\<close>

theorem poll_matches_io:
  assumes "0 < count mod 65536"
  shows "((\<exists>d. chan_read uok False count c = Some (Sleep, d)) \<longleftrightarrow> chan_poll c AND (POLLIN OR POLLPRI) = 0) \<and>
    ((\<exists>d. chan_write ppp_fcs uok False count usr c = Some (Sleep, d)) \<longleftrightarrow> chan_poll c AND (POLLOUT OR POLLPRI) = 0)"
proof
  have p: "chan_poll c AND (POLLIN OR POLLPRI) = 0 \<longleftrightarrow> outreadbuf c < 0 \<and> eventinidx c = eventoutidx c"
    "chan_poll c AND (POLLOUT OR POLLPRI) = 0 \<longleftrightarrow> inwritebuf c < 0 \<and> eventinidx c = eventoutidx c"
    by (simp_all add: chan_poll_def)
  show "(\<exists>d. chan_read uok False count c = Some (Sleep, d)) \<longleftrightarrow> chan_poll c AND (POLLIN OR POLLPRI) = 0"
    unfolding p chan_read_def Let_def using assms by (auto split: option.splits)
  have s: "eventinidx (write_stops_tone c) = eventinidx c" "eventoutidx (write_stops_tone c) = eventoutidx c"
    "inwritebuf (write_stops_tone c) = inwritebuf c" by (simp_all add: write_stops_tone_def)
  show "(\<exists>d. chan_write ppp_fcs uok False count usr c = Some (Sleep, d)) \<longleftrightarrow> chan_poll c AND (POLLOUT OR POLLPRI) = 0"
    unfolding p chan_write_def Let_def using assms by (auto simp: s)
qed

theorem poll_matches_io_witness:
  "(\<exists>d. chan_read True False 16 (rx_demo {}) = Some (Sleep, d)) \<and> \<not> (\<exists>d. chan_write (\<lambda>f b. f) True False 16 [] (rx_demo {}) = Some (Sleep, d))"
proof -
  have "chan_poll (rx_demo {}) = POLLOUT"
    by (simp add: chan_poll_def rx_demo_def reallocbufs_def buf_demo_chan_def chan_tone.extend_def chan_rbs.extend_def
        tone_demo_chan_def rbs_demo_chan_def Let_def)
  with poll_matches_io [of 16 True "rx_demo {}" "\<lambda>f b. f" "[]"] show ?thesis by simp
qed

section \<open>Gains and parameters come back\<close>

lemma w_lookup_of: "numbering w \<Longrightarrow> c \<in> set (w_chans w) \<Longrightarrow> w_lookup w (channo c) = Some c"
  using y_chan_of [of "\<lparr>y_world = w, y_tones = undefined, y_echo = undefined, y_files = undefined, y_owner = undefined\<rparr>" c]
  by (simp add: y_chan_def)

lemma w_lookup_member: "numbering w \<Longrightarrow> 0 \<le> n \<Longrightarrow> n < 2 ^ 31 \<Longrightarrow> w_lookup w n = Some c \<Longrightarrow> c \<in> set (w_chans w) \<and> channo c = n"
  using y_chan_member [of "\<lparr>y_world = w, y_tones = undefined, y_echo = undefined, y_files = undefined, y_owner = undefined\<rparr>" n c]
  by (simp add: y_chan_def)

lemma w_lookup_update:
  assumes "numbering w" and "c \<in> set (w_chans w)" and "channo c = n" and "\<And>d. channo d = n \<Longrightarrow> channo (f d) = n"
  shows "w_lookup (w_update n f w) n = Some (f c) \<and> numbering (w_update n f w)"
proof -
  have ok: "numbering (w_update n f w)" using numbers_update [of w n f] assms(1,4) numbering_numbers by blast
  have "f c \<in> set (w_chans (w_update n f w))" using assms(2,3) by (auto simp: at_chan_def intro: rev_image_eqI)
  from w_lookup_of [OF ok this] ok assms(3) assms(4) [OF assms(3)] show ?thesis by simp
qed

lemma others_update: "(\<And>d. channo d = n \<Longrightarrow> channo (f d) = n) \<Longrightarrow>
    filter (\<lambda>d. channo d \<noteq> n) (w_chans (w_update n f w)) = filter (\<lambda>d. channo d \<noteq> n) (w_chans w)"
proof -
  assume f: "\<And>d. channo d = n \<Longrightarrow> channo (f d) = n"
  have "filter (\<lambda>d. channo d \<noteq> n) (map (at_chan n f) cs) = filter (\<lambda>d. channo d \<noteq> n) cs" for cs
    by (induction cs) (simp_all add: at_chan_def f)
  then show ?thesis by simp
qed

definition in_range :: "int \<Rightarrow> bool" where
  "in_range n \<longleftrightarrow> 0 \<le> n \<and> n < 2 ^ 31"

lemma named_chan_member:
  assumes "numbering w" and "\<forall>k. file = Some k \<longrightarrow> in_range k" and "in_range n" and "named_chan file n w = Some c"
  shows "c \<in> set (w_chans w)"
  using assms w_lookup_member [OF assms(1)] by (auto simp: named_chan_def in_range_def bind_eq_Some_conv split: if_splits)

lemma named_chan_update:
  assumes "numbering w" and "\<forall>k. file = Some k \<longrightarrow> in_range k" and "in_range n" and "named_chan file n w = Some c"
    and "\<And>d. channo d = channo c \<Longrightarrow> channo (f d) = channo c"
  shows "named_chan file n (w_update (channo c) f w) = Some (f c)"
proof -
  note m = named_chan_member [OF assms(1-4)]
  have "w_lookup w k = Some c \<Longrightarrow> in_range k \<Longrightarrow> channo c = k" for k using w_lookup_member [OF assms(1)] by (auto simp: in_range_def)
  with assms(2-4) w_lookup_update [OF assms(1) m refl assms(5)] show ?thesis
    by (auto simp: named_chan_def bind_eq_Some_conv split: if_splits)
qed

lemma set_gains_sel [simp]:
  "channo (set_gains rx tx c) = channo c" "chan_flags (set_gains rx tx c) = chan_flags c"
  "gain_of (rxgain (set_gains rx tx c)) = rx" "gain_of (txgain (set_gains rx tx c)) = tx"
  by (auto simp: set_gains_def gain_of_def)

text \<open>C37. Gain tables that were set are read back as they were set, by number or through the file, and no other
  channel changes.\<close>

theorem gains_round_trip:
  assumes "numbering w" and "\<forall>k. file = Some k \<longrightarrow> in_range k" and "in_range (g_chan g)"
    and "ioctl_setgains alloc1 alloc2 uout file (Some g) w = (r, g', w')" and "r = 0"
  shows "\<exists>c \<in> set (w_chans w). named_chan file (g_chan g) w = Some c \<and>
    ioctl_getgains True True file (Some \<lparr>g_chan = g_chan g, g_rxgain = x, g_txgain = y\<rparr>) w' = (0, Some (g\<lparr>g_chan := channo c\<rparr>)) \<and>
    filter (\<lambda>d. channo d \<noteq> channo c) (w_chans w') = filter (\<lambda>d. channo d \<noteq> channo c) (w_chans w)"
proof -
  let ?f = "set_gains (g_rxgain g) (g_txgain g)"
  obtain c where c: "named_chan file (g_chan g) w = Some c" "FLAG_AUDIO \<in> chan_flags c" "w' = w_update (channo c) ?f w"
    using assms(4,5) by (auto simp: ioctl_setgains_def Let_def split: if_splits option.splits)
  note m = named_chan_member [OF assms(1-3) c(1)]
  have "named_chan file (g_chan g) w' = Some (?f c)" unfolding c(3) by (rule named_chan_update [OF assms(1-3) c(1)]) simp
  with c(2) have "ioctl_getgains True True file (Some \<lparr>g_chan = g_chan g, g_rxgain = x, g_txgain = y\<rparr>) w' = (0, Some (g\<lparr>g_chan := channo c\<rparr>))"
    by (simp add: ioctl_getgains_def)
  moreover have "filter (\<lambda>d. channo d \<noteq> channo c) (w_chans w') = filter (\<lambda>d. channo d \<noteq> channo c) (w_chans w)"
    unfolding c(3) by (rule others_update) simp
  ultimately show ?thesis using m c(1) by blast
qed

lemma set_times_sel [simp]:
  "channo (set_times p c) = channo c" "times_of (set_times p c) = p" "sig (set_times p c) = sig c"
  "idlebits (set_times p c) = idlebits c" "rxsig (set_times p c) = rxsig c" "rxhooksig (set_times p c) = rxhooksig c"
  "txstate (set_times p c) = txstate c" "chan_span (set_times p c) = chan_span c"
  by (simp_all add: set_times_def times_of_def Let_def)

lemma rx_is_offhook_times: "rx_is_offhook (set_times p c) = rx_is_offhook c"
  unfolding rx_is_offhook_def dahdi_q_sig_def set_times_sel ..

lemma file_or_chan_member:
  assumes "numbering w" and "\<forall>k. file = Some k \<longrightarrow> in_range k" and "in_range n" and "file_or_chan file n w = Some c"
  shows "c \<in> set (w_chans w)"
  using assms w_lookup_member [OF assms(1)] by (auto simp: file_or_chan_def in_range_def bind_eq_Some_conv split: option.splits)

lemma w_lookup_None: "numbering w \<Longrightarrow> in_range k \<Longrightarrow> w_lookup w k = None \<longleftrightarrow> k \<notin> channo ` set (w_chans w)"
  using y_chan_find [of "\<lparr>y_world = w, y_tones = undefined, y_echo = undefined, y_files = undefined, y_owner = undefined\<rparr>" k]
  by (auto simp: y_chan_def in_range_def find_None_iff)

lemma update_channos: "(\<And>d. channo d = n \<Longrightarrow> channo (f d) = n) \<Longrightarrow> channo ` set (w_chans (w_update n f w)) = channo ` set (w_chans w)"
proof -
  assume "\<And>d. channo d = n \<Longrightarrow> channo (f d) = n"
  then have "channo (at_chan n f d) = channo d" for d by (simp add: at_chan_def)
  then show ?thesis by (simp add: image_image)
qed

lemma file_or_chan_update:
  assumes "numbering w" and "\<forall>k. file = Some k \<longrightarrow> in_range k" and "in_range n" and "file_or_chan file n w = Some c"
    and f: "\<And>d. channo d = channo c \<Longrightarrow> channo (f d) = channo c"
  shows "file_or_chan file n (w_update (channo c) f w) = Some (f c)"
proof -
  note m = file_or_chan_member [OF assms(1-4)]
  note u = w_lookup_update [OF assms(1) m refl f]
  have n: "w_lookup (w_update (channo c) f w) k = None \<longleftrightarrow> w_lookup w k = None" if "in_range k" for k
    using w_lookup_None [OF assms(1) that] w_lookup_None [OF conjunct2 [OF u] that] update_channos [OF f] by simp
  have h: "w_lookup (w_update (channo c) f w) k = Some (f c)" if "in_range k" "w_lookup w k = Some c" for k
    using u w_lookup_member [OF assms(1), of k c] that by (simp add: in_range_def)
  show ?thesis
  proof (cases "Option.bind file (w_lookup w)")
    case None
    then have "w_lookup w n = Some c" using assms(4) by (simp add: file_or_chan_def)
    moreover have "Option.bind file (w_lookup (w_update (channo c) f w)) = None"
      using None n assms(2) by (cases "file") auto
    ultimately show ?thesis using h [OF assms(3)] by (simp add: file_or_chan_def)
  next
    case (Some d)
    then have "\<exists>k. file = Some k \<and> w_lookup w k = Some c" using assms(4) by (auto simp: file_or_chan_def bind_eq_Some_conv)
    then show ?thesis using h assms(2) by (auto simp: file_or_chan_def)
  qed
qed

text \<open>C38. Times that were set are read back as they were set, whichever way the channel is named, and no other channel changes;
  without a tone zone the first ring lasts for the new start time.\<close>

theorem params_round_trip:
  assumes "numbering w" and "\<forall>k. file = Some k \<longrightarrow> in_range k" and "in_range n" and "n AND RETURN_MASTER = 0"
    and "ioctl_setparams file (Some (n, p)) w = (0, w')"
  shows "\<exists>c \<in> set (w_chans w). \<exists>q. ioctl_getparams True file (Some n) w' = (0, Some q) \<and>
    pr_times q = p \<and> pr_channo q = channo c \<and> pr_sigtype q = sig c \<and> pr_rxisoffhook q = rx_is_offhook c \<and>
    filter (\<lambda>d. channo d \<noteq> channo c) (w_chans w') = filter (\<lambda>d. channo d \<noteq> channo c) (w_chans w) \<and>
    (curzone c = None \<longrightarrow> ringcadence c \<noteq> [] \<longrightarrow> (\<exists>d \<in> set (w_chans w'). channo d = channo c \<and> ringcadence d ! 0 = pr_starttime p))"
proof -
  obtain c where c: "file_or_chan file n w = Some c" "w' = w_update (channo c) (set_times p) w"
    using assms(5) by (auto simp: ioctl_setparams_def split: option.splits)
  note m = file_or_chan_member [OF assms(1-3) c(1)]
  let ?q = "params_of False (set_times p c)"
  have "file_or_chan file n w' = Some (set_times p c)" unfolding c(2) by (rule file_or_chan_update [OF assms(1-3) c(1)]) simp
  then have g: "ioctl_getparams True file (Some n) w' = (0, Some ?q)" using assms(4) by (simp add: ioctl_getparams_def)
  have q: "pr_times ?q = p" "pr_channo ?q = channo c" "pr_sigtype ?q = sig c" by (simp_all add: params_of_def Let_def)
  have o: "pr_rxisoffhook ?q = rx_is_offhook c"
    by (simp add: params_of_def Let_def rx_is_offhook_times)
  have f: "filter (\<lambda>d. channo d \<noteq> channo c) (w_chans w') = filter (\<lambda>d. channo d \<noteq> channo c) (w_chans w)"
    unfolding c(2) by (rule others_update) simp
  have "set_times p c \<in> set (w_chans w')" using m by (auto simp: c(2) at_chan_def intro: rev_image_eqI)
  moreover have "curzone c = None \<longrightarrow> ringcadence c \<noteq> [] \<longrightarrow> ringcadence (set_times p c) ! 0 = pr_starttime p"
    by (simp add: set_times_def)
  ultimately have r: "curzone c = None \<longrightarrow> ringcadence c \<noteq> [] \<longrightarrow> (\<exists>d \<in> set (w_chans w'). channo d = channo c \<and> ringcadence d ! 0 = pr_starttime p)"
    by (auto intro!: bexI [of _ "set_times p c"])
  show ?thesis by (intro bexI [OF _ m] exI [of _ ?q] conjI g q o f r)
qed

lemma life_demo_lookup: "w_lookup (y_world life_demo) 1 = Some life_demo_chan"
  using w_lookup_of [OF life_demo_numbering, of life_demo_chan] by (simp add: life_demo_sel life_demo_chan_sel)

theorem gains_round_trip_witness:
  "\<exists>g' w'. ioctl_setgains True True True None (Some \<lparr>g_chan = 1, g_rxgain = replicate 256 7, g_txgain = defgain\<rparr>) (y_world life_demo) = (0, g', w') \<and>
     ioctl_getgains True True None (Some \<lparr>g_chan = 1, g_rxgain = [], g_txgain = []\<rparr>) w'
       = (0, Some \<lparr>g_chan = 1, g_rxgain = replicate 256 7, g_txgain = defgain\<rparr>)"
proof -
  let ?g = "\<lparr>g_chan = 1, g_rxgain = replicate 256 7, g_txgain = defgain\<rparr>"
  obtain g' w' where s: "ioctl_setgains True True True None (Some ?g) (y_world life_demo) = (0, g', w')"
    by (auto simp: ioctl_setgains_def named_chan_def life_demo_lookup life_demo_chan_sel Let_def)
  from gains_round_trip [OF life_demo_numbering _ _ s, of "[]" "[]"] show ?thesis
    using s by (auto simp: in_range_def life_demo_sel life_demo_chan_sel)
qed

definition demo_times :: dahdi_times where
  "demo_times = \<lparr>pr_prewinktime = 50, pr_preflashtime = 50, pr_winktime = 200, pr_flashtime = 500, pr_starttime = 1500,
     pr_rxwinktime = 300, pr_rxflashtime = 1250, pr_debouncetime = 600, pr_pulsebreaktime = 60, pr_pulsemaketime = 40, pr_pulseaftertime = 700\<rparr>"

theorem params_round_trip_witness:
  "\<exists>w' q. ioctl_setparams (Some 1) (Some (1, demo_times)) (y_world life_demo) = (0, w') \<and>
     ioctl_getparams True (Some 1) (Some 1) w' = (0, Some q) \<and> pr_times q = demo_times \<and> pr_channo q = 1"
proof -
  obtain w' where s: "ioctl_setparams (Some 1) (Some (1, demo_times)) (y_world life_demo) = (0, w')"
    by (auto simp: ioctl_setparams_def file_or_chan_def life_demo_lookup)
  have "1 AND RETURN_MASTER = (0 :: int)" by simp
  from params_round_trip [OF life_demo_numbering _ _ this s] show ?thesis
    using s by (auto simp: in_range_def life_demo_sel life_demo_chan_sel)
qed

section \<open>A wink and a flash\<close>

text \<open>Putting the line into the hook state that it already has.\<close>

lemma sethook_again:
  assumes "rbs_ready c" and "h = 0 \<or> h = 1"
  shows "txstate (rbs_sethook h st t c) = st" and "txhooksig (rbs_sethook h st t c) = h"
    and "otimer (rbs_sethook h st t c) = i32 (t * 8)" and "rbs_ready (rbs_sethook h st t c)"
proof -
  obtain s where s: "chan_span c = Some s" "FLAG_RBS \<in> span_flags s" "sig c \<noteq> SIG_DACS_RBS" "sig c \<noteq> SIG_SF"
    "op_hooksig (span_operations s) \<noteq> None \<or> op_rbsbits (span_operations s) \<noteq> None \<and> map_of outs (sig c) \<noteq> None"
    using assms(1) by (auto simp: rbs_ready_def split: option.splits)
  have eq: "rbs_sethook h st t c = sethook_driver h t (c\<lparr>txstate := st\<rparr>)" using s assms(2) by (auto simp: rbs_sethook_def)
  show "txstate (rbs_sethook h st t c) = st" "txhooksig (rbs_sethook h st t c) = h" "otimer (rbs_sethook h st t c) = i32 (t * 8)"
    unfolding eq using s by (auto simp: sethook_driver_def chan_op_def Let_def split: option.splits)
  show "rbs_ready (rbs_sethook h st t c)" using assms(1) by (auto simp: rbs_ready_def split: option.splits)
qed

lemma rbs_ready_cong: "chan_span c = chan_span d \<Longrightarrow> sig c = sig d \<Longrightarrow> rbs_ready c = rbs_ready d"
  by (auto simp: rbs_ready_def split: option.splits)

lemma sethook_times [simp]: "winktime (rbs_sethook h st t c) = winktime c" "flashtime (rbs_sethook h st t c) = flashtime c"
  by (auto simp: rbs_sethook_def sethook_sf_def sethook_driver_def set_txtone_def Let_def split: option.splits)

lemma hook_complete_sel [simp]:
  "txhooksig (hook_complete nb c) = txhooksig c" "txstate (hook_complete nb c) = txstate c" "otimer (hook_complete nb c) = otimer c"
  by (simp_all add: hook_complete_def qevent_def Let_def)

text \<open>A pulse of \<open>len\<close> chunks after \<open>pre\<close> chunks, between the line's idle hook state \<open>h\<close>.\<close>

lemma pulse_timed:
  fixes d :: "'a chan_tone_scheme"
  assumes d: "rbs_ready d" "txhooksig d = h" "otimer d = 8 * int pre" and h: "h = 0 \<or> h = 1" and t: "0 < pre" "0 < len" "len < 2 ^ 28"
    and first: "rbs_otimer_expire nb e (d\<lparr>otimer := 0\<rparr>) = Some (rbs_sethook (1 - h) mid (int len) (d\<lparr>otimer := 0\<rparr>))"
    and second: "\<And>x :: 'a chan_tone_scheme. txstate x = mid \<Longrightarrow> rbs_otimer_expire nb e (x\<lparr>otimer := 0\<rparr>) = Some (hook_complete nb (rbs_sethook h idle 0 (x\<lparr>otimer := 0\<rparr>)))"
  shows "\<exists>x. otimer_chunks k nb e d = Some x \<and> txhooksig x = (if pre \<le> k \<and> k < pre + len then 1 - h else h) \<and>
    (pre + len \<le> k \<longrightarrow> txstate x = idle \<and> otimer x = 0)"
proof -
  let ?m = "rbs_sethook (1 - h) mid (int len) (d\<lparr>otimer := 0\<rparr>)"
  let ?f = "hook_complete nb (rbs_sethook h idle 0 (?m\<lparr>otimer := 0\<rparr>))"
  have h': "1 - h = 0 \<or> 1 - h = 1" using h by auto
  have d0: "rbs_ready (d\<lparr>otimer := 0\<rparr>)" using d(1) rbs_ready_cong [of "d\<lparr>otimer := 0\<rparr>" d] by simp
  note m = sethook_again [OF d0 h', of mid "int len"]
  have m0: "rbs_ready (?m\<lparr>otimer := 0\<rparr>)" using m(4) rbs_ready_cong [of "?m\<lparr>otimer := 0\<rparr>" ?m] by simp
  have mt: "otimer ?m = 8 * int len" using m(3) t(3) by (simp add: i32_chunks)
  note f = sethook_again [OF m0 h, of idle 0]
  have ft: "otimer ?f = 0" using f(3) by (simp add: i32_def)
  have c1: "otimer_chunks pre nb e d = Some ?m" using otimer_expires [OF d(3) t(1)] first by simp
  have c2: "otimer_chunks len nb e ?m = Some ?f" using otimer_expires [OF mt t(2), of nb e] second [OF m(1)] by simp
  consider "k < pre" | "pre \<le> k" "k < pre + len" | "pre + len \<le> k" by linarith
  then show ?thesis
  proof cases
    case 1
    with otimer_runs [OF d(3) 1, of nb e] d(2) show ?thesis by simp
  next
    case 2
    then obtain j where j: "k = pre + j" "j < len" by (metis add_less_cancel_left le_Suc_ex)
    with otimer_runs [OF mt j(2), of nb e] c1 m(2) show ?thesis by (simp add: otimer_chunks_add)
  next
    case 3
    then obtain j where j: "k = pre + (len + j)" by (metis add.assoc le_Suc_ex)
    have "otimer_chunks k nb e d = otimer_chunks j nb e ?f" unfolding j otimer_chunks_add c1 by (simp add: otimer_chunks_add c2)
    also have "\<dots> = Some ?f" by (rule otimer_idle [OF ft])
    finally show ?thesis using 3 f(1,2) ft by simp
  qed
qed

lemma stop_dialing_rbs [simp]:
  "rbs_ready (stop_dialing c) \<longleftrightarrow> rbs_ready c" "txstate (stop_dialing c) = txstate c" "txhooksig (stop_dialing c) = txhooksig c"
  "prewinktime (stop_dialing c) = prewinktime c" "preflashtime (stop_dialing c) = preflashtime c"
  "winktime (stop_dialing c) = winktime c" "flashtime (stop_dialing c) = flashtime c"
proof -
  show "rbs_ready (stop_dialing c) \<longleftrightarrow> rbs_ready c" by (rule rbs_ready_cong) (simp_all add: stop_dialing_def)
qed (simp_all add: stop_dialing_def)

text \<open>C39. A wink takes the line off hook, and a flash puts it on hook, for exactly the time that is set, after exactly the lead time that
  is set, whatever the signalling of the board, and leaves it in the state that it had; meanwhile the caller waits
  or is told that the operation is in progress.\<close>

theorem wink_and_flash_are_timed:
  assumes "rbs_ready c" and "FLAG_CLEAR \<notin> chan_flags c" and "sig c \<noteq> SIG_CAS"
    and what: "j = HOOK_WINK \<and> h = 0 \<and> idle = TXSTATE_ONHOOK \<and> pre = prewinktime c \<and> len = winktime c \<or>
      j = HOOK_FLASH \<and> h = 1 \<and> idle = TXSTATE_OFFHOOK \<and> pre = preflashtime c \<and> len = flashtime c"
    and "txstate c = idle" and "txhooksig c = h" and "0 < pre" and "pre < 2 ^ 28" and "0 < len" and "len < 2 ^ 28"
    and r: "ioctl_hook nonblock j c = (a, d)"
  shows "a = (if nonblock then Done (- EINPROGRESS) else Wait) \<and>
    (\<forall>k. \<exists>x. otimer_chunks k nonblock e d = Some x \<and> txhooksig x = (if pre \<le> int k \<and> int k < pre + len then 1 - h else h) \<and>
       (pre + len \<le> int k \<longrightarrow> txstate x = idle \<and> otimer x = 0))"
proof -
  obtain s where s: "chan_span c = Some s" "FLAG_RBS \<in> span_flags s" using assms(1) by (auto simp: rbs_ready_def split: option.splits)
  let ?st = "if j = HOOK_WINK then TXSTATE_PREWINK else TXSTATE_PREFLASH" and ?mid = "if j = HOOK_WINK then TXSTATE_WINK else TXSTATE_FLASH"
  have h: "h = 0 \<or> h = 1" using what by auto
  have ad: "a = (if nonblock then Done (- EINPROGRESS) else Wait)" "d = rbs_sethook h ?st pre (stop_dialing c)"
    using r assms(2,3,5) s what by (auto simp: ioctl_hook_def hook_rbs_def)
  have rc: "rbs_ready (stop_dialing c)" using assms(1) by simp
  note sd = sethook_again [OF rc h, of ?st pre]
  have d1: "rbs_ready d" "txhooksig d = h" "otimer d = 8 * int (nat pre)" "txstate d = ?st"
    using sd assms(7,8) by (simp_all add: ad(2) i32_chunks)
  have lt: "int (nat len) = len" "nat len < 2 ^ 28" using assms(9,10) by simp_all
  have w: "j = HOOK_WINK \<Longrightarrow> winktime d = len" "j = HOOK_FLASH \<Longrightarrow> flashtime d = len" using what by (auto simp: ad(2))
  have first: "rbs_otimer_expire nonblock e (d\<lparr>otimer := 0\<rparr>) = Some (rbs_sethook (1 - h) ?mid (int (nat len)) (d\<lparr>otimer := 0\<rparr>))"
    using d1(4) w what lt(1) by (auto simp: rbs_otimer_expire_def Let_def)
  have second: "rbs_otimer_expire nonblock e (x\<lparr>otimer := 0\<rparr>) = Some (hook_complete nonblock (rbs_sethook h idle 0 (x\<lparr>otimer := 0\<rparr>)))"
    if "txstate x = ?mid" for x :: "'a chan_buf_scheme"
    using that what by (auto simp: rbs_otimer_expire_def Let_def)
  have "\<exists>x. otimer_chunks k nonblock e d = Some x \<and> txhooksig x = (if pre \<le> int k \<and> int k < pre + len then 1 - h else h) \<and>
       (pre + len \<le> int k \<longrightarrow> txstate x = idle \<and> otimer x = 0)" for k
  proof -
    have "(nat pre \<le> k \<and> k < nat pre + nat len) = (pre \<le> int k \<and> int k < pre + len)" "(nat pre + nat len \<le> k) = (pre + len \<le> int k)"
      using assms(7,9) by linarith+
    moreover have "0 < nat pre" "0 < nat len" using assms(7,9) by simp_all
    ultimately show ?thesis using pulse_timed [OF d1(1-3) h _ _ lt(2) first second, of k] by metis
  qed
  with ad(1) show ?thesis by blast
qed

text \<open>Without a lead time the timer is never started, and the line stays in the first state for good.\<close>

lemma wink_without_lead_time:
  assumes "rbs_ready c" and "FLAG_CLEAR \<notin> chan_flags c" and "sig c \<noteq> SIG_CAS" and "txstate c = TXSTATE_ONHOOK" and "prewinktime c = 0"
  shows "\<exists>d. ioctl_hook nonblock HOOK_WINK c = (if nonblock then Done (- EINPROGRESS) else Wait, d) \<and>
    (\<forall>k. otimer_chunks k nonblock e d = Some d) \<and> txstate d = TXSTATE_PREWINK"
proof -
  obtain s where s: "chan_span c = Some s" "FLAG_RBS \<in> span_flags s" using assms(1) by (auto simp: rbs_ready_def split: option.splits)
  let ?d = "rbs_sethook TXSIG_ONHOOK TXSTATE_PREWINK 0 (stop_dialing c)"
  have r: "ioctl_hook nonblock HOOK_WINK c = (if nonblock then Done (- EINPROGRESS) else Wait, ?d)"
    using assms s by (simp add: ioctl_hook_def hook_rbs_def)
  have rc: "rbs_ready (stop_dialing c)" using assms(1) by simp
  note d = sethook_again [OF rc, of 0 TXSTATE_PREWINK 0]
  have "otimer ?d = 0" using d(3) by (simp add: i32_def)
  with r d(1) otimer_idle show ?thesis by blast
qed


definition wink_demo_chan :: chan_open where
  "wink_demo_chan = life_demo_chan\<lparr>prewinktime := 2, winktime := 3, txstate := TXSTATE_ONHOOK, txhooksig := 0\<rparr>"

theorem wink_and_flash_are_timed_witness:
  "\<exists>d. ioctl_hook True HOOK_WINK wink_demo_chan = (Done (- EINPROGRESS), d) \<and>
     (\<exists>x. otimer_chunks 1 True no_zones d = Some x \<and> txhooksig x = 0) \<and> (\<exists>x. otimer_chunks 2 True no_zones d = Some x \<and> txhooksig x = 1) \<and>
     (\<exists>x. otimer_chunks 5 True no_zones d = Some x \<and> txhooksig x = 0 \<and> txstate x = TXSTATE_ONHOOK)"
proof -
  let ?c = wink_demo_chan
  have c: "chan_span ?c = Some hook_span" "sig ?c = SIG_FXOKS" "chan_flags ?c = {FLAG_REGISTERED, FLAG_AUDIO}" "txstate ?c = TXSTATE_ONHOOK"
    "txhooksig ?c = 0" "prewinktime ?c = 2" "winktime ?c = 3"
    by (simp_all add: wink_demo_chan_def life_demo_chan_sel)
  have rc: "rbs_ready ?c" by (simp add: rbs_ready_def c hook_span_def)
  obtain a d where r: "ioctl_hook True HOOK_WINK ?c = (a, d)" by fastforce
  have w: "a = Done (- EINPROGRESS) \<and> (\<forall>k. \<exists>x. otimer_chunks k True no_zones d = Some x \<and>
      txhooksig x = (if 2 \<le> int k \<and> int k < 2 + 3 then 1 - 0 else 0) \<and> (2 + 3 \<le> int k \<longrightarrow> txstate x = TXSTATE_ONHOOK \<and> otimer x = 0))"
    using wink_and_flash_are_timed [OF rc _ _ _ _ _ _ _ _ _ r, of 0 TXSTATE_ONHOOK 2 3 no_zones] by (simp add: c)
  from w [THEN conjunct2, rule_format, of 1] w [THEN conjunct2, rule_format, of 2] w [THEN conjunct2, rule_format, of 5] r w
  show ?thesis by auto
qed

end
