(* ===== verification/RequestInv.thy ===== *)
theory RequestInv
  imports RequestProps
begin

text \<open>
  All requests of \<^theory_text>\<open>Requests\<close> together: each keeps the buffers and the event queue of every channel
  sound, and leaves numbers and handles alone.
\<close>

section \<open>Channels stay sound\<close>

definition bufs_ok :: "'a chan_buf_scheme \<Rightarrow> bool" where
  "bufs_ok c \<longleftrightarrow> rx_inv c \<and> tx_ok c \<and> length (readn c) = 32 \<and> length (readidx c) = 32 \<and> length (writen c) = 32 \<and> length (writeidx c) = 32"

definition chan_sound :: "'a chan_buf_scheme \<Rightarrow> bool" where
  "chan_sound c \<longleftrightarrow> ev_inv c \<and> (FLAG_OPEN \<in> chan_flags c \<longrightarrow> bufs_ok c)"

definition buf_view :: "'a chan_buf_scheme \<Rightarrow> (u8 list list option \<times> int \<times> int \<times> int list \<times> int list) \<times>
    (u8 list list option \<times> int \<times> int \<times> int list \<times> int list) \<times> int \<times> int" where
  "buf_view c = ((readbuf c, inreadbuf c, outreadbuf c, readn c, readidx c), (writebuf c, inwritebuf c, outwritebuf c, writen c, writeidx c),
     blocksize c, numbufs c)"

lemma buf_viewD:
  assumes "buf_view c = buf_view d"
  shows "readbuf c = readbuf d" "inreadbuf c = inreadbuf d" "outreadbuf c = outreadbuf d" "readn c = readn d" "readidx c = readidx d"
    "writebuf c = writebuf d" "inwritebuf c = inwritebuf d" "outwritebuf c = outwritebuf d" "writen c = writen d" "writeidx c = writeidx d"
    "blocksize c = blocksize d" "numbufs c = numbufs d"
  using assms by (simp_all add: buf_view_def)

lemma bufs_ok_view: "buf_view c = buf_view d \<Longrightarrow> bufs_ok c = bufs_ok d"
  using buf_viewD [of c d]
  by (simp add: bufs_ok_def rx_inv_def rx_ok_def rx_slot_ok_def rx_idx_def tx_ok_def tx_slot_ok_def)

text \<open>Cleared buffers are sound.\<close>

lemma bufs_cleared:
  assumes "bufs_ok c" and "blocksize d = blocksize c" and "numbufs d = numbufs c"
    and r: "readbuf d = readbuf c" "readn d = fill_0 (numbufs c) (readn c)" "readidx d = fill_0 (numbufs c) (readidx c)" "inreadbuf d = 0" "outreadbuf d = -1"
  shows "rx_inv d \<and> length (readn d) = 32 \<and> length (readidx d) = 32"
proof -
  from assms(1) have ok: "rx_ok c" and l: "length (readn c) = 32" "length (readidx c) = 32" by (simp_all add: bufs_ok_def rx_inv_def)
  from ok have n: "2 \<le> numbufs c" "nat (numbufs c) \<le> 32" "0 < blocksize c" using l by (auto simp: rx_ok_def ring_inv_def)
  have z: "readn d ! s = 0" "readidx d ! s = 0" if "s < nat (numbufs c)" for s using that n l by (simp_all add: r fill_0_nth)
  have "rx_slot_ok d s" if "s < nat (numbufs c)" for s
  proof -
    have "length (rx_bufs c ! s) = nat (blocksize c)" using ok that unfolding rx_ok_def rx_slot_ok_def by blast
    with z [OF that] n show ?thesis by (simp add: rx_slot_ok_def r(1) assms(2))
  qed
  with ok n l have "rx_ok d" unfolding rx_ok_def ring_inv_def r assms(2,3) by simp
  moreover have "rx_idx d < blocksize d" using z(2) [of 0] n by (simp add: rx_idx_def r(4) assms(2))
  ultimately show ?thesis using l by (simp add: rx_inv_def r)
qed

lemma bufs_cleared_tx:
  assumes "bufs_ok c" and "blocksize d = blocksize c" and "numbufs d = numbufs c"
    and r: "writebuf d = writebuf c" "writen d = fill_0 (numbufs c) (writen c)" "writeidx d = fill_0 (numbufs c) (writeidx c)" "inwritebuf d = 0" "outwritebuf d = -1"
  shows "tx_ok d \<and> length (writen d) = 32 \<and> length (writeidx d) = 32"
proof -
  from assms(1) have ok: "tx_ok c" and l: "length (writen c) = 32" "length (writeidx c) = 32" by (simp_all add: bufs_ok_def)
  from ok have n: "2 \<le> numbufs c" "nat (numbufs c) \<le> 32" "0 < blocksize c" using l by (auto simp: tx_ok_def ring_inv_def)
  have z: "writen d ! s = 0" "writeidx d ! s = 0" if "s < nat (numbufs c)" for s using that n l by (simp_all add: r fill_0_nth)
  have "tx_slot_ok d s" if "s < nat (numbufs c)" for s
  proof -
    have "length (tx_bufs c ! s) = nat (blocksize c)" using ok that unfolding tx_ok_def tx_slot_ok_def by blast
    with z [OF that] n show ?thesis by (simp add: tx_slot_ok_def r(1) assms(2))
  qed
  with ok n l have "tx_ok d" unfolding tx_ok_def ring_inv_def r assms(2,3) by simp
  with l show ?thesis by (simp add: r)
qed

text \<open>An operation keeps a channel: the same channel, and sound when it was.\<close>

definition keeps :: "'a chan_open_scheme \<Rightarrow> 'a chan_open_scheme \<Rightarrow> bool" where
  "keeps c d \<longleftrightarrow> chan_view d = chan_view c \<and> (chan_sound c \<longrightarrow> chan_sound d)"

lemma keeps_refl [simp]: "keeps c c"
  by (simp add: keeps_def)

lemma keeps_trans: "keeps c d \<Longrightarrow> keeps d e \<Longrightarrow> keeps c e"
  by (simp add: keeps_def)

lemma keeps_view:
  assumes "chan_view d = chan_view c" and "buf_view d = buf_view c" and "ev_inv c \<Longrightarrow> ev_inv d"
  shows "keeps c d"
  using assms bufs_ok_view [of d c] by (auto simp: keeps_def chan_sound_def chan_view_def)

lemma ev_inv_same: "eventbuf d = eventbuf c \<Longrightarrow> eventinidx d = eventinidx c \<Longrightarrow> eventoutidx d = eventoutidx c \<Longrightarrow> ev_inv c \<Longrightarrow> ev_inv d"
  by (simp add: ev_inv_def)

lemma keeps_all:
  assumes "chan_view d = chan_view c" and "buf_view d = buf_view c" and "eventbuf d = eventbuf c" and "eventinidx d = eventinidx c" and "eventoutidx d = eventoutidx c"
  shows "keeps c d"
  using assms by (intro keeps_view) (simp_all add: ev_inv_def)

lemma qevent_views: "chan_view (qevent c e) = chan_view c" "buf_view (qevent c e) = buf_view c"
  by (simp_all add: chan_view_def buf_view_def qevent_def Let_def)

lemma keeps_qevent: "keeps c (qevent c e)"
  by (rule keeps_view) (simp_all add: qevent_views qevent_inv)

lemma sethook_buf: "buf_view (rbs_sethook h st t c) = buf_view c"
  by (auto simp: rbs_sethook_def sethook_sf_def sethook_driver_def set_txtone_def buf_view_def Let_def split: option.splits)

lemma keeps_sethook: "keeps c (rbs_sethook h st t c)"
  by (rule keeps_all) (simp_all add: sethook_buf sethook_view)

lemma cas_setbits_buf: "buf_view (snd (cas_setbits b c)) = buf_view c" "eventbuf (snd (cas_setbits b c)) = eventbuf c"
  "eventinidx (snd (cas_setbits b c)) = eventinidx c" "eventoutidx (snd (cas_setbits b c)) = eventoutidx c"
  by (simp_all add: cas_setbits_def buf_view_def split: option.split)

lemma keeps_cas: "keeps c (snd (cas_setbits b c))"
  by (rule keeps_all) (simp_all add: cas_setbits_buf sethook_view)

lemma keeps_realloc:
  assumes "reallocbufs alloc b n c = (r, d)" and "0 < b"
  shows "keeps c d"
proof (cases alloc)
  case False
  with assms show ?thesis by (auto simp: reallocbufs_def Let_def split: if_splits)
next
  case True
  have e: "ev_inv c \<Longrightarrow> ev_inv d" "chan_flags d = chan_flags c" "length (readn d) = length (readn c)" "length (readidx d) = length (readidx c)"
    "length (writen d) = length (writen c)" "length (writeidx d) = length (writeidx c)"
    using assms by (auto simp: reallocbufs_def Let_def ev_inv_def split: if_splits)
  have "bufs_ok d" if "bufs_ok c"
    using reallocbufs_rx(2) [of b n c r d] reallocbufs_tx(1) [of b n c r d] that assms True e by (simp add: bufs_ok_def)
  with e(1,2) chan_view_reallocbufs [OF assms(1)] show ?thesis by (simp add: keeps_def chan_sound_def)
qed

section \<open>Each handler keeps its channel\<close>

lemma tone_updates_views:
  "chan_view (c\<lparr>curtone := x1\<rparr>) = chan_view c" "chan_view (c\<lparr>dialing := x2\<rparr>) = chan_view c" "chan_view (c\<lparr>txdialbuf := x3\<rparr>) = chan_view c"
  "chan_view (c\<lparr>tonep := x4\<rparr>) = chan_view c" "chan_view (c\<lparr>pdialcount := x5\<rparr>) = chan_view c" "chan_view (c\<lparr>digitmode := x6\<rparr>) = chan_view c"
  "chan_view (c\<lparr>ts := x7\<rparr>) = chan_view c" "chan_view (c\<lparr>curzone := x8\<rparr>) = chan_view c" "chan_view (c\<lparr>ringcadence := x9\<rparr>) = chan_view c"
  "chan_view (c\<lparr>firstcadencepos := y1\<rparr>) = chan_view c" "chan_view (c\<lparr>cadencepos := y2\<rparr>) = chan_view c"
  "buf_view (c\<lparr>curtone := x1\<rparr>) = buf_view c" "buf_view (c\<lparr>dialing := x2\<rparr>) = buf_view c" "buf_view (c\<lparr>txdialbuf := x3\<rparr>) = buf_view c"
  "buf_view (c\<lparr>tonep := x4\<rparr>) = buf_view c" "buf_view (c\<lparr>pdialcount := x5\<rparr>) = buf_view c" "buf_view (c\<lparr>digitmode := x6\<rparr>) = buf_view c"
  "buf_view (c\<lparr>ts := x7\<rparr>) = buf_view c" "buf_view (c\<lparr>curzone := x8\<rparr>) = buf_view c" "buf_view (c\<lparr>ringcadence := x9\<rparr>) = buf_view c"
  "buf_view (c\<lparr>firstcadencepos := y1\<rparr>) = buf_view c" "buf_view (c\<lparr>cadencepos := y2\<rparr>) = buf_view c"
  by (simp_all add: chan_view_def buf_view_def)

lemma keeps_tone:
  "keeps c (c\<lparr>curtone := x1\<rparr>)" "keeps c (c\<lparr>dialing := x2\<rparr>)" "keeps c (c\<lparr>txdialbuf := x3\<rparr>)" "keeps c (c\<lparr>tonep := x4\<rparr>)"
  "keeps c (c\<lparr>pdialcount := x5\<rparr>)" "keeps c (c\<lparr>digitmode := x6\<rparr>)" "keeps c (c\<lparr>ts := x7\<rparr>)" "keeps c (c\<lparr>curzone := x8\<rparr>)"
  "keeps c (c\<lparr>ringcadence := x9\<rparr>)" "keeps c (c\<lparr>firstcadencepos := y1\<rparr>)" "keeps c (c\<lparr>cadencepos := y2\<rparr>)"
  by (rule keeps_all; simp add: tone_updates_views)+

lemmas keeps_step = keeps_tone [THEN keeps_trans [rotated]] keeps_sethook [THEN keeps_trans [rotated]] keeps_qevent [THEN keeps_trans [rotated]]

lemma keeps_dtmf_loop: "do_dtmf_loop e ds d = Some x \<Longrightarrow> keeps c d \<Longrightarrow> keeps c x"
proof (induction e ds d rule: do_dtmf_loop.induct)
  case (1 e d)
  have "keeps c (qevent (d\<lparr>dialing := False\<rparr>) EVENT_DIALCOMPLETE)" using 1 by (intro keeps_step)
  with 1 show ?case by simp
next
  case (2 e ch ds d)
  let ?d = "d\<lparr>txdialbuf := ds\<rparr>"
  have d: "keeps c ?d" by (rule keeps_step(3) [OF "2.prems"(2)])
  show ?case
  proof (cases "dial_mode ch")
    case (Some m)
    have k: "keeps c (?d\<lparr>digitmode := m, tonep := 0\<rparr>)" by (intro d keeps_step)
    have "do_dtmf_loop e ds (?d\<lparr>digitmode := m, tonep := 0\<rparr>) = Some x" using "2.prems"(1) Some by (simp add: Let_def)
    from "2.IH"(3) [OF refl Some this k] show ?thesis .
  next
    case None
    show ?thesis
    proof (cases "ch \<noteq> CHR ''W'' \<and> digitmode ?d = DIGIT_MODE_PULSE")
      case True
      let ?p = "digit_in CHR ''0'' CHR ''9'' ch \<and> txhooksig ?d = TXSIG_OFFHOOK"
      show ?thesis
      proof (cases ?p)
        case p: True
        have "x = rbs_sethook TXSIG_ONHOOK TXSTATE_PULSEBREAK (pulsebreaktime ?d) (?d\<lparr>pdialcount := pulse_count ch\<rparr>)"
          using "2.prems"(1) None True p by (simp add: Let_def)
        moreover have "keeps c (rbs_sethook TXSIG_ONHOOK TXSTATE_PULSEBREAK (pulsebreaktime ?d) (?d\<lparr>pdialcount := pulse_count ch\<rparr>))"
          by (intro d keeps_step)
        ultimately show ?thesis by simp
      next
        case p: False
        have "do_dtmf_loop e ds ?d = Some x" using "2.prems"(1) None True p by (simp add: Let_def split: if_splits)
        from "2.IH"(1) [OF refl None True p this d] show ?thesis .
      qed
    next
      case False
      let ?e = "?d\<lparr>curtone := mf_tone ?d ch (digitmode ?d), tonep := 0\<rparr>"
      have e: "keeps c ?e" by (intro d keeps_step)
      have eq: "(case curtone ?e of None \<Rightarrow> do_dtmf_loop e ds ?e | Some p \<Rightarrow> with_tone_state e p ?e) = Some x"
        using "2.prems"(1) unfolding do_dtmf_loop.simps Let_def None option.case if_not_P [OF False] .
      show ?thesis
      proof (cases "mf_tone ?d ch (digitmode ?d)")
        case (Some p)
        then have "with_tone_state e p ?e = Some x" using eq by simp
        then obtain t where "x = ?e\<lparr>ts := init_tone_state t\<rparr>" by (auto simp: with_tone_state_def split: option.splits)
        with keeps_step(7) [OF e] show ?thesis by simp
      next
        case n: None
        then have "do_dtmf_loop e ds ?e = Some x" using eq by simp
        from "2.IH"(2) [OF refl None False refl _ this e] n show ?thesis by simp
      qed
    qed
  qed
qed

lemma keeps_dtmf: "do_dtmf e d = Some x \<Longrightarrow> keeps c d \<Longrightarrow> keeps c x"
  unfolding do_dtmf_def by (rule keeps_dtmf_loop)

lemma keeps_dial:
  assumes "ioctl_dial up alloc arg e c = Some (r, d)"
  shows "keeps c d"
proof -
  have k: "keeps c (c\<lparr>txdialbuf := s, dialing := b\<rparr>)" "keeps c (c\<lparr>txdialbuf := s\<rparr>)"
    "keeps c (c\<lparr>curtone := None, dialing := False, txdialbuf := [], tonep := 0, pdialcount := 0\<rparr>)" for s b
    by (intro keeps_step keeps_refl)+
  show ?thesis using assms
    by (auto simp: ioctl_dial_def Let_def k split: option.splits if_splits intro: keeps_dtmf [OF _ k(1)])
qed

lemma keeps_start_tone:
  assumes "start_tone t e c = Some (r, d)"
  shows "keeps c d"
proof -
  have s: "keeps c (stop_tone c)" unfolding stop_tone_def by (intro keeps_step keeps_refl)
  have ch: "keeps c x" if "start_tone_choose t e (stop_tone c) = Some (q, x)" for q x
    using that s by (auto simp: start_tone_choose_def start_tone_digit_def Let_def keeps_step split: option.splits if_splits dahdi_digit_mode.splits)
  from assms obtain q x where x: "start_tone_choose t e (stop_tone c) = Some (q, x)" by (auto simp: start_tone_def split: option.splits)
  with assms ch [OF x] show ?thesis by (auto simp: start_tone_def keeps_step split: option.splits)
qed

lemma keeps_zone: "set_tone_zone j e c = (r, e', d) \<Longrightarrow> keeps c d"
  by (auto simp: set_tone_zone_def Let_def intro!: keeps_step split: option.splits)

lemma keeps_cadence: "ioctl_setcadence e arg c = (r, d) \<Longrightarrow> keeps c d"
proof -
  assume a: "ioctl_setcadence e arg c = (r, d)"
  have m: "keeps c x \<Longrightarrow> keeps c (mark_cadence x)" for x
    by (auto simp: mark_cadence_def intro!: keeps_step split: option.split)
  show "keeps c d" using a
    by (auto simp: ioctl_setcadence_def Let_def intro!: m keeps_step split: option.splits)
qed

lemma keeps_hangup: "keeps c (snd (hangup c))"
proof -
  have l: "keeps c (snd (hangup_line c))" for c :: "'a chan_open_scheme"
  proof (cases "chan_span c")
    case None
    then show ?thesis by (simp add: hangup_line_def)
  next
    case (Some s)
    have "keeps c (drv_log (Drv_sethook h) (c\<lparr>txhooksig := h\<rparr>))" for h
      by (rule keeps_all) (simp_all add: chan_view_def buf_view_def)
    with Some show ?thesis by (auto simp: hangup_line_def keeps_sethook keeps_cas split: option.split)
  qed
  define a where "a = (if sig c = SIG_FXSLS \<or> sig c = SIG_FXSKS \<or> sig c = SIG_FXSGS
      then c\<lparr>kewlonhook := False, ringdebtimer := RING_DEBOUNCE_TIME\<rparr> else c\<lparr>kewlonhook := False\<rparr>)"
  have ka: "keeps c a" unfolding a_def by (rule keeps_all) (auto simp: chan_view_def buf_view_def)
  obtain r d where h: "hangup_line a = (r, d)" by fastforce
  have kd: "keeps c d" using keeps_trans [OF ka l [of a]] h by simp
  let ?f = "(clear_buffers d)\<lparr>dialing := False, afterdialingtimer := 0, curtone := None, pdialcount := 0, cadencepos := 0, txdialbuf := []\<rparr>"
  have "snd (hangup c) = c \<or> snd (hangup c) = d \<or> snd (hangup c) = ?f"
    using h by (auto simp: hangup_def Let_def a_def)
  moreover have "keeps d ?f"
  proof -
    have v: "chan_view ?f = chan_view d" "ev_inv d \<Longrightarrow> ev_inv ?f" by (simp_all add: clear_buffers_def chan_view_def ev_inv_def Let_def)
    have "bufs_ok ?f" if "bufs_ok d"
    proof -
      from that have b: "readbuf d \<noteq> None" by (simp add: bufs_ok_def rx_inv_def rx_ok_def)
      show ?thesis using bufs_cleared [OF that, of ?f] bufs_cleared_tx [OF that, of ?f] b by (simp add: bufs_ok_def clear_buffers_def Let_def)
    qed
    with v show ?thesis by (auto simp: keeps_def chan_sound_def chan_view_def)
  qed
  ultimately show ?thesis using kd keeps_trans [OF kd] by auto
qed

lemma keeps_flush: "keeps c (ioctl_flush i c)"
proof -
  define a where "a = (if i AND 1 \<noteq> 0 then c\<lparr>inreadbuf := 0, outreadbuf := -1, readn := fill_0 (numbufs c) (readn c),
                 readidx := fill_0 (numbufs c) (readidx c)\<rparr> else c)"
  define b where "b = (if i AND 2 \<noteq> 0 then a\<lparr>outwritebuf := -1, inwritebuf := 0, writen := fill_0 (numbufs a) (writen a),
                 writeidx := fill_0 (numbufs a) (writeidx a)\<rparr> else a)"
  have f: "ioctl_flush i c = (if i AND 4 \<noteq> 0 then flush_events b else b)"
    unfolding ioctl_flush_def Let_def a_def [symmetric] b_def [symmetric] ..
  have ka: "keeps c a"
  proof (cases "i AND 1 \<noteq> 0")
    case True
    then have a: "a = c\<lparr>inreadbuf := 0, outreadbuf := -1, readn := fill_0 (numbufs c) (readn c), readidx := fill_0 (numbufs c) (readidx c)\<rparr>" by (simp add: a_def)
    have "bufs_ok a" if "bufs_ok c"
      using bufs_cleared [OF that, of a] that by (simp add: a bufs_ok_def tx_ok_def tx_slot_ok_def)
    then show ?thesis by (auto simp: keeps_def chan_sound_def chan_view_def a ev_inv_def)
  qed (simp add: a_def)
  have kb: "keeps a b"
  proof (cases "i AND 2 \<noteq> 0")
    case True
    then have b: "b = a\<lparr>outwritebuf := -1, inwritebuf := 0, writen := fill_0 (numbufs a) (writen a), writeidx := fill_0 (numbufs a) (writeidx a)\<rparr>" by (simp add: b_def)
    have "bufs_ok b" if "bufs_ok a"
      using bufs_cleared_tx [OF that, of b] that by (simp add: b bufs_ok_def rx_inv_def rx_ok_def rx_slot_ok_def rx_idx_def)
    then show ?thesis by (auto simp: keeps_def chan_sound_def chan_view_def b ev_inv_def)
  qed (simp add: b_def)
  have "keeps b (flush_events b)"
    by (rule keeps_view) (simp_all add: flush_events_def chan_view_def buf_view_def ev_inv_def)
  then show ?thesis unfolding f using keeps_trans [OF ka kb] keeps_trans by fastforce
qed

lemma keeps_bufinfo: "set_bufinfo alloc arg c = (r, d) \<Longrightarrow> keeps c d"
proof -
  assume a: "set_bufinfo alloc arg c = (r, d)"
  have p: "keeps c (c\<lparr>txbufpolicy := x\<rparr>)" for x by (rule keeps_all) (simp_all add: chan_view_def buf_view_def)
  show "keeps c d"
  proof (cases arg)
    case None
    with a show ?thesis by (simp add: set_bufinfo_def)
  next
    case (Some bi)
    show ?thesis
    proof (cases "d = c")
      case False
      with a Some have "reallocbufs alloc (bi_bufsize bi) (bi_numbufs bi) (c\<lparr>txbufpolicy := bi_txbufpolicy bi AND 3\<rparr>) = (r, d)" "0 < bi_bufsize bi"
        by (auto simp: set_bufinfo_def split: if_splits)
      from keeps_trans [OF p keeps_realloc [OF this]] show ?thesis .
    qed simp
  qed
qed

lemma keeps_blocksize: "set_blocksize alloc j c = (r, d) \<Longrightarrow> keeps c d"
  by (auto simp: set_blocksize_def split: if_splits intro: keeps_realloc)

lemma keeps_iomux: "iomux_round arg c = (a, d) \<Longrightarrow> keeps c d"
  by (rule keeps_all) (auto simp: iomux_round_def Let_def chan_view_def buf_view_def split: option.splits if_splits)

lemma keeps_getevent: "getevent c = (e, d) \<Longrightarrow> keeps c d"
  using getevent_inv [of c] by (intro keeps_view) (auto simp: getevent_def Let_def chan_view_def buf_view_def split: if_splits)

lemma keeps_flags: "f \<noteq> FLAG_OPEN \<Longrightarrow> keeps c (set_flag f c)" "f \<noteq> FLAG_OPEN \<Longrightarrow> keeps c (clear_flag f c)"
  by (rule keeps_all; simp add: chan_view_def buf_view_def chan_defs)+

lemma keeps_flag_set: "(FLAG_OPEN \<in> fs \<longleftrightarrow> FLAG_OPEN \<in> chan_flags c) \<Longrightarrow> keeps c (c\<lparr>chan_flags := fs\<rparr>)"
  by (rule keeps_all) (simp_all add: chan_view_def buf_view_def)

lemma keeps_init_hdlc: "keeps c (init_hdlc c)"
  by (rule keeps_all) (simp_all add: init_hdlc_def Let_def chan_view_def buf_view_def)

lemma keeps_hdlcmode: "ioctl_hdlcmode fcs j c = (a, d) \<Longrightarrow> keeps c d"
  by (auto simp: ioctl_hdlcmode_def Let_def split: if_splits intro!: keeps_trans [OF keeps_flag_set keeps_init_hdlc] keeps_flag_set)

lemma keeps_hdlcrate: "ioctl_hdlcrate j c = (a, d) \<Longrightarrow> keeps c d"
  using keeps_trans [OF keeps_flags(1) keeps_init_hdlc] keeps_trans [OF keeps_flags(2) keeps_init_hdlc]
  by (auto simp: ioctl_hdlcrate_def split: if_splits)

lemma dacs_sel: "buf_view (dahdi_disable_dacs c) = buf_view c" "eventbuf (dahdi_disable_dacs c) = eventbuf c"
  "eventinidx (dahdi_disable_dacs c) = eventinidx c" "eventoutidx (dahdi_disable_dacs c) = eventoutidx c"
  by (simp_all add: dahdi_disable_dacs_def dahdi_chan_dacs_def buf_view_def split: option.split prod.split)

lemma keeps_disable_dacs: "keeps c (dahdi_disable_dacs c)"
  by (rule keeps_all) (simp_all add: dacs_sel dacs_view)

lemma keeps_leave_audio: "keeps c (leave_audio c)"
proof -
  let ?a = "(clear_flag FLAG_AUDIO c)\<lparr>confn := 0, confna := 0, conf_chan := None\<rparr>"
  have a: "keeps c ?a" by (rule keeps_all) (simp_all add: chan_view_def buf_view_def chan_defs)
  have b: "keeps d ((reset_conf (d\<lparr>confmode := 0, confmute := 0, conflast := no_samples, conflast1 := no_samples, conflast2 := no_samples\<rparr>))\<lparr>rxgain := None, txgain := None\<rparr>)"
    for d :: "'a chan_open_scheme" by (rule keeps_all) (simp_all add: chan_view_def buf_view_def reset_conf_def)
  from keeps_trans [OF keeps_trans [OF a keeps_disable_dacs] b] show ?thesis by (simp add: leave_audio_def Let_def)
qed

lemma keeps_drop_echocan: "drop_echocan c e = (d, e') \<Longrightarrow> keeps c d"
  by (rule keeps_all) (auto simp: drop_echocan_def chan_view_def buf_view_def)

lemma keeps_echocancel: "ioctl_echocancel alloc deft taps n arg c e = (r, d, e') \<Longrightarrow> keeps c d"
proof -
  assume a: "ioctl_echocancel alloc deft taps n arg c e = (r, d, e')"
  have s: "keeps x (x\<lparr>ec_current := f, ec_state := st\<rparr>)" for x :: "'a chan_open_scheme" and f st
    by (rule keeps_all) (simp_all add: chan_view_def buf_view_def)
  have "keeps x (start_echocan f ec x)" for x :: "'a chan_open_scheme" and f ec
    unfolding start_echocan_def Let_def by (rule s)
  then have "create_echocan t ps f x e1 = (q, y, e2) \<Longrightarrow> keeps x y" for x y :: "'a chan_open_scheme" and t ps f e1 q e2
    by (auto simp: create_echocan_def split: prod.splits bool.splits if_splits option.splits)
  with a keeps_drop_echocan keeps_trans show ?thesis
    by (fastforce simp: ioctl_echocancel_def Let_def split: if_splits option.splits prod.splits)
qed

lemma keeps_ec_state: "keeps c (c\<lparr>ec_state := x\<rparr>)"
  by (rule keeps_all) (simp_all add: chan_view_def buf_view_def)

lemma keeps_echotrain: "ioctl_echotrain j c = (r, d) \<Longrightarrow> keeps c d"
  by (auto simp: ioctl_echotrain_def keeps_ec_state split: if_splits option.splits)

lemma keeps_fax: "ioctl_fax_mode j c = (r, d) \<Longrightarrow> keeps c d"
proof -
  have m: "keeps x (set_ec_mode q x)" "keeps x (log_ec w x)" for x :: "'a chan_open_scheme" and q w
    by (simp_all add: set_ec_mode_def log_ec_def keeps_ec_state split: option.split)
  have "keeps x (set_echocan_fax_mode b x)" for x :: "'a chan_open_scheme" and b
    by (auto simp: set_echocan_fax_mode_def split: option.split intro!: m keeps_qevent keeps_trans [OF _ m(1)] keeps_trans [OF _ m(2)])
  then show "ioctl_fax_mode j c = (r, d) \<Longrightarrow> keeps c d" by (auto simp: ioctl_fax_mode_def split: if_splits)
qed

lemma keeps_setlaw: "ioctl_setlaw j c = (r, d) \<Longrightarrow> keeps c d"
  by (rule keeps_all) (auto simp: ioctl_setlaw_def set_law_def Let_def chan_view_def buf_view_def split: if_splits)

lemma keeps_gains: "keeps c (set_gains rx tx c)"
  by (rule keeps_all) (simp_all add: set_gains_def chan_view_def buf_view_def)

lemma keeps_times: "keeps c (set_times p c)"
  by (rule keeps_all) (simp_all add: set_times_def Let_def chan_view_def buf_view_def)

lemma keeps_hook: "ioctl_hook nb j c = (a, d) \<Longrightarrow> keeps c d"
proof -
  assume a: "ioctl_hook nb j c = (a, d)"
  have s: "keeps c (stop_dialing c)" by (rule keeps_all) (simp_all add: stop_dialing_def chan_view_def buf_view_def)
  have st: "keeps x (hook_start x)" for x :: "'a chan_open_scheme"
    by (auto simp: hook_start_def Let_def intro!: keeps_step keeps_refl)
  have r: "hook_rbs nb j x = (b, y) \<Longrightarrow> keeps x y" for x y :: "'a chan_open_scheme" and b
    by (auto simp: hook_rbs_def st keeps_sethook keeps_hangup split: if_splits)
  have l: "keeps x (drv_log (Drv_sethook j) (x\<lparr>txhooksig := j\<rparr>))" for x :: "'a chan_open_scheme"
    by (rule keeps_all) (simp_all add: chan_view_def buf_view_def)
  show ?thesis using a keeps_trans [OF s r] keeps_trans [OF s l] s
    by (auto simp: ioctl_hook_def Let_def split: if_splits option.splits)
qed

section \<open>Requests keep the channels\<close>

definition w_keeps :: "'a chan_open_scheme world \<Rightarrow> 'a chan_open_scheme world \<Rightarrow> bool" where
  "w_keeps w w' \<longleftrightarrow> numbers w' = numbers w \<and> list_all2 keeps (w_chans w) (w_chans w')"

lemma w_keeps_refl [simp]: "w_keeps w w"
  by (simp add: w_keeps_def list.rel_refl)

lemma w_keeps_trans:
  assumes "w_keeps u v" and "w_keeps v w"
  shows "w_keeps u w"
proof -
  have "list_all2 keeps (w_chans u) (w_chans w)"
    by (rule list_all2_trans [where ?P1.0 = keeps and ?P2.0 = keeps and bs = "w_chans v"])
      (use assms in \<open>auto simp: w_keeps_def intro: keeps_trans\<close>)
  with assms show ?thesis by (simp add: w_keeps_def)
qed

lemma keeps_channo: "keeps c d \<Longrightarrow> channo d = channo c"
  by (simp add: keeps_def chan_view_def)

lemma w_keeps_update:
  assumes "\<And>c. c \<in> set (w_chans w) \<Longrightarrow> channo c = n \<Longrightarrow> keeps c (f c)"
  shows "w_keeps w (w_update n f w)"
proof -
  have "numbers (w_update n f w) = numbers w" by (rule numbers_update) (use assms keeps_channo in fastforce)
  moreover have "list_all2 keeps (w_chans w) (map (at_chan n f) (w_chans w))"
    unfolding list_all2_map2 by (rule list.rel_refl_strong) (use assms in \<open>auto simp: at_chan_def\<close>)
  ultimately show ?thesis by (simp add: w_keeps_def)
qed

lemma w_keeps_tables: "w_chans w' = w_chans w \<Longrightarrow> numbers w' = numbers w \<Longrightarrow> w_keeps w w'"
  by (simp add: w_keeps_def list.rel_refl)

lemma w_keeps_check: "check_conf x w = Some w' \<Longrightarrow> w_keeps w w'"
  by (rule w_keeps_tables) (auto simp: check_conf_def numbers_def)

lemma w_keeps_put:
  assumes "numbering (y_world y)" and "in_range n" and "y_chan n y = Some c" and "keeps c d"
  shows "w_keeps (y_world y) (y_world (y_put n d y))"
proof -
  have m: "c \<in> set (w_chans (y_world y))" "channo c = n" using y_chan_member [OF assms(1) _ _ assms(3)] assms(2) by (simp_all add: in_range_def)
  have "keeps x d" if "x \<in> set (w_chans (y_world y))" "channo x = n" for x
  proof -
    have "x = c" using numbering_distinct(1) [OF assms(1)] that m by (auto simp: distinct_map dest: inj_onD)
    with assms(4) show ?thesis by simp
  qed
  then show ?thesis by (simp add: y_put_def w_keeps_update)
qed

text \<open>Setting a conference.\<close>

lemma keeps_join: "keeps c (join_update confno ma m cc x c)"
proof -
  have d: "keeps e (setconf_dacs m x e)" for e :: "'a chan_open_scheme"
  proof -
    have "keeps e (fst (dahdi_chan_dacs e x))"
      by (rule keeps_all) (simp_all add: dahdi_chan_dacs_def chan_view_def buf_view_def split: option.split prod.split)
    then show ?thesis by (simp add: setconf_dacs_def keeps_disable_dacs)
  qed
  have "keeps c ((if confno \<noteq> confna c then clear_last c else c)\<lparr>confna := confno, conf_chan := cc, confmode := ma, confn := 0\<rparr>)"
    by (rule keeps_all) (simp_all add: clear_last_def chan_view_def buf_view_def)
  from keeps_trans [OF this d] show ?thesis by (simp add: join_update_def Let_def)
qed

lemma w_keeps_join:
  assumes "setconf_join n confno ma cc w = Some w'"
  shows "w_keeps w w'"
proof -
  let ?u = "join_update confno ma (ma AND CONF_MODE_MASK) cc (Option.bind cc (w_lookup w))"
  have u: "w_keeps w (w_update n ?u w)" by (rule w_keeps_update) (rule keeps_join)
  have n: "w_keeps v (w_update n (\<lambda>c. c\<lparr>confn := a\<rparr>) (v\<lparr>w_tables := t\<rparr>))" for v :: "'a chan_open_scheme world" and a t
  proof -
    have "w_keeps v (v\<lparr>w_tables := t\<rparr>)" by (rule w_keeps_tables) (simp_all add: numbers_def)
    moreover have "w_keeps (v\<lparr>w_tables := t\<rparr>) (w_update n (\<lambda>c. c\<lparr>confn := a\<rparr>) (v\<lparr>w_tables := t\<rparr>))"
      by (rule w_keeps_update) (rule keeps_all; simp add: chan_view_def buf_view_def)
    ultimately show ?thesis by (rule w_keeps_trans)
  qed
  show ?thesis using assms u w_keeps_trans [OF u n] by (auto simp: setconf_join_alt Let_def split: if_splits option.splits)
qed

lemma w_keeps_preec: "setconf_preec al m cc w = Some r \<Longrightarrow> (case r of Inl (q, w') \<Rightarrow> w_keeps w w' | Inr w' \<Rightarrow> w_keeps w w')"
proof -
  have u: "w_keeps w (w_update k (\<lambda>c. c\<lparr>readchunkpreec := b, drv_calls := drv_calls c @ ds\<rparr>) w)" for k b ds
    by (rule w_keeps_update) (rule keeps_all; simp add: chan_view_def buf_view_def)
  assume "setconf_preec al m cc w = Some r"
  then show ?thesis by (auto simp: setconf_preec_def u split: option.splits if_splits)
qed

lemma w_keeps_setconf:
  assumes "ioctl_setconf uin uout al file conf w = Some (r, conf', w')"
  shows "w_keeps w w'"
proof (cases "w' = w")
  case False
  with assms obtain w1 cc c where w1: "check_conf (ci_confno conf) w = Some w1" "setconf_choose uout al cc c conf w1 = Some (r, conf', w')"
    unfolding ioctl_setconf_def Let_def by (auto split: option.splits if_splits)
  have "w_keeps w1 w'"
  proof (cases "w' = w1")
    case f: False
    from w1(2) f obtain conf2 where "setconf_commit uout al cc c conf2 w1 = Some (r, conf', w')"
      by (auto simp: setconf_choose_def Let_def split: if_splits)
    then obtain w2 p where w2: "setconf_join (channo c) (ci_confno conf2) (ci_confmode conf2) cc w1 = Some w2"
      "setconf_preec al (ci_confmode conf2 AND CONF_MODE_MASK) cc w2 = Some p"
      and q: "case p of Inl (q, x) \<Rightarrow> x = w' | Inr x \<Rightarrow> check_conf (confna c) x = Some w'"
      by (auto simp: setconf_commit_def split: option.splits sum.splits)
    have "w_keeps w2 w'" using w_keeps_preec [OF w2(2)] q w_keeps_trans w_keeps_check by (cases p) fastforce+
    with w_keeps_join [OF w2(1)] show ?thesis by (rule w_keeps_trans)
  qed simp
  with w_keeps_check [OF w1(1)] show ?thesis by (rule w_keeps_trans)
qed simp

text \<open>What a request may do to the system.\<close>

definition request_keeps :: "'a chan_open_scheme dahdi_sys \<Rightarrow> 'a chan_open_scheme dahdi_sys \<Rightarrow> bool" where
  "request_keeps y z \<longleftrightarrow> w_keeps (y_world y) (y_world z) \<and> y_files z = y_files y \<and> y_owner z = y_owner y"

lemma request_keeps_refl [simp]: "request_keeps y y"
  by (simp add: request_keeps_def)

lemma request_keeps_world: "w_keeps (y_world y) w \<Longrightarrow> request_keeps y (y\<lparr>y_world := w\<rparr>)"
  by (simp add: request_keeps_def)

lemma request_keeps_put:
  assumes "numbering (y_world y)" and "in_range n" and "y_chan n y = Some c" and "keeps c d"
  shows "request_keeps y (y_put n d y)" "request_keeps y (y_put n d (y\<lparr>y_echo := e\<rparr>))" "request_keeps y (y_put n d (y\<lparr>y_tones := t\<rparr>))"
  using w_keeps_put [OF assms] by (simp_all add: request_keeps_def y_put_def)

lemma common_keeps: "common_ioctl r n cmd y = (a, z) \<Longrightarrow> request_keeps y z"
proof -
  have s: "w_keeps w (w_update k (set_times p) w)" "w_keeps w (w_update k (set_gains rx tx) w)" for w :: "'a chan_open_scheme world" and k p rx tx
    by (rule w_keeps_update, simp add: keeps_times keeps_gains)+
  have p: "ioctl_setparams fi arg w = (res, w') \<Longrightarrow> w_keeps w w'" for fi arg res and w w' :: "'a chan_open_scheme world"
    by (auto simp: ioctl_setparams_def s split: option.splits)
  have g: "ioctl_setgains a1 a2 u fi arg w = (res, q, w') \<Longrightarrow> w_keeps w w'" for a1 a2 u fi arg res q and w w' :: "'a chan_open_scheme world"
    by (auto simp: ioctl_setgains_def Let_def s split: option.splits if_splits)
  assume "common_ioctl r n cmd y = (a, z)"
  then show ?thesis
    by (cases cmd) (auto simp: common_ioctl_def split: prod.splits intro!: request_keeps_world dest: p g)
qed

lemma pseudo_keeps:
  assumes ok: "numbering (y_world y)" and n: "in_range n" and a: "chanandpseudo_ioctl r n cmd y = Some (a, z)"
  shows "request_keeps y z"
proof (cases "y_chan n y")
  case None
  with a show ?thesis by (simp add: chanandpseudo_ioctl_def)
next
  case (Some c)
  note put = request_keeps_put [OF ok n Some]
  have u: "keeps c (c\<lparr>confmute := j\<rparr>)" for j by (rule keeps_all) (simp_all add: chan_view_def buf_view_def)
  have other: "common_ioctl r n cmd y = (b, w) \<Longrightarrow> request_keeps y w" for b w by (rule common_keeps)
  show ?thesis
  proof (cases cmd)
    case (DIAL arg)
    with a Some show ?thesis by (auto simp: chanandpseudo_ioctl_def bind_eq_Some_conv intro!: put(1) dest: keeps_dial)
  next
    case (SET_BUFINFO arg)
    with a Some show ?thesis
      by (auto simp: chanandpseudo_ioctl_def split: prod.splits intro!: put(1) dest: keeps_bufinfo)
  next
    case (SET_BLOCKSIZE j)
    with a Some show ?thesis
      by (auto simp: chanandpseudo_ioctl_def split: prod.splits intro!: put(1) dest: keeps_blocksize)
  next
    case (FLUSH i)
    with a Some show ?thesis by (auto simp: chanandpseudo_ioctl_def intro!: put(1) keeps_flush)
  next
    case (IOMUX arg)
    with a Some show ?thesis by (auto simp: chanandpseudo_ioctl_def split: prod.splits intro!: put(1) dest: keeps_iomux)
  next
    case GETEVENT
    with a Some show ?thesis by (auto simp: chanandpseudo_ioctl_def split: prod.splits intro!: put(1) dest: keeps_getevent)
  next
    case (CONFMUTE j)
    with a Some show ?thesis by (auto simp: chanandpseudo_ioctl_def split: if_splits intro!: put(1) u)
  next
    case (SETTONEZONE j)
    with a Some show ?thesis by (auto simp: chanandpseudo_ioctl_def split: prod.splits intro!: put(3) dest: keeps_zone)
  next
    case (SENDTONE j)
    with a Some show ?thesis by (auto simp: chanandpseudo_ioctl_def bind_eq_Some_conv intro!: put(1) dest: keeps_start_tone)
  next
    case (GETCONF arg)
    with a Some show ?thesis by (auto simp: chanandpseudo_ioctl_def split: prod.splits)
  next
    case (SETCONF arg)
    with a Some show ?thesis
      by (auto simp: chanandpseudo_ioctl_def intro!: request_keeps_world dest: w_keeps_setconf)
  next
    case (SETLAW j)
    with a Some show ?thesis by (auto simp: chanandpseudo_ioctl_def split: prod.splits intro!: put(1) dest: keeps_setlaw)
  next
    case (SETLINEAR j)
    with a Some show ?thesis by (auto simp: chanandpseudo_ioctl_def split: if_splits intro!: put(1) keeps_flags)
  next
    case (SETCADENCE arg)
    with a Some show ?thesis by (auto simp: chanandpseudo_ioctl_def split: prod.splits intro!: put(1) dest: keeps_cadence)
  qed (use a Some other in \<open>auto simp: chanandpseudo_ioctl_def split: prod.splits\<close>)
qed

lemma audiomode_keeps:
  assumes "numbering (y_world y)" and "in_range n" and c: "y_chan n y = Some c" and a: "ioctl_audiomode n j c y = Some (a, z)"
  shows "request_keeps y z"
proof -
  note put = request_keeps_put [OF assms(1-3)]
  consider "sig c \<noteq> SIG_CLEAR" | "sig c = SIG_CLEAR" "j \<noteq> 0" | "sig c = SIG_CLEAR" "j = 0" by blast
  then show ?thesis
  proof cases
    case 1
    with a show ?thesis by (simp add: ioctl_audiomode_def)
  next
    case 2
    with a show ?thesis by (auto simp: ioctl_audiomode_def intro!: put(1) keeps_flag_set)
  next
    case 3
    obtain d e where d: "drop_echocan (leave_audio c) (y_echo y) = (d, e)" by fastforce
    let ?z = "y_put n d (y\<lparr>y_echo := e\<rparr>)"
    have k: "request_keeps y ?z" by (rule put(2)) (rule keeps_trans [OF keeps_leave_audio keeps_drop_echocan [OF d]])
    have "z = ?z \<or> y_check_conf (confna c) ?z = Some z" using a 3 d by (auto simp: ioctl_audiomode_def Let_def split: if_splits)
    then show ?thesis
    proof
      assume "y_check_conf (confna c) ?z = Some z"
      then obtain w where "check_conf (confna c) (y_world ?z) = Some w" "z = ?z\<lparr>y_world := w\<rparr>" by (auto simp: y_check_conf_def)
      with k w_keeps_trans [OF _ w_keeps_check] show ?thesis unfolding request_keeps_def by fastforce
    qed (use k in simp)
  qed
qed

lemma chan_keeps:
  assumes ok: "numbering (y_world y)" and n: "in_range n" and a: "chan_ioctl r n cmd y = Some (a, z)"
  shows "request_keeps y z"
proof (cases "y_chan n y")
  case None
  with a show ?thesis by (simp add: chan_ioctl_def)
next
  case (Some c)
  note put = request_keeps_put [OF ok n Some]
  have other: "chanandpseudo_ioctl r n cmd y = Some (b, w) \<Longrightarrow> request_keeps y w" for b w by (rule pseudo_keeps [OF ok n])
  have e: "ioctl_echocancel al dt t k ps c (y_echo y) = (q, d, e) \<Longrightarrow> request_keeps y (y_put n d (y\<lparr>y_echo := e\<rparr>))" for al dt t k ps q d e
    by (rule put(2)) (rule keeps_echocancel)
  show ?thesis
  proof (cases cmd)
    case (SETSIGFREEZE j)
    with a Some show ?thesis by (auto simp: chan_ioctl_def Let_def intro!: put(1) keeps_flags)
  next
    case (AUDIOMODE j)
    with a Some audiomode_keeps [OF ok n Some] show ?thesis by (simp add: chan_ioctl_def)
  next
    case (HDLCRAWMODE j)
    with a Some show ?thesis by (auto simp: chan_ioctl_def split: prod.splits intro!: put(1) dest: keeps_hdlcmode)
  next
    case (HDLCFCSMODE j)
    with a Some show ?thesis by (auto simp: chan_ioctl_def split: prod.splits intro!: put(1) dest: keeps_hdlcmode)
  next
    case (HDLC_RATE j)
    with a Some show ?thesis by (auto simp: chan_ioctl_def split: prod.splits intro!: put(1) dest: keeps_hdlcrate)
  next
    case (ECHOCANCEL_PARAMS arg)
    with a Some show ?thesis by (auto simp: chan_ioctl_def split: prod.splits if_splits option.splits dest: e)
  next
    case (ECHOCANCEL j)
    with a Some show ?thesis by (auto simp: chan_ioctl_def split: prod.splits if_splits dest: e)
  next
    case (ECHOTRAIN j)
    with a Some show ?thesis by (auto simp: chan_ioctl_def split: prod.splits intro!: put(1) dest: keeps_echotrain)
  next
    case (ECHOCANCEL_FAX_MODE j)
    with a Some show ?thesis by (auto simp: chan_ioctl_def split: prod.splits intro!: put(1) dest: keeps_fax)
  next
    case (SETTXBITS j)
    with a Some show ?thesis by (auto simp: chan_ioctl_def split: if_splits intro!: put(1) keeps_cas)
  next
    case (LOOPBACK j)
    with a Some show ?thesis by (auto simp: chan_ioctl_def Let_def intro!: put(1) keeps_flags)
  next
    case (HOOK j)
    with a Some show ?thesis by (auto simp: chan_ioctl_def split: prod.splits intro!: put(1) dest: keeps_hook)
  next
    case (BUFFER_EVENTS arg)
    with a Some show ?thesis by (auto simp: chan_ioctl_def Let_def split: option.splits intro!: put(1) keeps_flags)
  qed (use a Some other in \<open>auto simp: chan_ioctl_def\<close>)
qed

text \<open>The requests on channels, on their own devices or on pseudo channels.\<close>

inductive request_step :: "'a chan_open_scheme dahdi_sys \<Rightarrow> 'a chan_open_scheme dahdi_sys \<Rightarrow> bool" where
  on_chan: "in_range n \<Longrightarrow> chan_ioctl r n cmd y = Some (a, z) \<Longrightarrow> request_step y z"
| on_pseudo: "in_range n \<Longrightarrow> chanandpseudo_ioctl r n cmd y = Some (a, z) \<Longrightarrow> request_step y z"

lemma request_step_keeps: "request_step y z \<Longrightarrow> numbering (y_world y) \<Longrightarrow> request_keeps y z"
  by (induction rule: request_step.induct) (blast intro: chan_keeps pseudo_keeps)+

lemma request_keeps_trans: "request_keeps x y \<Longrightarrow> request_keeps y z \<Longrightarrow> request_keeps x z"
  using w_keeps_trans unfolding request_keeps_def by metis

lemma request_steps_keep: "request_step\<^sup>*\<^sup>* y z \<Longrightarrow> numbering (y_world y) \<Longrightarrow> request_keeps y z"
proof (induction rule: rtranclp_induct)
  case base
  then show ?case by simp
next
  case (step x z)
  then have k: "request_keeps y x" by simp
  then have "numbering (y_world x)" using step.prems numbering_numbers by (auto simp: request_keeps_def w_keeps_def)
  with k request_step_keeps [OF step.hyps(2)] request_keeps_trans show ?case by blast
qed

lemma keeps_views: "list_all2 keeps cs ds \<Longrightarrow> map chan_view ds = map chan_view cs"
  by (induction rule: list_all2_induct) (simp_all add: keeps_def)

lemma keeps_sound: "list_all2 keeps cs ds \<Longrightarrow> \<forall>c \<in> set cs. chan_sound c \<Longrightarrow> \<forall>d \<in> set ds. chan_sound d"
  by (induction rule: list_all2_induct) (simp_all add: keeps_def)

text \<open>C35. Whatever requests programs make, in any order and on any channels: the rings of read and write buffers of every open
  channel and the event queue of every channel stay sound, and no channel is opened, closed, renumbered or moved to
  another handle.\<close>

theorem requests_keep_channels:
  assumes "numbering (y_world y)" and "\<forall>c \<in> set (w_chans (y_world y)). chan_sound c" and "request_step\<^sup>*\<^sup>* y z"
  shows "(\<forall>c \<in> set (w_chans (y_world z)). chan_sound c) \<and> views z = views y \<and> y_files z = y_files y \<and> y_owner z = y_owner y \<and>
    numbering (y_world z)"
proof -
  from request_steps_keep [OF assms(3,1)] have k: "list_all2 keeps (w_chans (y_world y)) (w_chans (y_world z))"
    "numbers (y_world z) = numbers (y_world y)" "y_files z = y_files y" "y_owner z = y_owner y"
    by (simp_all add: request_keeps_def w_keeps_def)
  from keeps_views [OF k(1)] keeps_sound [OF k(1) assms(2)] k(2-4) assms(1) numbering_numbers [OF k(2)]
  show ?thesis by (simp add: views_def)
qed

text \<open>Requests are steps in the life of the channels.\<close>

lemma request_is_life_step: "request_step y z \<Longrightarrow> numbering (y_world y) \<Longrightarrow> life_step y z"
  using request_step_keeps [of y z] keeps_views [of "w_chans (y_world y)" "w_chans (y_world z)"]
  by (intro life_step.requested) (simp add: same_sys_def views_def request_keeps_def w_keeps_def)

definition open_demo_chan :: chan_open where
  "open_demo_chan = life_demo_chan\<lparr>chan_flags := {FLAG_REGISTERED, FLAG_AUDIO, FLAG_OPEN}, chan_file := Some 7\<rparr>"

definition open_demo :: "chan_open dahdi_sys" where
  "open_demo = y_put 1 open_demo_chan life_demo"

lemma open_demo_sound: "chan_sound open_demo_chan"
proof -
  have v: "buf_view open_demo_chan = buf_view (rx_demo {FLAG_AUDIO})"
    by (simp add: open_demo_chan_def life_demo_chan_def chan_audio.extend_def mix_demo_chan_def chan_echo.extend_def chan_buf.extend_def buf_view_def)
      (simp add: rx_demo_def reallocbufs_def Let_def)
  obtain r where r: "reallocbufs True 16 2 (buf_demo_chan {FLAG_AUDIO}) = (r, rx_demo {FLAG_AUDIO})"
    by (metis prod.collapse rx_demo_def)
  have l: "length (readn (buf_demo_chan {FLAG_AUDIO})) = 32" "length (readidx (buf_demo_chan {FLAG_AUDIO})) = 32"
    "length (writen (buf_demo_chan {FLAG_AUDIO})) = 32" "length (writeidx (buf_demo_chan {FLAG_AUDIO})) = 32"
    by (simp_all add: buf_demo_chan_def chan_tone.extend_def)
  have "bufs_ok (rx_demo {FLAG_AUDIO})"
    using reallocbufs_rx(2) [OF r] reallocbufs_tx(1) [OF r] l by (simp add: bufs_ok_def) (simp add: rx_demo_def reallocbufs_def Let_def)
  with bufs_ok_view [OF v] have "bufs_ok open_demo_chan" by simp
  moreover have "ev_inv open_demo_chan"
    by (simp add: open_demo_chan_def life_demo_chan_def chan_audio.extend_def mix_demo_chan_def chan_echo.extend_def chan_buf.extend_def
        rx_demo_def reallocbufs_def buf_demo_chan_def chan_tone.extend_def tone_demo_chan_def chan_rbs.extend_def rbs_demo_chan_def ev_inv_def Let_def)
  ultimately show ?thesis by (simp add: chan_sound_def)
qed

theorem requests_keep_channels_witness:
  "\<exists>z. request_step\<^sup>*\<^sup>* open_demo z \<and> (\<forall>c \<in> set (w_chans (y_world z)). chan_sound c \<and> bufs_ok c \<and> numbufs c = 4)"
proof -
  let ?e = "\<lparr>rq_alloc = True, rq_uout = True, rq_nonblock = True, rq_deftaps = 64, rq_upper = \<lambda>c. c, rq_board = None\<rparr>"
  let ?b = "\<lparr>bi_txbufpolicy = 0, bi_rxbufpolicy = 0, bi_numbufs = 4, bi_bufsize = 64, bi_readbufs = 0, bi_writebufs = 0\<rparr>"
  have w: "w_chans (y_world open_demo) = [open_demo_chan]"
    by (simp add: open_demo_def y_put_def life_demo_sel at_chan_def life_demo_chan_sel)
  have "own_number 1 open_demo_chan life_demo" by (simp add: own_number_def open_demo_chan_def life_demo_chan_sel)
  from only_chan_put [OF this] have ok: "numbering (y_world open_demo)"
    using life_demo_numbering numbering_numbers by (auto simp: only_chan_def open_demo_def)
  have c1: "channo open_demo_chan = 1" by (simp add: open_demo_chan_def life_demo_chan_sel)
  have l: "y_chan 1 open_demo = Some open_demo_chan" using y_chan_of [OF ok, of open_demo_chan] w c1 by simp
  obtain d where d: "set_bufinfo True (Some ?b) open_demo_chan = (0, d)" "numbufs d = 4"
    by (simp add: set_bufinfo_def reallocbufs_def i32_def Let_def)
  have "chan_ioctl ?e 1 (SET_BUFINFO (Some ?b)) open_demo = Some (Done 0, y_put 1 d open_demo)"
    using d l by (simp add: chan_ioctl_def chanandpseudo_ioctl_def)
  then have s: "request_step\<^sup>*\<^sup>* open_demo (y_put 1 d open_demo)"
    by (intro r_into_rtranclp request_step.on_chan [of 1]) (simp_all add: in_range_def)
  have wz: "w_chans (y_world (y_put 1 d open_demo)) = [d]" using w c1 by (simp add: y_put_def at_chan_def)
  from requests_keep_channels [OF ok _ s] w open_demo_sound
  have "chan_sound d" "views (y_put 1 d open_demo) = views open_demo" by (simp_all add: wz)
  moreover from this(2) have "FLAG_OPEN \<in> chan_flags d" by (simp add: views_def wz w chan_view_def open_demo_chan_def)
  ultimately have "chan_sound d \<and> bufs_ok d" by (simp add: chan_sound_def)
  with s wz d(2) show ?thesis by (intro exI [of _ "y_put 1 d open_demo"]) simp
qed

end
