(* ===== verification/Chanconfig.thy ===== *)
theory Chanconfig
  imports RequestInv
begin

text \<open>
  The configuration of a channel: \<open>dahdi_ioctl_chanconfig\<close> and \<open>recalc_slaves\<close> in \<^verbatim>\<open>dahdi-base.c\<close>.
  A channel is its own master or a slave of another; the slaves of a master are linked through
  \<open>nextslave\<close>, which is the list that \<open>dahdi_transmit\<close> and \<open>dahdi_receive\<close> follow (theory \<open>Audio\<close>).
\<close>

section \<open>The chain of slaves\<close>

text \<open>The loop over the channels after the master; \<open>last'\<close> is the channel linked last.\<close>

fun link_loop :: "int \<Rightarrow> int \<Rightarrow> 'a chan_audio_scheme list \<Rightarrow> 'a chan_audio_scheme world \<Rightarrow> 'a chan_audio_scheme world" where
  "link_loop m last' [] w = w_update last' (nextslave_update (\<lambda>_. None)) w"
| "link_loop m last' (c # cs) w =
     (if master c = m then link_loop m (channo c) cs (w_update last' (nextslave_update (\<lambda>_. Some (channo c))) w)
      else link_loop m last' cs w)"

definition recalc_slaves :: "int \<Rightarrow> 'a chan_audio_scheme world \<Rightarrow> 'a chan_audio_scheme world" where
  "recalc_slaves m w = (case w_lookup w m of
     None \<Rightarrow> w
   | Some c \<Rightarrow>
      (case Option.bind (chan_span c) (\<lambda>s. find_span (w_spans w) (spanno s)) of
         None \<Rightarrow> w
       | Some r \<Rightarrow> link_loop m m (drop (nat (chanpos c)) (rs_chans r)) w))"

section \<open>The request\<close>

record chanconfig =
  cc_chan :: int
  cc_sigtype :: u32
  cc_deflaw :: int
  cc_master :: int
  cc_idlebits :: int

text \<open>The signalling, the new master and the channel to cross connect with.\<close>

definition cc_target :: "chanconfig \<Rightarrow> 'a chan_conf_scheme \<Rightarrow> 'a chan_conf_scheme world \<Rightarrow>
    (u32 \<times> 'a chan_conf_scheme \<times> 'a chan_conf_scheme option) option" where
  "cc_target ch c w =
     (if cc_sigtype ch = SIG_SLAVE then map_option (\<lambda>m. (sig m, m, None)) (w_lookup w (cc_master ch))
      else if cc_sigtype ch AND SIGMASK_DACS = SIGMASK_DACS then map_option (\<lambda>d. (cc_sigtype ch, c, Some d)) (w_lookup w (cc_idlebits ch))
      else Some (cc_sigtype ch, c, None))"

definition cc_sigcap :: "'a dahdi_chan_scheme \<Rightarrow> u32" where
  "cc_sigcap c = (if sigcap c AND SIG_CLEAR \<noteq> 0 then sigcap c OR (SIG_HDLCRAW OR SIG_HDLCFCS OR SIG_HDLCNET OR SIG_DACS) else sigcap c)"

definition assign_flag :: "bool \<Rightarrow> dahdi_flag \<Rightarrow> 'a dahdi_chan_scheme \<Rightarrow> 'a dahdi_chan_scheme" where
  "assign_flag b f c = (if b then set_flag f c else clear_flag f c)"

definition has_sig :: "u32 \<Rightarrow> u32 \<Rightarrow> bool" where
  "has_sig t s \<longleftrightarrow> t AND s = s"

definition cc_unlink :: "int \<Rightarrow> int \<Rightarrow> 'a chan_audio_scheme world \<Rightarrow> 'a chan_audio_scheme world" where
  "cc_unlink n old w = (if old = n then w
     else recalc_slaves old (w_update n (\<lambda>c. c\<lparr>master := n, nextslave := None\<rparr>) w))"

definition cc_signalling :: "u32 \<Rightarrow> int \<Rightarrow> 'a dahdi_chan_scheme \<Rightarrow> 'a dahdi_chan_scheme" where
  "cc_signalling t idle c =
     (let c = c\<lparr>sig := t, idlebits := (if t = SIG_CAS then idle else 0)\<rparr>;
          c = assign_flag (has_sig t SIG_CLEAR) FLAG_CLEAR (assign_flag (\<not> has_sig t SIG_CLEAR) FLAG_AUDIO c)
      in assign_flag (has_sig t SIG_HDLCFCS) FLAG_FCS (assign_flag (has_sig t SIG_HDLCRAW) FLAG_HDLC c))"

text \<open>\<open>None\<close> when the signalling asks for a cross connect and there is no channel to connect with.\<close>

definition cc_cross :: "u32 \<Rightarrow> int \<Rightarrow> 'a chan_conf_scheme option \<Rightarrow> 'a chan_conf_scheme \<Rightarrow> (int \<times> 'a chan_conf_scheme) option" where
  "cc_cross t idle src c =
     (if has_sig t SIGMASK_DACS then
        map_option (\<lambda>d. case dahdi_chan_dacs (c\<lparr>confmode := CONF_DIGITALMON, confna := idle, dacs_chan := Some (channo d)\<rparr>) (Some d) of (c, res) \<Rightarrow> (res, c)) src
      else Some (0, dahdi_disable_dacs c))"

definition cc_modes :: "u32 \<Rightarrow> 'a dahdi_chan_scheme \<Rightarrow> 'a dahdi_chan_scheme" where
  "cc_modes t c =
     (let c = (if has_sig t SIG_HARDHDLC then set_flag FLAG_NOSTDTXRX (clear_flag FLAG_HDLC (clear_flag FLAG_FCS c))
               else clear_flag FLAG_NOSTDTXRX c)
      in assign_flag (has_sig t SIG_MTP2) FLAG_MTP2 c)"

text \<open>The board's own part; \<open>None\<close> for a channel that has no span.\<close>

definition cc_board :: "u32 \<Rightarrow> int \<Rightarrow> 'a dahdi_chan_scheme \<Rightarrow> (int \<times> 'a dahdi_chan_scheme) option" where
  "cc_board t res c =
     (if res \<noteq> 0 then Some (res, c)
      else map_option (\<lambda>s. case op_chanconfig (span_operations s) of
          None \<Rightarrow> (0, c) | Some f \<Rightarrow> (f t, drv_log (Drv_chanconfig t) c)) (chan_span c))"

definition cc_finish :: "'a chan_buf_scheme \<Rightarrow> 'a chan_buf_scheme" where
  "cc_finish c = (let c = snd (hangup c) in c\<lparr>rxsig := dahdi_q_sig c AND 0xff, rxhooksig := RXSIG_INITIAL\<rparr>)"

text \<open>The changes to the channel itself, with the result.\<close>

definition cc_channel :: "bool \<Rightarrow> u32 \<Rightarrow> int \<Rightarrow> int \<Rightarrow> 'a chan_audio_scheme \<Rightarrow> (int \<times> 'a chan_audio_scheme) option" where
  "cc_channel uout t law res c = map_option (\<lambda>(res, c).
     (if res \<noteq> 0 then (res, c)
      else if \<not> uout then (- EFAULT, c\<lparr>deflaw := law\<rparr>) else (0, cc_finish (c\<lparr>deflaw := law\<rparr>)))) (cc_board t res (cc_modes t c))"

definition cc_attach :: "int \<Rightarrow> int \<Rightarrow> 'a chan_audio_scheme world \<Rightarrow> 'a chan_audio_scheme world" where
  "cc_attach n m w =
     (let w = w_update n (master_update (\<lambda>_. m)) w in if m \<noteq> n then recalc_slaves m w else w)"

definition cc_put :: "int \<Rightarrow> 'a chan_conf_scheme \<Rightarrow> 'a chan_conf_scheme world \<Rightarrow> 'a chan_conf_scheme world" where
  "cc_put n c w = w_update n (\<lambda>_. c) w"

definition cc_apply :: "bool \<Rightarrow> chanconfig \<Rightarrow> u32 \<Rightarrow> int \<Rightarrow> int \<Rightarrow> 'a chan_audio_scheme option \<Rightarrow> 'a chan_audio_scheme world \<Rightarrow>
    (int \<times> 'a chan_audio_scheme world) option" where
  "cc_apply uout ch t n m src w =
     Option.bind (w_lookup w n) (\<lambda>c.
       let c = cc_signalling t (cc_idlebits ch) c in
       case cc_cross t (cc_idlebits ch) src c of
         None \<Rightarrow> Some (- EINVAL, cc_put n c w)
       | Some (res, c) \<Rightarrow>
          (let w = cc_attach n m (cc_put n c w) in
           Option.bind (w_lookup w n) (\<lambda>c. map_option (\<lambda>(res, c). (res, cc_put n c w)) (cc_channel uout t (cc_deflaw ch) res c))))"

text \<open>The result, what is copied back to the user, and the new state; \<open>None\<close> stands for an access through a null pointer.\<close>

definition ioctl_chanconfig :: "bool \<Rightarrow> chanconfig option \<Rightarrow> 'a chan_audio_scheme world \<Rightarrow>
    (int \<times> chanconfig option \<times> 'a chan_audio_scheme world) option" where
  "ioctl_chanconfig uout arg w = (case arg of
     None \<Rightarrow> Some (- EFAULT, None, w)
   | Some ch \<Rightarrow>
      (case w_lookup w (cc_chan ch) of
         None \<Rightarrow> Some (- EINVAL, None, w)
       | Some c \<Rightarrow>
          (case cc_target ch c w of
             None \<Rightarrow> Some (- EINVAL, None, w)
           | Some (t, m, src) \<Rightarrow>
              (if t = SIG_HDLCNET then Some (- ENOSYS, None, w)
               else
                 (let w = cc_unlink (channo c) (master c) w in
                  if \<not> has_sig (cc_sigcap c) t then Some (- EINVAL, None, w)
                  else map_option (\<lambda>(res, w). (res, if res = 0 then Some (ch\<lparr>cc_sigtype := t\<rparr>) else None, w))
                         (cc_apply uout ch t (channo c) (channo m) src w))))))"

end
