(* ===== verification/ChanconfigInv.thy ===== *)
theory ChanconfigInv
  imports Chanconfig
begin

text \<open>
  Bundles of channels: what the links that \<open>recalc_slaves\<close> makes have to be, and that a request
  to configure a channel leaves them so if it joins a channel without slaves to one that is its own master.
\<close>

section \<open>Chains\<close>

fun relink :: "int \<Rightarrow> int list \<Rightarrow> (int \<Rightarrow> int option) \<Rightarrow> int \<Rightarrow> int option" where
  "relink m [] N = N(m := None)"
| "relink m (j # js) N = relink j js (N(m := Some j))"

fun chained :: "(int \<Rightarrow> int option) \<Rightarrow> int \<Rightarrow> int list \<Rightarrow> bool" where
  "chained N m [] = (N m = None)"
| "chained N m (j # js) = (N m = Some j \<and> chained N j js)"

lemma relink_other: "k \<notin> set (m # js) \<Longrightarrow> relink m js N k = N k"
  by (induction js arbitrary: m N) simp_all

lemma chained_cong: "(\<And>k. k \<in> set (m # js) \<Longrightarrow> N k = N' k) \<Longrightarrow> chained N m js = chained N' m js"
  by (induction js arbitrary: m) simp_all

lemma relink_chained: "distinct (m # js) \<Longrightarrow> chained (relink m js N) m js"
proof (induction js arbitrary: m N)
  case Nil
  then show ?case by simp
next
  case (Cons j js)
  then have "relink j js (N(m := Some j)) m = Some j" by (simp add: relink_other)
  with Cons show ?case by simp
qed

lemma chained_slave_chain: "chained N m js \<Longrightarrow> length js < n \<Longrightarrow> slave_chain n N m = Some (m # js)"
proof (induction js arbitrary: m n)
  case Nil
  then show ?case by (cases n) simp_all
next
  case (Cons j js)
  then show ?case by (cases n) simp_all
qed

text \<open>
  \<open>L m\<close> are the channels after \<open>m\<close> in its span, \<open>M\<close> gives the masters and \<open>N\<close> the links. Every master is
  its own master, and links exactly the channels after it that have it as their master, in order.
\<close>

definition members :: "(int \<Rightarrow> int list) \<Rightarrow> (int \<Rightarrow> int option) \<Rightarrow> int \<Rightarrow> int list" where
  "members L M m = filter (\<lambda>k. M k = Some m) (L m)"

definition linked :: "(int \<Rightarrow> int list) \<Rightarrow> (int \<Rightarrow> int option) \<Rightarrow> (int \<Rightarrow> int option) \<Rightarrow> bool" where
  "linked L M N \<longleftrightarrow> (\<forall>m. M m = Some m \<longrightarrow> chained N m (members L M m)) \<and> (\<forall>k m. M k = Some m \<longrightarrow> M m = Some m)"

definition later_list :: "(int \<Rightarrow> int list) \<Rightarrow> bool" where
  "later_list L \<longleftrightarrow> (\<forall>m. distinct (m # L m))"

lemma linkedD:
  assumes "linked L M N"
  shows "M m = Some m \<Longrightarrow> chained N m (members L M m)" and "M k = Some m \<Longrightarrow> M m = Some m"
  using assms by (auto simp: linked_def)

text \<open>Linking one master anew leaves the other chains alone.\<close>

lemma linked_relink:
  assumes L: "later_list L" and "M p = Some p" and flat: "\<And>k m. M k = Some m \<Longrightarrow> M m = Some m"
    and other: "\<And>m. M m = Some m \<Longrightarrow> m \<noteq> p \<Longrightarrow> chained N m (members L M m)"
  shows "linked L M (relink p (members L M p) N)"
proof -
  have "chained (relink p (members L M p) N) m (members L M m)" if m: "M m = Some m" for m
  proof (cases "m = p")
    case True
    have "distinct (p # members L M p)" using L by (auto simp: later_list_def members_def)
    with True relink_chained show ?thesis by blast
  next
    case False
    have "k \<notin> set (p # members L M p)" if "k \<in> set (m # members L M m)" for k
      using that False m assms(2) by (auto simp: members_def)
    then have "relink p (members L M p) N k = N k" if "k \<in> set (m # members L M m)" for k
      using that by (intro relink_other)
    from chained_cong [of m "members L M m", OF this] other [OF m False] show ?thesis by simp
  qed
  with flat show ?thesis by (auto simp: linked_def)
qed

lemma linked_unlink:
  assumes L: "later_list L" and ok: "linked L M N" and c: "M c = Some p" "p \<noteq> c"
  shows "linked L (M(c \<mapsto> c)) (relink p (members L (M(c \<mapsto> c)) p) (N(c := None)))"
    and "\<And>k. (M(c \<mapsto> c)) k = Some c \<Longrightarrow> k = c"
proof -
  have p: "M p = Some p" using linkedD(2) [OF ok c(1)] .
  have no: "M k \<noteq> Some c" for k using linkedD(2) [OF ok, of k c] c by auto
  show "linked L (M(c \<mapsto> c)) (relink p (members L (M(c \<mapsto> c)) p) (N(c := None)))"
  proof (rule linked_relink [OF L])
    show "(M(c \<mapsto> c)) p = Some p" using p c(2) by simp
    show "(M(c \<mapsto> c)) m = Some m" if "(M(c \<mapsto> c)) k = Some m" for k m
      using that linkedD(2) [OF ok, of k m] no [of k] by (auto split: if_splits)
    show "chained (N(c := None)) m (members L (M(c \<mapsto> c)) m)" if m: "(M(c \<mapsto> c)) m = Some m" "m \<noteq> p" for m
    proof (cases "m = c")
      case True
      have "c \<notin> set (L c)" using L by (auto simp: later_list_def)
      then have "members L (M(c \<mapsto> c)) c = []" using no by (auto simp: members_def filter_empty_conv)
      with True show ?thesis by simp
    next
      case False
      have e: "members L (M(c \<mapsto> c)) m = members L M m" using False m(2) c(1) by (auto simp: members_def intro!: filter_cong)
      have "chained N m (members L M m)" using linkedD(1) [OF ok] m(1) False by simp
      moreover have "c \<notin> set (m # members L M m)" using False c(1) m(2) by (auto simp: members_def)
      ultimately show ?thesis unfolding e using chained_cong [of m "members L M m" N "N(c := None)"] by fastforce
    qed
  qed
  show "k = c" if "(M(c \<mapsto> c)) k = Some c" for k using that no [of k] by (auto split: if_splits)
qed

lemma linked_attach:
  assumes L: "later_list L" and ok: "linked L M N" and n: "M n = Some n" and m: "M m = Some m" "m \<noteq> n"
    and own: "\<And>k. M k = Some n \<Longrightarrow> k = n"
  shows "linked L (M(n \<mapsto> m)) (relink m (members L (M(n \<mapsto> m)) m) N)"
proof (rule linked_relink [OF L])
  show "(M(n \<mapsto> m)) m = Some m" using m by simp
  show "(M(n \<mapsto> m)) j = Some j" if "(M(n \<mapsto> m)) k = Some j" for k j
    using that linkedD(2) [OF ok, of k j] own [of k] m by (auto split: if_splits)
  show "chained N j (members L (M(n \<mapsto> m)) j)" if j: "(M(n \<mapsto> m)) j = Some j" "j \<noteq> m" for j
  proof -
    have jn: "j \<noteq> n" using j m by (auto split: if_splits)
    then have "members L (M(n \<mapsto> m)) j = members L M j" using j(2) n by (auto simp: members_def intro!: filter_cong)
    with linkedD(1) [OF ok, of j] j jn show ?thesis by simp
  qed
qed

section \<open>The channels\<close>

definition find_chan :: "'a chan_audio_scheme world \<Rightarrow> int \<Rightarrow> 'a chan_audio_scheme option" where
  "find_chan w k = find (\<lambda>c. channo c = k) (w_chans w)"

definition master_of :: "'a chan_audio_scheme world \<Rightarrow> int \<Rightarrow> int option" where
  "master_of w k = map_option master (find_chan w k)"

definition next_of :: "'a chan_audio_scheme world \<Rightarrow> int \<Rightarrow> int option" where
  "next_of w k = Option.bind (find_chan w k) nextslave"

definition later_of :: "'a chan_audio_scheme world \<Rightarrow> int \<Rightarrow> int list" where
  "later_of w m = concat (map (\<lambda>s. tl (dropWhile (\<lambda>k. k \<noteq> m) (map channo (rs_chans s)))) (w_spans w))"

definition bundle_of :: "'a chan_audio_scheme world \<Rightarrow> int \<Rightarrow> int list" where
  "bundle_of w m = members (later_of w) (master_of w) m"

definition bundles_ok :: "'a chan_audio_scheme world \<Rightarrow> bool" where
  "bundles_ok w \<longleftrightarrow> linked (later_of w) (master_of w) (next_of w)"

text \<open>Each channel of a span knows its place there.\<close>

definition in_place :: "'a chan_audio_scheme world \<Rightarrow> bool" where
  "in_place w \<longleftrightarrow> (\<forall>r \<in> set (w_spans w). \<forall>i < length (rs_chans r). chanpos (rs_chans r ! i) = int i + 1 \<and>
     map_option spanno (chan_span (rs_chans r ! i)) = Some (spanno r)) \<and> (\<forall>c \<in> set (w_pseudos w). chan_span c = None)"

lemma find_at:
  assumes "\<And>c. channo c = n \<Longrightarrow> channo (f c) = n"
  shows "find (\<lambda>c. channo c = k) (map (at_chan n f) cs) = map_option (at_chan n f) (find (\<lambda>c. channo c = k) cs)"
  using assms by (induction cs) (auto simp: at_chan_def)

lemma find_chan_update:
  assumes "\<And>c. channo c = n \<Longrightarrow> channo (f c) = n"
  shows "find_chan (w_update n f w) k = map_option (if k = n then f else id) (find_chan w k)"
proof -
  have e: "find_chan (w_update n f w) k = map_option (at_chan n f) (find_chan w k)"
    unfolding find_chan_def w_chans_update by (rule find_at) (rule assms)
  show ?thesis
  proof (cases "find_chan w k")
    case None
    then show ?thesis unfolding e by simp
  next
    case (Some c)
    then have "channo c = k" by (auto simp: find_chan_def find_Some_iff)
    with Some show ?thesis unfolding e by (simp add: at_chan_def)
  qed
qed

lemma find_chan_of: "numbering w \<Longrightarrow> c \<in> set (w_chans w) \<Longrightarrow> find_chan w (channo c) = Some c"
proof -
  assume w: "numbering w" and c: "c \<in> set (w_chans w)"
  from c obtain d where d: "find (\<lambda>d. channo d = channo c) (w_chans w) = Some d" by (cases "find (\<lambda>d. channo d = channo c) (w_chans w)") (auto simp: find_None_iff)
  then have "d \<in> set (w_chans w)" "channo d = channo c" by (auto simp: find_Some_iff)
  with c numbering_distinct(1) [OF w] have "d = c" by (auto simp: distinct_map dest: inj_onD)
  with d show ?thesis by (simp add: find_chan_def)
qed

lemma find_chan_member: "find_chan w k = Some c \<Longrightarrow> c \<in> set (w_chans w) \<and> channo c = k"
  by (auto simp: find_chan_def find_Some_iff)

lemma find_chan_lookup: "numbering w \<Longrightarrow> find_chan w k = Some c \<Longrightarrow> w_lookup w k = Some c"
  using w_lookup_of find_chan_member by blast

lemma numbered_find_span: "numbered m b ss \<Longrightarrow> r \<in> set ss \<Longrightarrow> find_span ss (spanno r) = Some r"
proof (induction ss arbitrary: m b)
  case Nil
  then show ?case by simp
next
  case (Cons s ss)
  then have r: "numbered (spanno s + 1) (channo (hd (rs_chans s)) + int (length (rs_chans s))) ss" by simp
  show ?case using Cons.IH [OF r] numbered_lower [OF r, of r] Cons.prems(2) by auto
qed

text \<open>What the links hang on stays the same.\<close>

definition same_places :: "'a chan_audio_scheme world \<Rightarrow> 'a chan_audio_scheme world \<Rightarrow> bool" where
  "same_places w w' \<longleftrightarrow> numbers w' = numbers w \<and> (in_place w \<longrightarrow> in_place w')"

lemma same_places_refl: "same_places w w"
  by (simp add: same_places_def)

lemma same_places_trans: "same_places w x \<Longrightarrow> same_places x y \<Longrightarrow> same_places w y"
  by (simp add: same_places_def)

lemma later_of_numbers:
  assumes "numbers w' = numbers w"
  shows "later_of w' = later_of w"
proof -
  have "map snd (fst (numbers w')) = map snd (fst (numbers w))" using assms by simp
  then have "map (\<lambda>s. map channo (rs_chans s)) (w_spans w') = map (\<lambda>s. map channo (rs_chans s)) (w_spans w)"
    by (simp add: numbers_def comp_def)
  then have "concat (map (\<lambda>s. tl (dropWhile (\<lambda>k. k \<noteq> m) s)) (map (\<lambda>s. map channo (rs_chans s)) (w_spans w'))) =
      concat (map (\<lambda>s. tl (dropWhile (\<lambda>k. k \<noteq> m) s)) (map (\<lambda>s. map channo (rs_chans s)) (w_spans w)))" for m by (rule arg_cong)
  then show ?thesis by (intro ext) (simp add: later_of_def comp_def)
qed

lemma same_placesD:
  assumes "same_places w w'"
  shows "numbering w' = numbering w" and "in_place w \<Longrightarrow> in_place w'" and "later_of w' = later_of w"
  using assms numbering_numbers later_of_numbers [of w' w] by (auto simp: same_places_def)

lemma same_places_update:
  assumes "\<And>c. c \<in> set (w_chans w) \<Longrightarrow> channo c = n \<Longrightarrow> channo (f c) = n \<and> chanpos (f c) = chanpos c \<and> chan_span (f c) = chan_span c"
  shows "same_places w (w_update n f w)"
proof -
  have c: "chanpos (at_chan n f c) = chanpos c \<and> chan_span (at_chan n f c) = chan_span c" if "c \<in> set (w_chans w)" for c
    using assms that by (auto simp: at_chan_def)
  have s: "rs_chans r ! i \<in> set (w_chans w)" if "r \<in> set (w_spans w)" "i < length (rs_chans r)" for r i
    using that(1) nth_mem [OF that(2)] unfolding w_chans_def all_channels_def by fastforce
  have "set (w_pseudos w) \<subseteq> set (w_chans w)" by (simp add: w_chans_def all_channels_def)
  with c s have "in_place w \<Longrightarrow> in_place (w_update n f w)" by (fastforce simp: in_place_def w_update_def)
  moreover have "numbers (w_update n f w) = numbers w" using assms by (intro numbers_update) blast
  ultimately show ?thesis by (simp add: same_places_def)
qed

lemma link_update:
  shows "same_places w (w_update n (nextslave_update g) w)" and "master_of (w_update n (nextslave_update g) w) = master_of w"
    and "find_chan w n \<noteq> None \<Longrightarrow> next_of (w_update n (nextslave_update (\<lambda>_. x)) w) = (next_of w)(n := x)"
  by (rule same_places_update, simp)
    (auto simp: master_of_def next_of_def fun_eq_iff find_chan_update option.map_comp comp_def option.map_id split: option.split)

lemma link_loop_links:
  assumes "find_chan w p \<noteq> None" and "\<forall>c \<in> set cs. find_chan w (channo c) \<noteq> None"
  shows "same_places w (link_loop m p cs w) \<and> master_of (link_loop m p cs w) = master_of w \<and>
    next_of (link_loop m p cs w) = relink p (map channo (filter (\<lambda>c. master c = m) cs)) (next_of w)"
  using assms
proof (induction cs arbitrary: p w)
  case Nil
  then show ?case using link_update [where w = w and n = p] by simp
next
  case (Cons c cs)
  let ?w = "w_update p (nextslave_update (\<lambda>_. Some (channo c))) w"
  have f: "find_chan ?w k \<noteq> None \<longleftrightarrow> find_chan w k \<noteq> None" for k by (simp add: find_chan_update)
  have "next_of ?w = (next_of w)(p := Some (channo c))" using link_update(3) Cons.prems(1) by blast
  note u = this link_update(1,2) [where w = w and n = p and g = "\<lambda>_. Some (channo c)"]
  show ?case
  proof (cases "master c = m")
    case True
    have "find_chan ?w (channo c) \<noteq> None" "\<forall>c \<in> set cs. find_chan ?w (channo c) \<noteq> None" using Cons.prems unfolding f by simp_all
    from Cons.IH [OF this] have "same_places w (link_loop m (channo c) cs ?w) \<and> master_of (link_loop m (channo c) cs ?w) = master_of w \<and>
        next_of (link_loop m (channo c) cs ?w) = relink (channo c) (map channo (filter (\<lambda>c. master c = m) cs)) ((next_of w)(p := Some (channo c)))"
      using same_places_trans [OF u(2)] unfolding u(1) u(3) by blast
    with True show ?thesis by simp
  next
    case False
    with Cons.IH [OF Cons.prems(1)] Cons.prems(2) show ?thesis by simp
  qed
qed

lemma no_later: "m \<notin> channo ` set cs \<Longrightarrow> tl (dropWhile (\<lambda>k. k \<noteq> m) (map channo cs)) = []"
  by (induction cs) auto

lemma later_of_span:
  assumes "numbering w" and "r \<in> set (w_spans w)" and "i < length (rs_chans r)"
  shows "later_of w (channo (rs_chans r ! i)) = map channo (drop (Suc i) (rs_chans r))"
proof -
  let ?m = "channo (rs_chans r ! i)" and ?f = "\<lambda>s. tl (dropWhile (\<lambda>k. k \<noteq> channo (rs_chans r ! i)) (map channo (rs_chans s)))"
  have dist: "distinct (map channo (w_chans w))" using numbering_distinct(1) [OF assms(1)] .
  then have d: "distinct (concat (map (\<lambda>s. map channo (rs_chans s)) (w_spans w)))"
    by (simp add: w_chans_def all_channels_def map_concat comp_def)
  obtain xs ys where xy: "w_spans w = xs @ r # ys" using split_list [OF assms(2)] by auto
  have "distinct (map channo (rs_chans r))" using d unfolding xy by simp
  have split: "rs_chans r = take i (rs_chans r) @ rs_chans r ! i # drop (Suc i) (rs_chans r)" using id_take_nth_drop [OF assms(3)] .
  have "?m \<notin> channo ` set (take i (rs_chans r))"
  proof -
    have "distinct (map channo (take i (rs_chans r) @ rs_chans r ! i # drop (Suc i) (rs_chans r)))"
      using \<open>distinct (map channo (rs_chans r))\<close> split by metis
    then show ?thesis by auto
  qed
  then have "dropWhile (\<lambda>k. k \<noteq> ?m) (map channo (take i (rs_chans r)) @ ?m # map channo (drop (Suc i) (rs_chans r))) =
      ?m # map channo (drop (Suc i) (rs_chans r))" by (subst dropWhile_append2) (auto simp: image_iff)
  moreover have "map channo (rs_chans r) = map channo (take i (rs_chans r)) @ ?m # map channo (drop (Suc i) (rs_chans r))"
    using arg_cong [OF split, of "map channo"] by simp
  ultimately have "?f r = map channo (drop (Suc i) (rs_chans r))" by simp
  have "?m \<in> channo ` set (rs_chans r)" using assms(3) by simp
  moreover have "channo ` set (rs_chans r) \<inter> (\<Union>s \<in> set ys. channo ` set (rs_chans s)) = {}"
    "channo ` set (rs_chans r) \<inter> (\<Union>s \<in> set xs. channo ` set (rs_chans s)) = {}"
    using d unfolding xy by (simp_all add: Int_Un_distrib Int_commute)
  ultimately have "?m \<notin> channo ` set (rs_chans s)" if "s \<in> set xs \<or> s \<in> set ys" for s
    using that by blast
  then have "?f s = []" if "s \<in> set xs \<or> s \<in> set ys" for s using that by (intro no_later)
  then have "concat (map ?f xs) = []" "concat (map ?f ys) = []" by auto
  then have "concat (map ?f (xs @ r # ys)) = ?f r"
    by (simp only: map_append list.map concat_append concat.simps append_Nil append_Nil2)
  with \<open>?f r = map channo (drop (Suc i) (rs_chans r))\<close> show ?thesis unfolding later_of_def xy by simp
qed

lemma in_placeD:
  assumes "in_place w" and "numbering w" and "c \<in> set (w_chans w)"
  shows "(chan_span c = None \<and> c \<in> set (w_pseudos w)) \<or>
    (\<exists>s r i. chan_span c = Some s \<and> r \<in> set (w_spans w) \<and> find_span (w_spans w) (spanno s) = Some r \<and>
      i < length (rs_chans r) \<and> rs_chans r ! i = c \<and> chanpos c = int i + 1)"
proof (cases "c \<in> set (w_pseudos w)")
  case True
  with assms(1) show ?thesis by (simp add: in_place_def)
next
  case False
  with assms(3) obtain r where r: "r \<in> set (w_spans w)" "c \<in> set (rs_chans r)" by (auto simp: w_chans_def all_channels_def)
  from r(2) obtain i where i: "i < length (rs_chans r)" "rs_chans r ! i = c" by (auto simp: in_set_conv_nth)
  have "chanpos c = int i + 1" "map_option spanno (chan_span c) = Some (spanno r)" using assms(1) r(1) i by (auto simp: in_place_def)
  moreover have "find_span (w_spans w) (spanno r) = Some r" using assms(2) r(1) numbered_find_span by (auto simp: numbering_def)
  ultimately show ?thesis using r(1) i by auto
qed

lemma later_of_pseudo:
  assumes "numbering w" and "c \<in> set (w_pseudos w)"
  shows "later_of w (channo c) = []"
proof -
  have "distinct (map channo (w_chans w))" using numbering_distinct(1) [OF assms(1)] .
  then have "channo c \<notin> channo ` set (rs_chans s)" if "s \<in> set (w_spans w)" for s
    using that assms(2) by (force simp: w_chans_def all_channels_def)
  then have "tl (dropWhile (\<lambda>k. k \<noteq> channo c) (map channo (rs_chans s))) = []" if "s \<in> set (w_spans w)" for s
    using that by (intro no_later)
  then show ?thesis by (simp add: later_of_def)
qed

lemma later_of_list:
  assumes "numbering w"
  shows "later_list (later_of w)"
proof -
  have "distinct (m # later_of w m)" for m
  proof (cases "\<exists>r i. r \<in> set (w_spans w) \<and> i < length (rs_chans r) \<and> channo (rs_chans r ! i) = m")
    case True
    then obtain r i where r: "r \<in> set (w_spans w)" "i < length (rs_chans r)" "channo (rs_chans r ! i) = m" by auto
    have "distinct (map channo (rs_chans r))"
      using numbering_distinct(1) [OF assms] split_list [OF r(1)] by (auto simp: w_chans_def all_channels_def)
    then have "distinct (map channo (take i (rs_chans r) @ rs_chans r ! i # drop (Suc i) (rs_chans r)))"
      using id_take_nth_drop [OF r(2)] by metis
    with later_of_span [OF assms r(1,2)] r(3) show ?thesis by auto
  next
    case False
    have "m \<notin> channo ` set (rs_chans s)" if s: "s \<in> set (w_spans w)" for s
    proof
      assume "m \<in> channo ` set (rs_chans s)"
      then obtain d where "d \<in> set (rs_chans s)" "channo d = m" by auto
      then obtain i where "i < length (rs_chans s)" "channo (rs_chans s ! i) = m" using in_set_conv_nth [THEN iffD1] by metis
      with s False show False by blast
    qed
    then have "tl (dropWhile (\<lambda>k. k \<noteq> m) (map channo (rs_chans s))) = []" if "s \<in> set (w_spans w)" for s
      using that by (intro no_later)
    then have "later_of w m = []" by (simp add: later_of_def)
    then show ?thesis by simp
  qed
  then show ?thesis by (simp add: later_list_def)
qed

text \<open>What \<open>recalc_slaves\<close> does to the links.\<close>

lemma recalc_links:
  assumes w: "numbering w" and p: "in_place w" and c: "find_chan w m = Some c"
  shows "same_places w (recalc_slaves m w) \<and> master_of (recalc_slaves m w) = master_of w \<and>
    (next_of (recalc_slaves m w) = relink m (bundle_of w m) (next_of w) \<or> recalc_slaves m w = w \<and> later_of w m = [])"
proof -
  have m: "c \<in> set (w_chans w)" "channo c = m" using find_chan_member [OF c] by simp_all
  note l = find_chan_lookup [OF w c]
  from in_placeD [OF p w m(1)] show ?thesis
  proof
    assume a: "chan_span c = None \<and> c \<in> set (w_pseudos w)"
    then have "later_of w m = []" using later_of_pseudo [OF w, of c] m(2) by simp
    with a show ?thesis by (simp add: recalc_slaves_def l same_places_refl)
  next
    assume "\<exists>s r i. chan_span c = Some s \<and> r \<in> set (w_spans w) \<and> find_span (w_spans w) (spanno s) = Some r \<and>
      i < length (rs_chans r) \<and> rs_chans r ! i = c \<and> chanpos c = int i + 1"
    then obtain s r i where r: "chan_span c = Some s" "r \<in> set (w_spans w)" "find_span (w_spans w) (spanno s) = Some r"
      "i < length (rs_chans r)" "rs_chans r ! i = c" "chanpos c = int i + 1" by auto
    let ?cs = "drop (Suc i) (rs_chans r)"
    have e: "recalc_slaves m w = link_loop m m ?cs w" using r by (simp add: recalc_slaves_def l nat_add_distrib)
    have cs: "d \<in> set (w_chans w)" if "d \<in> set ?cs" for d
      using in_set_dropD [OF that] r(2) by (auto simp: w_chans_def all_channels_def)
    have "map channo (filter (\<lambda>c. master c = m) ?cs) = bundle_of w m"
    proof -
      have "master_of w (channo d) = Some (master d)" if "d \<in> set ?cs" for d
        using find_chan_of [OF w cs [OF that]] by (simp add: master_of_def)
      then have "filter (\<lambda>c. master c = m) ?cs = filter (\<lambda>c. master_of w (channo c) = Some m) ?cs" by (intro filter_cong) simp_all
      then show ?thesis using later_of_span [OF w r(2,4)] m(2) r(5) by (simp add: bundle_of_def members_def filter_map comp_def)
    qed
    moreover have "\<forall>d \<in> set ?cs. find_chan w (channo d) \<noteq> None" using find_chan_of [OF w cs] by auto
    ultimately show ?thesis using link_loop_links [of w m ?cs m] c unfolding e by auto
  qed
qed

lemma recalc_bundles:
  assumes w: "numbering w" and p: "in_place w" and c: "find_chan w m = Some c"
    and ok: "linked (later_of w) (master_of w) (relink m (bundle_of w m) (next_of w))"
    and idle: "later_of w m = [] \<Longrightarrow> next_of w m = None"
  shows "bundles_ok (recalc_slaves m w) \<and> same_places w (recalc_slaves m w) \<and> master_of (recalc_slaves m w) = master_of w"
proof -
  note r = recalc_links [OF w p c]
  then have l: "later_of (recalc_slaves m w) = later_of w" using same_placesD(3) by blast
  have "relink m (bundle_of w m) (next_of w) = next_of w" if "later_of w m = []"
    using idle [OF that] that by (simp add: bundle_of_def members_def fun_upd_idem)
  with r ok l show ?thesis by (auto simp: bundles_ok_def)
qed

section \<open>The request\<close>

definition link_view :: "'a chan_audio_scheme \<Rightarrow> int \<times> int \<times> dahdi_span option \<times> int \<times> int option" where
  "link_view c = (channo c, chanpos c, chan_span c, master c, nextslave c)"

lemma sethook_link: "link_view (rbs_sethook h st t c) = link_view c" "link_view (snd (cas_setbits b c)) = link_view c"
  by (auto simp: rbs_sethook_def cas_setbits_def sethook_sf_def sethook_driver_def set_txtone_def link_view_def Let_def split: option.split)

lemma hangup_link: "link_view (snd (hangup c)) = link_view c"
proof -
  have l: "link_view (snd (hangup_line c)) = link_view c" for c :: "'a chan_audio_scheme"
    by (simp add: hangup_line_def sethook_link split: option.splits) (simp add: link_view_def)
  let ?c = "if sig c = SIG_FXSLS \<or> sig c = SIG_FXSKS \<or> sig c = SIG_FXSGS
      then c\<lparr>kewlonhook := False, ringdebtimer := RING_DEBOUNCE_TIME\<rparr> else c\<lparr>kewlonhook := False\<rparr>"
  obtain q d where h: "hangup_line ?c = (q, d)" by fastforce
  then have "link_view d = link_view c" using l [of ?c] by (auto simp: link_view_def split: if_splits)
  moreover have "snd (hangup c) = c \<or> snd (hangup c) = d \<or>
      snd (hangup c) = (clear_buffers d)\<lparr>dialing := False, afterdialingtimer := 0, curtone := None, pdialcount := 0, cadencepos := 0, txdialbuf := []\<rparr>"
    using h by (auto simp: hangup_def Let_def)
  moreover have "link_view ((clear_buffers d)\<lparr>dialing := False, afterdialingtimer := 0, curtone := None, pdialcount := 0, cadencepos := 0, txdialbuf := []\<rparr>) = link_view d"
    by (simp add: clear_buffers_def link_view_def Let_def)
  ultimately show ?thesis by metis
qed

lemma flags_link [simp]: "link_view (set_flag f c) = link_view c" "link_view (clear_flag f c) = link_view c" "link_view (assign_flag b f c) = link_view c"
  by (simp_all add: assign_flag_def set_flag_def clear_flag_def link_view_def)

lemma signalling_link: "link_view (cc_signalling t k c) = link_view c"
  by (simp add: cc_signalling_def Let_def) (simp add: link_view_def)

lemma modes_link: "link_view (cc_modes t c) = link_view c"
  by (simp add: cc_modes_def Let_def)

lemma cross_link: "cc_cross t k src c = Some (q, d) \<Longrightarrow> link_view d = link_view c"
  by (auto simp: cc_cross_def dahdi_disable_dacs_def dahdi_chan_dacs_def link_view_def split: if_splits option.splits prod.splits)

lemma channel_link:
  assumes "cc_channel uout t law res c = Some (q, d)"
  shows "link_view d = link_view c"
proof -
  have f: "link_view (cc_finish c) = link_view c" for c :: "'a chan_audio_scheme"
  proof -
    have "link_view (cc_finish c) = link_view (snd (hangup c))" by (simp add: cc_finish_def Let_def link_view_def)
    then show ?thesis by (simp add: hangup_link)
  qed
  have l: "link_view (c\<lparr>deflaw := law\<rparr>) = link_view c" for c :: "'a chan_audio_scheme" by (simp add: link_view_def)
  obtain e where e: "cc_board t res (cc_modes t c) = Some e" using assms by (auto simp: cc_channel_def)
  then have "link_view (snd e) = link_view (cc_modes t c)"
    by (auto simp: cc_board_def link_view_def split: if_splits option.splits)
  then show ?thesis using assms e by (cases e) (auto simp: cc_channel_def f l modes_link split: if_splits)
qed

text \<open>Changes of a channel that leave its links alone.\<close>

lemma put_links:
  assumes w: "numbering w" and d: "find_chan w n = Some d" and l: "link_view c = link_view d"
  shows "same_places w (cc_put n c w)" and "master_of (cc_put n c w) = master_of w" and "next_of (cc_put n c w) = next_of w"
    and "find_chan (cc_put n c w) n = Some c"
proof -
  have n: "channo c = n" and same: "master c = master d" "nextslave c = nextslave d" "chanpos c = chanpos d" "chan_span c = chan_span d"
    using l find_chan_member [OF d] by (auto simp: link_view_def)
  have only: "e = d" if "e \<in> set (w_chans w)" "channo e = n" for e
    using find_chan_of [OF w that(1)] that(2) d by simp
  show "same_places w (cc_put n c w)" unfolding cc_put_def by (rule same_places_update) (auto dest: only simp: n same)
  have f: "find_chan (cc_put n c w) k = map_option (if k = n then \<lambda>_. c else id) (find_chan w k)" for k
    unfolding cc_put_def by (rule find_chan_update) (rule n)
  show "master_of (cc_put n c w) = master_of w" "next_of (cc_put n c w) = next_of w" "find_chan (cc_put n c w) n = Some c"
    using d same by (auto simp: fun_eq_iff master_of_def next_of_def f option.map_id)
qed

lemma put_bundles:
  assumes "numbering w" and "find_chan w n = Some d" and "link_view c = link_view d" and "bundles_ok w"
  shows "bundles_ok (cc_put n c w)"
  using assms(4) put_links(2,3) [OF assms(1-3)] same_placesD(3) [OF put_links(1) [OF assms(1-3)]] by (simp add: bundles_ok_def)

lemma master_of_Some: "master_of w k = Some m \<Longrightarrow> \<exists>c. find_chan w k = Some c \<and> master c = m"
  by (auto simp: master_of_def)

lemma unlink_bundles:
  assumes w: "numbering w" and p: "in_place w" and ok: "bundles_ok w" and c: "find_chan w n = Some c"
  shows "bundles_ok (cc_unlink n (master c) w) \<and> same_places w (cc_unlink n (master c) w) \<and>
    master_of (cc_unlink n (master c) w) = (master_of w)(n \<mapsto> n) \<and>
    (master c \<noteq> n \<longrightarrow> (\<forall>k. master_of (cc_unlink n (master c) w) k = Some n \<longrightarrow> k = n))"
proof (cases "master c = n")
  case True
  then have "master_of w n = Some n" using c by (simp add: master_of_def)
  then have "(master_of w)(n \<mapsto> n) = master_of w" by (intro fun_upd_idem)
  with True ok show ?thesis by (simp add: cc_unlink_def same_places_refl)
next
  case False
  let ?x = "w_update n (\<lambda>c. c\<lparr>master := n, nextslave := None\<rparr>) w" and ?p = "master c"
  have s: "same_places w ?x" by (rule same_places_update) simp
  have w': "numbering ?x" "in_place ?x" "later_of ?x = later_of w" using same_placesD [OF s] w p by simp_all
  have f: "find_chan ?x k = map_option (if k = n then \<lambda>c. c\<lparr>master := n, nextslave := None\<rparr> else id) (find_chan w k)" for k
    by (rule find_chan_update) simp
  have mx: "master_of ?x = (master_of w)(n \<mapsto> n)" and nx: "next_of ?x = (next_of w)(n := None)"
    using c by (auto simp: fun_eq_iff master_of_def next_of_def f option.map_id)
  have m: "master_of w n = Some ?p" using c by (simp add: master_of_def)
  have mp: "master_of w ?p = Some ?p" using linkedD(2) ok m unfolding bundles_ok_def by blast
  then obtain d where d: "find_chan w ?p = Some d" using master_of_Some by blast
  note l = linked_unlink [OF later_of_list [OF w] ok [unfolded bundles_ok_def] m False]
  have idle: "next_of ?x ?p = None" if "later_of ?x ?p = []"
    using linkedD(1) [OF ok [unfolded bundles_ok_def] mp] that w'(3) by (simp add: members_def nx)
  have "bundles_ok (recalc_slaves ?p ?x) \<and> same_places ?x (recalc_slaves ?p ?x) \<and> master_of (recalc_slaves ?p ?x) = master_of ?x"
  proof (rule recalc_bundles [OF w'(1,2)])
    show "find_chan ?x ?p = Some d" using d False by (simp add: f)
    show "linked (later_of ?x) (master_of ?x) (relink ?p (bundle_of ?x ?p) (next_of ?x))"
      using l(1) by (simp add: bundle_of_def w'(3) mx nx)
  qed (rule idle)
  then have r: "bundles_ok (recalc_slaves ?p ?x)" "same_places w (recalc_slaves ?p ?x)" "master_of (recalc_slaves ?p ?x) = (master_of w)(n \<mapsto> n)"
    using same_places_trans [OF s] mx by simp_all
  have "cc_unlink n ?p w = recalc_slaves ?p ?x" using False by (simp add: cc_unlink_def)
  with r l(2) show ?thesis by presburger
qed

lemma attach_bundles:
  assumes w: "numbering w" and p: "in_place w" and ok: "bundles_ok w" and n: "master_of w n = Some n" and m: "master_of w m = Some m"
    and own: "m \<noteq> n \<Longrightarrow> \<forall>k. master_of w k = Some n \<longrightarrow> k = n"
  shows "bundles_ok (cc_attach n m w) \<and> same_places w (cc_attach n m w) \<and> master_of (cc_attach n m w) = (master_of w)(n \<mapsto> m)"
proof -
  let ?x = "w_update n (master_update (\<lambda>_. m)) w"
  obtain c where c: "find_chan w n = Some c" "master c = n" using master_of_Some [OF n] by blast
  have s: "same_places w ?x" by (rule same_places_update) simp
  have w': "numbering ?x" "in_place ?x" "later_of ?x = later_of w" using same_placesD [OF s] w p by simp_all
  have f: "find_chan ?x k = map_option (if k = n then master_update (\<lambda>_. m) else id) (find_chan w k)" for k
    by (rule find_chan_update) simp
  have mx: "master_of ?x = (master_of w)(n \<mapsto> m)" and nx: "next_of ?x = next_of w"
    using c by (auto simp: fun_eq_iff master_of_def next_of_def f option.map_id)
  show ?thesis
  proof (cases "m = n")
    case True
    with n have "(master_of w)(n \<mapsto> m) = master_of w" by (intro fun_upd_idem) simp
    with True s ok w'(3) mx nx show ?thesis by (simp add: cc_attach_def bundles_ok_def)
  next
    case False
    obtain d where d: "find_chan w m = Some d" using master_of_Some [OF m] by blast
    have "linked (later_of w) ((master_of w)(n \<mapsto> m)) (relink m (members (later_of w) ((master_of w)(n \<mapsto> m)) m) (next_of w))"
      using own [OF False] by (intro linked_attach [OF later_of_list [OF w] ok [unfolded bundles_ok_def] n m False]) blast
    then have l: "linked (later_of ?x) (master_of ?x) (relink m (bundle_of ?x m) (next_of ?x))" by (simp add: bundle_of_def w'(3) mx nx)
    have idle: "next_of ?x m = None" if "later_of ?x m = []"
      using linkedD(1) [OF ok [unfolded bundles_ok_def] m] that w'(3) by (simp add: members_def nx)
    have "find_chan ?x m = Some d" using d False by (simp add: f)
    from recalc_bundles [OF w'(1,2) this l idle] same_places_trans [OF s] False show ?thesis by (simp add: cc_attach_def mx)
  qed
qed

lemma apply_bundles:
  assumes w: "numbering w" and p: "in_place w" and ok: "bundles_ok w" and n: "master_of w n = Some n" and m: "master_of w m = Some m"
    and own: "m \<noteq> n \<Longrightarrow> \<forall>k. master_of w k = Some n \<longrightarrow> k = n" and a: "cc_apply uout ch t n m src w = Some (q, z)"
  shows "bundles_ok z \<and> same_places w z \<and> (q = 0 \<longrightarrow> master_of z = (master_of w)(n \<mapsto> m))"
proof -
  obtain c where c: "find_chan w n = Some c" using master_of_Some [OF n] by blast
  let ?c = "cc_signalling t (cc_idlebits ch) c"
  note lc = signalling_link [of t "cc_idlebits ch" c]
  show ?thesis
  proof (cases "cc_cross t (cc_idlebits ch) src ?c")
    case None
    then have "q = - EINVAL" "z = cc_put n ?c w" using a find_chan_lookup [OF w c] by (simp_all add: cc_apply_def Let_def)
    with put_bundles [OF w c lc ok] put_links(1) [OF w c lc] show ?thesis by simp
  next
    case (Some x)
    obtain res d where x: "x = (res, d)" by fastforce
    then have ld: "link_view d = link_view c" using cross_link Some lc by metis
    let ?x = "cc_put n d w"
    let ?y = "cc_attach n m ?x"
    note px = put_links [OF w c ld]
    have wx: "numbering ?x" "in_place ?x" using same_placesD(1,2) [OF px(1)] w p by simp_all
    have "bundles_ok ?y \<and> same_places ?x ?y \<and> master_of ?y = (master_of ?x)(n \<mapsto> m)"
      by (rule attach_bundles [OF wx put_bundles [OF w c ld ok]]) (use n m own in \<open>simp_all add: px(2)\<close>)
    then have y: "bundles_ok ?y" "same_places w ?y" "master_of ?y = (master_of w)(n \<mapsto> m)"
      using same_places_trans [OF px(1)] px(2) by simp_all
    have wy: "numbering ?y" using same_placesD(1) [OF y(2)] w by simp
    have "master_of ?y n = Some m" by (simp add: y(3))
    then obtain e where e: "find_chan ?y n = Some e" using master_of_Some by blast
    have "Option.bind (w_lookup ?y n) (\<lambda>c. map_option (\<lambda>(res, c). (res, cc_put n c ?y)) (cc_channel uout t (cc_deflaw ch) res c)) = Some (q, z)"
      using a Some x find_chan_lookup [OF w c] by (simp add: cc_apply_def Let_def)
    then obtain g where g: "cc_channel uout t (cc_deflaw ch) res e = Some (q, g)" "z = cc_put n g ?y"
      using find_chan_lookup [OF wy e] by auto
    note lg = channel_link [OF g(1)]
    from put_bundles [OF wy e lg y(1)] put_links(1,2) [OF wy e lg] same_places_trans [OF y(2)] y(3) show ?thesis unfolding g(2) by simp
  qed
qed

lemma three_ends:
  "(if b1 then Some (x1, o1, w1) else if b2 then Some (x2, o2, w2) else map_option (\<lambda>(res, w). (res, g res, w)) A) = Some (q, b, z) \<Longrightarrow>
     (b1 \<and> q = x1 \<and> z = w1) \<or> (q = x2 \<and> z = w2) \<or> A = Some (q, z)"
  by (auto split: if_splits)

text \<open>A new master has to be its own master, and a channel that has slaves cannot become one.\<close>

definition fit_to_join :: "int \<Rightarrow> int \<Rightarrow> 'a chan_audio_scheme world \<Rightarrow> bool" where
  "fit_to_join n m w \<longleftrightarrow> master_of w m = Some m \<and> (\<forall>k. master_of w k = Some n \<longrightarrow> k = n)"

text \<open>C40. Configuring a channel keeps every bundle linked, provided that a channel that is to join another has no slaves
  of its own and that the channel it joins is its own master. The code checks neither, and
  \<open>slave_of_slave_cuts_bundle\<close> shows what happens when the second is not so. For such a request, however it ends,
  each master's chain of \<open>nextslave\<close> pointers, the one that transmitting and receiving follow, is the list of the channels
  after it in its span that have it as their master, in the order of the span; and if the request succeeds, the channel has the
  master that was asked for.\<close>

theorem chanconfig_links_bundles:
  assumes "numbering w" and "in_place w" and "bundles_ok w" and "in_range (cc_chan ch)"
    and "cc_sigtype ch = SIG_SLAVE \<Longrightarrow> fit_to_join (cc_chan ch) (cc_master ch) w"
    and "ioctl_chanconfig uout (Some ch) w = Some (q, back', z)"
  shows "bundles_ok z \<and> in_place z \<and> numbers z = numbers w \<and>
    (\<forall>m. master_of z m = Some m \<longrightarrow> length (bundle_of z m) < MAX_SLAVES \<longrightarrow> slave_chain MAX_SLAVES (next_of z) m = Some (m # bundle_of z m)) \<and>
    (q = 0 \<longrightarrow> master_of z = (master_of w)(cc_chan ch \<mapsto> (if cc_sigtype ch = SIG_SLAVE then cc_master ch else cc_chan ch)))"
proof -
  let ?n = "cc_chan ch"
  have "bundles_ok z \<and> same_places w z \<and> (q = 0 \<longrightarrow> master_of z = (master_of w)(?n \<mapsto> (if cc_sigtype ch = SIG_SLAVE then cc_master ch else ?n)))"
  proof (cases "w_lookup w ?n")
    case None
    with assms(3,6) show ?thesis by (simp add: ioctl_chanconfig_def same_places_refl)
  next
    case (Some c)
    have c: "c \<in> set (w_chans w)" "channo c = ?n" using w_lookup_member [OF assms(1) _ _ Some] assms(4) by (simp_all add: in_range_def)
    have f: "find_chan w ?n = Some c" using find_chan_of [OF assms(1) c(1)] c(2) by simp
    show ?thesis
    proof (cases "cc_target ch c w")
      case None
      with Some assms(3,6) show ?thesis by (simp add: ioctl_chanconfig_def same_places_refl)
    next
      case (Some x)
      obtain t d src where x: "x = (t, d, src)" by (cases x)
      let ?x = "cc_unlink ?n (master c) w" and ?m = "if cc_sigtype ch = SIG_SLAVE then cc_master ch else ?n"
      have d: "channo d = ?m"
      proof (cases "cc_sigtype ch = SIG_SLAVE")
        case True
        then obtain e where e: "find_chan w (cc_master ch) = Some e" using assms(5) [OF True] master_of_Some unfolding fit_to_join_def by blast
        with Some True find_chan_lookup [OF assms(1) e] find_chan_member [OF e] show ?thesis by (auto simp: cc_target_def x)
      next
        case False
        with Some c(2) show ?thesis by (auto simp: cc_target_def x split: if_splits)
      qed
      note u = unlink_bundles [OF assms(1-3) f]
      have wx: "numbering ?x" "in_place ?x" using same_placesD(1,2) [of w ?x] u assms(1,2) by blast+
      have mx: "master_of ?x = (master_of w)(?n \<mapsto> ?n)" using u by blast
      have m: "master_of ?x ?m = Some ?m"
        using assms(5) by (cases "cc_sigtype ch = SIG_SLAVE") (simp_all add: mx fit_to_join_def)
      have own: "\<forall>k. master_of ?x k = Some ?n \<longrightarrow> k = ?n" if "?m \<noteq> ?n"
        using assms(5) that by (cases "cc_sigtype ch = SIG_SLAVE") (auto simp: mx fit_to_join_def)
      have n: "master_of ?x ?n = Some ?n" by (simp add: mx)
      consider "t = SIG_HDLCNET" "z = w" "q = - ENOSYS" | "z = ?x" "q = - EINVAL"
        | "cc_apply uout ch t ?n ?m src ?x = Some (q, z)"
      proof -
        have "(if t = SIG_HDLCNET then Some (- ENOSYS, None, w)
            else if \<not> has_sig (cc_sigcap c) t then Some (- EINVAL, None, ?x)
            else map_option (\<lambda>(res, w). (res, if res = 0 then Some (ch\<lparr>cc_sigtype := t\<rparr>) else None, w)) (cc_apply uout ch t ?n ?m src ?x))
            = Some (q, back', z)"
          using assms(6) \<open>w_lookup w ?n = Some c\<close> Some unfolding ioctl_chanconfig_def
          by (simp only: option.case prod.case x c(2) d Let_def)
        from three_ends [OF this] that show thesis by blast
      qed
      then show ?thesis
      proof cases
        case 1
        with assms(3) show ?thesis by (simp add: same_places_refl)
      next
        case 2
        with u show ?thesis by simp
      next
        case 3
        have "bundles_ok ?x" "same_places w ?x" using u by blast+
        from apply_bundles [OF wx this(1) n m own 3] same_places_trans [OF this(2)] show ?thesis by (simp add: mx)
      qed
    qed
  qed
  moreover from this have "slave_chain MAX_SLAVES (next_of z) m = Some (m # bundle_of z m)"
    if "master_of z m = Some m" "length (bundle_of z m) < MAX_SLAVES" for m
    using chained_slave_chain that linkedD(1) by (fastforce simp: bundles_ok_def bundle_of_def)
  ultimately show ?thesis using assms(2) by (auto simp: same_places_def)
qed

text \<open>When a request succeeds.\<close>

definition same_spans :: "'a chan_audio_scheme world \<Rightarrow> 'a chan_audio_scheme world \<Rightarrow> bool" where
  "same_spans w w' \<longleftrightarrow> numbers w' = numbers w \<and> (\<forall>k. map_option chan_span (find_chan w' k) = map_option chan_span (find_chan w k))"

lemma same_spans_trans: "same_spans w x \<Longrightarrow> same_spans x y \<Longrightarrow> same_spans w y"
  by (simp add: same_spans_def)

lemma same_spans_update:
  assumes "\<And>c. channo c = n \<Longrightarrow> channo (f c) = n" and "\<And>d. find_chan w n = Some d \<Longrightarrow> chan_span (f d) = chan_span d"
  shows "same_spans w (w_update n f w)"
proof -
  have "numbers (w_update n f w) = numbers w" using assms(1) by (intro numbers_update) simp
  moreover have "map_option chan_span (find_chan (w_update n f w) k) = map_option chan_span (find_chan w k)" for k
    using assms(2) by (cases "find_chan w k") (auto simp: find_chan_update [OF assms(1)])
  ultimately show ?thesis by (simp add: same_spans_def)
qed

lemma same_spans_loop: "same_spans w (link_loop m p cs w)"
proof (induction cs arbitrary: p w)
  case Nil
  then show ?case by (simp add: same_spans_update)
next
  case (Cons c cs)
  have "same_spans w (w_update p (nextslave_update (\<lambda>_. Some (channo c))) w)" by (rule same_spans_update) simp_all
  from same_spans_trans [OF this Cons.IH] Cons.IH show ?case by simp
qed

lemma same_spans_recalc: "same_spans w (recalc_slaves m w)"
proof -
  have "same_spans w w" by (simp add: same_spans_def)
  then show ?thesis by (simp add: recalc_slaves_def same_spans_loop split: option.split)
qed

lemma same_spans_attach: "same_spans w (cc_attach n m w)"
proof -
  have "same_spans w (w_update n (master_update (\<lambda>_. m)) w)" by (rule same_spans_update) simp_all
  with same_spans_recalc same_spans_trans show ?thesis by (fastforce simp: cc_attach_def Let_def)
qed

lemma same_spans_unlink: "same_spans w (cc_unlink n m w)"
proof -
  have "same_spans w (w_update n (\<lambda>c. c\<lparr>master := n, nextslave := None\<rparr>) w)" by (rule same_spans_update) simp_all
  moreover have "same_spans w w" by (simp add: same_spans_def)
  ultimately show ?thesis using same_spans_recalc same_spans_trans by (fastforce simp: cc_unlink_def)
qed

lemma same_spansD:
  assumes "same_spans w x" and "numbering w" and "find_chan w n = Some c"
  obtains d where "numbering x" "find_chan x n = Some d" "w_lookup x n = Some d" "chan_span d = chan_span c"
proof -
  have x: "numbering x" using assms(1,2) numbering_numbers by (auto simp: same_spans_def)
  have "map_option chan_span (find_chan x n) = Some (chan_span c)" using assms(1,3) by (simp add: same_spans_def)
  then obtain d where "find_chan x n = Some d" "chan_span d = chan_span c" by auto
  with that x find_chan_lookup [OF x] show thesis by blast
qed

lemma chanconfig_succeeds:
  assumes w: "numbering w" and c: "find_chan w (cc_chan ch) = Some c" and s: "chan_span c = Some s" "op_chanconfig (span_operations s) = None"
    and t: "cc_target ch c w = Some (t, m, None)" "t \<noteq> SIG_HDLCNET" "has_sig (cc_sigcap c) t" "\<not> has_sig t SIGMASK_DACS"
  shows "\<exists>z. ioctl_chanconfig True (Some ch) w = Some (0, Some (ch\<lparr>cc_sigtype := t\<rparr>), z)"
proof -
  let ?n = "cc_chan ch" and ?x = "cc_unlink (cc_chan ch) (master c) w"
  have n: "channo c = ?n" using find_chan_member [OF c] by simp
  obtain d where d: "numbering ?x" "find_chan ?x ?n = Some d" "w_lookup ?x ?n = Some d" "chan_span d = chan_span c"
    using same_spansD [OF same_spans_unlink w c] .
  let ?d = "dahdi_disable_dacs (cc_signalling t (cc_idlebits ch) d)"
  have cr: "cc_cross t (cc_idlebits ch) None (cc_signalling t (cc_idlebits ch) d) = Some (0, ?d)" using t(4) by (simp add: cc_cross_def)
  have ld: "link_view ?d = link_view d" using cross_link [OF cr] signalling_link by metis
  let ?y = "cc_attach ?n (channo m) (cc_put ?n ?d ?x)"
  note p = put_links [OF d(1,2) ld]
  have wp: "numbering (cc_put ?n ?d ?x)" using same_placesD(1) [OF p(1)] d(1) by simp
  obtain e where e: "numbering ?y" "find_chan ?y ?n = Some e" "w_lookup ?y ?n = Some e" "chan_span e = chan_span ?d"
    using same_spansD [OF same_spans_attach wp p(4)] .
  have "chan_span ?d = Some s" using ld d(4) s(1) by (simp add: link_view_def)
  then have "chan_span (cc_modes t e) = Some s" using e(4) modes_link [of t e] by (simp add: link_view_def)
  then have "cc_channel True t (cc_deflaw ch) 0 e = Some (0, cc_finish ((cc_modes t e)\<lparr>deflaw := cc_deflaw ch\<rparr>))"
    using s(2) by (simp add: cc_channel_def cc_board_def)
  then have "cc_apply True ch t ?n (channo m) None ?x = Some (0, cc_put ?n (cc_finish ((cc_modes t e)\<lparr>deflaw := cc_deflaw ch\<rparr>)) ?y)"
    by (simp add: cc_apply_def d(3) cr e(3) Let_def)
  with t(1-3) find_chan_lookup [OF w c] n show ?thesis by (simp add: ioctl_chanconfig_def Let_def)
qed

text \<open>One span; for each channel its master and its link.\<close>

definition bundle_demo_chan :: "int \<Rightarrow> int \<times> int option \<Rightarrow> chan_open" where
  "bundle_demo_chan n l = life_demo_chan\<lparr>channo := n, chanpos := n, sigcap := SIG_FXOKS, master := fst l, nextslave := snd l\<rparr>"

definition bundle_demo :: "(int \<times> int option) list \<Rightarrow> chan_open world" where
  "bundle_demo ls = \<lparr>w_spans = [dahdi_span.extend hook_span \<lparr>span_id = 1, rs_chans = map2 bundle_demo_chan [1..int (length ls)] ls,
       lastalarms = 0, linecompat = 0, cannot_provide_timing = False, maintstat = 0, mainttimer = 0\<rparr>],
     w_pseudos = [], w_tables = \<lparr>confalias = replicate 1025 0, confrev = replicate 1025 0, maxconfs = 0\<rparr>\<rparr>"

lemma bundle_demo_sel [simp]:
  "channo (bundle_demo_chan n l) = n" "chanpos (bundle_demo_chan n l) = n" "master (bundle_demo_chan n l) = fst l"
  "nextslave (bundle_demo_chan n l) = snd l" "chan_span (bundle_demo_chan n l) = Some hook_span" "sig (bundle_demo_chan n l) = SIG_FXOKS"
  "sigcap (bundle_demo_chan n l) = SIG_FXOKS"
  by (simp_all add: bundle_demo_chan_def life_demo_chan_sel)

definition join_demo :: "chan_open world" where
  "join_demo = bundle_demo [(1, Some 3), (2, None), (1, None)]"

lemma join_demo_eq: "join_demo = \<lparr>w_spans = [dahdi_span.extend hook_span \<lparr>span_id = 1,
       rs_chans = [bundle_demo_chan 1 (1, Some 3), bundle_demo_chan 2 (2, None), bundle_demo_chan 3 (1, None)],
       lastalarms = 0, linecompat = 0, cannot_provide_timing = False, maintstat = 0, mainttimer = 0\<rparr>],
     w_pseudos = [], w_tables = \<lparr>confalias = replicate 1025 0, confrev = replicate 1025 0, maxconfs = 0\<rparr>\<rparr>"
  by (simp add: join_demo_def bundle_demo_def upto.simps)

lemma join_demo_chans: "w_chans join_demo = [bundle_demo_chan 1 (1, Some 3), bundle_demo_chan 2 (2, None), bundle_demo_chan 3 (1, None)]"
  by (simp add: join_demo_eq w_chans_def all_channels_def dahdi_span.defs hook_span_def)

lemma join_demo_find: "find_chan join_demo k = (if k = 1 then Some (bundle_demo_chan 1 (1, Some 3)) else if k = 2 then Some (bundle_demo_chan 2 (2, None))
    else if k = 3 then Some (bundle_demo_chan 3 (1, None)) else None)"
  by (simp add: find_chan_def join_demo_chans)

lemma join_demo_later: "later_of join_demo m = (if m = 1 then [2, 3] else if m = 2 then [3] else [])"
  by (simp add: later_of_def join_demo_eq dahdi_span.defs hook_span_def)

lemma join_demo_ok: "numbering join_demo" "in_place join_demo" "bundles_ok join_demo"
proof -
  show "numbering join_demo"
    by (auto simp: numbering_def join_demo_eq dahdi_span.defs hook_span_def consecutive_def below_def pseudos_ok_def less_Suc_eq numeral_3_eq_3
        nth_Cons' intro!: exI [of _ 2])
  show "in_place join_demo"
    by (auto simp: in_place_def join_demo_eq dahdi_span.defs hook_span_def less_Suc_eq numeral_3_eq_3)
  show "bundles_ok join_demo"
    by (auto simp: bundles_ok_def linked_def master_of_def next_of_def members_def join_demo_find join_demo_later split: if_splits)
qed

theorem chanconfig_links_bundles_witness:
  "\<exists>back' z. ioctl_chanconfig True (Some \<lparr>cc_chan = 2, cc_sigtype = SIG_SLAVE, cc_deflaw = 0, cc_master = 1, cc_idlebits = 0\<rparr>) join_demo = Some (0, back', z) \<and>
     slave_chain MAX_SLAVES (next_of z) 1 = Some [1, 2, 3]"
proof -
  let ?ch = "\<lparr>cc_chan = 2, cc_sigtype = SIG_SLAVE, cc_deflaw = 0, cc_master = 1, cc_idlebits = 0\<rparr>"
  have c: "find_chan join_demo (cc_chan ?ch) = Some (bundle_demo_chan 2 (2, None))" "find_chan join_demo 1 = Some (bundle_demo_chan 1 (1, Some 3))"
    by (simp_all add: join_demo_find)
  obtain z where z: "ioctl_chanconfig True (Some ?ch) join_demo = Some (0, Some (?ch\<lparr>cc_sigtype := SIG_FXOKS\<rparr>), z)"
    using chanconfig_succeeds [OF join_demo_ok(1) c(1), of hook_span SIG_FXOKS "bundle_demo_chan 1 (1, Some 3)"]
      find_chan_lookup [OF join_demo_ok(1) c(2)] by (auto simp: cc_target_def cc_sigcap_def has_sig_def hook_span_def)
  have m: "master_of join_demo k = (if k = 1 \<or> k = 3 then Some 1 else if k = 2 then Some 2 else None)" for k
    by (simp add: master_of_def join_demo_find)
  have "bundles_ok z \<and> in_place z \<and> numbers z = numbers join_demo \<and>
      (\<forall>m. master_of z m = Some m \<longrightarrow> length (bundle_of z m) < MAX_SLAVES \<longrightarrow> slave_chain MAX_SLAVES (next_of z) m = Some (m # bundle_of z m)) \<and>
      (0 = (0 :: int) \<longrightarrow> master_of z = (master_of join_demo)(cc_chan ?ch \<mapsto> (if cc_sigtype ?ch = SIG_SLAVE then cc_master ?ch else cc_chan ?ch)))"
    by (rule chanconfig_links_bundles [OF join_demo_ok _ _ z]) (simp_all add: in_range_def fit_to_join_def m)
  then have r: "numbers z = numbers join_demo" "master_of z = (master_of join_demo)(2 \<mapsto> 1)"
    "\<And>m. master_of z m = Some m \<Longrightarrow> length (bundle_of z m) < MAX_SLAVES \<Longrightarrow> slave_chain MAX_SLAVES (next_of z) m = Some (m # bundle_of z m)"
    by simp_all
  from r(1) have "later_of z = later_of join_demo" by (rule later_of_numbers)
  then have "bundle_of z 1 = [2, 3]" by (simp add: bundle_of_def members_def join_demo_later r(2) m)
  with r(3) [of 1] r(2) z show ?thesis by (auto simp: m)
qed

text \<open>
  The code lets a channel join a slave. The slave's own link is then written anew, and the chain of its master
  runs into the wrong channel: here channel 3 falls out of the bundle of channel 1 and channel 4 gets its octets.
\<close>

definition chain_demo :: "chan_open world" where
  "chain_demo = bundle_demo [(1, Some 2), (1, Some 3), (1, None), (4, None)]"

lemma chain_demo_eq: "chain_demo = \<lparr>w_spans = [dahdi_span.extend hook_span \<lparr>span_id = 1,
       rs_chans = [bundle_demo_chan 1 (1, Some 2), bundle_demo_chan 2 (1, Some 3), bundle_demo_chan 3 (1, None), bundle_demo_chan 4 (4, None)],
       lastalarms = 0, linecompat = 0, cannot_provide_timing = False, maintstat = 0, mainttimer = 0\<rparr>],
     w_pseudos = [], w_tables = \<lparr>confalias = replicate 1025 0, confrev = replicate 1025 0, maxconfs = 0\<rparr>\<rparr>"
  by (simp add: chain_demo_def bundle_demo_def upto.simps)

lemma slave_of_slave_cuts_bundle:
  "slave_chain 5 (next_of chain_demo) 1 = Some [1, 2, 3]" "slave_chain 5 (next_of (cc_attach 4 2 chain_demo)) 1 = Some [1, 2, 4]"
proof -
  have f: "find_chan chain_demo k = (if k = 1 then Some (bundle_demo_chan 1 (1, Some 2)) else if k = 2 then Some (bundle_demo_chan 2 (1, Some 3))
      else if k = 3 then Some (bundle_demo_chan 3 (1, None)) else if k = 4 then Some (bundle_demo_chan 4 (4, None)) else None)" for k
    by (simp add: find_chan_def w_chans_def all_channels_def chain_demo_eq dahdi_span.defs hook_span_def)
  show "slave_chain 5 (next_of chain_demo) 1 = Some [1, 2, 3]" by (simp add: next_of_def f eval_nat_numeral)
  let ?x = "w_update 4 (master_update (\<lambda>_. 2)) chain_demo"
  have w: "numbering chain_demo"
    by (auto simp: numbering_def chain_demo_eq dahdi_span.defs hook_span_def consecutive_def below_def pseudos_ok_def less_Suc_eq eval_nat_numeral
        nth_Cons' intro!: exI [of _ 2])
  have p: "in_place chain_demo"
    by (auto simp: in_place_def chain_demo_eq dahdi_span.defs hook_span_def less_Suc_eq eval_nat_numeral)
  have s: "same_places chain_demo ?x" by (rule same_places_update) simp
  have fx: "find_chan ?x k = map_option (if k = 4 then master_update (\<lambda>_. 2) else id) (find_chan chain_demo k)" for k
    by (rule find_chan_update) simp
  have "later_of chain_demo 2 = [3, 4]" by (simp add: later_of_def chain_demo_eq dahdi_span.defs hook_span_def)
  then have "bundle_of ?x 2 = [4]" using same_placesD(3) [OF s] by (simp add: bundle_of_def members_def master_of_def fx f)
  then have "next_of (recalc_slaves 2 ?x) = relink 2 [4] (next_of ?x)"
    using recalc_links [of ?x 2 "bundle_demo_chan 2 (1, Some 3)"] same_placesD [OF s] w p \<open>later_of chain_demo 2 = [3, 4]\<close> by (auto simp: fx f)
  then show "slave_chain 5 (next_of (cc_attach 4 2 chain_demo)) 1 = Some [1, 2, 4]"
    by (simp add: cc_attach_def Let_def next_of_def fx f eval_nat_numeral fun_eq_iff)
qed

end
