(* ===== verification/Spec2Isabelle.thy ===== *)
theory Spec2Isabelle
  imports Link ChanconfigInv
begin

text \<open>
  \<^bold>\<open>The DAHDI telephony core.\<close>

  DAHDI connects telephony boards to user programs. A board driver registers a \<^emph>\<open>span\<close> of
  channels. Every millisecond the core takes a chunk of eight octets from each channel for the board and gives it the
  eight that the board received; on the way it plays tones, decodes signalling, mixes conferences,
  cancels echoes and frames HDLC data. Programs open channels as files, read and write blocks of octets, wait for
  events and make requests (ioctls). This development models that core, which is
  \<^verbatim>\<open>src/drivers/dahdi/dahdi-base.c\<close> with the headers \<^verbatim>\<open>include/dahdi/kernel.h\<close>, \<^verbatim>\<open>user.h\<close> and
  \<^verbatim>\<open>fasthdlc.h\<close> and \<^verbatim>\<open>arith.h\<close>, \<^verbatim>\<open>ecdis.h\<close> and \<^verbatim>\<open>biquad.h\<close> beside it. Line numbers are not repeated here; names
  are those of the source wherever HOL has not taken them.

  \<^bold>\<open>Conventions.\<close> A \<open>struct\<close> is a \<open>record\<close>. The fields of \<open>struct dahdi_chan\<close> are introduced where they are
  needed, by extending one record: \<open>dahdi_chan\<close> (Channel), \<open>chan_ev\<close> (Events), \<open>chan_conf\<close> (ConfQueue),
  \<open>chan_law\<close> (Law), \<open>chan_rbs\<close> (Rbs), \<open>chan_tone\<close> (Tones), \<open>chan_buf\<close> (Buffers), \<open>chan_echo\<close> (Echo),
  \<open>chan_audio\<close> (Audio) and \<open>chan_open\<close> (Lifecycle); an operation works on every later extension, so
  what it leaves alone is visible in its type. Octets and the words of the HDLC engine are words of their
  width, other integers are \<open>int\<close>, reduced (\<open>i32\<close>, \<open>u32_add\<close>, \<open>mod\<close>) where the code can leave the
  range. Bits of \<open>flags\<close> are members of a set. An error is its negative number, as in the
  code, and a result of \<open>None\<close> stands for what has no defined result: a read outside an array, a null
  pointer followed, or a loop that does not end within its fuel. Pointers to spans, zones and cancellers are numbers
  looked up in maps, so a dangling pointer is a number with nothing behind it. The driver's callbacks
  (\<open>span_ops\<close>), the echo cancellers (\<open>echocan_ops\<close>), the kernel's step of the HDLC check sequence (\<open>ppp_fcs\<close>),
  successful allocation and successful copying to and from the user are parameters.

  \<^bold>\<open>Theories, bottom up.\<close>

  \<^item> Dahdi_Prelude: integer types, error numbers, bit strings of words, ring indices and the fact collections that the other
    proofs pass to the simplifier. IndexRings: rings with the sentinels \<open>-1\<close>, and the locale
    \<open>bounded_fifo\<close>, the contract of a queue of bounded length. It is interpreted on the event queue (Events), on the conference
    queues (ConfQueue) and on the read buffers filled by a board's controller (Receive).
  \<^item> Channel: spans, channels, driver calls, cross connects, idle signalling bits. Events: \<open>__qevent\<close>, \<open>DAHDI_GETEVENT\<close>.
    Registry: numbers of spans and channels, lookup, pseudo channels, choice of the timing master, alarms.
  \<^item> ConfQueue: the chunk queues \<open>confin\<close> and \<open>confout\<close>. Conference: alias tables, \<open>DAHDI_SETCONF\<close> and \<open>DAHDI_GETCONF\<close>.
  \<^item> Law: the mu-law and A-law tables that \<open>dahdi_conv_init\<close> computes, arithmetic descriptions of the
    conversions, and the law of a channel.
  \<^item> Rbs: robbed-bit signalling, received (\<open>__dahdi_hooksig_pvt\<close>, \<open>dahdi_rbsbits\<close>, the timers of \<open>__dahdi_receive_chunk\<close>)
    and sent (\<open>dahdi_rbs_sethook\<close>). Tones: zones with their reference counts, loading, choice of tones, samples. Dial: dial strings,
    the hook state machine (\<open>__rbs_otimer_expire\<close>), \<open>__dahdi_getempty\<close>.
  \<^item> FastHdlc: the engine of \<^verbatim>\<open>fasthdlc.h\<close> with its three tables. HdlcStream: what it does to bit strings;
    the locale \<open>bit_fifo\<close> is the contract between a shift register and those who fill and drain it, interpreted on the
    transmit register.
  \<^item> Buffers: the rings of read and write buffers, \<open>dahdi_chan_read\<close>, \<open>dahdi_chan_write\<close>, \<open>__putbuf_chunk\<close>,
    \<open>__dahdi_getbuf_chunk\<close> and the functions for boards with an HDLC controller. Receive and Transmit: the invariants of both rings, the
    queues of octets they stand for, and the refinement of the index code to these. Link: two channels joined by a line.
  \<^item> Echo: factories, creation, training, modes and the detector of the disabling tone. Timers: \<^verbatim>\<open>/dev/dahdi/timer\<close>
    and the core timer. Audio: what happens to each chunk, \<open>__dahdi_transmit_chunk\<close>, \<open>__dahdi_receive_chunk\<close>, bundles of channels,
    \<open>_dahdi_transmit\<close>, \<open>_dahdi_receive\<close>, \<open>_process_masterspan\<close>. AudioMix: the sums of a conference.
  \<^item> Lifecycle: opening, hanging up, closing, removal, with the files and modules of \<open>dahdi_sys\<close>. Handles and HandleInv: what these
    do in terms of who holds which channel, and the invariant.
  \<^item> Requests: \<open>dahdi_chan_ioctl\<close>, \<open>dahdi_chanandpseudo_ioctl\<close>, \<open>dahdi_common_ioctl\<close>, \<open>dahdi_chan_poll\<close>. RequestProps: single
    requests. RequestInv: all of them. Chanconfig: \<open>dahdi_ioctl_chanconfig\<close> and \<open>recalc_slaves\<close>. ChanconfigInv: bundles stay linked.

  \<^bold>\<open>What is proved.\<close>

  \<^item> \<^emph>\<open>Data.\<close> Bit stuffing is undone by the receiver, whatever sizes the message is cut into, and the receive
    register is never overrun. Receiving and sending a chunk refine queues of octets and always
    end. Frames written at one end arrive at the other whole, in order and with a good check sequence. What a read returns
    on a channel that checks frames has a good check sequence, unless somebody flushes the read side. Boards that deliver whole
    frames, and channels without framing, lose and reorder nothing.
  \<^item> \<^emph>\<open>Voice.\<close> The error of companding is bounded; listeners of a conference hear the exact sum of the other members; training hands
    the received samples to the canceller in order; reference counts on echo canceller modules balance.
  \<^item> \<^emph>\<open>Signalling.\<close> Pulse dialling is followed chunk by chunk through the timer of the channel, to the event that reports its end;
    received pulses give the right digit; winks and flashes last as long as configured; the tone
    that \<open>start_tone\<close> starts is determined in every mode; the loop that plays tones ends; zones in use are never freed.
  \<^item> \<^emph>\<open>Bookkeeping.\<close> Numbering is unique and lookup agrees with it; the master and the alarms are determined; conference aliases
    stay inverse to each other; timers run exactly while they have a period, and at their rate (the count is a C \<open>int\<close> that
    wraps); the core timer keeps up with the clock; open channels and file handles
    match one to one; every request keeps buffers and event queues sound; polling agrees with blocking; gains and times are read back as set;
    the chain of slaves of a bundle is the list of its members, for requests that join a lone channel to a master.

  The state machines (timer requests, zone requests, echo cancellation, receiving and reading, opening and removing, all requests) are
  inductive step relations, and their invariants are proved by rule induction. Properties that hold only under a condition that the
  code does not check say so, with a lemma that shows what happens otherwise (for
  example \<open>flush_truncates_frame\<close>, \<open>slave_of_slave_cuts_bundle\<close>, \<open>wink_without_lead_time\<close>,
  \<open>zero_length_cycle_never_ends\<close>, \<open>monitor_pseudo_out_of_bounds\<close>).

  \<^bold>\<open>Bounds and fuel.\<close> \<open>getempty\<close>, \<open>rx_loop\<close> and \<open>tx_loop\<close> take fuel because the loops of the code need not
  end. It is enough if it exceeds, in this order, the octets wanted plus the digits and tones left to
  play (\<open>play_measure\<close>), the number of octets received, and the number of buffers waiting plus one; the properties about these
  loops state that they then return. \<open>env_fuel\<close> passes the fuel through the audio path. \<open>catch_up\<close> gets exactly the number of its turns.
  \<open>slave_chain\<close> follows at most \<open>MAX_SLAVES = 1024\<close> links, the number of channels the core allows, and
  gives \<open>None\<close> for a chain that goes on. All other loops are recursive on a list or end by a measure. Some hypotheses bound lengths (fewer than \<open>2^30\<close> pseudo
  channels, counts below 65536, times below \<open>2^28\<close> ms) where an \<open>int\<close> or a 16-bit parameter of the code would wrap.

  \<^bold>\<open>Build options.\<close> The model follows \<^verbatim>\<open>dahdi_config.h\<close> as it stands: the core timer and \<open>RINGBEGIN\<close> are on; network
  devices, PPP, the mirror, conference links, the watchdog, MMX, computed companding, \<open>EMFLASH\<close>, \<open>EMPULSE\<close>, \<open>FXSFLASH\<close>,
  \<open>OPTIMIZE_CHANMUTE\<close>, \<open>DAHDI_AUDIO_NOTIFY\<close> and the processing of transmitted samples by the canceller are off.

  \<^bold>\<open>Not modelled.\<close> Locks, wait queues and jiffies: an operation of the model is what the code does while it holds the lock of the channel, and a
  call that would block gives \<open>Sleep\<close>. sysfs, proc files, log messages and module loading. The requests that only print, and those that
  start, stop or maintain a span and end in a driver callback. The two returns of \<open>dahdi_alloc_pseudo\<close> before it changes anything (no
  timing source, no memory). \<open>sync_tick\<close> of a board. Outside the core: the board drivers and
  the Xorcom family, which are register, DMA and USB code behind \<open>span_ops\<close>; the voice bus and wcxb transports; the vendored
  OCT612x and Cronyx libraries; the adaptive filters of the echo cancellers, of which the core knows only the factory interface; dynamic spans over
  Ethernet; the transcoder device.
\<close>

end
